(* ===== verification/Prelude.thy ===== *)
theory Prelude
  imports Main "HOL-Library.Word"
begin

text \<open>
  What every component of the development shares: the result type in which each C function
  of the repository returns (a value, or the reason the C program has no defined behaviour
  from here on), bounds-checked C arrays, and the sorted association lists that the ordered
  components are specified by.
\<close>

named_theorems result_simps \<open>evaluation of the result type\<close>
named_theorems array_simps \<open>reads and writes of C arrays that are in bounds\<close>

section \<open>Results of C functions\<close>

text \<open>
  \<open>NullDeref\<close> and \<open>WildPtr\<close>: a pointer that is NULL, or that points to no
  object, is dereferenced; \<open>OutOfBounds\<close>: an array is indexed outside its bounds;
  \<open>Uninit\<close>: memory that was never written is used; \<open>IntOverflow\<close>: signed arithmetic
  leaves the range of its type; \<open>AssertFail\<close>: an
  \<open>assert\<close> fails; \<open>ExitFailure\<close>: the code calls \<open>exit(1)\<close>;
  \<open>NoReturn\<close>: the fuel given to a loop ran out.
\<close>

datatype cerror =
  NullDeref | WildPtr | OutOfBounds | Uninit | IntOverflow | AssertFail | ExitFailure | NoReturn

type_synonym 'a result = "cerror + 'a"

type_synonym addr = nat

abbreviation (input) NULL :: addr where "NULL \<equiv> 0"

definition rbind :: "'a result \<Rightarrow> ('a \<Rightarrow> 'b result) \<Rightarrow> 'b result" where
  "rbind m f = (case m of Inl e \<Rightarrow> Inl e | Inr x \<Rightarrow> f x)"

definition check :: "bool \<Rightarrow> cerror \<Rightarrow> unit result" where
  "check b e = (if b then Inr () else Inl e)"

lemma rbind_Inl [simp, result_simps]: "rbind (Inl e) f = Inl e"
  by (simp add: rbind_def)

lemma rbind_Inr [simp, result_simps]: "rbind (Inr x) f = f x"
  by (simp add: rbind_def)

lemma rbind_cong [fundef_cong]:
  assumes "m = m'" and "\<And>x. m' = Inr x \<Longrightarrow> f x = f' x"
  shows "rbind m f = rbind m' f'"
  using assms by (cases m') (simp_all)

lemma rbind_eq_Inr: "rbind m f = Inr y \<longleftrightarrow> (\<exists>x. m = Inr x \<and> f x = Inr y)"
  by (cases m) simp_all

lemma rbind_InrE:
  assumes "rbind m f = Inr y"
  obtains x where "m = Inr x" and "f x = Inr y"
  using assms by (cases m) simp_all

lemma rbind_assoc: "rbind (rbind m f) g = rbind m (\<lambda>x. rbind (f x) g)"
  by (cases m) simp_all

lemma rbind_if [result_simps]: "rbind (if b then m else m') f = (if b then rbind m f else rbind m' f)"
  by simp

lemma check_True [simp, result_simps]: "check True e = Inr ()"
  by (simp add: check_def)

lemma check_False [simp, result_simps]: "check False e = Inl e"
  by (simp add: check_def)

lemma check_eq_Inr [simp]: "check b e = Inr u \<longleftrightarrow> b"
  by (simp add: check_def)

section \<open>C arrays\<close>

text \<open>A C array is a list that knows its length; an index is a C integer.\<close>

definition aget :: "'a list \<Rightarrow> int \<Rightarrow> 'a result" where
  "aget xs i = (if 0 \<le> i \<and> i < int (length xs) then Inr (xs ! nat i) else Inl OutOfBounds)"

definition aset :: "'a list \<Rightarrow> int \<Rightarrow> 'a \<Rightarrow> 'a list result" where
  "aset xs i x = (if 0 \<le> i \<and> i < int (length xs) then Inr (xs[nat i := x]) else Inl OutOfBounds)"

lemma aget_int [simp, array_simps]: "i < length xs \<Longrightarrow> aget xs (int i) = Inr (xs ! i)"
  by (simp add: aget_def)

lemma aset_int [simp, array_simps]: "i < length xs \<Longrightarrow> aset xs (int i) x = Inr (xs[i := x])"
  by (simp add: aset_def)

lemma aget_eq_Inr: "aget xs i = Inr x \<longleftrightarrow> 0 \<le> i \<and> i < int (length xs) \<and> x = xs ! nat i"
  by (auto simp: aget_def)

lemma aset_eq_Inr: "aset xs i x = Inr ys \<longleftrightarrow> 0 \<le> i \<and> i < int (length xs) \<and> ys = xs[nat i := x]"
  by (auto simp: aset_def)

lemma aget_neg [simp]: "i < 0 \<Longrightarrow> aget xs i = Inl OutOfBounds"
  by (simp add: aget_def)

section \<open>Sorted association lists\<close>

text \<open>The content of an ordered table: key-value pairs with strictly increasing keys.\<close>

definition sorted_keys :: "('k::linorder \<times> 'v) list \<Rightarrow> bool" where
  "sorted_keys kvs \<longleftrightarrow> sorted_wrt (<) (map fst kvs)"

fun alist_put :: "'k::linorder \<Rightarrow> 'v \<Rightarrow> ('k \<times> 'v) list \<Rightarrow> ('k \<times> 'v) list" where
  "alist_put k v [] = [(k, v)]"
| "alist_put k v ((k', v') # kvs) =
     (if k < k' then (k, v) # (k', v') # kvs
      else if k = k' then (k, v) # kvs
      else (k', v') # alist_put k v kvs)"

lemma sorted_keys_simps [simp]:
  "sorted_keys []"
  "sorted_keys (kv # kvs) \<longleftrightarrow> (\<forall>x \<in> fst ` set kvs. fst kv < x) \<and> sorted_keys kvs"
  by (auto simp: sorted_keys_def)

lemma sorted_keys_append [simp]:
  "sorted_keys (xs @ ys) \<longleftrightarrow>
     sorted_keys xs \<and> sorted_keys ys \<and> (\<forall>x \<in> fst ` set xs. \<forall>y \<in> fst ` set ys. x < y)"
  by (auto simp: sorted_keys_def sorted_wrt_append)

lemma sorted_keys_distinct: "sorted_keys kvs \<Longrightarrow> distinct (map fst kvs)"
  by (induction kvs) auto

lemma map_of_alist_put: "map_of (alist_put k v kvs) = (map_of kvs)(k \<mapsto> v)"
  by (induction kvs) (auto simp: fun_eq_iff)

lemma fst_set_alist_put: "fst ` set (alist_put k v kvs) = insert k (fst ` set kvs)"
  by (induction k v kvs rule: alist_put.induct) (simp_all add: insert_commute)

lemma sorted_keys_alist_put: "sorted_keys kvs \<Longrightarrow> sorted_keys (alist_put k v kvs)"
proof (induction kvs)
  case Nil
  then show ?case by simp
next
  case (Cons kv kvs)
  then show ?case
    by (cases kv) (auto simp: fst_set_alist_put)
qed

lemma length_alist_put:
  "sorted_keys kvs \<Longrightarrow>
   length (alist_put k v kvs) = (if k \<in> fst ` set kvs then length kvs else Suc (length kvs))"
  by (induction k v kvs rule: alist_put.induct) auto

lemma sorted_keys_concat:
  assumes "\<And>i. i < length xss \<Longrightarrow> sorted_keys (xss ! i)"
    and "\<And>i j x y. i < j \<Longrightarrow> j < length xss \<Longrightarrow> x \<in> fst ` set (xss ! i) \<Longrightarrow>
       y \<in> fst ` set (xss ! j) \<Longrightarrow> x < y"
  shows "sorted_keys (concat xss)"
  using assms
proof (induction xss)
  case Nil
  then show ?case by simp
next
  case (Cons xs xss)
  have "sorted_keys (concat xss)"
  proof (rule Cons.IH)
    show "\<And>i. i < length xss \<Longrightarrow> sorted_keys (xss ! i)"
      using Cons.prems(1)[of "Suc i" for i] by simp
    show "\<And>i j x y. i < j \<Longrightarrow> j < length xss \<Longrightarrow> x \<in> fst ` set (xss ! i) \<Longrightarrow>
       y \<in> fst ` set (xss ! j) \<Longrightarrow> x < y"
      using Cons.prems(2)[of "Suc i" "Suc j" for i j] by simp
  qed
  moreover have "x < y" if x: "x \<in> fst ` set xs" and y: "y \<in> fst ` set (concat xss)" for x y
  proof -
    obtain j where "j < length xss" "y \<in> fst ` set (xss ! j)"
      using y by (auto simp: in_set_conv_nth) (metis fst_conv imageI nth_mem)
    then show ?thesis using Cons.prems(2)[of 0 "Suc j" x y] x by simp
  qed
  ultimately show ?case
    using Cons.prems(1)[of 0] by auto
qed

text \<open>An update in the middle of a concatenation only touches the part that may hold the key.\<close>

lemma alist_put_append_right:
  "\<forall>x \<in> fst ` set xs. x < k \<Longrightarrow> alist_put k v (xs @ ys) = xs @ alist_put k v ys"
  by (induction xs) auto

lemma alist_put_append_left:
  "\<forall>y \<in> fst ` set ys. k < y \<Longrightarrow> alist_put k v (xs @ ys) = alist_put k v xs @ ys"
proof (induction xs)
  case Nil
  then show ?case by (cases ys) auto
next
  case (Cons x xs)
  then show ?case by (cases x) auto
qed

end
