(* ===== verification/Relation_Mem.thy ===== *)
theory Relation_Mem
  imports Prelude
begin

text \<open>
  The B+-tree of \<open>src/src/btrees and tries (Adewale)/relation_mem.c\<close>, function by
  function. A \<open>Relation\<close> with the memory its nodes live in is the record \<open>rl\<close>: a
  node is a cell of \<open>nodes\<close> at a non-zero address, and a pointer is such an address
  (0 is NULL). \<open>malloc\<close> is a bump allocator that succeeds \<open>avail\<close> more times, so
  every statement that holds for all \<open>avail\<close> covers an allocation failing at any
  point. The union \<open>Child_or_Record\<close> is one pointer-sized word, \<open>eptr\<close>. A slot of
  the array \<open>entries\<close> is \<open>None\<close> until it is written, and reading it before is the
  error \<open>Uninit\<close>.
\<close>

section \<open>Types\<close>

type_synonym ckey = "64 word"

record entry =
  ekey :: ckey
  eptr :: addr

type_synonym slot = "entry option"

definition FANOUT :: int where [simp]: "FANOUT = 15"

definition MAX_TREE_DEPTH :: int where [simp]: "MAX_TREE_DEPTH = 20"

record btnode =
  isLeaf :: bool
  FirstLeaf :: bool
  LastLeaf :: bool
  numKeys :: int
  ptr0 :: addr
  entries :: "slot list"

record rl =
  nodes :: "addr \<rightharpoonup> btnode"
  fresh :: addr
  avail :: nat
  root :: addr
  numRecords :: nat
  depth :: int

record cursor =
  level :: int
  ancestorsIdx :: "int list"
  ancestors :: "addr list"

section \<open>Memory accesses\<close>

definition node_at :: "rl \<Rightarrow> addr \<Rightarrow> btnode result" where
  "node_at s a = (if a = NULL then Inl NullDeref
                  else case nodes s a of None \<Rightarrow> Inl WildPtr | Some n \<Rightarrow> Inr n)"

definition set_node :: "rl \<Rightarrow> addr \<Rightarrow> btnode \<Rightarrow> rl" where
  "set_node s a n = s\<lparr>nodes := (nodes s)(a \<mapsto> n)\<rparr>"

definition load_slot :: "slot list \<Rightarrow> int \<Rightarrow> entry result" where
  "load_slot es i = rbind (aget es i) (\<lambda>x. case x of None \<Rightarrow> Inl Uninit | Some e \<Rightarrow> Inr e)"

abbreviation entry_at :: "btnode \<Rightarrow> int \<Rightarrow> entry result" where
  "entry_at n i \<equiv> load_slot (entries n) i"

definition entryIndex :: "cursor \<Rightarrow> int result" where
  "entryIndex c = aget (ancestorsIdx c) (level c)"

definition currAddr :: "cursor \<Rightarrow> addr result" where
  "currAddr c = aget (ancestors c) (level c)"

definition currNode :: "rl \<Rightarrow> cursor \<Rightarrow> btnode result" where
  "currNode s c = rbind (currAddr c) (node_at s)"

definition isValid :: "rl \<Rightarrow> cursor \<Rightarrow> bool result" where
  "isValid s c =
     rbind (entryIndex c) (\<lambda>i. rbind (currNode s c) (\<lambda>n.
       if i = numKeys n \<and> LastLeaf n then Inr False else Inr True))"

definition isFirst :: "rl \<Rightarrow> cursor \<Rightarrow> bool result" where
  "isFirst s c =
     rbind (entryIndex c) (\<lambda>i. rbind (currNode s c) (\<lambda>n.
       if i = 0 \<and> FirstLeaf n then Inr True else Inr False))"

section \<open>Creating nodes\<close>

definition createNewNode :: "rl \<Rightarrow> bool \<Rightarrow> bool \<Rightarrow> bool \<Rightarrow> addr \<times> rl" where
  "createNewNode s lf fl ll =
     (if avail s = 0 then (NULL, s)
      else (fresh s,
            s\<lparr>nodes := (nodes s)(fresh s \<mapsto>
                 \<lparr>isLeaf = lf, FirstLeaf = fl, LastLeaf = ll, numKeys = 0, ptr0 = NULL,
                  entries = replicate (nat FANOUT) None\<rparr>),
              fresh := Suc (fresh s), avail := avail s - 1\<rparr>))"

text \<open>
  \<open>RL_NewRelation\<close> runs in a memory in which \<open>m\<close> more allocations succeed. When
  the second one fails the root node is freed again and NULL is returned.
\<close>

definition RL_NewRelation :: "nat \<Rightarrow> rl option" where
  "RL_NewRelation m =
     (let s0 = \<lparr>nodes = (\<lambda>_. None), fresh = 1, avail = m, root = NULL, numRecords = 0, depth = 0\<rparr>;
          (pRootNode, s1) = createNewNode s0 True True True
      in if pRootNode = NULL then None
         else if avail s1 = 0 then None
         else Some (s1\<lparr>avail := avail s1 - 1, root := pRootNode, numRecords := 0, depth := 0\<rparr>))"

section \<open>Searching inside a node\<close>

function findChildIndex_loop :: "btnode \<Rightarrow> ckey \<Rightarrow> int \<Rightarrow> int result" where
  "findChildIndex_loop n k i =
     (if i \<le> numKeys n - 2 then
        rbind (entry_at n i) (\<lambda>e. rbind (entry_at n (i + 1)) (\<lambda>e'.
          if ekey e \<le> k \<and> k < ekey e' then Inr i else findChildIndex_loop n k (i + 1)))
      else Inr (numKeys n - 1))"
  by pat_completeness auto
termination
  by (relation "measure (\<lambda>(n, k, i). nat (numKeys n - i))") auto

definition findChildIndex :: "btnode \<Rightarrow> ckey \<Rightarrow> int result" where
  "findChildIndex n k =
     rbind (check (0 < numKeys n) AssertFail) (\<lambda>_. rbind (entry_at n 0) (\<lambda>e.
       if k < ekey e then Inr (- 1) else findChildIndex_loop n k 0))"

function findRecordIndex_loop :: "btnode \<Rightarrow> ckey \<Rightarrow> int \<Rightarrow> int result" where
  "findRecordIndex_loop n k i =
     (if i \<le> numKeys n - 1 then
        rbind (entry_at n i) (\<lambda>e. if k \<le> ekey e then Inr i else findRecordIndex_loop n k (i + 1))
      else Inr (numKeys n))"
  by pat_completeness auto
termination
  by (relation "measure (\<lambda>(n, k, i). nat (numKeys n - i))") auto

definition findRecordIndex :: "btnode \<Rightarrow> ckey \<Rightarrow> int result" where
  "findRecordIndex n k =
     rbind (check (0 \<le> numKeys n) AssertFail) (\<lambda>_.
       if numKeys n = 0 then Inr 0 else findRecordIndex_loop n k 0)"

declare findChildIndex_loop.simps [simp del] findRecordIndex_loop.simps [simp del]

section \<open>Moving the cursor down\<close>

text \<open>
  The recursions of \<open>moveToKey\<close>, \<open>moveToFirst\<close> and \<open>moveToLast\<close> write
  \<open>ancestors[level]\<close> first, which is out of bounds from level \<open>MAX_TREE_DEPTH\<close> on:
  so they end on every heap, even a cyclic one.
\<close>

function moveToKey :: "rl \<Rightarrow> addr \<Rightarrow> ckey \<Rightarrow> cursor \<Rightarrow> int \<Rightarrow> cursor result" where
  "moveToKey s node k c lvl =
     (if lvl < 0 \<or> MAX_TREE_DEPTH \<le> lvl then Inl OutOfBounds
      else rbind (aset (ancestors c) lvl node) (\<lambda>anc.
        let c1 = c\<lparr>ancestors := anc\<rparr> in
        rbind (node_at s node) (\<lambda>n.
          if isLeaf n then
            rbind (findRecordIndex n k) (\<lambda>i. rbind (aset (ancestorsIdx c1) lvl i) (\<lambda>idx.
              Inr (c1\<lparr>level := lvl, ancestorsIdx := idx\<rparr>)))
          else
            rbind (findChildIndex n k) (\<lambda>i. rbind (aset (ancestorsIdx c1) lvl i) (\<lambda>idx.
              rbind (if i = - 1 then Inr (ptr0 n)
                     else rbind (entry_at n i) (\<lambda>e. Inr (eptr e))) (\<lambda>child.
                moveToKey s child k (c1\<lparr>ancestorsIdx := idx\<rparr>) (lvl + 1)))))))"
  by pat_completeness auto
termination
  by (relation "measure (\<lambda>(s, node, k, c, lvl). nat (MAX_TREE_DEPTH - lvl))") auto

function moveToFirst :: "rl \<Rightarrow> addr \<Rightarrow> cursor \<Rightarrow> int \<Rightarrow> cursor result" where
  "moveToFirst s node c lvl =
     (if node = NULL \<or> lvl < 0 then Inl AssertFail
      else if MAX_TREE_DEPTH \<le> lvl then Inl OutOfBounds
      else rbind (aset (ancestors c) lvl node) (\<lambda>anc.
        let c1 = c\<lparr>ancestors := anc, level := lvl\<rparr> in
        rbind (node_at s node) (\<lambda>n.
          if isLeaf n then
            rbind (aset (ancestorsIdx c1) lvl 0) (\<lambda>idx. Inr (c1\<lparr>ancestorsIdx := idx\<rparr>))
          else
            rbind (aset (ancestorsIdx c1) lvl (- 1)) (\<lambda>idx.
              moveToFirst s (ptr0 n) (c1\<lparr>ancestorsIdx := idx\<rparr>) (lvl + 1)))))"
  by pat_completeness auto
termination
  by (relation "measure (\<lambda>(s, node, c, lvl). nat (MAX_TREE_DEPTH - lvl))") auto

declare moveToKey.simps [simp del] moveToFirst.simps [simp del]

text \<open>As in the source, \<open>moveToLast\<close> continues with \<open>moveToFirst\<close> below an intern node.\<close>

definition moveToLast :: "rl \<Rightarrow> addr \<Rightarrow> cursor \<Rightarrow> int \<Rightarrow> cursor result" where
  "moveToLast s node c lvl =
     (if node = NULL \<or> lvl < 0 then Inl AssertFail
      else if MAX_TREE_DEPTH \<le> lvl then Inl OutOfBounds
      else rbind (aset (ancestors c) lvl node) (\<lambda>anc.
        let c1 = c\<lparr>ancestors := anc, level := lvl\<rparr> in
        rbind (node_at s node) (\<lambda>n.
          if isLeaf n then
            rbind (aset (ancestorsIdx c1) lvl (numKeys n)) (\<lambda>idx. Inr (c1\<lparr>ancestorsIdx := idx\<rparr>))
          else
            rbind (aset (ancestorsIdx c1) lvl (numKeys n - 1)) (\<lambda>idx.
              rbind (entry_at n (numKeys n - 1)) (\<lambda>e.
                moveToFirst s (eptr e) (c1\<lparr>ancestorsIdx := idx\<rparr>) (lvl + 1))))))"

section \<open>Cursors\<close>

function clear_above :: "cursor \<Rightarrow> int \<Rightarrow> cursor result" where
  "clear_above c i =
     (if i < MAX_TREE_DEPTH then
        rbind (aset (ancestorsIdx c) i 0) (\<lambda>idx. rbind (aset (ancestors c) i NULL) (\<lambda>anc.
          clear_above (c\<lparr>ancestorsIdx := idx, ancestors := anc\<rparr>) (i + 1)))
      else Inr c)"
  by pat_completeness auto
termination
  by (relation "measure (\<lambda>(c, i). nat (MAX_TREE_DEPTH - i))") auto

declare clear_above.simps [simp del]

text \<open>
  A new cursor's memory is uninitialised; whatever it holds (\<open>c0\<close>) is overwritten, level by
  level, by \<open>moveToFirst\<close> and the loop after it.
\<close>

definition RL_NewCursor :: "cursor \<Rightarrow> rl \<Rightarrow> (cursor option \<times> rl) result" where
  "RL_NewCursor c0 s =
     (if avail s = 0 then Inr (None, s)
      else
        let s1 = s\<lparr>avail := avail s - 1\<rparr> in
        rbind (moveToFirst s1 (root s1) (c0\<lparr>level := - 1\<rparr>) 0) (\<lambda>c1.
          rbind (clear_above c1 (level c1 + 1)) (\<lambda>c2. Inr (Some c2, s1))))"

definition RL_CursorIsValid :: "rl \<Rightarrow> cursor \<Rightarrow> bool result" where
  "RL_CursorIsValid s c = isValid s c"

definition isNodeParent :: "btnode \<Rightarrow> ckey \<Rightarrow> bool result" where
  "isNodeParent n k =
     rbind (findChildIndex n k) (\<lambda>idx.
       if idx = - 1 \<or> idx = numKeys n - 1 then Inr False else Inr True)"

function AscendToParent :: "rl \<Rightarrow> cursor \<Rightarrow> ckey \<Rightarrow> cursor result" where
  "AscendToParent s c k =
     (if level c = 0 then Inr c
      else if level c < 0 then Inl OutOfBounds
      else rbind (currNode s c) (\<lambda>n.
        if isLeaf n then
          rbind (entry_at n 0) (\<lambda>lo. rbind (entry_at n (numKeys n - 1)) (\<lambda>hi.
            if (ekey lo \<le> k \<and> k \<le> ekey hi) \<or> (ekey lo \<le> k \<and> LastLeaf n)
               \<or> (k \<le> ekey hi \<and> FirstLeaf n)
            then Inr c
            else AscendToParent s (c\<lparr>level := level c - 1\<rparr>) k))
        else
          rbind (isNodeParent n k) (\<lambda>b.
            if b then Inr c else AscendToParent s (c\<lparr>level := level c - 1\<rparr>) k)))"
  by pat_completeness auto
termination
  by (relation "measure (\<lambda>(s, c, k). nat (level c))") auto

declare AscendToParent.simps [simp del]

definition goToKey :: "rl \<Rightarrow> cursor \<Rightarrow> ckey \<Rightarrow> cursor result" where
  "goToKey s c k =
     rbind (AscendToParent s c k) (\<lambda>c1. rbind (currAddr c1) (\<lambda>a. moveToKey s a k c1 (level c1)))"

section \<open>Stepping\<close>

definition lastpointer :: "bool \<Rightarrow> int \<Rightarrow> int" where
  "lastpointer lf n = (if lf then n else n - 1)"

definition firstpointer :: "bool \<Rightarrow> int" where
  "firstpointer lf = (if lf then 0 else - 1)"

function ascend_last :: "rl \<Rightarrow> cursor \<Rightarrow> cursor result" where
  "ascend_last s c =
     (if 0 < level c then
        rbind (entryIndex c) (\<lambda>i. rbind (currNode s c) (\<lambda>n.
          if i = lastpointer (isLeaf n) (numKeys n)
          then ascend_last s (c\<lparr>level := level c - 1\<rparr>) else Inr c))
      else Inr c)"
  by pat_completeness auto
termination
  by (relation "measure (\<lambda>(s, c). nat (level c))") auto

function ascend_first :: "rl \<Rightarrow> cursor \<Rightarrow> cursor result" where
  "ascend_first s c =
     (if 0 < level c then
        rbind (entryIndex c) (\<lambda>i. rbind (currNode s c) (\<lambda>n.
          if i = firstpointer (isLeaf n)
          then ascend_first s (c\<lparr>level := level c - 1\<rparr>) else Inr c))
      else Inr c)"
  by pat_completeness auto
termination
  by (relation "measure (\<lambda>(s, c). nat (level c))") auto

declare ascend_last.simps [simp del] ascend_first.simps [simp del]

definition moveToNext :: "rl \<Rightarrow> cursor \<Rightarrow> cursor result" where
  "moveToNext s c =
     (if numRecords s = 0 then Inr c
      else rbind (isValid s c) (\<lambda>v.
        if \<not> v then Inr c
        else rbind (ascend_last s c) (\<lambda>c1. rbind (entryIndex c1) (\<lambda>i.
          rbind (aset (ancestorsIdx c1) (level c1) (i + 1)) (\<lambda>idx.
            let c2 = c1\<lparr>ancestorsIdx := idx\<rparr> in
            rbind (currNode s c2) (\<lambda>n.
              if isLeaf n then Inr c2
              else rbind (entryIndex c2) (\<lambda>i2. rbind (entry_at n i2) (\<lambda>e.
                moveToFirst s (eptr e) c2 (level c2 + 1)))))))))"

definition moveToPrev :: "rl \<Rightarrow> cursor \<Rightarrow> cursor result" where
  "moveToPrev s c =
     (if numRecords s = 0 then Inr c
      else rbind (isFirst s c) (\<lambda>f.
        if f then Inr c
        else rbind (ascend_first s c) (\<lambda>c1. rbind (entryIndex c1) (\<lambda>i.
          rbind (aset (ancestorsIdx c1) (level c1) (i - 1)) (\<lambda>idx.
            let c2 = c1\<lparr>ancestorsIdx := idx\<rparr> in
            rbind (currNode s c2) (\<lambda>n.
              if isLeaf n then Inr c2
              else rbind (entryIndex c2) (\<lambda>i2. rbind (entry_at n i2) (\<lambda>e.
                moveToLast s (eptr e) c2 (level c2 + 1)))))))))"

definition RL_MoveToNext :: "rl \<Rightarrow> cursor \<Rightarrow> cursor result" where
  "RL_MoveToNext s c =
     rbind (entryIndex c) (\<lambda>i. rbind (currNode s c) (\<lambda>n.
       rbind (if i = numKeys n then moveToNext s c else Inr c) (\<lambda>c1. moveToNext s c1)))"

definition RL_MoveToPrevious :: "rl \<Rightarrow> cursor \<Rightarrow> cursor result" where
  "RL_MoveToPrevious s c =
     rbind (entryIndex c) (\<lambda>i.
       rbind (if i = 0 then moveToPrev s c else Inr c) (\<lambda>c1. moveToPrev s c1))"

definition RL_MoveToNextValid :: "rl \<Rightarrow> cursor \<Rightarrow> (bool \<times> cursor) result" where
  "RL_MoveToNextValid s c =
     rbind (RL_MoveToNext s c) (\<lambda>c1. rbind (RL_CursorIsValid s c1) (\<lambda>b. Inr (b, c1)))"

definition RL_MoveToPreviousNotFirst :: "rl \<Rightarrow> cursor \<Rightarrow> (bool \<times> cursor) result" where
  "RL_MoveToPreviousNotFirst s c =
     rbind (RL_MoveToPrevious s c) (\<lambda>c1. rbind (isFirst s c1) (\<lambda>f. Inr (\<not> f, c1)))"

definition RL_MoveToFirst :: "rl \<Rightarrow> cursor \<Rightarrow> (bool \<times> cursor) result" where
  "RL_MoveToFirst s c =
     rbind (moveToFirst s (root s) (c\<lparr>level := - 1\<rparr>) 0) (\<lambda>c1.
       rbind (isValid s c1) (\<lambda>b. Inr (b, c1)))"

text \<open>
  Reading through a cursor that stands after the last entry of a leaf moves it to the first
  entry of the next leaf, so these two return the cursor as well.
\<close>

definition RL_GetEntry :: "rl \<Rightarrow> cursor \<Rightarrow> (entry \<times> cursor) result" where
  "RL_GetEntry s c =
     rbind (isValid s c) (\<lambda>v. rbind (check v AssertFail) (\<lambda>_.
       rbind (entryIndex c) (\<lambda>i. rbind (currNode s c) (\<lambda>n.
         rbind (if i = numKeys n then moveToNext s c else Inr c) (\<lambda>c1.
           rbind (currNode s c1) (\<lambda>n1. rbind (entryIndex c1) (\<lambda>i1.
             rbind (entry_at n1 i1) (\<lambda>e. Inr (e, c1)))))))))"

definition RL_GetRecord :: "rl \<Rightarrow> cursor \<Rightarrow> (addr \<times> cursor) result" where
  "RL_GetRecord s c = rbind (RL_GetEntry s c) (\<lambda>(e, c1). Inr (eptr e, c1))"

definition RL_GetKey :: "rl \<Rightarrow> cursor \<Rightarrow> (ckey \<times> cursor) result" where
  "RL_GetKey s c = rbind (RL_GetEntry s c) (\<lambda>(e, c1). Inr (ekey e, c1))"

definition RL_MoveToKey :: "rl \<Rightarrow> cursor \<Rightarrow> ckey \<Rightarrow> (bool \<times> cursor) result" where
  "RL_MoveToKey s c k =
     rbind (goToKey s c k) (\<lambda>c1. rbind (isValid s c1) (\<lambda>v.
       if \<not> v then Inr (False, c1)
       else rbind (RL_GetKey s c1) (\<lambda>(k', c2). if k' = k then Inr (True, c2) else Inr (False, c2))))"

definition RL_IsEmpty :: "rl \<Rightarrow> cursor \<Rightarrow> bool result" where
  "RL_IsEmpty s c = rbind (node_at s (root s)) (\<lambda>n. if numKeys n = 0 then Inr True else Inr False)"

definition RL_NumRecords :: "rl \<Rightarrow> cursor \<Rightarrow> nat" where
  "RL_NumRecords s c = numRecords s"

end
