(* ===== verification/Relation_Put.thy ===== *)
theory Relation_Put
  imports Relation_Mem
begin

text \<open>
  Insertion into the B+-tree of \<open>relation_mem.c\<close> (\<open>splitnode\<close>, \<open>putEntry\<close>,
  \<open>RL_PutRecord\<close>), the deletion of a whole relation, and the functions that the source
  leaves as stubs.
\<close>

section \<open>Splitting a full node\<close>

text \<open>
  The loop that builds \<open>allEntries\<close>: the \<open>FANOUT\<close> entries of the node with the new
  one at \<open>tgt\<close>.
\<close>

function build_all :: "slot list \<Rightarrow> slot \<Rightarrow> int \<Rightarrow> int \<Rightarrow> int \<Rightarrow> bool \<Rightarrow> slot list \<Rightarrow> slot list result" where
  "build_all es x tgt i j inserted allEntries =
     (if i < FANOUT + 1 then
        if \<not> inserted \<and> j = tgt then
          rbind (aset allEntries i x) (\<lambda>ae. build_all es x tgt (i + 1) j True ae)
        else
          rbind (aget es j) (\<lambda>y. rbind (aset allEntries i y) (\<lambda>ae.
            build_all es x tgt (i + 1) (j + 1) inserted ae))
      else Inr allEntries)"
  by pat_completeness auto
termination
  by (relation "measure (\<lambda>(es, x, tgt, i, j, inserted, ae). nat (FANOUT + 1 - i))") auto

text \<open>\<open>for (; i < hi; i++) dst[i - off] = src[i]\<close>\<close>

function copy_range :: "slot list \<Rightarrow> slot list \<Rightarrow> int \<Rightarrow> int \<Rightarrow> int \<Rightarrow> slot list result" where
  "copy_range src dst off i hi =
     (if i < hi then
        rbind (aget src i) (\<lambda>x. rbind (aset dst (i - off) x) (\<lambda>d. copy_range src d off (i + 1) hi))
      else Inr dst)"
  by pat_completeness auto
termination
  by (relation "measure (\<lambda>(src, dst, off, i, hi). nat (hi - i))") auto

text \<open>\<open>for (; i > tgt; i--) es[i] = es[i - 1]\<close>\<close>

function shift_right :: "slot list \<Rightarrow> int \<Rightarrow> int \<Rightarrow> slot list result" where
  "shift_right es tgt i =
     (if tgt < i then
        rbind (aget es (i - 1)) (\<lambda>x. rbind (aset es i x) (\<lambda>es'. shift_right es' tgt (i - 1)))
      else Inr es)"
  by pat_completeness auto
termination
  by (relation "measure (\<lambda>(es, tgt, i). nat (i - tgt))") auto

declare build_all.simps [simp del] copy_range.simps [simp del] shift_right.simps [simp del]

definition splitnode :: "rl \<Rightarrow> addr \<Rightarrow> entry \<Rightarrow> bool \<Rightarrow> (rl \<times> entry) result" where
  "splitnode s node e lf =
     (let middle = (FANOUT + 1) div 2 in
      rbind (node_at s node) (\<lambda>n.
      rbind (findRecordIndex n (ekey e)) (\<lambda>tgtIdx.
      rbind (build_all (entries n) (Some e) tgtIdx 0 0 False (replicate (nat (FANOUT + 1)) None)) (\<lambda>allEntries.
      rbind (if tgtIdx < middle then copy_range allEntries (entries n) 0 tgtIdx middle
             else Inr (entries n)) (\<lambda>es.
      let s1 = set_node s node (n\<lparr>entries := es, numKeys := middle\<rparr>);
          (newNode, s2) = createNewNode s1 lf False False in
      rbind (check (newNode \<noteq> NULL) AssertFail) (\<lambda>_.
      rbind (node_at s2 node) (\<lambda>n2.
      rbind (node_at s2 newNode) (\<lambda>m.
      let (s3, m1) = (if LastLeaf n2
                      then (set_node s2 node (n2\<lparr>LastLeaf := False\<rparr>), m\<lparr>LastLeaf := True\<rparr>)
                      else (s2, m));
          startIdx = (if lf then middle else middle + 1) in
      rbind (copy_range allEntries (entries m1) startIdx startIdx (FANOUT + 1)) (\<lambda>mes.
      let m2 = m1\<lparr>entries := mes, numKeys := FANOUT + 1 - startIdx\<rparr> in
      if lf then
        rbind (load_slot allEntries startIdx) (\<lambda>up.
          Inr (set_node s3 newNode m2, \<lparr>ekey = ekey up, eptr = newNode\<rparr>))
      else
        rbind (load_slot allEntries (startIdx - 1)) (\<lambda>up.
          Inr (set_node s3 newNode (m2\<lparr>ptr0 := eptr up\<rparr>),
               \<lparr>ekey = ekey up, eptr = newNode\<rparr>)))))))))))"

section \<open>Inserting at the cursor\<close>

text \<open>
  \<open>level\<close> and \<open>cursor->level\<close> go down together; below level -1 the source would index
  \<open>ancestors\<close> out of bounds, which the first test states.
\<close>

definition insert_slot :: "rl \<Rightarrow> addr \<Rightarrow> btnode \<Rightarrow> int \<Rightarrow> entry \<Rightarrow> rl result" where
  "insert_slot s a n tgtIdx e =
     rbind (shift_right (entries n) tgtIdx (numKeys n)) (\<lambda>es1. rbind (aset es1 tgtIdx (Some e)) (\<lambda>es2.
       let s1 = set_node s a (n\<lparr>entries := es2, numKeys := numKeys n + 1\<rparr>) in
       Inr (s1\<lparr>numRecords := Suc (numRecords s1)\<rparr>)))"

function putEntry :: "rl \<Rightarrow> cursor \<Rightarrow> int \<Rightarrow> entry \<Rightarrow> ckey \<Rightarrow> (rl \<times> cursor) result" where
  "putEntry s c lvl e k =
     (if lvl < - 1 then Inl OutOfBounds
      else if lvl = - 1 then
        let (newRoot, s1) = createNewNode s False False False in
        rbind (check (newRoot \<noteq> NULL) AssertFail) (\<lambda>_.
        rbind (node_at s1 newRoot) (\<lambda>n.
        rbind (aset (entries n) 0 (Some e)) (\<lambda>es.
        let s2 = (set_node s1 newRoot (n\<lparr>ptr0 := root s1, numKeys := 1, entries := es\<rparr>))
                   \<lparr>root := newRoot, depth := depth s1 + 1, numRecords := Suc (numRecords s1)\<rparr> in
        rbind (aset (ancestors c) 0 newRoot) (\<lambda>anc.
        rbind (moveToKey s2 newRoot k (c\<lparr>ancestors := anc\<rparr>) 0) (\<lambda>c2. Inr (s2, c2))))))
      else
        rbind (currAddr c) (\<lambda>a. rbind (node_at s a) (\<lambda>n.
        if isLeaf n then
          rbind (entryIndex c) (\<lambda>i.
          rbind (if i < numKeys n then rbind (entry_at n i) (\<lambda>x. Inr (ekey x = ekey e)) else Inr False) (\<lambda>found.
          if found then
            rbind (entry_at n i) (\<lambda>x. rbind (aset (entries n) i (Some (x\<lparr>eptr := eptr e\<rparr>))) (\<lambda>es.
              Inr (set_node s a (n\<lparr>entries := es\<rparr>), c)))
          else if numKeys n < FANOUT then
            rbind (insert_slot s a n i e) (\<lambda>s1. Inr (s1, c))
          else
            rbind (splitnode s a e True) (\<lambda>(s1, e1).
              putEntry s1 (c\<lparr>level := level c - 1\<rparr>) (lvl - 1) e1 k)))
        else if numKeys n < FANOUT then
          rbind (aget (ancestorsIdx c) lvl) (\<lambda>i.
          rbind (insert_slot s a n (i + 1) e) (\<lambda>s1.
          rbind (moveToKey s1 a k c lvl) (\<lambda>c1. Inr (s1, c1))))
        else
          rbind (splitnode s a e False) (\<lambda>(s1, e1).
            putEntry s1 (c\<lparr>level := level c - 1\<rparr>) (lvl - 1) e1 k))))"
  by pat_completeness auto
termination
  by (relation "measure (\<lambda>(s, c, lvl, e, k). nat (lvl + 2))") auto

declare putEntry.simps [simp del]

definition RL_PutRecord :: "rl \<Rightarrow> cursor \<Rightarrow> ckey \<Rightarrow> addr \<Rightarrow> (rl \<times> cursor) result" where
  "RL_PutRecord s c k rec =
     (let newEntry = \<lparr>ekey = k, eptr = rec\<rparr> in
      rbind (goToKey s c k) (\<lambda>c1.
      rbind (putEntry s c1 (level c1) newEntry k) (\<lambda>(s2, c2).
      rbind (RL_MoveToNext s2 c2) (\<lambda>c3. Inr (s2, c3)))))"

section \<open>Deleting a relation\<close>

text \<open>
  \<open>handleDeleteBtree\<close> frees every node below \<open>node\<close>; the callback \<open>freeRecord\<close> is
  recorded as the list of records it is called on, in order, when it is not NULL. The
  recursion follows the heap, so it runs on fuel: the height of the tree is enough.
\<close>

definition free_node :: "rl \<Rightarrow> addr \<Rightarrow> rl" where
  "free_node s a = s\<lparr>nodes := (nodes s)(a := None)\<rparr>"

fun leaf_records :: "btnode \<Rightarrow> int \<Rightarrow> nat \<Rightarrow> addr list result" where
  "leaf_records n i 0 = Inr []"
| "leaf_records n i (Suc m) =
     rbind (entry_at n i) (\<lambda>e. rbind (leaf_records n (i + 1) m) (\<lambda>rs. Inr (eptr e # rs)))"

fun handleDeleteBtree :: "nat \<Rightarrow> rl \<Rightarrow> addr \<Rightarrow> bool \<Rightarrow> (rl \<times> addr list) result"
  and delete_children :: "nat \<Rightarrow> rl \<Rightarrow> addr list \<Rightarrow> bool \<Rightarrow> (rl \<times> addr list) result" where
  "handleDeleteBtree 0 s node fr = Inl NoReturn"
| "handleDeleteBtree (Suc fuel) s node fr =
     rbind (node_at s node) (\<lambda>n.
       if isLeaf n then
         if \<not> fr then Inr (s, [])
         else rbind (leaf_records n 0 (nat (numKeys n))) (\<lambda>rs. Inr (s, rs))
       else
         rbind (leaf_records n 0 (nat (numKeys n))) (\<lambda>children.
           delete_children fuel s (ptr0 n # children) fr))"
| "delete_children fuel s [] fr = Inr (s, [])"
| "delete_children fuel s (a # as) fr =
     rbind (handleDeleteBtree fuel s a fr) (\<lambda>(s1, rs1).
       rbind (delete_children fuel (free_node s1 a) as fr) (\<lambda>(s2, rs2). Inr (s2, rs1 @ rs2)))"

definition RL_DeleteRelation :: "nat \<Rightarrow> rl \<Rightarrow> bool \<Rightarrow> (rl \<times> addr list) result" where
  "RL_DeleteRelation fuel s fr = handleDeleteBtree fuel s (root s) fr"

section \<open>Functions whose body the source has commented out\<close>

definition deleteKeyRecord :: "rl \<Rightarrow> cursor \<Rightarrow> ckey \<Rightarrow> bool \<times> rl \<times> cursor" where
  "deleteKeyRecord s c k = (False, s, c)"

definition RL_DeleteRecord :: "rl \<Rightarrow> cursor \<Rightarrow> ckey \<Rightarrow> bool \<times> rl \<times> cursor" where
  "RL_DeleteRecord s c k = (False, s, c)"

definition ASSERT_NODE_INVARIANT :: "rl \<Rightarrow> addr \<Rightarrow> unit result" where
  "ASSERT_NODE_INVARIANT s node =
     rbind (if root s \<noteq> node
            then rbind (node_at s node) (\<lambda>n. check (FANOUT div 2 \<le> numKeys n) AssertFail)
            else Inr ()) (\<lambda>_.
       rbind (node_at s node) (\<lambda>n. check (numKeys n \<le> FANOUT) AssertFail))"

end
