(* ===== verification/Relation_Node.thy ===== *)
theory Relation_Node
  imports Relation_Put
begin

text \<open>
  One node of the B+-tree as an array: \<open>node_is\<close> says which entries a heap cell holds, and
  every loop of \<open>relation_mem.c\<close> over a node (the two searches, the shift of an insertion,
  the copies of a split) is shown to compute a list function of those entries.
\<close>

type_synonym kvs = "(ckey \<times> addr) list"

definition slot_of :: "ckey \<times> addr \<Rightarrow> slot" where
  "slot_of kv = Some \<lparr>ekey = fst kv, eptr = snd kv\<rparr>"

definition node_is :: "btnode \<Rightarrow> bool \<Rightarrow> bool \<Rightarrow> bool \<Rightarrow> addr \<Rightarrow> kvs \<Rightarrow> bool" where
  "node_is n lf f l p es \<longleftrightarrow>
     isLeaf n = lf \<and> FirstLeaf n = f \<and> LastLeaf n = l \<and> ptr0 n = p \<and>
     numKeys n = int (length es) \<and> length (entries n) = nat FANOUT \<and>
     take (length es) (entries n) = map slot_of es"

named_theorems node_simps \<open>what a node holds\<close>

lemma node_isD [node_simps]:
  assumes "node_is n lf f l p es"
  shows "isLeaf n = lf" "FirstLeaf n = f" "LastLeaf n = l" "ptr0 n = p"
    "numKeys n = int (length es)" "length (entries n) = 15"
  using assms by (simp_all add: node_is_def)

lemma node_is_length: "node_is n lf f l p es \<Longrightarrow> length es \<le> 15"
  using length_take[of "length es" "entries n"] by (auto simp: node_is_def)

lemma node_is_nth:
  assumes "node_is n lf f l p es" and "i < length es"
  shows "entries n ! i = slot_of (es ! i)"
proof -
  have "entries n ! i = take (length es) (entries n) ! i"
    using assms(2) by simp
  also have "\<dots> = slot_of (es ! i)"
    using assms by (simp add: node_is_def)
  finally show ?thesis .
qed

lemma entry_at_node_is [node_simps]:
  assumes "node_is n lf f l p es" and "i < length es"
  shows "entry_at n (int i) = Inr \<lparr>ekey = fst (es ! i), eptr = snd (es ! i)\<rparr>"
  using assms node_is_length[OF assms(1)]
  by (simp add: load_slot_def node_is_nth slot_of_def node_isD)

section \<open>The searches\<close>

definition rec_ix :: "'k::linorder list \<Rightarrow> 'k \<Rightarrow> nat" where
  "rec_ix ks k = length (takeWhile (\<lambda>x. x < k) ks)"

definition child_ix :: "'k::linorder list \<Rightarrow> 'k \<Rightarrow> nat" where
  "child_ix ks k = length (takeWhile (\<lambda>x. x \<le> k) ks)"

lemma rec_ix_le: "rec_ix ks k \<le> length ks"
  by (simp add: rec_ix_def length_takeWhile_le)

lemma child_ix_le: "child_ix ks k \<le> length ks"
  by (simp add: child_ix_def length_takeWhile_le)

lemma takeWhile_length_eqI:
  assumes "i \<le> length xs" and "\<And>j. j < i \<Longrightarrow> P (xs ! j)" and "i < length xs \<Longrightarrow> \<not> P (xs ! i)"
  shows "length (takeWhile P xs) = i"
  using assms
proof (induction xs arbitrary: i)
  case Nil
  then show ?case by simp
next
  case (Cons x xs)
  show ?case
  proof (cases i)
    case 0
    with Cons.prems(3) show ?thesis by simp
  next
    case (Suc i')
    have "length (takeWhile P xs) = i'"
      using Cons.prems Suc by (intro Cons.IH) force+
    moreover have "P x"
      using Cons.prems(2)[of 0] Suc by simp
    ultimately show ?thesis
      using Suc by simp
  qed
qed

lemma findRecordIndex_loop_node_is:
  assumes "node_is n lf f l p es" and "i \<le> length es" and "\<And>j. j < i \<Longrightarrow> fst (es ! j) < k"
  shows "findRecordIndex_loop n k (int i) = Inr (int (rec_ix (map fst es) k))"
  using assms(2,3)
proof (induction "length es - i" arbitrary: i)
  case 0
  then have "rec_ix (map fst es) k = i"
    unfolding rec_ix_def by (intro takeWhile_length_eqI) auto
  with 0 assms(1) show ?case
    by (subst findRecordIndex_loop.simps) (simp add: node_simps)
next
  case (Suc m)
  then have i: "i < length es" by simp
  show ?case
  proof (cases "k \<le> fst (es ! i)")
    case True
    with i Suc.prems have "rec_ix (map fst es) k = i"
      unfolding rec_ix_def by (intro takeWhile_length_eqI) auto
    with True i assms(1) show ?thesis
      by (subst findRecordIndex_loop.simps) (simp add: node_simps)
  next
    case False
    then have "\<And>j. j < Suc i \<Longrightarrow> fst (es ! j) < k"
      using Suc.prems(2) by (auto simp: less_Suc_eq)
    then have "findRecordIndex_loop n k (int (Suc i)) = Inr (int (rec_ix (map fst es) k))"
      using Suc.hyps i by (intro Suc.hyps(1)) auto
    then show ?thesis
      using False i assms(1)
      by (subst findRecordIndex_loop.simps) (simp add: node_simps add.commute)
  qed
qed

lemma findRecordIndex_node_is [node_simps]:
  assumes "node_is n lf f l p es"
  shows "findRecordIndex n k = Inr (int (rec_ix (map fst es) k))"
  using findRecordIndex_loop_node_is[OF assms, of 0 k] assms
  by (auto simp: findRecordIndex_def node_simps rec_ix_def)

lemma findChildIndex_loop_node_is:
  assumes "node_is n lf f l p es" and "i < length es" and "\<And>j. j \<le> i \<Longrightarrow> fst (es ! j) \<le> k"
  shows "findChildIndex_loop n k (int i) = Inr (int (child_ix (map fst es) k) - 1)"
  using assms(2,3)
proof (induction "length es - i" arbitrary: i)
  case 0
  then show ?case by simp
next
  case (Suc m)
  then have i: "i < length es" by simp
  show ?case
  proof (cases "Suc i < length es")
    case False
    with i have l: "length es = Suc i" by simp
    with Suc.prems have "child_ix (map fst es) k = Suc i"
      unfolding child_ix_def by (intro takeWhile_length_eqI) auto
    with l assms(1) show ?thesis
      by (subst findChildIndex_loop.simps) (simp add: node_simps)
  next
    case True
    have e1: "entry_at n (int i + 1) = Inr \<lparr>ekey = fst (es ! Suc i), eptr = snd (es ! Suc i)\<rparr>"
      using entry_at_node_is[OF assms(1) True] by (simp add: add.commute)
    show ?thesis
    proof (cases "k < fst (es ! Suc i)")
      case lt: True
      with Suc.prems True have "child_ix (map fst es) k = Suc i"
        unfolding child_ix_def by (intro takeWhile_length_eqI) auto
      with lt True assms(1) e1 Suc.prems(2)[of i] show ?thesis
        by (subst findChildIndex_loop.simps) (simp add: node_simps)
    next
      case ge: False
      then have "\<And>j. j \<le> Suc i \<Longrightarrow> fst (es ! j) \<le> k"
        using Suc.prems(2) by (auto simp: le_Suc_eq)
      then have "findChildIndex_loop n k (int (Suc i)) = Inr (int (child_ix (map fst es) k) - 1)"
        using Suc.hyps True by (intro Suc.hyps(1)) auto
      then show ?thesis
        using ge True assms(1) e1
        by (subst findChildIndex_loop.simps) (simp add: node_simps add.commute)
    qed
  qed
qed

lemma findChildIndex_node_is [node_simps]:
  assumes "node_is n lf f l p es" and "es \<noteq> []"
  shows "findChildIndex n k = Inr (int (child_ix (map fst es) k) - 1)"
proof -
  have e0: "entry_at n 0 = Inr \<lparr>ekey = fst (es ! 0), eptr = snd (es ! 0)\<rparr>"
    using entry_at_node_is[OF assms(1), of 0] assms(2) by simp
  show ?thesis
  proof (cases "k < fst (es ! 0)")
    case True
    then have "child_ix (map fst es) k = 0"
      unfolding child_ix_def using assms(2) by (intro takeWhile_length_eqI) auto
    with True e0 assms show ?thesis
      by (simp add: findChildIndex_def node_simps)
  next
    case False
    with findChildIndex_loop_node_is[OF assms(1), of 0 k] e0 assms show ?thesis
      by (simp add: findChildIndex_def node_simps)
  qed
qed

text \<open>On sorted keys the two indices split the list.\<close>

lemma child_ix_nth_le: "j < child_ix ks k \<Longrightarrow> ks ! j \<le> k"
  unfolding child_ix_def
  by (metis nth_mem set_takeWhileD takeWhile_nth)

lemma child_ix_nth_gt:
  assumes "sorted_wrt (<) ks" and "child_ix ks k \<le> j" and "j < length ks"
  shows "k < ks ! j"
proof -
  have "child_ix ks k < length ks" using assms by simp
  then have *: "k < ks ! child_ix ks k"
    using nth_length_takeWhile[of "\<lambda>x. x \<le> k" ks] by (simp add: child_ix_def)
  show ?thesis
  proof (cases "j = child_ix ks k")
    case True
    with * show ?thesis by simp
  next
    case False
    with assms have "ks ! child_ix ks k < ks ! j"
      by (intro sorted_wrt_nth_less[OF assms(1)]) auto
    with * show ?thesis by simp
  qed
qed

lemma child_ix_eqI:
  assumes "j \<le> length ks" and "sorted_wrt (<) ks"
    and "0 < j \<Longrightarrow> ks ! (j - 1) \<le> k" and "j < length ks \<Longrightarrow> k < ks ! j"
  shows "child_ix ks k = j"
  unfolding child_ix_def
proof (rule takeWhile_length_eqI)
  fix i assume i: "i < j"
  show "ks ! i \<le> k"
  proof (cases "i = j - 1")
    case True
    with i assms(3) show ?thesis by simp
  next
    case False
    with i assms(1) have "ks ! i < ks ! (j - 1)"
      by (intro sorted_wrt_nth_less[OF assms(2)]) auto
    with i assms(3) show ?thesis by simp
  qed
qed (use assms in auto)

lemma rec_ix_nth_less: "j < rec_ix ks k \<Longrightarrow> ks ! j < k"
  unfolding rec_ix_def
  by (metis nth_mem set_takeWhileD takeWhile_nth)

lemma rec_ix_nth_ge:
  assumes "sorted_wrt (<) ks" and "rec_ix ks k \<le> j" and "j < length ks"
  shows "k \<le> ks ! j"
proof -
  have "rec_ix ks k < length ks" using assms by simp
  then have *: "k \<le> ks ! rec_ix ks k"
    using nth_length_takeWhile[of "\<lambda>x. x < k" ks] by (simp add: rec_ix_def)
  show ?thesis
  proof (cases "j = rec_ix ks k")
    case True
    with * show ?thesis by simp
  next
    case False
    with assms have "ks ! rec_ix ks k < ks ! j"
      by (intro sorted_wrt_nth_less[OF assms(1)]) auto
    with * show ?thesis by simp
  qed
qed

section \<open>The loops over the entry array\<close>

lemma int_minus_1: "0 < i \<Longrightarrow> int i - 1 = int (i - 1)"
  by simp

lemma shift_right_nth:
  assumes "t \<le> i" and "i < length es"
  shows "shift_right es (int t) (int i) =
    Inr (map (\<lambda>j. if t < j \<and> j \<le> i then es ! (j - 1) else es ! j) [0..<length es])"
  using assms
proof (induction "i - t" arbitrary: i es)
  case 0
  then have "map (\<lambda>j. if t < j \<and> j \<le> i then es ! (j - 1) else es ! j) [0..<length es] = es"
    by (intro nth_equalityI) auto
  with 0 show ?case
    by (subst shift_right.simps) simp
next
  case (Suc m)
  then have i: "t < i" "0 < i" by auto
  let ?es = "es[i := es ! (i - 1)]"
  have "shift_right ?es (int t) (int (i - 1)) =
    Inr (map (\<lambda>j. if t < j \<and> j \<le> i - 1 then ?es ! (j - 1) else ?es ! j) [0..<length ?es])"
    using Suc.hyps(2) Suc.prems i by (intro Suc.hyps(1)) auto
  also have "map (\<lambda>j. if t < j \<and> j \<le> i - 1 then ?es ! (j - 1) else ?es ! j) [0..<length ?es]
     = map (\<lambda>j. if t < j \<and> j \<le> i then es ! (j - 1) else es ! j) [0..<length es]"
    using i Suc.prems by (auto simp: nth_list_update)
  finally show ?case
    using i Suc.prems by (subst shift_right.simps) (simp add: int_minus_1 del: of_nat_diff)
qed

lemma shift_insert:
  assumes "t \<le> i" and "i < length es"
  shows "rbind (shift_right es (int t) (int i)) (\<lambda>es1. aset es1 (int t) x) =
    Inr (take t es @ x # drop t (take i es) @ drop (Suc i) es)"
proof -
  have "(map (\<lambda>j. if t < j \<and> j \<le> i then es ! (j - 1) else es ! j) [0..<length es])[t := x]
     = take t es @ x # drop t (take i es) @ drop (Suc i) es"
    using assms
    by (intro nth_equalityI) (auto simp: nth_list_update nth_append nth_Cons' min_def)
  then show ?thesis
    using assms by (simp add: shift_right_nth)
qed

lemma copy_range_nth:
  assumes "off \<le> i" and "i \<le> hi" and "hi \<le> length src" and "hi - off \<le> length dst"
  shows "copy_range src dst (int off) (int i) (int hi) =
    Inr (map (\<lambda>j. if i \<le> j + off \<and> j + off < hi then src ! (j + off) else dst ! j) [0..<length dst])"
  using assms
proof (induction "hi - i" arbitrary: i dst)
  case 0
  then have "map (\<lambda>j. if i \<le> j + off \<and> j + off < hi then src ! (j + off) else dst ! j)
      [0..<length dst] = dst"
    by (intro nth_equalityI) auto
  with 0 show ?case
    by (subst copy_range.simps) simp
next
  case (Suc m)
  then have i: "i < hi" by simp
  let ?d = "dst[i - off := src ! i]"
  have "copy_range src ?d (int off) (int (Suc i)) (int hi) =
    Inr (map (\<lambda>j. if Suc i \<le> j + off \<and> j + off < hi then src ! (j + off) else ?d ! j) [0..<length ?d])"
    using Suc.hyps(2) Suc.prems i by (intro Suc.hyps(1)) auto
  also have "map (\<lambda>j. if Suc i \<le> j + off \<and> j + off < hi then src ! (j + off) else ?d ! j) [0..<length ?d]
    = map (\<lambda>j. if i \<le> j + off \<and> j + off < hi then src ! (j + off) else dst ! j) [0..<length dst]"
    using i Suc.prems by (auto simp: nth_list_update)
  finally show ?case
    using i Suc.prems
    by (subst copy_range.simps) (simp add: add.commute of_nat_diff[symmetric] del: of_nat_diff)
qed

lemma build_all_tail:
  assumes "length es = 15" and "length ae = 16" and "j \<le> 15"
  shows "build_all es x t (int j + 1) (int j) True ae = Inr (take (Suc j) ae @ drop j es)"
  using assms(2,3)
proof (induction "15 - j" arbitrary: j ae)
  case 0
  then show ?case using assms(1) by (subst build_all.simps) simp
next
  case (Suc m)
  then have j: "j < 15" by simp
  have "build_all es x t (int (Suc j) + 1) (int (Suc j)) True (ae[Suc j := es ! j])
      = Inr (take (Suc (Suc j)) (ae[Suc j := es ! j]) @ drop (Suc j) es)"
    using Suc.hyps(2) Suc.prems j by (intro Suc.hyps(1)) auto
  moreover have "take (Suc (Suc j)) (ae[Suc j := es ! j]) @ drop (Suc j) es
      = take (Suc j) ae @ drop j es"
    using j assms(1) Suc.prems Cons_nth_drop_Suc[of j es]
    by (simp add: take_Suc_conv_app_nth)
  moreover have "aset ae (1 + int j) (es ! j) = Inr (ae[Suc j := es ! j])"
    using j Suc.prems aset_int[of "Suc j" ae] by simp
  ultimately show ?case
    using j assms(1) by (subst build_all.simps) (simp add: add.commute)
qed

lemma build_all_correct:
  assumes "length es = 15" and "length ae = 16" and "j \<le> t" and "t \<le> 15"
  shows "build_all es x (int t) (int j) (int j) False ae
      = Inr (take j ae @ drop j (take t es) @ x # drop t es)"
  using assms(2,3)
proof (induction "t - j" arbitrary: j ae)
  case 0
  then have j: "j = t" by simp
  have "build_all es x (int t) (int t + 1) (int t) True (ae[t := x])
     = Inr (take (Suc t) (ae[t := x]) @ drop t es)"
    using assms 0 by (intro build_all_tail) auto
  then show ?case
    using j assms 0 by (subst build_all.simps) (simp add: take_Suc_conv_app_nth)
next
  case (Suc m)
  then have j: "j < t" by simp
  have "build_all es x (int t) (int (Suc j)) (int (Suc j)) False (ae[j := es ! j])
      = Inr (take (Suc j) (ae[j := es ! j]) @ drop (Suc j) (take t es) @ x # drop t es)"
    using Suc.hyps(2) Suc.prems j by (intro Suc.hyps(1)) auto
  moreover have "take (Suc j) (ae[j := es ! j]) @ drop (Suc j) (take t es) = take j ae @ drop j (take t es)"
    using j assms Suc.prems Cons_nth_drop_Suc[of j "take t es"]
    by (simp add: take_Suc_conv_app_nth)
  ultimately show ?case
    using j assms Suc.prems by (subst build_all.simps) (simp add: add.commute)
qed

section \<open>Inserting into a node and splitting it\<close>

definition ins_at :: "nat \<Rightarrow> 'a \<Rightarrow> 'a list \<Rightarrow> 'a list" where
  "ins_at i x xs = take i xs @ x # drop i xs"

lemma length_ins_at [simp]: "length (ins_at i x xs) = Suc (length xs)"
  by (simp add: ins_at_def)

lemma map_ins_at: "map g (ins_at i x xs) = ins_at i (g x) (map g xs)"
  by (simp add: ins_at_def take_map drop_map)

lemma set_ins_at [simp]: "set (ins_at i x xs) = insert x (set xs)"
  by (metis Un_insert_right append_take_drop_id ins_at_def list.simps(15) set_append)

lemma nth_ins_at:
  assumes "i \<le> length xs" and "j \<le> length xs"
  shows "ins_at i x xs ! j = (if j < i then xs ! j else if j = i then x else xs ! (j - 1))"
  using assms by (auto simp: ins_at_def nth_append nth_Cons' min_def)

lemma node_isI:
  assumes "isLeaf n = lf" "FirstLeaf n = f" "LastLeaf n = l" "ptr0 n = p"
    "numKeys n = int (length es)" "length (entries n) = 15"
    "\<And>i. i < length es \<Longrightarrow> entries n ! i = slot_of (es ! i)" "length es \<le> 15"
  shows "node_is n lf f l p es"
  using assms unfolding node_is_def
  by (auto intro!: nth_equalityI)

lemma insert_slot_node_is:
  assumes n: "node_is n lf f l p es" and len: "length es < 15" and i: "i \<le> length es"
  obtains n' where
    "insert_slot s a n (int i) e = Inr ((set_node s a n')\<lparr>numRecords := Suc (numRecords s)\<rparr>)"
    "node_is n' lf f l p (ins_at i (ekey e, eptr e) es)"
proof -
  let ?E = "take i (entries n) @ Some e # drop i (take (length es) (entries n)) @ drop (Suc (length es)) (entries n)"
  let ?n = "n\<lparr>entries := ?E, numKeys := numKeys n + 1\<rparr>"
  have l: "length (entries n) = 15" using node_isD(6)[OF n] .
  have "rbind (shift_right (entries n) (int i) (numKeys n)) (\<lambda>es1. aset es1 (int i) (Some e)) = Inr ?E"
    using shift_insert[of i "length es" "entries n" "Some e"] len i l node_isD(5)[OF n] by simp
  then have "insert_slot s a n (int i) e = Inr ((set_node s a ?n)\<lparr>numRecords := Suc (numRecords s)\<rparr>)"
    unfolding insert_slot_def
    by (auto simp: rbind_eq_Inr set_node_def)
  moreover have "node_is ?n lf f l p (ins_at i (ekey e, eptr e) es)"
  proof (rule node_isI)
    show "length (entries ?n) = 15" using l len i by simp
  next
    fix j assume "j < length (ins_at i (ekey e, eptr e) es)"
    then have j: "j \<le> length es" by simp
    have "entries ?n ! j = (if j < i then entries n ! j else if j = i then Some e else entries n ! (j - 1))"
      using j i len l by (auto simp: nth_append nth_Cons')
    also have "\<dots> = slot_of (ins_at i (ekey e, eptr e) es ! j)"
      using j i node_is_nth[OF n] by (auto simp: nth_ins_at slot_of_def)
    finally show "entries ?n ! j = slot_of (ins_at i (ekey e, eptr e) es ! j)" .
  qed (use n len in \<open>simp_all add: node_isD\<close>)
  ultimately show ?thesis using that by blast
qed

text \<open>
  What \<open>splitnode\<close> leaves: the lower half stays in the node, the upper half is in a new
  one, and the entry for the parent points to the new node.
\<close>

definition split_state :: "rl \<Rightarrow> addr \<Rightarrow> btnode \<Rightarrow> btnode \<Rightarrow> rl" where
  "split_state s a n m =
     s\<lparr>nodes := (nodes s)(a \<mapsto> n, fresh s \<mapsto> m), fresh := Suc (fresh s), avail := avail s - 1\<rparr>"

lemma full_node_entries:
  assumes "node_is n lf f l p es" and "length es = 15"
  shows "entries n = map slot_of es"
  using assms by (auto simp: node_is_def)

lemma split_all:
  fixes e :: entry
  assumes n: "node_is n lf f l p es" and len: "length es = 15"
  defines "i \<equiv> rec_ix (map fst es) (ekey e)"
  shows "build_all (entries n) (Some e) (int i) 0 0 False (replicate 16 None)
    = Inr (map slot_of (ins_at i (ekey e, eptr e) es))"
proof -
  have i: "i \<le> 15" using rec_ix_le[of "map fst es"] len by (simp add: i_def)
  note E = full_node_entries[OF n len]
  then have "length (entries n) = 15" using len by simp
  then have "build_all (entries n) (Some e) (int i) (int 0) (int 0) False (replicate 16 None)
     = Inr (take 0 (replicate 16 None) @ drop 0 (take i (entries n)) @ Some e # drop i (entries n))"
    using i by (intro build_all_correct) auto
  then show ?thesis
    by (simp add: E map_ins_at) (simp add: ins_at_def slot_of_def)
qed

lemma split_lower:
  fixes e :: entry
  assumes n: "node_is n lf f l p es" and len: "length es = 15"
  defines "i \<equiv> rec_ix (map fst es) (ekey e)"
  defines "ae \<equiv> map slot_of (ins_at i (ekey e, eptr e) es)"
  obtains E where
    "(if int i < 8 then copy_range ae (entries n) 0 (int i) 8 else Inr (entries n)) = Inr E"
    "length E = 15" "\<And>j. j < 8 \<Longrightarrow> E ! j = ae ! j"
proof -
  have i: "i \<le> 15" using rec_ix_le[of "map fst es"] len by (simp add: i_def)
  have E: "entries n = map slot_of es" "length (entries n) = 15"
    using full_node_entries[OF n len] len by simp_all
  have ae: "\<And>j. j < i \<Longrightarrow> j < 15 \<Longrightarrow> ae ! j = entries n ! j" "length ae = 16"
    using i len by (auto simp: ae_def E nth_ins_at)
  show ?thesis
  proof (cases "i < 8")
    case True
    let ?E = "map (\<lambda>j. if i \<le> j + 0 \<and> j + 0 < 8 then ae ! (j + 0) else entries n ! j) [0..<length (entries n)]"
    have "copy_range ae (entries n) (int 0) (int i) (int 8) = Inr ?E"
      using True E ae by (intro copy_range_nth) auto
    then show ?thesis
      using True E ae by (intro that[of ?E]) auto
  next
    case False
    with E ae show ?thesis by (intro that[of "entries n"]) auto
  qed
qed


lemma split_upper:
  assumes "length ae = 16" and "1 \<le> st" and "st \<le> 16"
  obtains E where
    "copy_range ae (replicate 15 None) (int st) (int st) 16 = Inr E"
    "length E = 15" "\<And>j. j < 16 - st \<Longrightarrow> E ! j = ae ! (j + st)"
proof -
  let ?E = "map (\<lambda>j. if st \<le> j + st \<and> j + st < 16 then ae ! (j + st) else replicate 15 None ! j)
     [0..<length (replicate 15 (None :: slot))]"
  have "copy_range ae (replicate 15 None) (int st) (int st) (int 16) = Inr ?E"
    using assms by (intro copy_range_nth) auto
  then show ?thesis using assms by (intro that[of ?E]) auto
qed

lemma splitnode_node_is:
  fixes e :: entry
  assumes a: "nodes s a = Some n" "a \<noteq> 0" and n: "node_is n lf f l p es" and len: "length es = 15"
    and mem: "avail s \<noteq> 0" "fresh s \<noteq> 0" "fresh s \<noteq> a"
  defines "es' \<equiv> ins_at (rec_ix (map fst es) (ekey e)) (ekey e, eptr e) es"
  obtains n' m where
    "splitnode s a e lf = Inr (split_state s a n' m, \<lparr>ekey = fst (es' ! 8), eptr = fresh s\<rparr>)"
    "node_is n' lf f False p (take 8 es')"
    "node_is m lf False l (if lf then 0 else snd (es' ! 8)) (drop (if lf then 8 else 9) es')"
proof -
  let ?i = "rec_ix (map fst es) (ekey e)"
  define st :: nat where "st = (if lf then 8 else 9)"
  define ae where "ae = map slot_of es'"
  have le: "length es' = 16" "length ae = 16" using len by (simp_all add: es'_def ae_def)
  obtain E where E: "(if int ?i < 8 then copy_range ae (entries n) 0 (int ?i) 8 else Inr (entries n)) = Inr E"
    "length E = 15" "\<And>j. j < 8 \<Longrightarrow> E ! j = ae ! j"
    using split_lower[OF n len] unfolding ae_def es'_def by blast
  have st: "1 \<le> st" "st \<le> 16" by (simp_all add: st_def)
  obtain M where M: "copy_range ae (replicate 15 None) (int st) (int st) 16 = Inr M" "length M = 15"
    "\<And>j. j < 16 - st \<Longrightarrow> M ! j = ae ! (j + st)"
    using split_upper[OF le(2) st] by blast
  define n' where "n' = (let n1 = n\<lparr>entries := E, numKeys := 8\<rparr> in if l then n1\<lparr>LastLeaf := False\<rparr> else n1)"
  define m where "m = \<lparr>isLeaf = lf, FirstLeaf = False, LastLeaf = l, numKeys = 16 - int st,
    ptr0 = (if lf then 0 else snd (es' ! 8)), entries = M\<rparr>"
  have up: "load_slot ae 8 = Inr \<lparr>ekey = fst (es' ! 8), eptr = snd (es' ! 8)\<rparr>"
    using le by (simp add: load_slot_def aget_def ae_def slot_of_def)
  note rules = node_at_def findRecordIndex_node_is[OF n] set_node_def createNewNode_def
    node_isD[OF n] ae_def[symmetric] es'_def[symmetric] fun_upd_twist
  have "splitnode s a e lf = Inr (split_state s a n' m, \<lparr>ekey = fst (es' ! 8), eptr = fresh s\<rparr>)"
  proof (cases "?i < 8")
    case True
    with E(1) have "copy_range ae (entries n) 0 (int ?i) 8 = Inr E" by simp
    with True show ?thesis
      using a mem M(1) up split_all[OF n len, of e]
      unfolding splitnode_def Let_def split_state_def n'_def m_def st_def
      by (cases lf; cases l) (simp_all add: rules)
  next
    case False
    with E(1) have "entries n = E" by simp
    with False show ?thesis
      using a mem M(1) up split_all[OF n len, of e]
      unfolding splitnode_def Let_def split_state_def n'_def m_def st_def
      by (cases lf; cases l) (simp_all add: rules)
  qed
  moreover have "node_is n' lf f False p (take 8 es')"
    using le E(2,3) by (intro node_isI) (simp_all add: n'_def Let_def node_isD[OF n] ae_def)
  moreover have "node_is m lf False l (if lf then 0 else snd (es' ! 8)) (drop st es')"
    using le M(2,3) by (intro node_isI) (simp_all add: m_def ae_def add.commute st_def)
  ultimately show ?thesis using that by (simp add: st_def)
qed

text \<open>When no memory is left, the assertion on the new node fails.\<close>

lemma splitnode_no_memory:
  fixes e :: entry
  assumes a: "nodes s a = Some n" "a \<noteq> 0" and n: "node_is n lf f l p es" and len: "length es = 15"
    and mem: "avail s = 0"
  shows "splitnode s a e lf = Inl AssertFail"
proof -
  obtain E where E: "(if int (rec_ix (map fst es) (ekey e)) < 8
      then copy_range (map slot_of (ins_at (rec_ix (map fst es) (ekey e)) (ekey e, eptr e) es))
             (entries n) 0 (int (rec_ix (map fst es) (ekey e))) 8
      else Inr (entries n)) = Inr E"
    using split_lower[OF n len] by blast
  then show ?thesis
    using a mem split_all[OF n len, of e]
    unfolding splitnode_def Let_def
    by (simp add: node_at_def findRecordIndex_node_is[OF n] set_node_def createNewNode_def
        split: if_splits)
qed

end
