(* ===== verification/Relation_Tree.thy ===== *)
theory Relation_Tree
  imports Relation_Node
begin

text \<open>
  The abstract B+-tree that a heap represents. A tree carries the address of every node, so
  that \<open>rep h t\<close> says exactly which cells of the heap \<open>h\<close> hold it. \<open>bt_ok\<close> is the
  invariant of the data structure: all leaves at the same height, at most \<open>FANOUT\<close> and,
  below the root, at least \<open>FANOUT div 2\<close> keys per node, every key between the separators
  around it, and the flags \<open>FirstLeaf\<close> and \<open>LastLeaf\<close> set on the outermost leaves only.
\<close>

section \<open>Trees and their representation\<close>

datatype bt =
    Lf (taddr: addr) bool bool kvs
  | Nd (taddr: addr) bool bool "ckey list" "bt list"

fun contents :: "bt \<Rightarrow> kvs" where
  "contents (Lf a f l es) = es"
| "contents (Nd a f l ks cs) = concat (map contents cs)"

fun addrs :: "bt \<Rightarrow> addr list" where
  "addrs (Lf a f l es) = [a]"
| "addrs (Nd a f l ks cs) = a # concat (map addrs cs)"

fun nkeys :: "bt \<Rightarrow> nat" where
  "nkeys (Lf a f l es) = length es"
| "nkeys (Nd a f l ks cs) = length ks"

definition node_kvs :: "ckey list \<Rightarrow> bt list \<Rightarrow> kvs" where
  "node_kvs ks cs = zip ks (map taddr (tl cs))"

fun rep :: "(addr \<rightharpoonup> btnode) \<Rightarrow> bt \<Rightarrow> bool" where
  "rep h (Lf a f l es) \<longleftrightarrow> a \<noteq> 0 \<and> (\<exists>n. h a = Some n \<and> node_is n True f l 0 es)"
| "rep h (Nd a f l ks cs) \<longleftrightarrow>
     a \<noteq> 0 \<and> (\<exists>n. h a = Some n \<and> node_is n False f l (taddr (hd cs)) (node_kvs ks cs)) \<and>
     (\<forall>c \<in> set cs. rep h c)"

lemma taddr_in_addrs [simp]: "taddr t \<in> set (addrs t)"
  by (cases t) auto

lemma rep_frame: "rep h t \<Longrightarrow> (\<And>a. a \<in> set (addrs t) \<Longrightarrow> h' a = h a) \<Longrightarrow> rep h' t"
  by (induction t) auto

lemma rep_addrs: "rep h t \<Longrightarrow> a \<in> set (addrs t) \<Longrightarrow> a \<noteq> 0 \<and> a \<in> dom h"
  by (induction t) auto

lemma rep_nonnull: "rep h t \<Longrightarrow> taddr t \<noteq> 0"
  by (cases t) auto

section \<open>Key ranges\<close>

definition in_bounds :: "ckey option \<Rightarrow> ckey option \<Rightarrow> ckey \<Rightarrow> bool" where
  "in_bounds lo hi k \<longleftrightarrow> (\<forall>a. lo = Some a \<longrightarrow> a \<le> k) \<and> (\<forall>b. hi = Some b \<longrightarrow> k < b)"

definition sep_bounds :: "ckey option \<Rightarrow> ckey option \<Rightarrow> ckey \<Rightarrow> bool" where
  "sep_bounds lo hi k \<longleftrightarrow> (\<forall>a. lo = Some a \<longrightarrow> a < k) \<and> (\<forall>b. hi = Some b \<longrightarrow> k < b)"

definition lo_at :: "ckey option \<Rightarrow> ckey list \<Rightarrow> nat \<Rightarrow> ckey option" where
  "lo_at lo ks i = (if i = 0 then lo else Some (ks ! (i - 1)))"

definition hi_at :: "ckey option \<Rightarrow> ckey list \<Rightarrow> nat \<Rightarrow> ckey option" where
  "hi_at hi ks i = (if i < length ks then Some (ks ! i) else hi)"

lemma in_bounds_None [simp]: "in_bounds None None k"
  by (simp add: in_bounds_def)

lemma in_bounds_child:
  assumes "in_bounds lo hi k" and "sorted_wrt (<) ks"
  shows "in_bounds (lo_at lo ks (child_ix ks k)) (hi_at hi ks (child_ix ks k)) k"
  using assms child_ix_nth_le[of "child_ix ks k - 1" ks k] child_ix_nth_gt[of ks k "child_ix ks k"]
  by (auto simp: in_bounds_def lo_at_def hi_at_def)

lemma in_bounds_mono:
  assumes "\<forall>k \<in> set ks. sep_bounds lo hi k" and "i \<le> length ks"
    and "in_bounds (lo_at lo ks i) (hi_at hi ks i) k"
  shows "in_bounds lo hi k"
  unfolding in_bounds_def
proof (intro conjI allI impI)
  fix a assume lo: "lo = Some a"
  show "a \<le> k"
  proof (cases "i = 0")
    case True
    with assms(3) lo show ?thesis by (simp add: in_bounds_def lo_at_def)
  next
    case False
    then have "ks ! (i - 1) \<in> set ks" using assms(2) by simp
    then have "a < ks ! (i - 1)" using assms(1) lo by (auto simp: sep_bounds_def)
    also have "\<dots> \<le> k" using assms(3) False by (simp add: in_bounds_def lo_at_def)
    finally show ?thesis by simp
  qed
next
  fix b assume hi: "hi = Some b"
  show "k < b"
  proof (cases "i < length ks")
    case True
    then have "k < ks ! i" using assms(3) by (simp add: in_bounds_def hi_at_def)
    also have "\<dots> < b" using assms(1) hi True by (auto simp: sep_bounds_def)
    finally show ?thesis .
  next
    case False
    with assms(3) hi show ?thesis by (simp add: in_bounds_def hi_at_def)
  qed
qed

section \<open>The invariant\<close>

fun bt_ok :: "nat \<Rightarrow> ckey option \<Rightarrow> ckey option \<Rightarrow> bool \<Rightarrow> bool \<Rightarrow> bt \<Rightarrow> bool" where
  "bt_ok 0 lo hi f l (Lf a f' l' es) \<longleftrightarrow>
     f' = f \<and> l' = l \<and> length es \<le> 15 \<and> sorted_keys es \<and> (\<forall>k \<in> fst ` set es. in_bounds lo hi k)"
| "bt_ok (Suc h) lo hi f l (Nd a f' l' ks cs) \<longleftrightarrow>
     \<not> f' \<and> \<not> l' \<and> 1 \<le> length ks \<and> length ks \<le> 15 \<and> length cs = Suc (length ks) \<and>
     sorted_wrt (<) ks \<and> (\<forall>k \<in> set ks. sep_bounds lo hi k) \<and>
     (\<forall>i < length cs. 7 \<le> nkeys (cs ! i) \<and>
        bt_ok h (lo_at lo ks i) (hi_at hi ks i) (f \<and> i = 0) (l \<and> i = length ks) (cs ! i))"
| "bt_ok _ lo hi f l _ \<longleftrightarrow> False"

text \<open>The last equation covers a leaf above height 0 and an intern node at height 0.\<close>

lemma bt_ok_0E:
  assumes "bt_ok 0 lo hi f l t"
  obtains a es where "t = Lf a f l es" "length es \<le> 15" "sorted_keys es"
    "\<forall>k \<in> fst ` set es. in_bounds lo hi k"
  using assms by (cases t) auto

lemma bt_ok_SucE:
  assumes "bt_ok (Suc h) lo hi f l t"
  obtains a ks cs where "t = Nd a False False ks cs" "1 \<le> length ks" "length ks \<le> 15"
    "length cs = Suc (length ks)" "sorted_wrt (<) ks" "\<forall>k \<in> set ks. sep_bounds lo hi k"
    "\<And>i. i \<le> length ks \<Longrightarrow> 7 \<le> nkeys (cs ! i)"
    "\<And>i. i \<le> length ks \<Longrightarrow>
       bt_ok h (lo_at lo ks i) (hi_at hi ks i) (f \<and> i = 0) (l \<and> i = length ks) (cs ! i)"
  using assms by (cases t) (auto simp: less_Suc_eq_le)

lemma bt_ok_keys:
  "bt_ok h lo hi f l t \<Longrightarrow> k \<in> fst ` set (contents t) \<Longrightarrow> in_bounds lo hi k"
proof (induction h arbitrary: lo hi f l t)
  case 0
  then show ?case by (force elim!: bt_ok_0E)
next
  case (Suc h)
  from Suc.prems(1) show ?case
  proof (rule bt_ok_SucE)
    fix a ks cs
    assume t: "t = Nd a False False ks cs" and len: "length cs = Suc (length ks)"
      and sep: "\<forall>k \<in> set ks. sep_bounds lo hi k"
      and ok: "\<And>i. i \<le> length ks \<Longrightarrow>
         bt_ok h (lo_at lo ks i) (hi_at hi ks i) (f \<and> i = 0) (l \<and> i = length ks) (cs ! i)"
    from Suc.prems(2) t obtain c where c: "c \<in> set cs" "k \<in> fst ` set (contents c)"
      by auto
    then obtain i where i: "i \<le> length ks" "cs ! i = c"
      using len by (auto simp: in_set_conv_nth less_Suc_eq_le)
    with c have "in_bounds (lo_at lo ks i) (hi_at hi ks i) k"
      using Suc.IH[OF ok[OF i(1)]] by simp
    with sep i show ?thesis by (auto intro: in_bounds_mono)
  qed
qed

lemma children_keys_less:
  assumes "sorted_wrt (<) ks" and "length cs = Suc (length ks)"
    and "\<And>i. i \<le> length ks \<Longrightarrow>
       bt_ok h (lo_at lo ks i) (hi_at hi ks i) (ff i) (ll i) (cs ! i)"
    and "i < j" "j \<le> length ks" "x \<in> fst ` set (contents (cs ! i))" "y \<in> fst ` set (contents (cs ! j))"
  shows "x < y"
proof -
  have "x < ks ! i"
    using bt_ok_keys[OF assms(3)[of i] assms(6)] assms(4,5)
    by (auto simp: in_bounds_def hi_at_def)
  also have "ks ! i \<le> ks ! (j - 1)"
  proof (cases "i = j - 1")
    case False
    with assms have "ks ! i < ks ! (j - 1)" by (intro sorted_wrt_nth_less[OF assms(1)]) auto
    then show ?thesis by simp
  qed simp
  also have "ks ! (j - 1) \<le> y"
    using bt_ok_keys[OF assms(3)[of j] assms(7)] assms(4,5)
    by (auto simp: in_bounds_def lo_at_def)
  finally show ?thesis .
qed

lemma bt_ok_sorted: "bt_ok h lo hi f l t \<Longrightarrow> sorted_keys (contents t)"
proof (induction h arbitrary: lo hi f l t)
  case 0
  then show ?case by (auto elim!: bt_ok_0E)
next
  case (Suc h)
  from Suc.prems show ?case
  proof (rule bt_ok_SucE)
    fix a ks cs
    assume t: "t = Nd a False False ks cs" and len: "length cs = Suc (length ks)"
      and sk: "sorted_wrt (<) ks"
      and ok: "\<And>i. i \<le> length ks \<Longrightarrow>
         bt_ok h (lo_at lo ks i) (hi_at hi ks i) (f \<and> i = 0) (l \<and> i = length ks) (cs ! i)"
    have "sorted_keys (concat (map contents cs))"
    proof (rule sorted_keys_concat)
      fix i assume "i < length (map contents cs)"
      then show "sorted_keys (map contents cs ! i)"
        using len Suc.IH[OF ok[of i]] by simp
    next
      fix i j x y
      assume "i < j" "j < length (map contents cs)"
        "x \<in> fst ` set (map contents cs ! i)" "y \<in> fst ` set (map contents cs ! j)"
      then show "x < y"
        using len by (intro children_keys_less[OF sk len ok]) auto
    qed
    with t show ?thesis by simp
  qed
qed

end
