(* ===== verification/Relation_Search.thy ===== *)
theory Relation_Search
  imports Relation_Path
begin

text \<open>
  The searches of \<open>relation_mem.c\<close>: \<open>moveToKey\<close> and \<open>moveToFirst\<close> fill the cursor with
  a path of the tree, and \<open>goToKey\<close> (ascend, then descend) leaves it where a search from the
  root would.
\<close>

text \<open>A cursor after its arrays have been filled from level \<open>lvl\<close> on.\<close>

definition cursor_put :: "cursor \<Rightarrow> nat \<Rightarrow> addr list \<Rightarrow> nat list \<Rightarrow> nat \<Rightarrow> cursor" where
  "cursor_put c lvl as js li =
     \<lparr>level = int (lvl + length js),
      ancestorsIdx = take lvl (ancestorsIdx c) @ idxs js li @ drop (Suc (lvl + length js)) (ancestorsIdx c),
      ancestors = take lvl (ancestors c) @ as @ drop (Suc (lvl + length js)) (ancestors c)\<rparr>"

definition arrays_ok :: "cursor \<Rightarrow> bool" where
  "arrays_ok c \<longleftrightarrow> length (ancestors c) = 20 \<and> length (ancestorsIdx c) = 20"

abbreviation find_ix :: "nat \<Rightarrow> bt \<Rightarrow> ckey \<Rightarrow> nat" where
  "find_ix h t k \<equiv> rec_ix (map fst (leaf_kvs (subtree t (spath h t k)))) k"

lemma node_at_rep: "rep m t \<Longrightarrow> nodes s = m \<Longrightarrow>
   \<exists>n. node_at s (taddr t) = Inr n \<and>
     (case t of Lf a f l es \<Rightarrow> node_is n True f l 0 es
      | Nd a f l ks cs \<Rightarrow> node_is n False f l (taddr (hd cs)) (node_kvs ks cs))"
  by (cases t) (auto simp: node_at_def)

lemma rep_leafE:
  assumes "rep (nodes s) (Lf a f l es)"
  obtains n where "node_at s a = Inr n" "nodes s a = Some n" "a \<noteq> 0" "node_is n True f l 0 es"
  using assms by (auto simp: node_at_def)

lemma rep_internE:
  assumes "rep (nodes s) (Nd a f l ks cs)"
  obtains n where "node_at s a = Inr n" "nodes s a = Some n" "a \<noteq> 0"
    "node_is n False f l (taddr (hd cs)) (node_kvs ks cs)" "\<forall>c \<in> set cs. rep (nodes s) c"
  using assms by (auto simp: node_at_def)

lemma length_node_kvs [simp]: "length cs = Suc (length ks) \<Longrightarrow> length (node_kvs ks cs) = length ks"
  by (simp add: node_kvs_def)

lemma map_fst_node_kvs [simp]: "length cs = Suc (length ks) \<Longrightarrow> map fst (node_kvs ks cs) = ks"
  by (simp add: node_kvs_def)

lemma node_kvs_nth:
  "length cs = Suc (length ks) \<Longrightarrow> i < length ks \<Longrightarrow> node_kvs ks cs ! i = (ks ! i, taddr (cs ! Suc i))"
  by (cases cs) (simp_all add: node_kvs_def)

text \<open>Which child the code follows for index \<open>j - 1\<close> of an intern node.\<close>

lemma follow_child:
  assumes "node_is n False f l (taddr (hd cs)) (node_kvs ks cs)" and "length cs = Suc (length ks)"
    and "j \<le> length ks"
  shows "(if int j - 1 = - 1 then Inr (ptr0 n) else rbind (entry_at n (int j - 1)) (\<lambda>e. Inr (eptr e)))
     = Inr (taddr (cs ! j))"
proof (cases j)
  case 0
  with assms show ?thesis by (cases cs) (simp_all add: node_isD[OF assms(1)])
next
  case (Suc i)
  with assms have "entry_at n (int i) = Inr \<lparr>ekey = ks ! i, eptr = taddr (cs ! Suc i)\<rparr>"
    using entry_at_node_is[OF assms(1), of i] by (simp add: node_kvs_nth)
  with Suc show ?thesis by simp
qed

lemma moveToKey_correct:
  assumes "bt_ok h lo hi f l t" and "rep (nodes s) t" and "lvl + h < 20" and "arrays_ok c"
  shows "moveToKey s (taddr t) k c (int lvl) =
    Inr (cursor_put c lvl (anc t (spath h t k)) (spath h t k) (find_ix h t k))"
  using assms
proof (induction h arbitrary: lo hi f l t lvl c)
  case 0
  from 0(1) obtain a es where t: "t = Lf a f l es" by (auto elim: bt_ok_0E)
  with 0(2) obtain n where n: "node_at s a = Inr n" "node_is n True f l 0 es"
    using rep_leafE[of s a f l es] by blast
  from n 0 t show ?case
    by (subst moveToKey.simps)
      (simp add: node_isD[OF n(2)] findRecordIndex_node_is[OF n(2)] arrays_ok_def cursor_put_def
        idxs_def upd_conv_take_nth_drop)
next
  case (Suc h)
  from Suc.prems(1) show ?case
  proof (rule bt_ok_SucE)
    fix a ks cs
    assume t: "t = Nd a False False ks cs" and ks: "1 \<le> length ks"
      and len: "length cs = Suc (length ks)"
      and ok: "\<And>i. i \<le> length ks \<Longrightarrow>
         bt_ok h (lo_at lo ks i) (hi_at hi ks i) (f \<and> i = 0) (l \<and> i = length ks) (cs ! i)"
    from Suc.prems(2) t obtain n where n: "node_at s a = Inr n"
      "node_is n False False False (taddr (hd cs)) (node_kvs ks cs)" "\<forall>c \<in> set cs. rep (nodes s) c"
      using rep_internE[of s a False False ks cs] by blast
    let ?j = "child_ix ks k"
    have j: "?j \<le> length ks" by (rule child_ix_le)
    have "node_kvs ks cs \<noteq> []" using ks len length_node_kvs[OF len] by force
    then have find: "findChildIndex n k = Inr (int ?j - 1)"
      using findChildIndex_node_is[OF n(2)] len by simp
    let ?c = "c\<lparr>ancestors := (ancestors c)[lvl := a], ancestorsIdx := (ancestorsIdx c)[lvl := int ?j - 1]\<rparr>"
    let ?sub = "spath h (cs ! ?j) k"
    have IH: "moveToKey s (taddr (cs ! ?j)) k ?c (int (Suc lvl)) =
      Inr (cursor_put ?c (Suc lvl) (anc (cs ! ?j) ?sub) ?sub (find_ix h (cs ! ?j) k))"
      using ok[OF j] n(3) j len Suc.prems(3,4) by (intro Suc.IH) (auto simp: arrays_ok_def)
    have "cursor_put ?c (Suc lvl) (anc (cs ! ?j) ?sub) ?sub (find_ix h (cs ! ?j) k)
      = cursor_put c lvl (anc t (spath (Suc h) t k)) (spath (Suc h) t k) (find_ix (Suc h) t k)"
      using t Suc.prems(3,4)
      by (simp add: cursor_put_def idxs_def arrays_ok_def take_Suc_conv_app_nth)
    moreover have "moveToKey s a k c (int lvl) = moveToKey s (taddr (cs ! ?j)) k ?c (int (Suc lvl))"
      using n find Suc.prems(3,4) follow_child[OF n(2) len j]
      by (subst moveToKey.simps) (simp add: node_isD[OF n(2)] arrays_ok_def add.commute)
    ultimately show ?thesis using IH t by simp
  qed
qed

text \<open>The leftmost leaf.\<close>

lemma moveToFirst_correct:
  assumes "bt_ok h lo hi f l t" and "rep (nodes s) t" and "lvl + h < 20" and "arrays_ok c"
  shows "moveToFirst s (taddr t) c (int lvl) =
    Inr (cursor_put c lvl (anc t (replicate h 0)) (replicate h 0) 0)"
  using assms
proof (induction h arbitrary: lo hi f l t lvl c)
  case 0
  from 0(1) obtain a es where t: "t = Lf a f l es" by (auto elim: bt_ok_0E)
  with 0(2) obtain n where n: "node_at s a = Inr n" "a \<noteq> 0" "node_is n True f l 0 es"
    using rep_leafE[of s a f l es] by blast
  from n 0 t show ?case
    by (subst moveToFirst.simps)
      (simp add: node_isD[OF n(3)] arrays_ok_def cursor_put_def idxs_def upd_conv_take_nth_drop)
next
  case (Suc h)
  from Suc.prems(1) show ?case
  proof (rule bt_ok_SucE)
    fix a ks cs
    assume t: "t = Nd a False False ks cs" and len: "length cs = Suc (length ks)"
      and ok: "\<And>i. i \<le> length ks \<Longrightarrow>
         bt_ok h (lo_at lo ks i) (hi_at hi ks i) (f \<and> i = 0) (l \<and> i = length ks) (cs ! i)"
    from Suc.prems(2) t obtain n where n: "node_at s a = Inr n" "a \<noteq> 0"
      "node_is n False False False (taddr (hd cs)) (node_kvs ks cs)" "\<forall>c \<in> set cs. rep (nodes s) c"
      using rep_internE[of s a False False ks cs] by blast
    have hd: "hd cs = cs ! 0" "cs ! 0 \<in> set cs" using len by (cases cs; simp)+
    let ?c = "c\<lparr>ancestors := (ancestors c)[lvl := a], level := int lvl,
        ancestorsIdx := (ancestorsIdx c)[lvl := - 1]\<rparr>"
    have IH: "moveToFirst s (taddr (cs ! 0)) ?c (int (Suc lvl)) =
      Inr (cursor_put ?c (Suc lvl) (anc (cs ! 0) (replicate h 0)) (replicate h 0) 0)"
      using ok[of 0] n(4) hd Suc.prems(3,4) by (intro Suc.IH) (auto simp: arrays_ok_def)
    have "cursor_put ?c (Suc lvl) (anc (cs ! 0) (replicate h 0)) (replicate h 0) 0
      = cursor_put c lvl (anc t (replicate (Suc h) 0)) (replicate (Suc h) 0) 0"
      using t Suc.prems(3,4)
      by (simp add: cursor_put_def idxs_def arrays_ok_def take_Suc_conv_app_nth)
    moreover have "moveToFirst s a c (int lvl) = moveToFirst s (taddr (cs ! 0)) ?c (int (Suc lvl))"
      using n Suc.prems(3,4) hd
      by (subst moveToFirst.simps) (simp add: node_isD[OF n(3)] arrays_ok_def add.commute)
    ultimately show ?thesis using IH t by simp
  qed
qed

section \<open>Ascending\<close>

lemma cur_atD:
  assumes "cur_at c t js li" and "vpath t js"
  shows "arrays_ok c" "level c = int (length js)" "length js < 20"
    "i \<le> length js \<Longrightarrow> ancestors c ! i = taddr (subtree t (take i js))"
    "i < length js \<Longrightarrow> ancestorsIdx c ! i = int (js ! i) - 1"
    "ancestorsIdx c ! length js = int li"
proof -
  show "arrays_ok c" "level c = int (length js)" "length js < 20"
    using assms by (simp_all add: cur_at_def arrays_ok_def)
  show "ancestors c ! i = taddr (subtree t (take i js))" if i: "i \<le> length js"
  proof -
    have "ancestors c ! i = take (Suc (length js)) (ancestors c) ! i" using i by simp
    also have "\<dots> = anc t js ! i" using assms(1) by (simp add: cur_at_def)
    also have "\<dots> = taddr (subtree t (take i js))" using anc_nth[OF assms(2) i] .
    finally show ?thesis .
  qed
  have idx: "ancestorsIdx c ! i = idxs js li ! i" if "i \<le> length js" for i
  proof -
    have "ancestorsIdx c ! i = take (Suc (length js)) (ancestorsIdx c) ! i" using that by simp
    then show ?thesis using assms(1) by (simp add: cur_at_def)
  qed
  show "ancestorsIdx c ! i = int (js ! i) - 1" if "i < length js"
    using idx[of i] that by (simp add: idxs_def nth_append)
  show "ancestorsIdx c ! length js = int li"
    using idx[of "length js"] by (simp add: idxs_def nth_append)
qed

lemma take_anc: "vpath t js \<Longrightarrow> d \<le> length js \<Longrightarrow> butlast (anc t (take d js)) = take d (anc t js)"
proof (induction t js arbitrary: d rule: vpath.induct)
  case (2 a f l ks cs j js)
  show ?case
  proof (cases d)
    case (Suc d')
    have "anc (cs ! j) (take d' js) \<noteq> []"
      by (cases "(cs ! j, take d' js)" rule: vpath.cases) auto
    with 2 Suc show ?thesis by simp
  qed simp
qed auto

lemma cur_at_prefix:
  assumes "cur_at c t js li" and "vpath t js" and "d \<le> length js"
  shows "take d (ancestors c) = butlast (anc t (take d js))"
    "take d (ancestorsIdx c) = map (\<lambda>j. int j - 1) (take d js)"
proof -
  have "anc t js = take (Suc (length js)) (ancestors c)"
    using assms(1) by (simp add: cur_at_def)
  then show "take d (ancestors c) = butlast (anc t (take d js))"
    using assms(3) take_anc[OF assms(2,3)] by (simp add: min_def)
  have "idxs js li = take (Suc (length js)) (ancestorsIdx c)"
    using assms(1) by (simp add: cur_at_def)
  then have "take d (ancestorsIdx c) = take d (idxs js li)"
    using assms(3) by (simp add: min_def)
  then show "take d (ancestorsIdx c) = map (\<lambda>j. int j - 1) (take d js)"
    using assms(3) by (simp add: idxs_def take_map)
qed

lemma cursor_put_cur_at:
  assumes "arrays_ok c" and "vpath t js" and "length js < 20"
  shows "cur_at (cursor_put c 0 (anc t js) js li) t js li"
  using assms by (simp add: cur_at_def cursor_put_def arrays_ok_def length_anc)

lemma AscendToParent_correct:
  assumes ok: "bt_ok h None None True True t" and m: "rep (nodes s) t"
    and js: "vpath t js" and c: "cur_at c t js li"
  shows "d \<le> length js \<Longrightarrow> \<exists>d' \<le> d. \<exists>lo hi f l.
     AscendToParent s (c\<lparr>level := int d\<rparr>) k = Inr (c\<lparr>level := int d'\<rparr>) \<and>
     pctx None None True True t (take d' js) = (lo, hi, f, l) \<and> in_bounds lo hi k"
proof (induction d)
  case 0
  then show ?case by (subst AscendToParent.simps) auto
next
  case (Suc d)
  let ?p = "take (Suc d) js" and ?c = "c\<lparr>level := int (Suc d)\<rparr>"
  have p: "vpath t ?p" "?p \<noteq> []" using Suc.prems js vpath_take by auto
  obtain lo hi f l where ctx: "pctx None None True True t ?p = (lo, hi, f, l)"
    by (metis prod_cases4)
  then have flags: "f \<Longrightarrow> lo = None" "l \<Longrightarrow> hi = None"
    using pctx_flags[OF ctx] by auto
  note sub_ok = bt_ok_subtree[OF ok p(1) ctx] and sub_rep = rep_subtree[OF ok p(1) m]
  have addr: "currNode s ?c = node_at s (taddr (subtree t ?p))"
    using cur_atD(1,3)[OF c js] cur_atD(4)[OF c js Suc.prems] Suc.prems
    unfolding currNode_def currAddr_def arrays_ok_def
    by (simp add: aget_def nat_add_distrib)
  have stay: ?case if "AscendToParent s ?c k = Inr ?c" "in_bounds lo hi k"
    using that ctx by auto
  have up: ?case if "AscendToParent s ?c k = AscendToParent s (c\<lparr>level := int d\<rparr>) k"
    using that Suc by (auto intro: le_SucI)
  show ?case
  proof (cases "subtree t ?p")
    case (Lf a f' l' es)
    with sub_ok have es: "f' = f" "l' = l" "\<forall>k \<in> fst ` set es. in_bounds lo hi k"
      by (cases "h - length ?p"; simp)+
    from Lf sub_rep obtain n where n: "node_at s a = Inr n" "node_is n True f' l' 0 es"
      using rep_leafE[of s a f' l' es] by auto
    have ne: "es \<noteq> []" using nkeys_subtree[OF ok p] Lf by auto
    then have entries: "entry_at n 0 = Inr \<lparr>ekey = fst (hd es), eptr = snd (hd es)\<rparr>"
      "entry_at n (int (length es) - 1) = Inr \<lparr>ekey = fst (last es), eptr = snd (last es)\<rparr>"
      using entry_at_node_is[OF n(2), of 0] entry_at_node_is[OF n(2), of "length es - 1"]
      by (simp_all add: hd_conv_nth last_conv_nth of_nat_diff Suc_le_eq)
    have "in_bounds lo hi (fst (hd es))" "in_bounds lo hi (fst (last es))"
      using es(3) ne by simp_all
    moreover define B where "B \<longleftrightarrow> (fst (hd es) \<le> k \<and> k \<le> fst (last es)) \<or> (fst (hd es) \<le> k \<and> l)
      \<or> (k \<le> fst (last es) \<and> f)"
    ultimately have "B \<Longrightarrow> in_bounds lo hi k"
      using flags by (auto simp: in_bounds_def)
    moreover have "AscendToParent s ?c k
      = (if B then Inr ?c else AscendToParent s (c\<lparr>level := int d\<rparr>) k)"
      unfolding B_def using entries n addr Lf es(1,2)
      by (subst AscendToParent.simps) (simp add: node_isD[OF n(2)])
    ultimately show ?thesis using stay up by (cases B) simp_all
  next
    case (Nd a f' l' ks cs)
    obtain h' where h': "h - length ?p = Suc h'"
      using sub_ok Nd by (cases "h - length ?p") simp_all
    with Nd sub_ok have nd: "f' = False" "l' = False" "1 \<le> length ks" "length cs = Suc (length ks)"
      "sorted_wrt (<) ks" "\<forall>k \<in> set ks. sep_bounds lo hi k"
      by simp_all
    from Nd sub_rep obtain n where n: "node_at s a = Inr n"
      "node_is n False f' l' (taddr (hd cs)) (node_kvs ks cs)"
      using rep_internE[of s a f' l' ks cs] by auto
    have "node_kvs ks cs \<noteq> []" using nd length_node_kvs[OF nd(4)] by force
    then have find: "findChildIndex n k = Inr (int (child_ix ks k) - 1)"
      using findChildIndex_node_is[OF n(2)] nd(4) by simp
    define B where "B \<longleftrightarrow> 0 < child_ix ks k \<and> child_ix ks k < length ks"
    have "B \<Longrightarrow> in_bounds (lo_at lo ks (child_ix ks k)) (hi_at hi ks (child_ix ks k)) k"
      using child_ix_nth_le[of "child_ix ks k - 1" ks k] child_ix_nth_gt[OF nd(5), of k "child_ix ks k"]
      by (auto simp: B_def in_bounds_def lo_at_def hi_at_def)
    then have "B \<Longrightarrow> in_bounds lo hi k"
      using in_bounds_mono[OF nd(6) child_ix_le] by blast
    moreover have "isNodeParent n k = Inr B"
      using find child_ix_le[of ks k] nd(4) unfolding isNodeParent_def B_def
      by (auto simp: node_isD[OF n(2)])
    then have "AscendToParent s ?c k
      = (if B then Inr ?c else AscendToParent s (c\<lparr>level := int d\<rparr>) k)"
      using n addr Nd by (subst AscendToParent.simps) (simp add: node_isD[OF n(2)])
    ultimately show ?thesis using stay up by (cases B) simp_all
  qed
qed

text \<open>
  Ascending and descending again ends where a search from the root ends, whatever position
  the cursor starts from.
\<close>

lemma goToKey_correct:
  assumes ok: "bt_ok h None None True True t" and m: "rep (nodes s) t"
    and js: "vpath t js" "length js = h" and c: "cur_at c t js li"
  shows "goToKey s c k = Inr (cursor_put c 0 (anc t (spath h t k)) (spath h t k) (find_ix h t k))"
proof -
  have lv: "c\<lparr>level := int (length js)\<rparr> = c" using cur_atD(2)[OF c js(1)] by simp
  obtain d lo hi f l where d: "d \<le> length js"
    and asc: "AscendToParent s c k = Inr (c\<lparr>level := int d\<rparr>)"
    and ctx: "pctx None None True True t (take d js) = (lo, hi, f, l)" and inb: "in_bounds lo hi k"
    using AscendToParent_correct[OF ok m js(1) c, of "length js" k] lv by auto
  let ?p = "take d js" and ?c = "c\<lparr>level := int d\<rparr>"
  have p: "vpath t ?p" "length ?p = d" using js d vpath_take by auto
  note sp = spath_in_bounds[OF ok p(1) ctx inb]
  note sub_ok = bt_ok_subtree[OF ok p(1) ctx] and sub_rep = rep_subtree[OF ok p(1) m]
  let ?q = "spath (h - d) (subtree t ?p) k"
  have cur: "currAddr ?c = Inr (taddr (subtree t ?p))"
    using cur_atD(1,3)[OF c js(1)] cur_atD(4)[OF c js(1) d] d
    by (simp add: currAddr_def aget_def arrays_ok_def)
  have "moveToKey s (taddr (subtree t ?p)) k ?c (int d) =
    Inr (cursor_put ?c d (anc (subtree t ?p) ?q) ?q (find_ix (h - d) (subtree t ?p) k))"
    using sub_ok sub_rep p(2) cur_atD(1,3)[OF c js(1)] js(2) d
    by (intro moveToKey_correct) (auto simp: arrays_ok_def)
  moreover have q: "length ?q = h - d" using spath_vpath[OF sub_ok] p(2) by simp
  moreover have "cursor_put ?c d (anc (subtree t ?p) ?q) ?q (find_ix (h - d) (subtree t ?p) k)
     = cursor_put c 0 (anc t (spath h t k)) (spath h t k) (find_ix h t k)"
    using d js(2) p(2) q sp anc_append[OF p(1)] subtree_append[OF p(1)]
      cur_at_prefix[OF c js(1) d]
    by (simp add: cursor_put_def idxs_def)
  ultimately show ?thesis
    unfolding goToKey_def using asc cur by simp
qed

end
