(* ===== verification/Relation_Cursor.thy ===== *)
theory Relation_Cursor
  imports Relation_Search
begin

text \<open>
  Stepping through the records. The position of a cursor is the number of records before it
  (\<open>cpos\<close>), an index into the sorted content of the tree: \<open>moveToKey\<close> ends at the first
  record whose key is not less than the key, \<open>RL_GetRecord\<close> and \<open>RL_GetKey\<close> read the record
  at the position, and \<open>RL_MoveToNext\<close> goes to the next position, over all leaves.
\<close>

lemma bt_ok_child:
  "bt_ok (Suc h) lo hi f l (Nd a f' l' ks cs) \<Longrightarrow> i \<le> length ks \<Longrightarrow>
   bt_ok h (lo_at lo ks i) (hi_at hi ks i) (f \<and> i = 0) (l \<and> i = length ks) (cs ! i)"
  by simp

section \<open>Positions\<close>

fun cpos :: "bt \<Rightarrow> nat list \<Rightarrow> nat \<Rightarrow> nat" where
  "cpos (Nd a f l ks cs) (j # js) li = length (concat (map contents (take j cs))) + cpos (cs ! j) js li"
| "cpos _ _ li = li"

definition leaf_at :: "bt \<Rightarrow> nat list \<Rightarrow> kvs" where
  "leaf_at t js = leaf_kvs (subtree t js)"

text \<open>A full path: it ends in a leaf.\<close>

definition fpath :: "nat \<Rightarrow> bt \<Rightarrow> nat list \<Rightarrow> bool" where
  "fpath h t js \<longleftrightarrow> vpath t js \<and> length js = h"

lemma leaf_subtree:
  assumes "bt_ok h lo hi f l t" and "fpath h t js" and "pctx lo hi f l t js = (lo', hi', f', l')"
  obtains a where "subtree t js = Lf a f' l' (leaf_at t js)"
  using bt_ok_subtree[OF assms(1) _ assms(3)] assms(2)
  by (auto simp: fpath_def leaf_at_def elim!: bt_ok_0E)

lemma concat_map_nth_split:
  "j < length xs \<Longrightarrow>
   concat (map g xs) = concat (map g (take j xs)) @ g (xs ! j) @ concat (map g (drop (Suc j) xs))"
  by (metis Cons_nth_drop_Suc append_take_drop_id concat.simps(2) concat_append list.simps(9) map_append)

lemma cpos_nth:
  "bt_ok h lo hi f l t \<Longrightarrow> vpath t js \<Longrightarrow> length js = h \<Longrightarrow> li \<le> length (leaf_at t js) \<Longrightarrow>
   cpos t js li \<le> length (contents t) \<and>
   take (length (leaf_at t js) - li) (drop (cpos t js li) (contents t)) = drop li (leaf_at t js)"
proof (induction rule: path_induct)
  case (Nil h lo hi f l t)
  then show ?case by (auto simp: leaf_at_def elim!: bt_ok_0E)
next
  case (Cons h lo hi f l a ks cs j js)
  then have j: "j < length cs" by simp
  have IH: "cpos (cs ! j) js li \<le> length (contents (cs ! j))"
    "take (length (leaf_at (cs ! j) js) - li) (drop (cpos (cs ! j) js li) (contents (cs ! j)))
      = drop li (leaf_at (cs ! j) js)"
    using Cons by (simp_all add: leaf_at_def)
  then have "length (leaf_at (cs ! j) js) - li \<le> length (contents (cs ! j)) - cpos (cs ! j) js li"
    by (metis length_drop length_take min.cobounded1)
  with IH show ?case
    using Cons.prems by (simp add: leaf_at_def concat_map_nth_split[OF j])
qed

lemma cpos_entry:
  assumes "bt_ok h lo hi f l t" and "fpath h t js" and "li < length (leaf_at t js)"
  shows "cpos t js li < length (contents t)" "contents t ! cpos t js li = leaf_at t js ! li"
proof -
  let ?n = "length (leaf_at t js) - li"
  have eq: "take ?n (drop (cpos t js li) (contents t)) = drop li (leaf_at t js)"
    and le: "cpos t js li \<le> length (contents t)"
    using cpos_nth[OF assms(1), of js li] assms(2,3) by (auto simp: fpath_def)
  have n: "0 < ?n" using assms(3) by simp
  have "take ?n (drop (cpos t js li) (contents t)) \<noteq> []" using eq assms(3) by simp
  then show lt: "cpos t js li < length (contents t)" using le by auto
  have "contents t ! cpos t js li = take ?n (drop (cpos t js li) (contents t)) ! 0"
    using lt n by (simp add: le)
  then show "contents t ! cpos t js li = leaf_at t js ! li"
    using eq assms(3) by simp
qed

lemma cpos_Suc: "vpath t js \<Longrightarrow> cpos t js (li + n) = cpos t js li + n"
  by (induction t js li rule: cpos.induct) auto

text \<open>The search ends before the first key that is not less than the key searched for.\<close>

lemma rec_ix_append_left:
  "\<forall>x \<in> set xs. x < k \<Longrightarrow> rec_ix (xs @ ys) k = length xs + rec_ix ys k"
  by (induction xs) (auto simp: rec_ix_def)

lemma rec_ix_append_right:
  "\<forall>y \<in> set ys. k < y \<Longrightarrow> rec_ix (xs @ ys) k = rec_ix xs k"
proof (induction xs)
  case Nil
  then show ?case by (cases ys) (auto simp: rec_ix_def)
next
  case (Cons x xs)
  then show ?case by (simp add: rec_ix_def)
qed

text \<open>Everything left of a child whose range covers \<open>k\<close> is smaller, everything right of it larger.\<close>

lemma children_before:
  assumes "bt_ok (Suc h) lo hi f l (Nd a f' l' ks cs)" and "j \<le> length ks"
    and "in_bounds (lo_at lo ks j) (hi_at hi ks j) k"
    and "x \<in> fst ` set (concat (map contents (take j cs)))"
  shows "x < k"
proof -
  have len: "length cs = Suc (length ks)" and sk: "sorted_wrt (<) ks"
    and ok: "\<And>i. i < length cs \<Longrightarrow>
       bt_ok h (lo_at lo ks i) (hi_at hi ks i) (f \<and> i = 0) (l \<and> i = length ks) (cs ! i)"
    using assms(1) by simp_all
  obtain c where c: "c \<in> set (take j cs)" "x \<in> fst ` set (contents c)"
    using assms(4) by auto
  obtain i where i: "i < length (take j cs)" "take j cs ! i = c"
    using c(1) unfolding in_set_conv_nth by blast
  have ij: "i < j" "i < length cs" "cs ! i = c" using i by simp_all
  have "in_bounds (lo_at lo ks i) (hi_at hi ks i) x"
    using bt_ok_keys[OF ok[OF ij(2)]] c(2) ij(3) by simp
  then have "x < ks ! i" using ij(1) assms(2) by (simp add: in_bounds_def hi_at_def)
  also have "ks ! i \<le> ks ! (j - 1)"
  proof (cases "i = j - 1")
    case False
    then have "ks ! i < ks ! (j - 1)"
      using ij(1) assms(2) by (intro sorted_wrt_nth_less[OF sk]) simp_all
    then show ?thesis by simp
  qed simp
  also have "ks ! (j - 1) \<le> k" using ij(1) assms(3) by (simp add: in_bounds_def lo_at_def)
  finally show ?thesis .
qed

lemma children_after:
  assumes "bt_ok (Suc h) lo hi f l (Nd a f' l' ks cs)" and "j \<le> length ks"
    and "in_bounds (lo_at lo ks j) (hi_at hi ks j) k"
    and "x \<in> fst ` set (concat (map contents (drop (Suc j) cs)))"
  shows "k < x"
proof -
  have len: "length cs = Suc (length ks)" and sk: "sorted_wrt (<) ks"
    and ok: "\<And>i. i < length cs \<Longrightarrow>
       bt_ok h (lo_at lo ks i) (hi_at hi ks i) (f \<and> i = 0) (l \<and> i = length ks) (cs ! i)"
    using assms(1) by simp_all
  obtain c where c: "c \<in> set (drop (Suc j) cs)" "x \<in> fst ` set (contents c)"
    using assms(4) by auto
  obtain i' where i': "i' < length (drop (Suc j) cs)" "drop (Suc j) cs ! i' = c"
    using c(1) unfolding in_set_conv_nth by blast
  define i where "i = Suc j + i'"
  have ij: "j < i" "i < length cs" "cs ! i = c" using i' by (simp_all add: i_def)
  have "k < ks ! j" using ij len assms(3) by (simp add: in_bounds_def hi_at_def)
  also have "ks ! j \<le> ks ! (i - 1)"
  proof (cases "j = i - 1")
    case False
    then have "ks ! j < ks ! (i - 1)"
      using ij len by (intro sorted_wrt_nth_less[OF sk]) simp_all
    then show ?thesis by simp
  qed simp
  also have "ks ! (i - 1) \<le> x"
  proof -
    have "in_bounds (lo_at lo ks i) (hi_at hi ks i) x"
      using bt_ok_keys[OF ok[OF ij(2)]] c(2) ij(3) by simp
    then show ?thesis using ij(1) by (simp add: in_bounds_def lo_at_def)
  qed
  finally show ?thesis .
qed

lemma cpos_search:
  "bt_ok h lo hi f l t \<Longrightarrow> in_bounds lo hi k \<Longrightarrow>
   cpos t (spath h t k) (find_ix h t k) = rec_ix (map fst (contents t)) k"
proof (induction h arbitrary: lo hi f l t)
  case 0
  then show ?case by (auto elim!: bt_ok_0E)
next
  case (Suc h)
  from Suc.prems(1) show ?case
  proof (rule bt_ok_SucE)
    fix a ks cs
    assume t: "t = Nd a False False ks cs" and len: "length cs = Suc (length ks)"
      and sk: "sorted_wrt (<) ks"
      and ok: "\<And>i. i \<le> length ks \<Longrightarrow>
         bt_ok h (lo_at lo ks i) (hi_at hi ks i) (f \<and> i = 0) (l \<and> i = length ks) (cs ! i)"
    let ?j = "child_ix ks k"
    have j: "?j \<le> length ks" "?j < length cs" using child_ix_le[of ks k] len by auto
    have inb: "in_bounds (lo_at lo ks ?j) (hi_at hi ks ?j) k"
      using Suc.prems(2) sk by (rule in_bounds_child)
    have "map fst (contents t) = map fst (concat (map contents (take ?j cs))) @
       map fst (contents (cs ! ?j)) @ map fst (concat (map contents (drop (Suc ?j) cs)))"
      using t by (simp add: concat_map_nth_split[OF j(2)])
    moreover have "\<forall>x \<in> set (map fst (concat (map contents (take ?j cs)))). x < k"
      using children_before[OF Suc.prems(1)[unfolded t] j(1) inb] by (simp del: map_concat)
    moreover have "\<forall>x \<in> set (map fst (concat (map contents (drop (Suc ?j) cs)))). k < x"
      using children_after[OF Suc.prems(1)[unfolded t] j(1) inb] by (simp del: map_concat)
    ultimately have "rec_ix (map fst (contents t)) k
      = length (concat (map contents (take ?j cs))) + rec_ix (map fst (contents (cs ! ?j))) k"
      by (simp add: rec_ix_append_left rec_ix_append_right)
    with Suc.IH[OF ok[OF j(1)] inb] show ?thesis by (simp add: t)
  qed
qed

section \<open>The next leaf\<close>

fun nxt :: "bt \<Rightarrow> nat list \<Rightarrow> nat list option" where
  "nxt (Nd a f l ks cs) (j # js) =
     (case nxt (cs ! j) js of
        Some js' \<Rightarrow> Some (j # js')
      | None \<Rightarrow> if j < length ks then Some (Suc j # replicate (length js) 0) else None)"
| "nxt _ _ = None"

lemma pctx_last_nxt:
  "bt_ok h lo hi f l t \<Longrightarrow> vpath t js \<Longrightarrow> pctx lo hi f l t js = (lo', hi', f', l') \<Longrightarrow>
   l' \<longleftrightarrow> l \<and> nxt t js = None"
proof (induction rule: path_induct)
  case (Cons h lo hi f l a ks cs j js)
  then show ?case by (auto split: option.splits)
qed simp

lemma fpath_leftmost:
  "bt_ok h lo hi f l t \<Longrightarrow> vpath t (replicate h 0) \<and> cpos t (replicate h 0) n = n"
proof (induction h arbitrary: lo hi f l t)
  case (Suc h)
  from Suc.prems show ?case
    by (rule bt_ok_SucE) (use Suc.IH in \<open>fastforce simp: lo_at_def\<close>)
qed (auto elim!: bt_ok_0E)

lemma nxt_None:
  "bt_ok h lo hi f l t \<Longrightarrow> vpath t js \<Longrightarrow> length js = h \<Longrightarrow> nxt t js = None \<Longrightarrow>
   cpos t js (length (leaf_at t js)) = length (contents t)"
proof (induction rule: path_induct)
  case (Nil h lo hi f l t)
  then show ?case by (auto simp: leaf_at_def elim!: bt_ok_0E)
next
  case (Cons h lo hi f l a ks cs j js)
  then have "nxt (cs ! j) js = None" "j = length ks"
    by (auto split: option.splits if_splits)
  with Cons show ?case
    by (simp add: leaf_at_def concat_map_nth_split[of "length ks" cs contents])
qed

lemma nxt_Some:
  "bt_ok h lo hi f l t \<Longrightarrow> vpath t js \<Longrightarrow> length js = h \<Longrightarrow> nxt t js = Some js' \<Longrightarrow>
   vpath t js' \<and> length js' = h \<and> cpos t js' 0 = cpos t js (length (leaf_at t js))"
proof (induction arbitrary: js' rule: path_induct)
  case (Cons h lo hi f l a ks cs j js)
  show ?case
  proof (cases "nxt (cs ! j) js")
    case (Some js1)
    with Cons show ?thesis by (auto simp: leaf_at_def)
  next
    case None
    with Cons.prems have js': "j < length ks" "js' = Suc j # replicate h 0"
      by (auto split: if_splits)
    note ok = bt_ok_child[OF Cons.hyps(1), of "Suc j"]
    have "cpos (cs ! j) js (length (leaf_at (cs ! j) js)) = length (contents (cs ! j))"
      using nxt_None[OF Cons.hyps(8,6) _ None] Cons.prems(1) by simp
    then show ?thesis
      using js' fpath_leftmost[OF ok] Cons.hyps(2) by (simp add: leaf_at_def take_Suc_conv_app_nth)
  qed
qed simp

lemma nxt_no_turn:
  "vpath t js \<Longrightarrow> \<forall>i < length js. js ! i = nkeys (subtree t (take i js)) \<Longrightarrow> nxt t js = None"
proof (induction t js rule: vpath.induct)
  case (2 a f l ks cs j js)
  from "2.prems"(2) have "\<forall>i < length js. js ! i = nkeys (subtree (cs ! j) (take i js))"
    by (metis Suc_less_eq length_Cons nth_Cons_Suc subtree.simps(2) take_Suc_Cons)
  moreover have "j = length ks" using "2.prems"(2) by force
  ultimately show ?case using 2 by simp
qed auto

text \<open>Where the climb of \<open>moveToNext\<close> turns: the lowest level whose child is not the last one.\<close>

lemma nxt_turn:
  "vpath t js \<Longrightarrow> d < length js \<Longrightarrow> js ! d < nkeys (subtree t (take d js)) \<Longrightarrow>
   (\<forall>i. d < i \<and> i < length js \<longrightarrow> js ! i = nkeys (subtree t (take i js))) \<Longrightarrow>
   nxt t js = Some (take d js @ Suc (js ! d) # replicate (length js - Suc d) 0)"
proof (induction t js arbitrary: d rule: vpath.induct)
  case (2 a f l ks cs j js)
  show ?case
  proof (cases d)
    case 0
    have "js ! i = nkeys (subtree (cs ! j) (take i js))" if "i < length js" for i
      using "2.prems"(4)[rule_format, of "Suc i"] that 0 by simp
    then show ?thesis using 0 "2.prems" nxt_no_turn[of "cs ! j" js] by simp
  next
    case (Suc d')
    have "js ! i = nkeys (subtree (cs ! j) (take i js))" if "d' < i" "i < length js" for i
      using "2.prems"(4)[rule_format, of "Suc i"] that Suc by simp
    then show ?thesis using Suc "2.prems" "2.IH"[of d'] by simp
  qed
qed auto

section \<open>The cursor's moves\<close>

text \<open>The node and the index that the cursor's arrays hold at a level of its path.\<close>

lemma cur_at_level:
  assumes ok: "bt_ok h lo hi f l t" and m: "rep (nodes s) t"
    and js: "vpath t js" and c: "cur_at c t js li" and d: "d \<le> length js"
  obtains n where "currNode s (c\<lparr>level := int d\<rparr>) = Inr n"
    "node_at s (taddr (subtree t (take d js))) = Inr n"
    "numKeys n = int (nkeys (subtree t (take d js)))"
    "isLeaf n = (d = h)" 
    "entryIndex (c\<lparr>level := int d\<rparr>) = Inr (if d < length js then int (js ! d) - 1 else int li)"
proof -
  let ?p = "take d js"
  have p: "vpath t ?p" "length ?p = d" using js vpath_take d by auto
  obtain lo' hi' f' l' where ctx: "pctx lo hi f l t ?p = (lo', hi', f', l')" by (metis prod_cases4)
  note sub_ok = bt_ok_subtree[OF ok p(1) ctx] and sub_rep = rep_subtree[OF ok p(1) m]
  have dh: "d \<le> h" using vpath_length[OF ok p(1)] p(2) by simp
  have addr: "currNode s (c\<lparr>level := int d\<rparr>) = node_at s (taddr (subtree t ?p))"
    using cur_atD(1,3)[OF c js] cur_atD(4)[OF c js d] d
    by (simp add: currNode_def currAddr_def arrays_ok_def)
  have idx: "entryIndex (c\<lparr>level := int d\<rparr>) = Inr (if d < length js then int (js ! d) - 1 else int li)"
    using cur_atD(1,3)[OF c js] cur_atD(5)[OF c js] cur_atD(6)[OF c js] d
    by (auto simp: entryIndex_def arrays_ok_def)
  show thesis
  proof (cases "subtree t ?p")
    case (Lf a f1 l1 es)
    with sub_ok have "h - d = 0" using p(2) by (cases "h - d") auto
    moreover obtain n where "node_at s a = Inr n" "node_is n True f1 l1 0 es"
      using rep_leafE[of s a f1 l1 es] sub_rep Lf by metis
    ultimately show thesis
      using that[of n] addr idx Lf dh node_isD[of n] by simp
  next
    case (Nd a f1 l1 ks cs)
    with sub_ok obtain h' where "h - d = Suc h'" using p(2) by (cases "h - d") auto
    moreover from this Nd sub_ok have "length cs = Suc (length ks)" using p(2) by simp
    moreover obtain n where "node_at s a = Inr n" "node_is n False f1 l1 (taddr (hd cs)) (node_kvs ks cs)"
      using rep_internE[of s a f1 l1 ks cs] sub_rep Nd by metis
    ultimately show thesis
      using that[of n] addr idx Nd dh node_isD[of n] by simp
  qed
qed

lemma ascend_last_correct:
  assumes ok: "bt_ok h lo hi f l t" and m: "rep (nodes s) t"
    and js: "fpath h t js" and c: "cur_at c t js (length (leaf_at t js))"
  shows "d \<le> length js \<Longrightarrow> \<exists>d' \<le> d. ascend_last s (c\<lparr>level := int d\<rparr>) = Inr (c\<lparr>level := int d'\<rparr>) \<and>
    (\<forall>i. d' < i \<and> i \<le> d \<and> i < length js \<longrightarrow> js ! i = nkeys (subtree t (take i js))) \<and>
    (0 < d' \<longrightarrow> d' < length js \<and> js ! d' \<noteq> nkeys (subtree t (take d' js)))"
proof (induction d)
  case 0
  then show ?case by (subst ascend_last.simps) auto
next
  case (Suc d)
  have v: "vpath t js" "length js = h" using js by (simp_all add: fpath_def)
  obtain n where n: "currNode s (c\<lparr>level := int (Suc d)\<rparr>) = Inr n"
    "numKeys n = int (nkeys (subtree t (take (Suc d) js)))" "isLeaf n = (Suc d = h)"
    "entryIndex (c\<lparr>level := int (Suc d)\<rparr>) = Inr (if Suc d < length js then int (js ! Suc d) - 1
        else int (length (leaf_at t js)))"
    using cur_at_level[OF ok m v(1) c Suc.prems] by metis
  define B where "B \<longleftrightarrow> (Suc d < length js \<longrightarrow> js ! Suc d = nkeys (subtree t (take (Suc d) js)))"
  have leaf: "nkeys (subtree t js) = length (leaf_at t js)"
  proof -
    obtain lo' hi' f' l' where "pctx lo hi f l t js = (lo', hi', f', l')" by (metis prod_cases4)
    from leaf_subtree[OF ok js this] show ?thesis by (metis nkeys.simps(1) leaf_kvs_Lf leaf_at_def)
  qed
  have step: "ascend_last s (c\<lparr>level := int (Suc d)\<rparr>)
    = (if B then ascend_last s (c\<lparr>level := int d\<rparr>) else Inr (c\<lparr>level := int (Suc d)\<rparr>))"
    using n Suc.prems v(2) leaf
    by (subst ascend_last.simps) (auto simp: B_def lastpointer_def)
  then show ?case
  proof (cases B)
    case True
    with Suc.IH Suc.prems obtain d' where d': "d' \<le> d"
      "ascend_last s (c\<lparr>level := int d\<rparr>) = Inr (c\<lparr>level := int d'\<rparr>)"
      "\<forall>i. d' < i \<and> i \<le> d \<and> i < length js \<longrightarrow> js ! i = nkeys (subtree t (take i js))"
      "0 < d' \<longrightarrow> d' < length js \<and> js ! d' \<noteq> nkeys (subtree t (take d' js))"
      by auto
    have "js ! i = nkeys (subtree t (take i js))" if "d' < i" "i \<le> Suc d" "i < length js" for i
      using that d'(3) True unfolding B_def by (cases "i = Suc d") auto
    then show ?thesis using d' True step by (intro exI[of _ d']) auto
  next
    case False
    then show ?thesis
      using Suc.prems step by (intro exI[of _ "Suc d"]) (auto simp: B_def)
  qed
qed

lemma leaf_node:
  assumes ok: "bt_ok h lo hi f l t" and m: "rep (nodes s) t"
    and js: "fpath h t js" and c: "cur_at c t js li"
  obtains n a lo' hi' f' l' where "currNode s c = Inr n" "entryIndex c = Inr (int li)"
    "subtree t js = Lf a f' l' (leaf_at t js)" "nodes s a = Some n"
    "node_is n True f' l' 0 (leaf_at t js)" "pctx lo hi f l t js = (lo', hi', f', l')"
proof -
  have v: "vpath t js" "length js = h" using js by (simp_all add: fpath_def)
  have lv: "c\<lparr>level := int (length js)\<rparr> = c" using cur_atD(2)[OF c v(1)] by simp
  obtain lo' hi' f' l' where ctx: "pctx lo hi f l t js = (lo', hi', f', l')" by (metis prod_cases4)
  obtain a where sub: "subtree t js = Lf a f' l' (leaf_at t js)"
    using leaf_subtree[OF ok js ctx] by blast
  obtain n where n: "node_at s a = Inr n" "nodes s a = Some n" "node_is n True f' l' 0 (leaf_at t js)"
    using rep_leafE[of s a f' l' "leaf_at t js"] rep_subtree[OF ok v(1) m] sub by metis
  show thesis
    using that[OF _ _ sub n(2,3) ctx] cur_at_level[OF ok m v(1) c order_refl] n(1) sub lv by auto
qed

lemma isValid_correct:
  assumes ok: "bt_ok h None None True True t" and m: "rep (nodes s) t"
    and js: "fpath h t js" and c: "cur_at c t js li"
  shows "isValid s c = Inr (\<not> (li = length (leaf_at t js) \<and> nxt t js = None))"
proof -
  obtain n a lo' hi' f' l' where n: "currNode s c = Inr n" "entryIndex c = Inr (int li)"
    "node_is n True f' l' 0 (leaf_at t js)" "pctx None None True True t js = (lo', hi', f', l')"
    using leaf_node[OF ok m js c] by metis
  then show ?thesis
    using pctx_last_nxt[OF ok _ n(4)] js
    by (auto simp: isValid_def node_isD[OF n(3)] fpath_def)
qed

lemma moveToNext_in_leaf:
  assumes ok: "bt_ok h None None True True t" and m: "rep (nodes s) t"
    and js: "fpath h t js" and c: "cur_at c t js li" and li: "li < length (leaf_at t js)"
    and nr: "numRecords s \<noteq> 0"
  obtains c' where "moveToNext s c = Inr c'" "cur_at c' t js (Suc li)"
proof -
  obtain n a lo' hi' f' l' where n: "currNode s c = Inr n" "entryIndex c = Inr (int li)"
    "node_is n True f' l' 0 (leaf_at t js)" "pctx None None True True t js = (lo', hi', f', l')"
    using leaf_node[OF ok m js c] by metis
  have asc: "ascend_last s c = Inr c"
    using n li by (subst ascend_last.simps) (simp add: lastpointer_def node_isD[OF n(3)])
  have v: "isValid s c = Inr True" using isValid_correct[OF ok m js c] li by simp
  let ?c = "c\<lparr>ancestorsIdx := (ancestorsIdx c)[length js := int (Suc li)]\<rparr>"
  have vp: "vpath t js" using js by (simp add: fpath_def)
  note cd = cur_atD(1-3)[OF c vp]
  have set: "aset (ancestorsIdx c) (level c) (int li + 1) = Inr ((ancestorsIdx c)[length js := int (Suc li)])"
    using cd by (simp add: arrays_ok_def add.commute)
  have "currNode s ?c = Inr n" using n(1) by (simp add: currNode_def currAddr_def)
  then have "moveToNext s c = Inr ?c"
    using nr v asc n(2) set by (simp add: moveToNext_def node_isD[OF n(3)])
  moreover have "cur_at ?c t js (Suc li)"
    using c by (simp add: cur_at_def idxs_def take_update_swap list_update_append)
  ultimately show thesis by (rule that)
qed

lemma moveToNext_end:
  assumes "bt_ok h None None True True t" and "rep (nodes s) t"
    and "fpath h t js" and "cur_at c t js (length (leaf_at t js))" and "nxt t js = None"
  shows "moveToNext s c = Inr c"
  using isValid_correct[OF assms(1-4)] assms(5) by (simp add: moveToNext_def)

text \<open>The level the climb stops at is the one at which \<open>nxt\<close> turns.\<close>

lemma nxt_shape:
  assumes js: "vpath t js" and nx: "nxt t js = Some js'" and d: "d \<le> length js"
    and above: "\<forall>i. d < i \<and> i < length js \<longrightarrow> js ! i = nkeys (subtree t (take i js))"
    and turn: "0 < d \<longrightarrow> d < length js \<and> js ! d \<noteq> nkeys (subtree t (take d js))"
  shows "d < length js" "js ! d < nkeys (subtree t (take d js))"
    "js' = take d js @ Suc (js ! d) # replicate (length js - Suc d) 0"
proof -
  have pos: "0 < length js" using nx by (cases js) auto
  show dl: "d < length js" using turn pos by (cases "d = 0") auto
  have "vpath (subtree t (take d js)) (drop d js)"
    using js vpath_append[of t "take d js" "drop d js"] by simp
  then have "vpath (subtree t (take d js)) (js ! d # drop (Suc d) js)"
    by (simp add: Cons_nth_drop_Suc dl)
  then have le: "js ! d \<le> nkeys (subtree t (take d js))"
    by (cases "subtree t (take d js)") auto
  have "js ! d \<noteq> nkeys (subtree t (take d js))"
  proof (cases "d = 0")
    case True
    show ?thesis
    proof
      assume eq: "js ! d = nkeys (subtree t (take d js))"
      have "js ! i = nkeys (subtree t (take i js))" if "i < length js" for i
        using that eq above True by (cases "i = 0") auto
      then have "nxt t js = None" by (intro nxt_no_turn[OF js]) simp
      with nx show False by simp
    qed
  qed (use turn in simp)
  with le show lt: "js ! d < nkeys (subtree t (take d js))" by simp
  show "js' = take d js @ Suc (js ! d) # replicate (length js - Suc d) 0"
    using nxt_turn[OF js dl lt above] nx by simp
qed

text \<open>The leftmost leaf below the child after the one the cursor came from.\<close>

lemma cur_at_descend:
  assumes js: "vpath t js" and c: "cur_at c t js li" and dl: "d < length js"
    and sub: "subtree t (take d js) = Nd a f l ks cs" and js': "js' = take d js @ j # replicate h' 0"
    and v: "vpath (cs ! j) (replicate h' 0)" and h': "length js = Suc (d + h')"
  shows "cur_at (cursor_put (c\<lparr>level := int d, ancestorsIdx := (ancestorsIdx c)[d := int j - 1]\<rparr>)
    (Suc d) (anc (cs ! j) (replicate h' 0)) (replicate h' 0) 0) t js' 0"
proof -
  have p: "vpath t (take d js)" "length (take d js) = d" using js dl vpath_take by auto
  note cd = cur_atD(1-3)[OF c js]
  have dle: "d \<le> length js" using dl by simp
  have "anc t js' = take d (ancestors c) @ a # anc (cs ! j) (replicate h' 0)"
    using js' anc_append[OF p(1)] sub cur_at_prefix(1)[OF c js dle] by simp
  moreover have "ancestors c ! d = a" using cur_atD(4)[OF c js dle] sub by simp
  moreover have "length (anc (cs ! j) (replicate h' 0)) = Suc h'"
    using length_anc[OF v] by simp
  moreover have "length js' = Suc (d + h')" using js' p(2) by simp
  moreover have "take d (ancestorsIdx c) = map (\<lambda>j. int j - 1) (take d js)"
    by (rule cur_at_prefix(2)[OF c js dle])
  ultimately show ?thesis
    using js' cd dl h'
    by (simp add: cur_at_def cursor_put_def arrays_ok_def idxs_def take_Suc_conv_app_nth)
qed

lemma moveToNext_next_leaf:
  assumes ok: "bt_ok h None None True True t" and m: "rep (nodes s) t"
    and js: "fpath h t js" and c: "cur_at c t js (length (leaf_at t js))"
    and nx: "nxt t js = Some js'" and nr: "numRecords s \<noteq> 0"
  obtains c' where "moveToNext s c = Inr c'" "cur_at c' t js' 0"
proof -
  have vp: "vpath t js" "length js = h" using js by (simp_all add: fpath_def)
  note cd = cur_atD(1-3)[OF c vp(1)]
  have lv: "c\<lparr>level := int (length js)\<rparr> = c" using cd by simp
  have v: "isValid s c = Inr True" using isValid_correct[OF ok m js c] nx by simp
  obtain d where d0: "d \<le> length js" "ascend_last s c = Inr (c\<lparr>level := int d\<rparr>)"
    "\<forall>i. d < i \<and> i \<le> length js \<and> i < length js \<longrightarrow> js ! i = nkeys (subtree t (take i js))"
    "0 < d \<longrightarrow> d < length js \<and> js ! d \<noteq> nkeys (subtree t (take d js))"
    using ascend_last_correct[OF ok m js c order_refl, unfolded lv] by blast
  then have above: "\<forall>i. d < i \<and> i < length js \<longrightarrow> js ! i = nkeys (subtree t (take i js))"
    by simp
  note sh = nxt_shape[OF vp(1) nx d0(1) above d0(4)]
  let ?p = "take d js"
  have p: "vpath t ?p" "length ?p = d" using vp d0(1) vpath_take by auto
  obtain lo' hi' f' l' where ctx: "pctx None None True True t ?p = (lo', hi', f', l')"
    by (metis prod_cases4)
  note sub_ok = bt_ok_subtree[OF ok p(1) ctx] and sub_rep = rep_subtree[OF ok p(1) m]
  obtain h' where h': "h - d = Suc h'" using sh(1) vp by (cases "h - d") auto
  with sub_ok p(2) have sub_ok': "bt_ok (Suc h') lo' hi' f' l' (subtree t ?p)" by simp
  obtain a ks cs where sub: "subtree t ?p = Nd a False False ks cs" and len: "length cs = Suc (length ks)"
    using sub_ok' by (rule bt_ok_SucE)
  obtain n where n: "node_at s a = Inr n" "node_is n False False False (taddr (hd cs)) (node_kvs ks cs)"
      "\<forall>c \<in> set cs. rep (nodes s) c"
    using rep_internE[of s a False False ks cs] sub_rep sub by metis
  obtain n' where n': "currNode s (c\<lparr>level := int d\<rparr>) = Inr n'" "node_at s (taddr (subtree t ?p)) = Inr n'"
    "entryIndex (c\<lparr>level := int d\<rparr>) = Inr (if d < length js then int (js ! d) - 1 else int (length (leaf_at t js)))"
    using cur_at_level[OF ok m vp(1) c d0(1)] by blast
  have cn: "currNode s (c\<lparr>level := int d\<rparr>) = Inr n" "entryIndex (c\<lparr>level := int d\<rparr>) = Inr (int (js ! d) - 1)"
    using n' n(1) sub sh(1) by simp_all
  let ?j = "Suc (js ! d)"
  let ?c = "c\<lparr>level := int d, ancestorsIdx := (ancestorsIdx c)[d := int ?j - 1]\<rparr>"
  have jl: "?j \<le> length ks" "?j < length cs" using sh(2) sub len by auto
  have entry: "entry_at n (int ?j - 1) = Inr \<lparr>ekey = ks ! (js ! d), eptr = taddr (cs ! ?j)\<rparr>"
    using entry_at_node_is[OF n(2), of "js ! d"] jl len by (simp add: node_kvs_nth)
  have okj: "bt_ok h' (lo_at lo' ks ?j) (hi_at hi' ks ?j) (f' \<and> ?j = 0) (l' \<and> ?j = length ks) (cs ! ?j)"
    using bt_ok_child[OF sub_ok'[unfolded sub] jl(1)] .
  have mf: "moveToFirst s (taddr (cs ! ?j)) ?c (int (Suc d)) =
    Inr (cursor_put ?c (Suc d) (anc (cs ! ?j) (replicate h' 0)) (replicate h' 0) 0)"
    using okj n(3) jl(2) cd h' vp by (intro moveToFirst_correct) (auto simp: arrays_ok_def)
  have set: "aset (ancestorsIdx c) (int d) (int (js ! d)) = Inr ((ancestorsIdx c)[d := int (js ! d)])"
    using cd sh(1) by (simp add: arrays_ok_def)
  have c1: "currNode s ?c = Inr n" using cn(1) by (simp add: currNode_def currAddr_def)
  have c2: "entryIndex ?c = Inr (int ?j - 1)"
    using cd sh(1) by (simp add: entryIndex_def arrays_ok_def)
  have "moveToNext s c = moveToFirst s (taddr (cs ! ?j)) ?c (int (Suc d))"
    using nr v d0(2) cn(2) set entry c1 c2
    by (simp add: moveToNext_def node_isD[OF n(2)] add.commute)
  moreover have "cur_at (cursor_put ?c (Suc d) (anc (cs ! ?j) (replicate h' 0)) (replicate h' 0) 0) t js' 0"
    using sh h' vp(2) fpath_leftmost[OF okj]
    by (intro cur_at_descend[OF vp(1) c sh(1) sub]) (auto simp: Suc_diff_Suc)
  ultimately show thesis using mf by (intro that) simp_all
qed

section \<open>The invariant of a relation and the position of a cursor\<close>

definition rel_inv :: "rl \<Rightarrow> nat \<Rightarrow> bt \<Rightarrow> bool" where
  "rel_inv s h t \<longleftrightarrow>
     bt_ok h None None True True t \<and> rep (nodes s) t \<and> taddr t = root s \<and> distinct (addrs t) \<and>
     (\<forall>a \<in> dom (nodes s). a < fresh s) \<and> 0 < fresh s \<and>
     numRecords s = length (contents t) \<and> depth s = int h \<and> h < 20"

definition cur_pos :: "nat \<Rightarrow> bt \<Rightarrow> cursor \<Rightarrow> nat \<Rightarrow> bool" where
  "cur_pos h t c p \<longleftrightarrow>
     (\<exists>js li. fpath h t js \<and> li \<le> length (leaf_at t js) \<and> cur_at c t js li \<and> cpos t js li = p)"

lemma rel_invD:
  assumes "rel_inv s h t"
  shows "bt_ok h None None True True t" "rep (nodes s) t" "root s = taddr t" "distinct (addrs t)"
    "\<forall>a \<in> dom (nodes s). a < fresh s" "numRecords s = length (contents t)" "depth s = int h" "h < 20"
  using assms by (simp_all add: rel_inv_def)

lemma next_leaf_nonempty:
  assumes "bt_ok h None None True True t" and "fpath h t js" and "nxt t js = Some js'"
  shows "fpath h t js'" "0 < length (leaf_at t js')"
    "cpos t js (length (leaf_at t js)) < length (contents t)"
proof -
  have vp: "vpath t js" "length js = h" using assms(2) by (simp_all add: fpath_def)
  note n = nxt_Some[OF assms(1) vp assms(3)]
  show fp: "fpath h t js'" using n by (simp add: fpath_def)
  have ne: "js' \<noteq> []" using n assms(3) vp(2) by (cases js) auto
  obtain lo' hi' f' l' where ctx: "pctx None None True True t js' = (lo', hi', f', l')"
    by (metis prod_cases4)
  obtain a where "subtree t js' = Lf a f' l' (leaf_at t js')"
    using leaf_subtree[OF assms(1) fp ctx] .
  then show len: "0 < length (leaf_at t js')"
    using nkeys_subtree[OF assms(1) _ ne] n by auto
  show "cpos t js (length (leaf_at t js)) < length (contents t)"
    using cpos_entry(1)[OF assms(1) fp len] n by simp
qed

lemma cur_pos_leaf:
  assumes "bt_ok h None None True True t" and "fpath h t js" and "li \<le> length (leaf_at t js)"
  shows "cpos t js li < length (contents t) \<longleftrightarrow> \<not> (li = length (leaf_at t js) \<and> nxt t js = None)"
    "cpos t js li \<le> length (contents t)"
proof -
  have vp: "vpath t js" "length js = h" using assms(2) by (simp_all add: fpath_def)
  show "cpos t js li < length (contents t) \<longleftrightarrow> \<not> (li = length (leaf_at t js) \<and> nxt t js = None)"
  proof (cases "li = length (leaf_at t js)")
    case True
    then show ?thesis
      using nxt_None[OF assms(1) vp] next_leaf_nonempty(3)[OF assms(1,2)] by (cases "nxt t js") auto
  next
    case False
    then show ?thesis using cpos_entry(1)[OF assms(1,2)] assms(3) by simp
  qed
  show "cpos t js li \<le> length (contents t)"
    using cpos_nth[OF assms(1) vp assms(3)] by simp
qed

lemma cur_pos_le: "rel_inv s h t \<Longrightarrow> cur_pos h t c p \<Longrightarrow> p \<le> length (contents t)"
  using cur_pos_leaf(2) by (auto simp: cur_pos_def dest!: rel_invD(1))

lemma isValid_pos:
  assumes "rel_inv s h t" and "cur_pos h t c p"
  shows "isValid s c = Inr (p < length (contents t))"
proof -
  note inv = rel_invD[OF assms(1)]
  obtain js li where c: "fpath h t js" "li \<le> length (leaf_at t js)" "cur_at c t js li" "cpos t js li = p"
    using assms(2) unfolding cur_pos_def by blast
  show ?thesis
    using isValid_correct[OF inv(1,2) c(1,3)] cur_pos_leaf(1)[OF inv(1) c(1,2)] c(4) by simp
qed

text \<open>
  At the end of a leaf that is not the last one, \<open>moveToNext\<close> only changes the leaf; the
  position stays.
\<close>

lemma moveToNext_skip:
  assumes "rel_inv s h t" and "fpath h t js" and "cur_at c t js (length (leaf_at t js))"
    and "cpos t js (length (leaf_at t js)) < length (contents t)"
  obtains c' js' where "moveToNext s c = Inr c'" "fpath h t js'" "cur_at c' t js' 0"
    "0 < length (leaf_at t js')" "cpos t js' 0 = cpos t js (length (leaf_at t js))"
proof -
  note inv = rel_invD[OF assms(1)]
  have vp: "vpath t js" "length js = h" using assms(2) by (simp_all add: fpath_def)
  obtain js' where n: "nxt t js = Some js'"
    using assms(4) nxt_None[OF inv(1) vp] by (cases "nxt t js") auto
  have nr: "numRecords s \<noteq> 0" using assms(4) inv(6) by auto
  obtain c' where c': "moveToNext s c = Inr c'" "cur_at c' t js' 0"
    by (rule moveToNext_next_leaf[OF inv(1,2) assms(2,3) n nr])
  show thesis
    using that[OF c'(1) _ c'(2)] next_leaf_nonempty[OF inv(1) assms(2) n] nxt_Some[OF inv(1) vp n]
    by simp
qed

lemma RL_MoveToNext_pos:
  assumes "rel_inv s h t" and "cur_pos h t c p"
  shows "\<exists>c'. RL_MoveToNext s c = Inr c' \<and> cur_pos h t c' (min (Suc p) (length (contents t)))"
proof -
  note inv = rel_invD[OF assms(1)]
  obtain js li where c: "fpath h t js" "li \<le> length (leaf_at t js)" "cur_at c t js li" "cpos t js li = p"
    using assms(2) unfolding cur_pos_def by blast
  obtain n a lo' hi' f' l' where n: "currNode s c = Inr n" "entryIndex c = Inr (int li)"
    "node_is n True f' l' 0 (leaf_at t js)"
    using leaf_node[OF inv(1,2) c(1,3)] by metis
  have len: "numKeys n = int (length (leaf_at t js))" by (simp add: node_isD[OF n(3)])
  have step: "\<exists>c'. moveToNext s c = Inr c' \<and> cur_pos h t c' (Suc (cpos t js li)) \<and> 
      cpos t js li < length (contents t)"
    if q: "fpath h t js" "li < length (leaf_at t js)" "cur_at c t js li" for js li c
  proof -
    have lt: "cpos t js li < length (contents t)" by (rule cpos_entry(1)[OF inv(1) q(1,2)])
    then have nr: "numRecords s \<noteq> 0" using inv(6) by auto
    obtain c' where "moveToNext s c = Inr c'" "cur_at c' t js (Suc li)"
      by (rule moveToNext_in_leaf[OF inv(1,2) q(1,3,2) nr])
    then show ?thesis
      using q cpos_Suc[of t js li 1] lt unfolding cur_pos_def fpath_def
      by (metis One_nat_def Suc_leI add.right_neutral add_Suc_right)
  qed
  show ?thesis
  proof (cases "li = length (leaf_at t js)")
    case False
    with c(2) obtain c' where "moveToNext s c = Inr c'" "cur_pos h t c' (Suc p)" "p < length (contents t)"
      using step[OF c(1) _ c(3)] c(4) by auto
    then show ?thesis
      using n len False by (auto simp: RL_MoveToNext_def min_def)
  next
    case True
    note at_end = n len True
    show ?thesis
    proof (cases "p < length (contents t)")
      case lt: True
      obtain c' js' where c': "moveToNext s c = Inr c'" "fpath h t js'" "cur_at c' t js' 0"
        "0 < length (leaf_at t js')" "cpos t js' 0 = p"
        using moveToNext_skip[OF assms(1) c(1)] c(3,4) True lt by metis
      obtain c'' where "moveToNext s c' = Inr c''" "cur_pos h t c'' (Suc p)"
        using step[OF c'(2,4,3)] c'(5) by auto
      then show ?thesis using at_end c'(1) lt by (auto simp: RL_MoveToNext_def min_def)
    next
      case False
      then have "nxt t js = None" using cur_pos_leaf(1)[OF inv(1) c(1,2)] c(4) by simp
      then have "moveToNext s c = Inr c"
        using moveToNext_end[OF inv(1,2) c(1)] c(3) True by simp
      moreover have "min (Suc p) (length (contents t)) = p"
        using False cur_pos_leaf(2)[OF inv(1) c(1,2)] c(4) by simp
      ultimately show ?thesis using at_end assms(2) by (simp add: RL_MoveToNext_def)
    qed
  qed
qed

lemma RL_GetEntry_pos:
  assumes "rel_inv s h t" and "cur_pos h t c p"
  shows "if p < length (contents t)
    then \<exists>c'. RL_GetEntry s c
        = Inr (\<lparr>ekey = fst (contents t ! p), eptr = snd (contents t ! p)\<rparr>, c') \<and> cur_pos h t c' p
    else RL_GetEntry s c = Inl AssertFail"
proof (cases "p < length (contents t)")
  case False
  then show ?thesis using isValid_pos[OF assms] by (simp add: RL_GetEntry_def)
next
  case lt: True
  note inv = rel_invD[OF assms(1)]
  obtain js li where c: "fpath h t js" "li \<le> length (leaf_at t js)" "cur_at c t js li" "cpos t js li = p"
    using assms(2) unfolding cur_pos_def by blast
  obtain n a lo' hi' f' l' where n: "currNode s c = Inr n" "entryIndex c = Inr (int li)"
    "node_is n True f' l' 0 (leaf_at t js)"
    using leaf_node[OF inv(1,2) c(1,3)] by metis
  have v: "isValid s c = Inr True" using isValid_pos[OF assms] lt by simp
  have read: "\<exists>n1. currNode s c' = Inr n1 \<and> entryIndex c' = Inr (int li') \<and>
      entry_at n1 (int li') = Inr \<lparr>ekey = fst (contents t ! p), eptr = snd (contents t ! p)\<rparr>"
    if q: "fpath h t js'" "li' < length (leaf_at t js')" "cur_at c' t js' li'" "cpos t js' li' = p"
    for js' li' c'
  proof -
    obtain n a lo' hi' f' l' where n: "currNode s c' = Inr n" "entryIndex c' = Inr (int li')"
      "node_is n True f' l' 0 (leaf_at t js')"
      using leaf_node[OF inv(1,2) q(1,3)] by metis
    then show ?thesis
      using entry_at_node_is[OF n(3) q(2)] cpos_entry(2)[OF inv(1) q(1,2)] q(4) by simp
  qed
  show ?thesis
  proof (cases "li = length (leaf_at t js)")
    case False
    then have "li < length (leaf_at t js)" using c(2) by simp
    from read[OF c(1) this c(3,4)] show ?thesis
      using n v lt False assms(2) by (simp add: RL_GetEntry_def node_isD[OF n(3)])
  next
    case True
    obtain c' js' where c': "moveToNext s c = Inr c'" "fpath h t js'" "cur_at c' t js' 0"
        "0 < length (leaf_at t js')" "cpos t js' 0 = p"
      using moveToNext_skip[OF assms(1) c(1)] c(3,4) True lt by metis
    then have "cur_pos h t c' p" unfolding cur_pos_def by blast
    with read[OF c'(2,4,3,5)] show ?thesis
      using n v lt True c'(1) by (auto simp: RL_GetEntry_def node_isD[OF n(3)])
  qed
qed

end
