(* ===== verification/Relation_Access.thy ===== *)
theory Relation_Access
  imports Relation_Cursor
begin

text \<open>
  The cursor operations of \<open>relation.h\<close> over the position of a cursor: searching for a key,
  going to the first record, making a cursor, and stepping back.
\<close>

section \<open>Searching\<close>

lemma rec_ix_mem:
  assumes "sorted_keys kvs"
  shows "k \<in> fst ` set kvs \<longleftrightarrow> rec_ix (map fst kvs) k < length kvs \<and> fst (kvs ! rec_ix (map fst kvs) k) = k"
proof
  assume "k \<in> fst ` set kvs"
  with assms show "rec_ix (map fst kvs) k < length kvs \<and> fst (kvs ! rec_ix (map fst kvs) k) = k"
  proof (induction kvs)
    case (Cons kv kvs)
    then show ?case by (cases "fst kv = k") (auto simp: rec_ix_def)
  qed simp
next
  assume "rec_ix (map fst kvs) k < length kvs \<and> fst (kvs ! rec_ix (map fst kvs) k) = k"
  then show "k \<in> fst ` set kvs" by (metis imageI nth_mem)
qed

lemma rec_ix_map_of:
  assumes "sorted_keys kvs" and "k \<in> fst ` set kvs"
  shows "map_of kvs k = Some (snd (kvs ! rec_ix (map fst kvs) k))"
proof -
  have "rec_ix (map fst kvs) k < length kvs" "fst (kvs ! rec_ix (map fst kvs) k) = k"
    using rec_ix_mem[OF assms(1)] assms(2) by simp_all
  then have "(k, snd (kvs ! rec_ix (map fst kvs) k)) \<in> set kvs"
    by (metis nth_mem prod.collapse)
  then show ?thesis using sorted_keys_distinct[OF assms(1)] by simp
qed

lemma cur_pos_arrays: "cur_pos h t c p \<Longrightarrow> arrays_ok c"
  by (auto simp: cur_pos_def cur_at_def arrays_ok_def)

lemma find_ix_le: "find_ix h t k \<le> length (leaf_at t (spath h t k))"
  using rec_ix_le[of "map fst (leaf_kvs (subtree t (spath h t k)))" k] by (simp add: leaf_at_def)

lemma search_cursor_pos:
  assumes "rel_inv s h t" and "arrays_ok c"
  shows "cur_pos h t (cursor_put c 0 (anc t (spath h t k)) (spath h t k) (find_ix h t k))
    (rec_ix (map fst (contents t)) k)"
proof -
  note inv = rel_invD[OF assms(1)]
  have sp: "vpath t (spath h t k)" "length (spath h t k) = h" using spath_vpath[OF inv(1)] by auto
  have "cur_at (cursor_put c 0 (anc t (spath h t k)) (spath h t k) (find_ix h t k)) t (spath h t k)
      (find_ix h t k)"
    using sp inv(8) by (intro cursor_put_cur_at[OF assms(2)]) simp_all
  moreover have "cpos t (spath h t k) (find_ix h t k) = rec_ix (map fst (contents t)) k"
    by (rule cpos_search[OF inv(1)]) simp
  moreover have "fpath h t (spath h t k)" using sp by (simp add: fpath_def)
  ultimately show ?thesis using find_ix_le[of t h k] unfolding cur_pos_def by blast
qed

lemma goToKey_pos:
  assumes "rel_inv s h t" and "cur_pos h t c p"
  obtains c' where "goToKey s c k = Inr c'" "cur_pos h t c' (rec_ix (map fst (contents t)) k)"
    "c' = cursor_put c 0 (anc t (spath h t k)) (spath h t k) (find_ix h t k)"
proof -
  note inv = rel_invD[OF assms(1)]
  obtain js li where c: "fpath h t js" "cur_at c t js li"
    using assms(2) unfolding cur_pos_def by blast
  show thesis
    using that goToKey_correct[OF inv(1,2) _ _ c(2)] c(1)
      search_cursor_pos[OF assms(1) cur_pos_arrays[OF assms(2)]] by (simp add: fpath_def)
qed

lemma RL_MoveToKey_pos:
  assumes "rel_inv s h t" and "cur_pos h t c p"
  shows "\<exists>c'. RL_MoveToKey s c k = Inr (k \<in> fst ` set (contents t), c') \<and>
     cur_pos h t c' (rec_ix (map fst (contents t)) k)"
proof -
  note inv = rel_invD[OF assms(1)]
  let ?p = "rec_ix (map fst (contents t)) k"
  have mem: "k \<in> fst ` set (contents t) \<longleftrightarrow> ?p < length (contents t) \<and> fst (contents t ! ?p) = k"
    by (rule rec_ix_mem[OF bt_ok_sorted[OF inv(1)]])
  obtain c1 where c1: "goToKey s c k = Inr c1" "cur_pos h t c1 ?p"
    using goToKey_pos[OF assms] by metis
  have v: "isValid s c1 = Inr (?p < length (contents t))" by (rule isValid_pos[OF assms(1) c1(2)])
  show ?thesis
  proof (cases "?p < length (contents t)")
    case True
    with RL_GetEntry_pos[OF assms(1) c1(2)] obtain c2 where
      "RL_GetEntry s c1 = Inr (\<lparr>ekey = fst (contents t ! ?p), eptr = snd (contents t ! ?p)\<rparr>, c2)"
      "cur_pos h t c2 ?p" by auto
    then show ?thesis
      using c1(1) v True mem by (simp add: RL_MoveToKey_def RL_GetKey_def)
  next
    case False
    then show ?thesis using c1 v mem by (simp add: RL_MoveToKey_def)
  qed
qed

section \<open>Reading\<close>

lemma RL_GetRecord_pos:
  assumes "rel_inv s h t" and "cur_pos h t c p" and "p < length (contents t)"
  shows "\<exists>c'. RL_GetRecord s c = Inr (snd (contents t ! p), c') \<and> cur_pos h t c' p"
  using RL_GetEntry_pos[OF assms(1,2)] assms(3) by (auto simp: RL_GetRecord_def)

lemma RL_GetKey_pos:
  assumes "rel_inv s h t" and "cur_pos h t c p" and "p < length (contents t)"
  shows "\<exists>c'. RL_GetKey s c = Inr (fst (contents t ! p), c') \<and> cur_pos h t c' p"
  using RL_GetEntry_pos[OF assms(1,2)] assms(3) by (auto simp: RL_GetKey_def)

lemma RL_IsEmpty_correct:
  assumes "rel_inv s h t"
  shows "RL_IsEmpty s c = Inr (contents t = [])"
proof -
  note inv = rel_invD[OF assms]
  show ?thesis
  proof (cases h)
    case 0
    with inv(1) obtain a es where t: "t = Lf a True True es" by (auto elim: bt_ok_0E)
    obtain n where n: "node_at s a = Inr n" "node_is n True True True 0 es"
      using rep_leafE[of s a True True es] inv(2) t by metis
    then show ?thesis using inv(3) t by (simp add: RL_IsEmpty_def node_isD[OF n(2)])
  next
    case (Suc h')
    with inv(1) have ok: "bt_ok (Suc h') None None True True t" by simp
    from ok obtain a ks cs where t: "t = Nd a False False ks cs" "1 \<le> length ks"
      "length cs = Suc (length ks)" by (rule bt_ok_SucE)
    obtain n where n: "node_at s a = Inr n" "node_is n False False False (taddr (hd cs)) (node_kvs ks cs)"
      using rep_internE[of s a False False ks cs] inv(2) t(1) by metis
    have "contents t \<noteq> []"
    proof -
      have v: "vpath t (replicate h 0)" "cpos t (replicate h 0) 0 = 0"
        using fpath_leftmost[OF inv(1)] by auto
      obtain lo' hi' f' l' where ctx: "pctx None None True True t (replicate h 0) = (lo', hi', f', l')"
        by (metis prod_cases4)
      have fp: "fpath h t (replicate h 0)" using v by (simp add: fpath_def)
      obtain a where "subtree t (replicate h 0) = Lf a f' l' (leaf_at t (replicate h 0))"
        using leaf_subtree[OF inv(1) fp ctx] .
      then have "0 < length (leaf_at t (replicate h 0))"
        using nkeys_subtree[OF inv(1) v(1)] Suc by auto
      from cpos_entry(1)[OF inv(1) fp this] show ?thesis by auto
    qed
    then show ?thesis using n inv(3) t by (auto simp: RL_IsEmpty_def node_isD[OF n(2)])
  qed
qed

section \<open>The first record\<close>

lemma first_cursor_pos:
  assumes "rel_inv s h t" and "arrays_ok c"
  shows "moveToFirst s (root s) c 0
      = Inr (cursor_put c 0 (anc t (replicate h 0)) (replicate h 0) 0)"
    "cur_pos h t (cursor_put c 0 (anc t (replicate h 0)) (replicate h 0) 0) 0"
proof -
  note inv = rel_invD[OF assms(1)]
  show "moveToFirst s (root s) c 0 = Inr (cursor_put c 0 (anc t (replicate h 0)) (replicate h 0) 0)"
    using moveToFirst_correct[OF inv(1,2), of 0 c] inv(3,8) assms(2) by simp
  have v: "vpath t (replicate h 0)" "cpos t (replicate h 0) 0 = 0"
    using fpath_leftmost[OF inv(1)] by auto
  have "cur_at (cursor_put c 0 (anc t (replicate h 0)) (replicate h 0) 0) t (replicate h 0) 0"
    using inv(8) by (intro cursor_put_cur_at[OF assms(2) v(1)]) simp
  then show "cur_pos h t (cursor_put c 0 (anc t (replicate h 0)) (replicate h 0) 0) 0"
    using v unfolding cur_pos_def fpath_def by (metis le0 length_replicate)
qed

lemma RL_MoveToFirst_pos:
  assumes "rel_inv s h t" and "arrays_ok c"
  shows "\<exists>c'. RL_MoveToFirst s c = Inr (contents t \<noteq> [], c') \<and> cur_pos h t c' 0"
proof -
  have a: "arrays_ok (c\<lparr>level := - 1\<rparr>)" using assms(2) by (simp add: arrays_ok_def)
  note f = first_cursor_pos[OF assms(1) a]
  show ?thesis
    using f isValid_pos[OF assms(1) f(2)] by (simp add: RL_MoveToFirst_def)
qed

lemma clear_above_cur_at:
  assumes "cur_at c t js li"
  shows "length js < i \<Longrightarrow> \<exists>c'. clear_above c (int i) = Inr c' \<and> cur_at c' t js li"
  using assms
proof (induction "20 - i" arbitrary: i c)
  case 0
  then show ?case by (subst clear_above.simps) auto
next
  case (Suc m)
  let ?c = "c\<lparr>ancestorsIdx := (ancestorsIdx c)[i := 0], ancestors := (ancestors c)[i := 0]\<rparr>"
  have len: "length (ancestors c) = 20" "length (ancestorsIdx c) = 20" "i < 20"
    using Suc by (auto simp: cur_at_def)
  then have step: "clear_above c (int i) = clear_above ?c (int (Suc i))"
    by (subst clear_above.simps) (simp add: add.commute)
  have "cur_at ?c t js li" using Suc.prems by (simp add: cur_at_def)
  moreover have "m = 20 - Suc i" using Suc.hyps(2) by simp
  ultimately show ?case using Suc.hyps(1)[of "Suc i" ?c] Suc.prems(1) step by simp
qed

lemma RL_NewCursor_pos:
  assumes "rel_inv s h t" and "arrays_ok c0" and "avail s \<noteq> 0"
  shows "\<exists>c. RL_NewCursor c0 s = Inr (Some c, s\<lparr>avail := avail s - 1\<rparr>) \<and> cur_pos h t c 0"
proof -
  let ?s = "s\<lparr>avail := avail s - 1\<rparr>" and ?c0 = "c0\<lparr>level := - 1\<rparr>"
  have inv: "rel_inv ?s h t" using assms(1) by (simp add: rel_inv_def)
  have "arrays_ok ?c0" using assms(2) by (simp add: arrays_ok_def)
  note f = first_cursor_pos[OF inv this]
  let ?c1 = "cursor_put ?c0 0 (anc t (replicate h 0)) (replicate h 0) 0"
  obtain js li where c1: "fpath h t js" "li \<le> length (leaf_at t js)" "cur_at ?c1 t js li" "cpos t js li = 0"
    using f(2) unfolding cur_pos_def by blast
  have lv: "level ?c1 = int (length js)" using c1(3) by (simp add: cur_at_def)
  obtain c2 where "clear_above ?c1 (int (Suc (length js))) = Inr c2" "cur_at c2 t js li"
    using clear_above_cur_at[OF c1(3), of "Suc (length js)"] by auto
  then have "RL_NewCursor c0 s = Inr (Some c2, ?s)" "cur_pos h t c2 0"
    using f(1) lv assms(3) c1 by (auto simp: RL_NewCursor_def cur_pos_def add.commute)
  then show ?thesis by blast
qed

section \<open>Stepping back\<close>

lemma moveToPrev_in_leaf:
  assumes ok: "bt_ok h None None True True t" and m: "rep (nodes s) t"
    and js: "fpath h t js" and c: "cur_at c t js (Suc li)" and nr: "numRecords s \<noteq> 0"
  obtains c' where "moveToPrev s c = Inr c'" "cur_at c' t js li"
proof -
  obtain n a lo' hi' f' l' where n: "currNode s c = Inr n" "entryIndex c = Inr (int (Suc li))"
    "node_is n True f' l' 0 (leaf_at t js)"
    using leaf_node[OF ok m js c] by metis
  have asc: "ascend_first s c = Inr c"
    using n by (subst ascend_first.simps) (simp add: firstpointer_def node_isD[OF n(3)])
  have v: "isFirst s c = Inr False" using n by (simp add: isFirst_def)
  let ?c = "c\<lparr>ancestorsIdx := (ancestorsIdx c)[length js := int li]\<rparr>"
  have vp: "vpath t js" using js by (simp add: fpath_def)
  note cd = cur_atD(1-3)[OF c vp]
  have set: "aset (ancestorsIdx c) (level c) (int (Suc li) - 1)
      = Inr ((ancestorsIdx c)[length js := int li])"
    using cd by (simp add: arrays_ok_def)
  have "currNode s ?c = Inr n" using n(1) by (simp add: currNode_def currAddr_def)
  then have "moveToPrev s c = Inr ?c"
    using nr v asc n(2) set by (simp add: moveToPrev_def node_isD[OF n(3)])
  moreover have "cur_at ?c t js li"
    using c by (simp add: cur_at_def idxs_def take_update_swap list_update_append)
  ultimately show thesis by (rule that)
qed

lemma RL_MoveToPrevious_in_leaf:
  assumes "rel_inv s h t" and "fpath h t js" and "cur_at c t js (Suc li)"
    and "Suc li \<le> length (leaf_at t js)"
  shows "\<exists>c'. RL_MoveToPrevious s c = Inr c' \<and> cur_at c' t js li \<and> cur_pos h t c' (cpos t js li) \<and>
     cpos t js (Suc li) = Suc (cpos t js li)"
proof -
  note inv = rel_invD[OF assms(1)]
  have vp: "vpath t js" "length js = h" using assms(2) by (simp_all add: fpath_def)
  have "cpos t js li < length (contents t)" using cpos_entry(1)[OF inv(1) assms(2)] assms(4) by simp
  then have nr: "numRecords s \<noteq> 0" using inv(6) by auto
  obtain c' where c': "moveToPrev s c = Inr c'" "cur_at c' t js li"
    by (rule moveToPrev_in_leaf[OF inv(1,2) assms(2,3) nr])
  have "entryIndex c = Inr (int (Suc li))"
    using leaf_node[OF inv(1,2) assms(2,3)] by metis
  then have "RL_MoveToPrevious s c = Inr c'" using c' by (simp add: RL_MoveToPrevious_def)
  moreover have "cur_pos h t c' (cpos t js li)"
    using assms(2,4) c'(2) unfolding cur_pos_def by (metis Suc_leD)
  ultimately show ?thesis using c'(2) cpos_Suc[OF vp(1), of li 1] by simp
qed

lemma ascend_first_to:
  assumes ok: "bt_ok h lo hi f l t" and m: "rep (nodes s) t"
    and js: "fpath h t js" and c: "cur_at c t js 0"
    and below: "\<forall>i. d < i \<and> i < length js \<longrightarrow> js ! i = 0" and turn: "d < length js" "0 < js ! d"
  shows "d \<le> e \<Longrightarrow> e \<le> length js \<Longrightarrow> ascend_first s (c\<lparr>level := int e\<rparr>) = Inr (c\<lparr>level := int d\<rparr>)"
proof (induction e rule: dec_induct)
  case base
  have v: "vpath t js" "length js = h" using js by (simp_all add: fpath_def)
  have dle: "d \<le> length js" using turn by simp
  obtain n where "currNode s (c\<lparr>level := int d\<rparr>) = Inr n" "isLeaf n = (d = h)"
    "entryIndex (c\<lparr>level := int d\<rparr>) = Inr (if d < length js then int (js ! d) - 1 else int 0)"
    using cur_at_level[OF ok m v(1) c dle] by metis
  then show ?case using turn v by (subst ascend_first.simps) (simp add: firstpointer_def)
next
  case (step e)
  have v: "vpath t js" "length js = h" using js by (simp_all add: fpath_def)
  obtain n where n: "currNode s (c\<lparr>level := int (Suc e)\<rparr>) = Inr n" "isLeaf n = (Suc e = h)"
    "entryIndex (c\<lparr>level := int (Suc e)\<rparr>)
       = Inr (if Suc e < length js then int (js ! Suc e) - 1 else int 0)"
    using cur_at_level[OF ok m v(1) c step.prems] by metis
  have "ascend_first s (c\<lparr>level := int (Suc e)\<rparr>) = ascend_first s (c\<lparr>level := int e\<rparr>)"
    using n v step.prems step.hyps below
    by (subst ascend_first.simps) (auto simp: firstpointer_def)
  with step show ?case by simp
qed

lemma pctx_not_first:
  "pctx lo hi False l t js = (lo', hi', f', l') \<Longrightarrow> \<not> f'"
proof (induction js arbitrary: lo hi l t)
  case (Cons j js)
  then show ?case by (cases t) auto
qed simp

lemma pctx_first_second:
  "pctx lo hi f l t (p @ 1 # q) = (lo', hi', f', l') \<Longrightarrow> vpath t (p @ 1 # q) \<Longrightarrow> \<not> f'"
proof (induction p arbitrary: lo hi f l t)
  case Nil
  then show ?case by (cases t) (auto dest: pctx_not_first)
next
  case (Cons j p)
  then show ?case by (cases t) auto
qed

text \<open>
  Stepping back from the first entry of a leaf that is reached through the second child
  (index 0 of \<open>entries\<close>) of the ancestor at which the climb turns: the index becomes -1,
  and \<open>entries[-1]\<close> is read.
\<close>

lemma moveToPrev_second_child:
  assumes "rel_inv s h t" and "fpath h t (p @ 1 # replicate m 0)"
    and "cur_at c t (p @ 1 # replicate m 0) 0" and "numRecords s \<noteq> 0"
  shows "moveToPrev s c = Inl OutOfBounds"
proof -
  let ?js = "p @ 1 # replicate m 0" and ?d = "length p"
  note inv = rel_invD[OF assms(1)]
  have v: "vpath t ?js" "length ?js = h" using assms(2) by (simp_all add: fpath_def)
  note cd = cur_atD(1-3)[OF assms(3) v(1)]
  have lv: "c\<lparr>level := int (length ?js)\<rparr> = c" using cd by simp
  have "\<forall>i. ?d < i \<and> i < length ?js \<longrightarrow> ?js ! i = 0"
    by (auto simp: nth_append nth_Cons')
  then have asc: "ascend_first s c = Inr (c\<lparr>level := int ?d\<rparr>)"
    using ascend_first_to[OF inv(1,2) assms(2,3), of ?d "length ?js"] lv by simp
  have dle: "?d \<le> length ?js" by simp
  obtain n where n: "currNode s (c\<lparr>level := int ?d\<rparr>) = Inr n" "isLeaf n = (?d = h)"
    "entryIndex (c\<lparr>level := int ?d\<rparr>)
       = Inr (if ?d < length ?js then int (?js ! ?d) - 1 else int 0)"
    using cur_at_level[OF inv(1,2) v(1) assms(3) dle] by metis
  have nf: "isFirst s c = Inr False"
  proof -
    obtain n a lo' hi' f' l' where l: "currNode s c = Inr n" "entryIndex c = Inr (int 0)"
      "node_is n True f' l' 0 (leaf_at t ?js)" "pctx None None True True t ?js = (lo', hi', f', l')"
      using leaf_node[OF inv(1,2) assms(2,3)] by metis
    have "\<not> f'" by (rule pctx_first_second[OF l(4) v(1)])
    with l show ?thesis by (simp add: isFirst_def node_isD[OF l(3)])
  qed
  let ?c = "c\<lparr>level := int ?d, ancestorsIdx := (ancestorsIdx c)[?d := - 1]\<rparr>"
  have set: "aset (ancestorsIdx c) (int ?d) (- 1) = Inr ((ancestorsIdx c)[?d := - 1])"
    using cd by (simp add: arrays_ok_def)
  have "currNode s ?c = Inr n" "entryIndex ?c = Inr (- 1)"
    using n cd by (simp_all add: currNode_def currAddr_def entryIndex_def arrays_ok_def)
  then show ?thesis
    using assms(4) nf asc n(2,3) set v(2)
    by (simp add: moveToPrev_def load_slot_def aget_def)
qed

lemma isFirst_at:
  assumes "rel_inv s h t" and "fpath h t js" and "cur_at c t js li"
    and "pctx None None True True t js = (lo', hi', f', l')"
  shows "isFirst s c = Inr (li = 0 \<and> f')"
proof -
  note inv = rel_invD[OF assms(1)]
  obtain n a where "currNode s c = Inr n" "entryIndex c = Inr (int li)"
    "node_is n True f' l' 0 (leaf_at t js)"
    using leaf_node[OF inv(1,2) assms(2,3)] assms(4) by (metis Pair_inject)
  then show ?thesis using node_isD[of n True f' l' 0] by (simp add: isFirst_def)
qed

end
