(* ===== verification/Relation_Ins.thy ===== *)
theory Relation_Ins
  imports Relation_Access "HOL-Library.Multiset"
begin

text \<open>
  Insertion as a function on trees, with the addresses the heap will use: what \<open>putEntry\<close>
  computes bottom-up along the cursor, \<open>ins\<close> computes on the abstract tree. It keeps the
  invariant of the B+-tree and updates its content like \<open>alist_put\<close>.
\<close>

section \<open>Lists\<close>

lemma alist_put_new:
  "sorted_keys es \<Longrightarrow> k \<notin> fst ` set es \<Longrightarrow> alist_put k v es = ins_at (rec_ix (map fst es) k) (k, v) es"
proof (induction es)
  case (Cons e es)
  show ?case
  proof (cases "k < fst e")
    case True
    with Cons.prems show ?thesis by (cases e) (auto simp: rec_ix_def ins_at_def)
  next
    case False
    with Cons.prems have "fst e < k" by auto
    with Cons show ?thesis by (cases e) (auto simp: rec_ix_def ins_at_def)
  qed
qed (simp add: rec_ix_def ins_at_def)

lemma alist_put_old:
  "sorted_keys es \<Longrightarrow> k \<in> fst ` set es \<Longrightarrow> alist_put k v es = es[rec_ix (map fst es) k := (k, v)]"
proof (induction es)
  case (Cons e es)
  show ?case
  proof (cases "k = fst e")
    case True
    with Cons.prems show ?thesis by (cases e) (auto simp: rec_ix_def)
  next
    case False
    with Cons.prems have "fst e < k" by auto
    with Cons False show ?thesis by (cases e) (auto simp: rec_ix_def)
  qed
qed simp

lemma sorted_keys_nth_less:
  "sorted_keys es \<Longrightarrow> i < j \<Longrightarrow> j < length es \<Longrightarrow> fst (es ! i) < fst (es ! j)"
  using sorted_wrt_nth_less[of "(<)" "map fst es" i j] by (simp add: sorted_keys_def)

lemma sorted_keys_take: "sorted_keys es \<Longrightarrow> sorted_keys (take n es)"
  by (metis append_take_drop_id sorted_keys_append)

lemma sorted_keys_drop: "sorted_keys es \<Longrightarrow> sorted_keys (drop n es)"
  by (metis append_take_drop_id sorted_keys_append)

section \<open>Children between separators\<close>

text \<open>\<open>okc P\<close>: \<open>P\<close> holds of each child with the bounds and the outermost flags it gets.\<close>

fun okc :: "(ckey option \<Rightarrow> ckey option \<Rightarrow> bool \<Rightarrow> bool \<Rightarrow> 'c \<Rightarrow> bool) \<Rightarrow>
    ckey option \<Rightarrow> ckey option \<Rightarrow> bool \<Rightarrow> bool \<Rightarrow> ckey list \<Rightarrow> 'c list \<Rightarrow> bool" where
  "okc P lo hi f l [] [c] \<longleftrightarrow> P lo hi f l c"
| "okc P lo hi f l (k # ks) (c # cs) \<longleftrightarrow> P lo (Some k) f False c \<and> okc P (Some k) hi False l ks cs"
| "okc P lo hi f l _ _ \<longleftrightarrow> False"

lemma lo_at_Cons [simp]: "lo_at lo (k # ks) (Suc i) = lo_at (Some k) ks i"
  by (cases i) (simp_all add: lo_at_def)

lemma hi_at_Cons [simp]: "hi_at hi (k # ks) (Suc i) = hi_at hi ks i"
  by (simp add: hi_at_def)

lemma lo_at_0 [simp]: "lo_at lo ks 0 = lo"
  by (simp add: lo_at_def)

lemma hi_at_Cons_0 [simp]: "hi_at hi (k # ks) 0 = Some k"
  by (simp add: hi_at_def)

lemma hi_at_Nil [simp]: "hi_at hi [] i = hi"
  by (simp add: hi_at_def)

lemma all_le_Suc: "(\<forall>i \<le> Suc n. Q i) \<longleftrightarrow> Q 0 \<and> (\<forall>i \<le> n. Q (Suc i))"
  by (metis Suc_le_mono le0 old.nat.exhaust)

lemma okc_iff:
  "okc P lo hi f l ks cs \<longleftrightarrow> length cs = Suc (length ks) \<and>
     (\<forall>i \<le> length ks. P (lo_at lo ks i) (hi_at hi ks i) (f \<and> i = 0) (l \<and> i = length ks) (cs ! i))"
proof (induction P lo hi f l ks cs rule: okc.induct)
  case (2 P lo hi f l k ks c cs)
  then show ?case by (simp add: all_le_Suc) blast
qed auto

lemma okc_length: "okc P lo hi f l ks cs \<Longrightarrow> length cs = Suc (length ks)"
  by (simp add: okc_iff)

lemma okc_update:
  "okc P lo hi f l ks cs \<Longrightarrow> j \<le> length ks \<Longrightarrow>
   P (lo_at lo ks j) (hi_at hi ks j) (f \<and> j = 0) (l \<and> j = length ks) t \<Longrightarrow>
   okc P lo hi f l ks (cs[j := t])"
  by (auto simp: okc_iff nth_list_update)

lemma okc_insert:
  "okc P lo hi f l ks cs \<Longrightarrow> j \<le> length ks \<Longrightarrow>
   P (lo_at lo ks j) (Some sp) (f \<and> j = 0) False t1 \<Longrightarrow>
   P (Some sp) (hi_at hi ks j) False (l \<and> j = length ks) t2 \<Longrightarrow>
   okc P lo hi f l (ins_at j sp ks) (take j cs @ t1 # t2 # drop (Suc j) cs)"
proof (induction P lo hi f l ks cs arbitrary: j rule: okc.induct)
  case (2 P lo hi f l k ks c cs)
  then show ?case by (cases j) (simp_all add: ins_at_def)
qed (auto simp: ins_at_def)

lemma okc_split:
  "okc P lo hi f l ks cs \<Longrightarrow> m < length ks \<Longrightarrow>
   okc P lo (Some (ks ! m)) f False (take m ks) (take (Suc m) cs) \<and>
   okc P (Some (ks ! m)) hi False l (drop (Suc m) ks) (drop (Suc m) cs)"
proof (induction P lo hi f l ks cs arbitrary: m rule: okc.induct)
  case (2 P lo hi f l k ks c cs)
  then show ?case by (cases m) simp_all
qed auto

text \<open>The invariant of an intern node over its list of children.\<close>

definition child_ok :: "nat \<Rightarrow> ckey option \<Rightarrow> ckey option \<Rightarrow> bool \<Rightarrow> bool \<Rightarrow> bt \<Rightarrow> bool" where
  "child_ok h lo hi f l c \<longleftrightarrow> 7 \<le> nkeys c \<and> bt_ok h lo hi f l c"

lemma bt_ok_Nd:
  "bt_ok (Suc h) lo hi f l (Nd a f' l' ks cs) \<longleftrightarrow>
     \<not> f' \<and> \<not> l' \<and> 1 \<le> length ks \<and> length ks \<le> 15 \<and> sorted_wrt (<) ks \<and>
     (\<forall>k \<in> set ks. sep_bounds lo hi k) \<and> okc (child_ok h) lo hi f l ks cs"
  by (auto simp: okc_iff child_ok_def less_Suc_eq_le)

section \<open>Separators\<close>

lemma sep_bounds_mono:
  assumes "\<forall>k \<in> set ks. sep_bounds lo hi k" and "j \<le> length ks"
    and "sep_bounds (lo_at lo ks j) (hi_at hi ks j) k"
  shows "sep_bounds lo hi k"
  unfolding sep_bounds_def
proof (intro conjI allI impI)
  fix a assume lo: "lo = Some a"
  show "a < k"
  proof (cases "j = 0")
    case True
    with assms(3) lo show ?thesis by (simp add: sep_bounds_def)
  next
    case False
    then have "ks ! (j - 1) \<in> set ks" using assms(2) by simp
    then have "a < ks ! (j - 1)" using assms(1) lo by (auto simp: sep_bounds_def)
    also have "\<dots> < k" using assms(3) False by (simp add: sep_bounds_def lo_at_def)
    finally show ?thesis .
  qed
next
  fix b assume hi: "hi = Some b"
  show "k < b"
  proof (cases "j < length ks")
    case True
    then have "k < ks ! j" using assms(3) by (simp add: sep_bounds_def hi_at_def)
    also have "\<dots> < b" using assms(1) hi True by (auto simp: sep_bounds_def)
    finally show ?thesis .
  next
    case False
    with assms(3) hi show ?thesis by (simp add: sep_bounds_def hi_at_def)
  qed
qed

lemma sep_position:
  assumes "sorted_wrt (<) ks" and "j \<le> length ks" and "sep_bounds (lo_at lo ks j) (hi_at hi ks j) k"
  shows "\<forall>x \<in> set (take j ks). x < k" "\<forall>x \<in> set (drop j ks). k < x"
proof -
  show "\<forall>x \<in> set (take j ks). x < k"
  proof
    fix x assume "x \<in> set (take j ks)"
    then obtain i where i: "i < j" "x = ks ! i" using assms(2) by (auto simp: in_set_conv_nth)
    then have "ks ! i \<le> ks ! (j - 1)"
      using assms(2) sorted_wrt_nth_less[OF assms(1), of i "j - 1"] by (cases "i = j - 1") (auto intro: less_imp_le)
    also have "\<dots> < k" using i assms(3) by (simp add: sep_bounds_def lo_at_def)
    finally show "x < k" using i by simp
  qed
  show "\<forall>x \<in> set (drop j ks). k < x"
  proof
    fix x assume "x \<in> set (drop j ks)"
    then obtain i where "i < length (drop j ks)" "x = drop j ks ! i"
      unfolding in_set_conv_nth by metis
    then have i: "j + i < length ks" "x = ks ! (j + i)" using assms(2) by simp_all
    then have "k < ks ! j" using assms(3) by (simp add: sep_bounds_def hi_at_def)
    also have "\<dots> \<le> ks ! (j + i)"
      using i sorted_wrt_nth_less[OF assms(1), of j "j + i"] by (cases "i = 0") auto
    finally show "k < x" using i by simp
  qed
qed

lemma sorted_ins_at:
  assumes "sorted_wrt (<) ks" and "\<forall>x \<in> set (take j ks). x < k" "\<forall>x \<in> set (drop j ks). k < x"
  shows "sorted_wrt (<) (ins_at j (k::ckey) ks)"
proof -
  have "sorted_wrt (<) (take j ks @ drop j ks)" using assms(1) by simp
  then show ?thesis
    unfolding ins_at_def using assms(2,3) by (auto simp: sorted_wrt_append simp del: append_take_drop_id)
qed

lemma rec_ix_sep:
  assumes "j \<le> length ks" and "\<forall>x \<in> set (take j ks). x < k" "\<forall>x \<in> set (drop j ks). k < x"
  shows "rec_ix ks (k::ckey) = j"
  unfolding rec_ix_def
proof (rule takeWhile_length_eqI)
  fix i assume "i < j"
  then have "ks ! i \<in> set (take j ks)" using assms(1) by (metis in_set_conv_nth length_take min.absorb2 nth_take)
  then show "ks ! i < k" using assms(2) by blast
next
  assume "j < length ks"
  then have "ks ! j \<in> set (drop j ks)" by (metis drop_eq_Nil hd_drop_conv_nth hd_in_set linorder_not_less)
  then show "\<not> ks ! j < k" using assms(3) by force
qed (rule assms(1))

lemma sorted_split:
  assumes "sorted_wrt (<) ks" and "m < length ks" and "\<forall>k \<in> set ks. sep_bounds lo hi k"
  shows "sorted_wrt (<) (take m ks)" "sorted_wrt (<) (drop (Suc m) ks)"
    "\<forall>k \<in> set (take m ks). sep_bounds lo (Some (ks ! m)) k"
    "\<forall>k \<in> set (drop (Suc m) ks). sep_bounds (Some (ks ! m)) hi k"
proof -
  have "sorted_wrt (<) (take m ks @ ks ! m # drop (Suc m) ks)"
    using assms(1,2) by (simp add: id_take_nth_drop[symmetric])
  then show "sorted_wrt (<) (take m ks)" "sorted_wrt (<) (drop (Suc m) ks)"
    "\<forall>k \<in> set (take m ks). sep_bounds lo (Some (ks ! m)) k"
    "\<forall>k \<in> set (drop (Suc m) ks). sep_bounds (Some (ks ! m)) hi k"
    using assms(3) in_set_takeD[of _ m ks] in_set_dropD[of _ "Suc m" ks]
    by (auto simp: sorted_wrt_append sep_bounds_def)
qed

section \<open>Insertion\<close>

datatype ins_res = One bt | Two bt ckey bt

fun ins :: "nat \<Rightarrow> ckey \<Rightarrow> addr \<Rightarrow> addr \<Rightarrow> bt \<Rightarrow> ins_res \<times> addr" where
  "ins 0 k v n (Lf a f l es) =
     (let es' = alist_put k v es in
      if length es' \<le> 15 then (One (Lf a f l es'), n)
      else (Two (Lf a f False (take 8 es')) (fst (es' ! 8)) (Lf n False l (drop 8 es')), Suc n))"
| "ins (Suc h) k v n (Nd a f l ks cs) =
     (let j = child_ix ks k in
      case ins h k v n (cs ! j) of
        (One t', n') \<Rightarrow> (One (Nd a f l ks (cs[j := t'])), n')
      | (Two t1 sp t2, n') \<Rightarrow>
          let ks' = ins_at j sp ks; cs' = take j cs @ t1 # t2 # drop (Suc j) cs in
          if length ks' \<le> 15 then (One (Nd a f l ks' cs'), n')
          else (Two (Nd a f False (take 8 ks') (take 9 cs')) (ks' ! 8)
                    (Nd n' False l (drop 9 ks') (drop 9 cs')), Suc n'))"
| "ins h k v n t = (One t, n)"

fun res_trees :: "ins_res \<Rightarrow> bt list" where
  "res_trees (One t) = [t]"
| "res_trees (Two t1 sp t2) = [t1, t2]"

text \<open>The content, the addresses and the root address of what an insertion produces.\<close>

lemma concat_replace:
  "j < length cs \<Longrightarrow> concat (map g (take j cs @ xs @ drop (Suc j) cs))
     = concat (map g (take j cs)) @ concat (map g xs) @ concat (map g (drop (Suc j) cs))"
  by simp

lemma alist_put_children:
  assumes ok: "bt_ok (Suc h) lo hi f l (Nd a f' l' ks cs)" and k: "in_bounds lo hi k"
  defines "j \<equiv> child_ix ks k"
  shows "alist_put k v (concat (map contents cs)) =
    concat (map contents (take j cs)) @ alist_put k v (contents (cs ! j)) @
    concat (map contents (drop (Suc j) cs))"
proof -
  have j: "j \<le> length ks" "j < length cs" using child_ix_le[of ks k] ok by (auto simp: j_def)
  have inb: "in_bounds (lo_at lo ks j) (hi_at hi ks j) k"
    using in_bounds_child[OF k] ok by (simp add: j_def)
  have left: "\<forall>x \<in> fst ` set (concat (map contents (take j cs))). x < k"
    using children_before[OF ok j(1) inb] by blast
  have right: "\<forall>x \<in> fst ` set (concat (map contents (drop (Suc j) cs))). k < x"
    using children_after[OF ok j(1) inb] by blast
  show ?thesis
    by (simp only: concat_map_nth_split[OF j(2), of contents] alist_put_append_right[OF left]
        alist_put_append_left[OF right])
qed

lemma ins_contents:
  "bt_ok h lo hi f l t \<Longrightarrow> in_bounds lo hi k \<Longrightarrow>
   concat (map contents (res_trees (fst (ins h k v n t)))) = alist_put k v (contents t)"
proof (induction h arbitrary: lo hi f l t)
  case 0
  from 0(1) obtain a es where "t = Lf a f l es" by (auto elim: bt_ok_0E)
  then show ?case by (simp add: Let_def)
next
  case (Suc h)
  from Suc.prems(1) show ?case
  proof (rule bt_ok_SucE)
    fix a ks cs
    assume t: "t = Nd a False False ks cs" and len: "length cs = Suc (length ks)"
      and sk: "sorted_wrt (<) ks"
    let ?j = "child_ix ks k"
    have j: "?j \<le> length ks" "?j < length cs" using child_ix_le[of ks k] len by auto
    have inb: "in_bounds (lo_at lo ks ?j) (hi_at hi ks ?j) k"
      using Suc.prems(2) sk by (rule in_bounds_child)
    note IH = Suc.IH[OF bt_ok_child[OF Suc.prems(1)[unfolded t] j(1)] inb]
    note put = alist_put_children[OF Suc.prems(1)[unfolded t] Suc.prems(2)]
    obtain r n' where r: "ins h k v n (cs ! ?j) = (r, n')" by (cases "ins h k v n (cs ! ?j)")
    show ?thesis
    proof (cases r)
      case (One t')
      then show ?thesis
        using IH r put t j by (simp add: Let_def upd_conv_take_nth_drop)
    next
      case (Two t1 sp t2)
      define cs' where "cs' = take ?j cs @ t1 # t2 # drop (Suc ?j) cs"
      have "concat (map contents cs') = alist_put k v (contents t)"
        using IH r put t Two by (simp add: cs'_def)
      moreover have "concat (map contents (take 9 cs')) @ concat (map contents (drop 9 cs'))
        = concat (map contents cs')"
        by (metis append_take_drop_id concat_append map_append)
      ultimately show ?thesis
        using r t Two by (simp add: Let_def cs'_def[symmetric])
    qed
  qed
qed

lemma ins_fresh: "n \<le> snd (ins h k v n t) \<and> snd (ins h k v n t) \<le> n + Suc h"
proof (induction h k v n t rule: ins.induct)
  case (2 h k v n a f l ks cs)
  have IH: "n \<le> snd (ins h k v n (cs ! child_ix ks k))"
    "snd (ins h k v n (cs ! child_ix ks k)) \<le> n + Suc h" using "2.IH"[OF refl] by auto
  obtain r n' where r: "ins h k v n (cs ! child_ix ks k) = (r, n')"
    by (cases "ins h k v n (cs ! child_ix ks k)")
  then show ?case using IH by (cases r) (simp_all add: Let_def)
qed (simp_all add: Let_def)

lemma ins_addrs:
  "bt_ok h lo hi f l t \<Longrightarrow>
   mset (concat (map addrs (res_trees (fst (ins h k v n t)))))
     = mset (addrs t) + mset [n..<snd (ins h k v n t)]"
proof (induction h arbitrary: lo hi f l t)
  case 0
  from 0(1) obtain a es where "t = Lf a f l es" by (auto elim: bt_ok_0E)
  then show ?case by (simp add: Let_def)
next
  case (Suc h)
  from Suc.prems(1) show ?case
  proof (rule bt_ok_SucE)
    fix a ks cs
    assume t: "t = Nd a False False ks cs" and len: "length cs = Suc (length ks)"
    let ?j = "child_ix ks k"
    have j: "?j \<le> length ks" "?j < length cs" using child_ix_le[of ks k] len by auto
    note IH = Suc.IH[OF bt_ok_child[OF Suc.prems(1)[unfolded t] j(1)]]
    have split: "mset (concat (map addrs cs)) = mset (concat (map addrs (take ?j cs))) +
      mset (addrs (cs ! ?j)) + mset (concat (map addrs (drop (Suc ?j) cs)))"
      by (simp only: concat_map_nth_split[OF j(2), of addrs] mset_append add.assoc)
    obtain r n' where r: "ins h k v n (cs ! ?j) = (r, n')" by (cases "ins h k v n (cs ! ?j)")
    have n': "n \<le> n'" using ins_fresh[of n h k v "cs ! ?j"] r by simp
    show ?thesis
    proof (cases r)
      case (One t')
      then show ?thesis
        using IH r t j split by (simp add: Let_def upd_conv_take_nth_drop)
    next
      case (Two t1 sp t2)
      define cs' where "cs' = take ?j cs @ t1 # t2 # drop (Suc ?j) cs"
      have c: "mset (concat (map addrs cs')) = mset (concat (map addrs cs)) + mset [n..<n']"
        using IH r t Two split by (simp add: cs'_def ac_simps)
      have "mset (concat (map addrs (take 9 cs'))) + mset (concat (map addrs (drop 9 cs')))
        = mset (concat (map addrs cs'))"
        by (metis append_take_drop_id concat_append map_append mset_append)
      then show ?thesis
        using r t Two c n' by (simp add: Let_def cs'_def[symmetric] ac_simps atLeastLessThanSuc)
    qed
  qed
qed

lemma ins_taddr:
  "bt_ok h lo hi f l t \<Longrightarrow>
   (case ins h k v n t of (One t', n') \<Rightarrow> taddr t' = taddr t
    | (Two t1 sp t2, n') \<Rightarrow> taddr t1 = taddr t \<and> n' = Suc (taddr t2))"
proof (induction h arbitrary: lo hi f l t)
  case 0
  then obtain a es where "t = Lf a f l es" by (auto elim: bt_ok_0E)
  then show ?case by (simp add: Let_def)
next
  case (Suc h)
  from Suc.prems(1) show ?case
    by (rule bt_ok_SucE) (auto simp: Let_def split: prod.splits ins_res.splits)
qed

section \<open>The invariant after an insertion\<close>

definition res_ok :: "nat \<Rightarrow> ckey option \<Rightarrow> ckey option \<Rightarrow> bool \<Rightarrow> bool \<Rightarrow> bt \<Rightarrow> ins_res \<Rightarrow> bool" where
  "res_ok h lo hi f l t r =
     (case r of
        One t' \<Rightarrow> bt_ok h lo hi f l t' \<and> nkeys t \<le> nkeys t'
      | Two t1 sp t2 \<Rightarrow> child_ok h lo (Some sp) f False t1 \<and> child_ok h (Some sp) hi False l t2 \<and>
          sep_bounds lo hi sp)"

lemma ins_ok_leaf:
  assumes "bt_ok 0 lo hi f l (Lf a f l es)" and "in_bounds lo hi k"
  shows "res_ok 0 lo hi f l (Lf a f l es) (fst (ins 0 k v n (Lf a f l es)))"
proof -
  let ?es = "alist_put k v es"
  have es: "length es \<le> 15" "sorted_keys es" "\<forall>k \<in> fst ` set es. in_bounds lo hi k"
    using assms(1) by auto
  have s': "sorted_keys ?es" by (rule sorted_keys_alist_put[OF es(2)])
  have b': "\<forall>k \<in> fst ` set ?es. in_bounds lo hi k"
    using es(3) assms(2) by (simp only: fst_set_alist_put ball_simps)
  have len: "length es \<le> length ?es" "length ?es \<le> 16"
    using es(1) length_alist_put[OF es(2), of k v] by (auto split: if_splits)
  show ?thesis
  proof (cases "length ?es \<le> 15")
    case True
    then show ?thesis using s' b' len by (simp add: Let_def res_ok_def)
  next
    case False
    then have l16: "length ?es = 16" using len by simp
    let ?sp = "fst (?es ! 8)"
    have lower: "in_bounds lo (Some ?sp) x" if x: "x \<in> fst ` set (take 8 ?es)" for x
    proof -
      have "x \<in> fst ` set ?es" using x in_set_takeD by fast
      moreover have "x < ?sp"
      proof -
        from x obtain e where e: "e \<in> set (take 8 ?es)" "x = fst e" by blast
        then obtain i where "i < length (take 8 ?es)" "x = fst (take 8 ?es ! i)"
          unfolding in_set_conv_nth by blast
        then show ?thesis using sorted_keys_nth_less[OF s', of i 8] l16 by simp
      qed
      ultimately show ?thesis using b' by (auto simp: in_bounds_def)
    qed
    have upper: "in_bounds (Some ?sp) hi x" if x: "x \<in> fst ` set (drop 8 ?es)" for x
    proof -
      have "x \<in> fst ` set ?es" using x in_set_dropD by fast
      moreover have "?sp \<le> x"
      proof -
        from x obtain e where e: "e \<in> set (drop 8 ?es)" "x = fst e" by blast
        then obtain i where "i < length (drop 8 ?es)" "x = fst (drop 8 ?es ! i)"
          unfolding in_set_conv_nth by blast
        then show ?thesis
          using sorted_keys_nth_less[OF s', of 8 "8 + i"] l16 by (cases "i = 0") (auto intro: less_imp_le)
      qed
      ultimately show ?thesis using b' by (auto simp: in_bounds_def)
    qed
    have sep: "sep_bounds lo hi ?sp"
    proof -
      have "in_bounds lo hi (fst (?es ! 0))" "in_bounds lo hi ?sp"
        using b' l16 nth_mem[of 0 ?es] nth_mem[of 8 ?es] by simp_all
      moreover have "fst (?es ! 0) < ?sp" using sorted_keys_nth_less[OF s', of 0 8] l16 by simp
      ultimately show ?thesis by (auto simp: in_bounds_def sep_bounds_def)
    qed
    show ?thesis
      using False l16 lower upper sep sorted_keys_take[OF s'] sorted_keys_drop[OF s']
      by (simp add: Let_def res_ok_def child_ok_def)
  qed
qed

lemma ins_ok_split:
  assumes "sorted_wrt (<) ks" and "length ks = 16" and "\<forall>k \<in> set ks. sep_bounds lo hi k"
    and "okc (child_ok h) lo hi f l ks cs"
  shows "child_ok (Suc h) lo (Some (ks ! 8)) f False (Nd a False False (take 8 ks) (take 9 cs))"
    "child_ok (Suc h) (Some (ks ! 8)) hi False l (Nd n False False (drop 9 ks) (drop 9 cs))"
    "sep_bounds lo hi (ks ! 8)"
  using sorted_split[OF assms(1) _ assms(3), of 8] okc_split[OF assms(4), of 8] assms(2,3)
  by (simp_all add: child_ok_def bt_ok_Nd del: bt_ok.simps)

lemma ins_ok:
  "bt_ok h lo hi f l t \<Longrightarrow> in_bounds lo hi k \<Longrightarrow> res_ok h lo hi f l t (fst (ins h k v n t))"
proof (induction h arbitrary: lo hi f l t)
  case 0
  then show ?case by (metis bt_ok_0E ins_ok_leaf)
next
  case (Suc h)
  from Suc.prems(1) show ?case
  proof (rule bt_ok_SucE)
    fix a ks cs
    assume t: "t = Nd a False False ks cs" and len: "length cs = Suc (length ks)"
      and sk: "sorted_wrt (<) ks"
    let ?j = "child_ix ks k"
    have nd: "1 \<le> length ks" "length ks \<le> 15" "\<forall>k \<in> set ks. sep_bounds lo hi k"
      "okc (child_ok h) lo hi f l ks cs"
      using Suc.prems(1) unfolding t bt_ok_Nd by blast+
    have j: "?j \<le> length ks" "?j < length cs" using child_ix_le[of ks k] len by auto
    have inb: "in_bounds (lo_at lo ks ?j) (hi_at hi ks ?j) k"
      using Suc.prems(2) sk by (rule in_bounds_child)
    note okj = bt_ok_child[OF Suc.prems(1)[unfolded t] j(1)]
    have seven: "7 \<le> nkeys (cs ! ?j)" using nd(4) j by (simp add: okc_iff child_ok_def)
    obtain r n' where r: "ins h k v n (cs ! ?j) = (r, n')" by (cases "ins h k v n (cs ! ?j)")
    have IH: "res_ok h (lo_at lo ks ?j) (hi_at hi ks ?j) (f \<and> ?j = 0) (l \<and> ?j = length ks) (cs ! ?j) r"
      using Suc.IH[OF okj inb] r by simp
    show ?thesis
    proof (cases r)
      case (One t')
      then have "okc (child_ok h) lo hi f l ks (cs[?j := t'])"
        using IH seven by (intro okc_update[OF nd(4) j(1)]) (auto simp: res_ok_def child_ok_def)
      then have "bt_ok (Suc h) lo hi f l (Nd a False False ks (cs[?j := t']))"
        unfolding bt_ok_Nd using nd sk by blast
      then show ?thesis using r One t by (simp add: res_ok_def del: bt_ok.simps)
    next
      case (Two t1 sp t2)
      let ?ks = "ins_at ?j sp ks" and ?cs = "take ?j cs @ t1 # t2 # drop (Suc ?j) cs"
      have sp: "sep_bounds (lo_at lo ks ?j) (hi_at hi ks ?j) sp" using IH Two by (simp add: res_ok_def)
      have sks: "sorted_wrt (<) ?ks" by (rule sorted_ins_at[OF sk sep_position[OF sk j(1) sp]])
      have bks: "\<forall>k \<in> set ?ks. sep_bounds lo hi k"
        using sep_bounds_mono[OF nd(3) j(1) sp] nd(3) by simp
      have okcs: "okc (child_ok h) lo hi f l ?ks ?cs"
        using IH Two by (intro okc_insert[OF nd(4) j(1)]) (auto simp: res_ok_def)
      show ?thesis
      proof (cases "length ?ks \<le> 15")
        case True
        then have "bt_ok (Suc h) lo hi f l (Nd a False False ?ks ?cs)"
          unfolding bt_ok_Nd using sks bks okcs by simp
        then show ?thesis using r Two t True by (simp add: Let_def res_ok_def del: bt_ok.simps)
      next
        case False
        then have "length ?ks = 16" using nd(2) by simp
        from ins_ok_split[OF sks this bks okcs] show ?thesis
          using r Two t False by (simp add: Let_def res_ok_def del: bt_ok.simps)
      qed
    qed
  qed
qed

section \<open>Insertion at the root\<close>

fun put_tree :: "nat \<Rightarrow> ckey \<Rightarrow> addr \<Rightarrow> addr \<Rightarrow> bt \<Rightarrow> nat \<times> bt" where
  "put_tree h k v n t =
     (case ins h k v n t of
        (One t', n') \<Rightarrow> (h, t')
      | (Two t1 sp t2, n') \<Rightarrow> (Suc h, Nd n' False False [sp] [t1, t2]))"

lemma put_tree_ok:
  assumes "bt_ok h None None True True t"
  shows "bt_ok (fst (put_tree h k v n t)) None None True True (snd (put_tree h k v n t))"
    "contents (snd (put_tree h k v n t)) = alist_put k v (contents t)"
proof -
  obtain r n' where r: "ins h k v n t = (r, n')" by (cases "ins h k v n t")
  have ok: "res_ok h None None True True t r" using ins_ok[OF assms, of k v n] r by simp
  have c: "concat (map contents (res_trees r)) = alist_put k v (contents t)"
    using ins_contents[OF assms, of k v n] r by simp
  show "bt_ok (fst (put_tree h k v n t)) None None True True (snd (put_tree h k v n t))"
  proof (cases r)
    case (One t')
    then show ?thesis using ok r by (simp add: res_ok_def)
  next
    case (Two t1 sp t2)
    then show ?thesis using ok r by (simp add: res_ok_def bt_ok_Nd sep_bounds_def del: bt_ok.simps)
  qed
  show "contents (snd (put_tree h k v n t)) = alist_put k v (contents t)"
    using c r by (cases r) simp_all
qed

end
