(* ===== verification/Relation_Insert.thy ===== *)
theory Relation_Insert
  imports Relation_Ins
begin

text \<open>
  \<open>putEntry\<close> refines the insertion of the abstract tree: along the cursor's path it either
  finishes inside a subtree, or has split that subtree's root and goes on one level up with the
  new separator.
\<close>

section \<open>The part of a cursor below a level\<close>

definition cur_sub :: "cursor \<Rightarrow> nat \<Rightarrow> bt \<Rightarrow> nat list \<Rightarrow> nat \<Rightarrow> bool" where
  "cur_sub c d t js li \<longleftrightarrow>
     arrays_ok c \<and> level c = int (d + length js) \<and> d + length js < 20 \<and>
     take (Suc (length js)) (drop d (ancestors c)) = anc t js \<and>
     take (Suc (length js)) (drop d (ancestorsIdx c)) = idxs js li"

lemma cur_at_cur_sub: "cur_at c t js li \<longleftrightarrow> cur_sub c 0 t js li"
  by (auto simp: cur_at_def cur_sub_def arrays_ok_def)

lemma take_Suc_drop:
  "d < length xs \<Longrightarrow> take (Suc m) (drop d xs) = xs ! d # take m (drop (Suc d) xs)"
  by (metis Cons_nth_drop_Suc take_Suc_Cons)

lemma cur_sub_Cons:
  "cur_sub c d (Nd a f l ks cs) (j # js) li \<longleftrightarrow>
     cur_sub c (Suc d) (cs ! j) js li \<and> ancestors c ! d = a \<and> ancestorsIdx c ! d = int j - 1"
proof (cases "arrays_ok c \<and> d < 20")
  case True
  then have "d < length (ancestors c)" "d < length (ancestorsIdx c)" by (auto simp: arrays_ok_def)
  then show ?thesis
    unfolding cur_sub_def by (auto simp: take_Suc_drop idxs_def)
qed (auto simp: cur_sub_def)

lemma cur_sub_Nil:
  "cur_sub c d t [] li \<longleftrightarrow> arrays_ok c \<and> level c = int d \<and> d < 20 \<and>
     ancestors c ! d = taddr t \<and> ancestorsIdx c ! d = int li"
proof (cases "arrays_ok c \<and> d < 20")
  case True
  then have "d < length (ancestors c)" "d < length (ancestorsIdx c)" by (auto simp: arrays_ok_def)
  then show ?thesis
    unfolding cur_sub_def by (auto simp: take_Suc_drop idxs_def)
qed (auto simp: cur_sub_def)

lemma cur_sub_arrays: "cur_sub c d t js li \<Longrightarrow> arrays_ok c"
  by (simp add: cur_sub_def)

lemma cur_sub_put:
  assumes "arrays_ok c" and "vpath t js" and "d + length js < 20"
  shows "cur_sub (cursor_put c d (anc t js) js li) d t js li"
    "take d (ancestors (cursor_put c d (anc t js) js li)) = take d (ancestors c)"
    "take d (ancestorsIdx (cursor_put c d (anc t js) js li)) = take d (ancestorsIdx c)"
  using assms by (auto simp: cur_sub_def cursor_put_def arrays_ok_def length_anc)

lemma take_eq_shorter: "take (Suc d) xs = take (Suc d) ys \<Longrightarrow> take d xs = take d ys"
  by (metis append_eq_append_conv2 append_take_drop_id lessI less_imp_le min.absorb1 take_take)

lemma take_eq_nth: "take (Suc d) xs = take (Suc d) ys \<Longrightarrow> xs ! d = ys ! d"
  by (metis lessI nth_take)

section \<open>What a part of the heap keeps\<close>

definition heap_step :: "rl \<Rightarrow> rl \<Rightarrow> addr set \<Rightarrow> addr \<Rightarrow> bool" where
  "heap_step s s' A n' \<longleftrightarrow>
     (\<forall>a. a \<notin> A \<and> \<not> (fresh s \<le> a \<and> a < n') \<longrightarrow> nodes s' a = nodes s a) \<and>
     fresh s \<le> n' \<and> fresh s' = n' \<and> avail s' = avail s - (n' - fresh s) \<and>
     root s' = root s \<and> depth s' = depth s"

lemma rep_heap_step:
  assumes "rep (nodes s) t" and "heap_step s s' A n'" and "set (addrs t) \<inter> A = {}"
    and "\<forall>a \<in> set (addrs t). a < fresh s"
  shows "rep (nodes s') t"
proof (rule rep_frame[OF assms(1)])
  fix a assume a: "a \<in> set (addrs t)"
  then have "a \<notin> A" "a < fresh s" using assms(3,4) by auto
  then show "nodes s' a = nodes s a" using assms(2) by (simp add: heap_step_def)
qed

definition new_rec :: "ckey \<Rightarrow> bt \<Rightarrow> nat" where
  "new_rec k t = (if k \<in> fst ` set (contents t) then 0 else 1)"

definition put_post :: "rl \<Rightarrow> cursor \<Rightarrow> nat \<Rightarrow> nat \<Rightarrow> bt \<Rightarrow> ckey \<Rightarrow> addr \<Rightarrow> bool" where
  "put_post s c d h t k v \<longleftrightarrow>
     (case ins h k v (fresh s) t of
        (One t', n') \<Rightarrow> \<exists>s' c'.
          putEntry s c (int (d + h)) \<lparr>ekey = k, eptr = v\<rparr> k = Inr (s', c') \<and>
          rep (nodes s') t' \<and> heap_step s s' (set (addrs t)) n' \<and>
          numRecords s' = numRecords s + new_rec k t \<and>
          cur_sub c' d t' (spath h t' k) (find_ix h t' k) \<and>
          take d (ancestors c') = take d (ancestors c) \<and>
          take d (ancestorsIdx c') = take d (ancestorsIdx c)
      | (Two t1 sp t2, n') \<Rightarrow> \<exists>s'.
          putEntry s c (int (d + h)) \<lparr>ekey = k, eptr = v\<rparr> k
            = putEntry s' (c\<lparr>level := int d - 1\<rparr>) (int d - 1) \<lparr>ekey = sp, eptr = taddr t2\<rparr> k \<and>
          rep (nodes s') t1 \<and> rep (nodes s') t2 \<and> heap_step s s' (set (addrs t)) n' \<and>
          numRecords s' = numRecords s \<and> new_rec k t = 1)"

lemma put_post_OneI:
  assumes "ins h k v (fresh s) t = (One t', n')"
    and "putEntry s c (int (d + h)) \<lparr>ekey = k, eptr = v\<rparr> k = Inr (s', c')"
    and "rep (nodes s') t'" "heap_step s s' (set (addrs t)) n'"
    and "numRecords s' = numRecords s + new_rec k t"
    and "cur_sub c' d t' (spath h t' k) (find_ix h t' k)"
    and "take d (ancestors c') = take d (ancestors c)"
    and "take d (ancestorsIdx c') = take d (ancestorsIdx c)"
  shows "put_post s c d h t k v"
  unfolding put_post_def assms(1) prod.case ins_res.case using assms(2-) by blast

lemma put_post_TwoI:
  assumes "ins h k v (fresh s) t = (Two t1 sp t2, n')"
    and "putEntry s c (int (d + h)) \<lparr>ekey = k, eptr = v\<rparr> k
          = putEntry s' (c\<lparr>level := int d - 1\<rparr>) (int d - 1) \<lparr>ekey = sp, eptr = taddr t2\<rparr> k"
    and "rep (nodes s') t1" "rep (nodes s') t2" "heap_step s s' (set (addrs t)) n'"
    and "numRecords s' = numRecords s" "new_rec k t = 1"
  shows "put_post s c d h t k v"
  unfolding put_post_def assms(1) prod.case ins_res.case using assms(2-) by blast

section \<open>At the leaf\<close>

lemma rec_ix_alist_put:
  "sorted_keys es \<Longrightarrow> rec_ix (map fst (alist_put k v es)) k = rec_ix (map fst es) k"
  by (induction k v es rule: alist_put.induct) (auto simp: rec_ix_def)

lemma leaf_update_node_is:
  assumes n: "node_is n True f l p es" and i: "i < length es"
  shows "node_is (n\<lparr>entries := (entries n)[i := Some \<lparr>ekey = fst (es ! i), eptr = v\<rparr>]\<rparr>) True f l p
     (es[i := (fst (es ! i), v)])"
proof (rule node_isI)
  fix j assume "j < length (es[i := (fst (es ! i), v)])"
  then show "entries (n\<lparr>entries := (entries n)[i := Some \<lparr>ekey = fst (es ! i), eptr = v\<rparr>]\<rparr>) ! j
     = slot_of (es[i := (fst (es ! i), v)] ! j)"
    using node_is_nth[OF n, of j] node_isD(6)[OF n] node_is_length[OF n] i
    by (cases "i = j") (simp_all add: slot_of_def)
qed (use node_isD[OF n] node_is_length[OF n] in simp_all)

lemma cur_sub_read:
  assumes "cur_sub c d t [] li"
  shows "currAddr c = Inr (taddr t)" "entryIndex c = Inr (int li)"
  using assms by (simp_all add: cur_sub_Nil currAddr_def entryIndex_def arrays_ok_def)

lemma put_post_leaf:
  assumes ok: "bt_ok 0 lo hi f l t" and m: "rep (nodes s) t"
    and A: "\<forall>a \<in> set (addrs t). a < fresh s" and av: "avail s \<noteq> 0" "fresh s \<noteq> 0"
    and c: "cur_sub c d t (spath 0 t k) (find_ix 0 t k)"
  shows "put_post s c d 0 t k v"
proof -
  obtain a es where t: "t = Lf a f l es" and es: "length es \<le> 15" "sorted_keys es"
    using ok by (auto elim: bt_ok_0E)
  obtain n where n: "node_at s a = Inr n" "nodes s a = Some n" "a \<noteq> 0" "node_is n True f l 0 es"
    using rep_leafE[of s a f l es] m t by metis
  let ?i = "rec_ix (map fst es) k" and ?es = "alist_put k v es"
    and ?e = "\<lparr>ekey = k, eptr = v\<rparr>"
  have il: "?i \<le> length es" using rec_ix_le[of "map fst es" k] by simp
  have c0: "cur_sub c d t [] ?i" using c t by simp
  note rd = cur_sub_read[OF c0]
  have dlt: "d < 20" using c0 by (simp add: cur_sub_Nil)
  have i': "rec_ix (map fst ?es) k = ?i" by (rule rec_ix_alist_put[OF es(2)])
  have cur': "cur_sub c d (Lf a f l ?es) [] ?i" using c0 t by (simp add: cur_sub_Nil)
  have mem: "k \<in> fst ` set es \<longleftrightarrow> ?i < length es \<and> fst (es ! ?i) = k" by (rule rec_ix_mem[OF es(2)])
  have rd_i: "?i < length es \<Longrightarrow> entry_at n (int ?i) = Inr \<lparr>ekey = fst (es ! ?i), eptr = snd (es ! ?i)\<rparr>"
    by (rule entry_at_node_is[OF n(4)])
  show ?thesis
  proof (cases "k \<in> fst ` set es")
    case True
    then have i: "?i < length es" "fst (es ! ?i) = k" using mem by auto
    let ?n = "n\<lparr>entries := (entries n)[?i := Some \<lparr>ekey = fst (es ! ?i), eptr = v\<rparr>]\<rparr>"
    let ?s = "set_node s a ?n"
    have put: "?es = es[?i := (fst (es ! ?i), v)]" using alist_put_old[OF es(2) True, of v] i(2) by simp
    have len: "length ?es \<le> 15" using put es(1) by simp
    have "putEntry s c (int d) ?e k = Inr (?s, c)"
      using rd n(1) rd_i i node_isD[OF n(4)] t es(1)
      by (subst putEntry.simps) simp
    moreover have "node_is ?n True f l 0 ?es"
      using leaf_update_node_is[OF n(4) i(1), of v] put by simp
    ultimately show ?thesis
      using t len n(3) cur' i' True
      by (auto simp: put_post_def Let_def heap_step_def set_node_def new_rec_def)
  next
    case False
    then have ne: "?i < length es \<Longrightarrow> fst (es ! ?i) \<noteq> k" using mem by simp
    from False have put: "?es = ins_at ?i (k, v) es" by (rule alist_put_new[OF es(2)])
    show ?thesis
    proof (cases "length es < 15")
      case True
      obtain n' where n': "insert_slot s a n (int ?i) ?e
          = Inr ((set_node s a n')\<lparr>numRecords := Suc (numRecords s)\<rparr>)"
        "node_is n' True f l 0 (ins_at ?i (ekey ?e, eptr ?e) es)"
        using insert_slot_node_is[OF n(4) True il] by metis
      have "putEntry s c (int d) ?e k = Inr ((set_node s a n')\<lparr>numRecords := Suc (numRecords s)\<rparr>, c)"
        using rd n(1) rd_i ne n'(1) True node_isD[OF n(4)] t
        by (subst putEntry.simps) simp
      moreover have "length ?es \<le> 15" using put True by simp
      ultimately show ?thesis
        using t n(3) n'(2) cur' i' False put
        by (auto simp: put_post_def Let_def heap_step_def set_node_def new_rec_def)
    next
      case full: False
      then have l15: "length es = 15" using es(1) by simp
      have fa: "fresh s \<noteq> a" using A t by auto
      let ?es' = "ins_at (rec_ix (map fst es) (ekey ?e)) (ekey ?e, eptr ?e) es"
      have es': "?es' = ?es" using put by simp
      obtain n' m where sp: "splitnode s a ?e True
          = Inr (split_state s a n' m, \<lparr>ekey = fst (?es ! 8), eptr = fresh s\<rparr>)"
        "node_is n' True f False 0 (take 8 ?es)" "node_is m True False l 0 (drop 8 ?es)"
        using splitnode_node_is[OF n(2,3,4) l15 av fa, where ?e = ?e] unfolding es' by auto
      have "putEntry s c (int d) ?e k
          = putEntry (split_state s a n' m) (c\<lparr>level := int d - 1\<rparr>) (int d - 1)
              \<lparr>ekey = fst (?es ! 8), eptr = fresh s\<rparr> k"
        using rd n(1) rd_i ne sp(1) l15 node_isD[OF n(4)] t c0
        by (subst putEntry.simps) (simp add: cur_sub_Nil)
      moreover have "\<not> length ?es \<le> 15" using put l15 by simp
      ultimately show ?thesis
        using t n(3) sp(2,3) av False fa
        by (auto simp: put_post_def Let_def heap_step_def split_state_def new_rec_def)
    qed
  qed
qed

section \<open>At an intern node\<close>

lemma node_kvs_zip: "node_kvs ks cs = zip ks (tl (map taddr cs))"
  by (simp add: node_kvs_def map_tl)

lemma taddr_hd: "cs \<noteq> [] \<Longrightarrow> taddr (hd cs) = hd (map taddr cs)"
  by (simp add: hd_map)

lemma node_kvs_update:
  assumes "j < length cs" and "taddr t' = taddr (cs ! j)"
  shows "node_kvs ks (take j cs @ [t'] @ drop (Suc j) cs) = node_kvs ks cs"
    "taddr (hd (take j cs @ [t'] @ drop (Suc j) cs)) = taddr (hd cs)"
proof -
  have m: "map taddr (take j cs @ [t'] @ drop (Suc j) cs) = map taddr cs"
    using assms(2) id_take_nth_drop[OF assms(1)] by (metis append_Cons append_Nil list.simps(9) map_append)
  then show "node_kvs ks (take j cs @ [t'] @ drop (Suc j) cs) = node_kvs ks cs"
    by (simp only: node_kvs_zip)
  have "cs \<noteq> []" using assms(1) by auto
  moreover have "take j cs @ [t'] @ drop (Suc j) cs \<noteq> []" by simp
  ultimately show "taddr (hd (take j cs @ [t'] @ drop (Suc j) cs)) = taddr (hd cs)"
    using m by (metis taddr_hd)
qed

lemma zip_ins_at:
  assumes "length ys = length xs" and "j \<le> length xs"
  shows "zip (ins_at j x xs) (ins_at j y ys) = ins_at j (x, y) (zip xs ys)"
  using assms by (simp add: ins_at_def take_zip drop_zip)

lemma node_kvs_insert:
  assumes "length cs = Suc (length ks)" and "j \<le> length ks" and "taddr t1 = taddr (cs ! j)"
  shows "node_kvs (ins_at j sp ks) (take j cs @ [t1, t2] @ drop (Suc j) cs)
      = ins_at j (sp, taddr t2) (node_kvs ks cs)"
    "taddr (hd (take j cs @ [t1, t2] @ drop (Suc j) cs)) = taddr (hd cs)"
proof -
  let ?xs = "map taddr cs"
  have j: "j < length cs" using assms by simp
  obtain x xs where xs: "?xs = x # xs" "length xs = length ks" using assms(1) by (cases cs) auto
  have "map taddr (take j cs @ [t1, t2] @ drop (Suc j) cs)
      = take j ?xs @ ?xs ! j # taddr t2 # drop (Suc j) ?xs"
    using assms(3) j by (simp add: take_map drop_map)
  also have "\<dots> = x # ins_at j (taddr t2) xs"
    using j xs assms(1) by (cases j) (simp_all add: ins_at_def take_Suc_conv_app_nth)
  finally have m: "map taddr (take j cs @ [t1, t2] @ drop (Suc j) cs) = x # ins_at j (taddr t2) xs" .
  then show "node_kvs (ins_at j sp ks) (take j cs @ [t1, t2] @ drop (Suc j) cs)
      = ins_at j (sp, taddr t2) (node_kvs ks cs)"
    using xs assms(2) zip_ins_at[of xs ks j sp "taddr t2"] by (simp only: node_kvs_zip list.sel)
  have "taddr (hd (take j cs @ [t1, t2] @ drop (Suc j) cs)) = x"
    using m taddr_hd[of "take j cs @ [t1, t2] @ drop (Suc j) cs"] by simp
  moreover have "taddr (hd cs) = x" using xs(1) assms(1) taddr_hd[of cs] by force
  ultimately show "taddr (hd (take j cs @ [t1, t2] @ drop (Suc j) cs)) = taddr (hd cs)" by simp
qed

lemma node_kvs_take: "node_kvs (take m ks) (take (Suc m) cs) = take m (node_kvs ks cs)"
  by (cases cs) (simp_all add: node_kvs_zip take_zip take_map)

lemma node_kvs_drop:
  "node_kvs (drop m ks) (drop m cs) = drop m (node_kvs ks cs)"
  by (simp only: node_kvs_zip drop_zip drop_map[symmetric] tl_drop)

lemma nd_addrs:
  assumes "distinct (addrs (Nd a f l ks cs))" and "j < length cs"
  shows "a \<notin> set (addrs (cs ! j))"
    "c \<in> set (take j cs) \<union> set (drop (Suc j) cs) \<Longrightarrow>
      set (addrs c) \<inter> set (addrs (cs ! j)) = {} \<and> a \<notin> set (addrs c)"
proof -
  have d: "a \<notin> set (concat (map addrs cs))" "distinct (concat (map addrs cs))" using assms(1) by auto
  note sp = concat_map_nth_split[OF assms(2), of addrs]
  show "a \<notin> set (addrs (cs ! j))" using d(1) sp by auto
  show "c \<in> set (take j cs) \<union> set (drop (Suc j) cs) \<Longrightarrow>
      set (addrs c) \<inter> set (addrs (cs ! j)) = {} \<and> a \<notin> set (addrs c)"
    using d unfolding sp by auto
qed

lemma children_after_put:
  assumes ok: "bt_ok h lo hi f l (cs ! j)" and j: "j < length cs"
    and m: "\<forall>c \<in> set cs. rep (nodes s) c" and d: "distinct (addrs (Nd a f' l' ks cs))"
    and A: "\<forall>x \<in> set (addrs (Nd a f' l' ks cs)). x < fresh s"
    and r: "ins h k v (fresh s) (cs ! j) = (r, n')"
    and st: "heap_step s s' (set (addrs (cs ! j))) n'"
    and new: "\<forall>c \<in> set (res_trees r). rep (nodes s') c"
    and c: "c \<in> set (take j cs @ res_trees r @ drop (Suc j) cs)"
  shows "rep (nodes s') c" "a \<notin> set (addrs c)" "n' \<notin> set (addrs c)"
proof -
  have st': "fresh s \<le> n'" using st by (simp add: heap_step_def)
  have "rep (nodes s') c \<and> a \<notin> set (addrs c) \<and> n' \<notin> set (addrs c)"
  proof (cases "c \<in> set (res_trees r)")
    case True
    have "set (addrs c) \<subseteq> set (concat (map addrs (res_trees r)))" using True by auto
    also have "\<dots> = set_mset (mset (addrs (cs ! j)) + mset [fresh s..<n'])"
      using ins_addrs[OF ok, of k v "fresh s"] r by (metis fst_conv set_mset_mset snd_conv)
    finally have sub: "set (addrs c) \<subseteq> set (addrs (cs ! j)) \<union> {fresh s..<n'}" by simp
    have "a < fresh s" "\<forall>x \<in> set (addrs (cs ! j)). x < fresh s" using A j by auto
    with sub nd_addrs(1)[OF d j] st' new True show ?thesis by force
  next
    case False
    then have c': "c \<in> set (take j cs) \<union> set (drop (Suc j) cs)" using c by auto
    then have cc: "c \<in> set cs" using in_set_takeD in_set_dropD by fast
    then have lt: "\<forall>x \<in> set (addrs c). x < fresh s" using A by auto
    with nd_addrs(2)[OF d j c'] cc m st st' show ?thesis
      using rep_heap_step[OF _ st _ lt] by force
  qed
  then show "rep (nodes s') c" "a \<notin> set (addrs c)" "n' \<notin> set (addrs c)" by auto
qed

lemma heap_step_mono:
  "heap_step s s' A n' \<Longrightarrow> A \<subseteq> B \<Longrightarrow> heap_step s s' B n'"
  by (auto simp: heap_step_def)

lemma heap_step_set_node:
  assumes "heap_step s s' A n'" and "A \<subseteq> B" and "a \<in> B"
  shows "heap_step s ((set_node s' a n)\<lparr>numRecords := m\<rparr>) B n'"
  using assms by (auto simp: heap_step_def set_node_def)

lemma heap_step_split:
  assumes "heap_step s s' A n'" and "A \<subseteq> B" and "a \<in> B" and "n' - fresh s < avail s"
  shows "heap_step s (split_state s' a n m) B (Suc n')"
  using assms by (auto simp: heap_step_def split_state_def)

lemma rep_set_node:
  "rep (nodes s) t \<Longrightarrow> a \<notin> set (addrs t) \<Longrightarrow> rep (nodes ((set_node s a n)\<lparr>numRecords := m\<rparr>)) t"
  by (erule rep_frame) (auto simp: set_node_def)

lemma rep_split_state:
  "rep (nodes s) t \<Longrightarrow> a \<notin> set (addrs t) \<Longrightarrow> fresh s \<notin> set (addrs t) \<Longrightarrow>
   rep (nodes (split_state s a n m)) t"
  by (erule rep_frame) (auto simp: split_state_def)

lemma new_rec_child:
  assumes ok: "bt_ok (Suc h) lo hi f l (Nd a f' l' ks cs)" and k: "in_bounds lo hi k"
  shows "new_rec k (Nd a f' l' ks cs) = new_rec k (cs ! child_ix ks k)"
proof -
  let ?j = "child_ix ks k"
  have j: "?j \<le> length ks" "?j < length cs" using child_ix_le[of ks k] ok by auto
  have inb: "in_bounds (lo_at lo ks ?j) (hi_at hi ks ?j) k"
    using in_bounds_child[OF k] ok by simp
  have "k \<notin> fst ` set (concat (map contents (take ?j cs)))"
    using children_before[OF ok j(1) inb] by blast
  moreover have "k \<notin> fst ` set (concat (map contents (drop (Suc ?j) cs)))"
    using children_after[OF ok j(1) inb] by blast
  moreover have "fst ` set (contents (Nd a f' l' ks cs)) =
      fst ` set (concat (map contents (take ?j cs))) \<union> fst ` set (contents (cs ! ?j)) \<union>
      fst ` set (concat (map contents (drop (Suc ?j) cs)))"
    by (simp only: contents.simps concat_map_nth_split[OF j(2), of contents] set_append image_Un Un_assoc)
  ultimately show ?thesis by (simp add: new_rec_def)
qed

text \<open>
  What holds when \<open>putEntry\<close> comes back to the intern node at level \<open>d\<close> after its child
  was replaced by the trees of \<open>r\<close>: the node itself is as it was, and the children around the
  path are in place.
\<close>

lemma put_post_one:
  assumes ok: "bt_ok (Suc h) lo hi f l (Nd a False False ks cs)" and k: "in_bounds lo hi k"
    and m: "rep (nodes s) (Nd a False False ks cs)" and d: "distinct (addrs (Nd a False False ks cs))"
    and A: "\<forall>x \<in> set (addrs (Nd a False False ks cs)). x < fresh s"
    and c: "cur_sub c d (Nd a False False ks cs) (j # spath h (cs ! j) k) li"
    and j: "j = child_ix ks k"
    and IH: "put_post s c (Suc d) h (cs ! j) k v"
    and r: "ins h k v (fresh s) (cs ! j) = (One t', n')"
  shows "put_post s c d (Suc h) (Nd a False False ks cs) k v"
proof -
  have len: "length cs = Suc (length ks)" using ok by simp
  have jl: "j \<le> length ks" "j < length cs" using child_ix_le[of ks k] len by (auto simp: j)
  note okj = bt_ok_child[OF ok jl(1)]
  obtain s' c' where IH': "putEntry s c (int (Suc d + h)) \<lparr>ekey = k, eptr = v\<rparr> k = Inr (s', c')"
    "rep (nodes s') t'" "heap_step s s' (set (addrs (cs ! j))) n'"
    "numRecords s' = numRecords s + new_rec k (cs ! j)"
    "cur_sub c' (Suc d) t' (spath h t' k) (find_ix h t' k)"
    "take (Suc d) (ancestors c') = take (Suc d) (ancestors c)"
    "take (Suc d) (ancestorsIdx c') = take (Suc d) (ancestorsIdx c)"
    using IH r by (auto simp: put_post_def)
  obtain n where n: "nodes s a = Some n" "a \<noteq> 0"
    "node_is n False False False (taddr (hd cs)) (node_kvs ks cs)" "\<forall>c \<in> set cs. rep (nodes s) c"
    using rep_internE[OF m] by metis
  let ?cs = "take j cs @ [t'] @ drop (Suc j) cs"
  note ch = children_after_put[OF okj jl(2) n(4) d A r IH'(3)]
  have chs: "\<forall>x \<in> set ?cs. rep (nodes s') x" using ch(1) IH'(2) by simp
  have na: "nodes s' a = Some n"
    using IH'(3) n(1) nd_addrs(1)[OF d jl(2)] A by (simp add: heap_step_def)
  have t': "taddr t' = taddr (cs ! j)" using ins_taddr[OF okj, of k v "fresh s"] r by simp
  let ?t = "Nd a False False ks (cs[j := t'])"
  have eq: "?cs = cs[j := t']" using jl(2) by (simp add: upd_conv_take_nth_drop)
  have "\<forall>x \<in> set (cs[j := t']). rep (nodes s') x" using chs unfolding eq .
  then have "rep (nodes s') ?t"
    using na n(2,3) node_kvs_update[OF jl(2) t', unfolded eq] by simp
  moreover have "heap_step s s' (set (addrs (Nd a False False ks cs))) n'"
    using jl(2) by (intro heap_step_mono[OF IH'(3)]) auto
  moreover have "cur_sub c' d ?t (j # spath h t' k) (find_ix h t' k)"
    using c IH'(5) take_eq_nth[OF IH'(6)] take_eq_nth[OF IH'(7)] jl
    by (simp add: cur_sub_Cons)
  moreover have "cs[j := t'] ! j = t'" using jl by simp
  moreover have "numRecords s' = numRecords s + new_rec k (Nd a False False ks cs)"
    using IH'(4) new_rec_child[OF ok k] j by simp
  moreover have "ins (Suc h) k v (fresh s) (Nd a False False ks cs) = (One ?t, n')"
    using r j by (simp add: Let_def)
  ultimately show ?thesis
    using IH'(1) take_eq_shorter[OF IH'(6)] take_eq_shorter[OF IH'(7)] j
    unfolding put_post_def by (simp del: ins.simps rep.simps)
qed

lemma res_ok_ins_Suc:
  assumes "bt_ok (Suc h) lo hi f l t" and "in_bounds lo hi k" and "ins (Suc h) k v n t = (One t', n')"
  shows "bt_ok (Suc h) lo hi f l t'"
  using ins_ok[OF assms(1,2), of v n] assms(3) by (simp add: res_ok_def del: bt_ok.simps)

lemma put_post_two_room:
  assumes ok: "bt_ok (Suc h) lo hi f l (Nd a False False ks cs)" and k: "in_bounds lo hi k"
    and m: "rep (nodes s) (Nd a False False ks cs)" and d: "distinct (addrs (Nd a False False ks cs))"
    and A: "\<forall>x \<in> set (addrs (Nd a False False ks cs)). x < fresh s"
    and c: "cur_sub c d (Nd a False False ks cs) (j # spath h (cs ! j) k) li"
    and j: "j = child_ix ks k" and dh: "d + Suc h < 20"
    and IH: "put_post s c (Suc d) h (cs ! j) k v"
    and r: "ins h k v (fresh s) (cs ! j) = (Two t1 sp t2, n')" and room: "length ks < 15"
  shows "put_post s c d (Suc h) (Nd a False False ks cs) k v"
proof -
  have len: "length cs = Suc (length ks)" using ok by simp
  have jl: "j \<le> length ks" "j < length cs" using child_ix_le[of ks k] len by (auto simp: j)
  note okj = bt_ok_child[OF ok jl(1)]
  let ?e = "\<lparr>ekey = k, eptr = v\<rparr>" and ?c = "c\<lparr>level := int d\<rparr>"
  obtain s' where IH': "putEntry s c (int (Suc d + h)) ?e k
      = putEntry s' ?c (int d) \<lparr>ekey = sp, eptr = taddr t2\<rparr> k"
    "rep (nodes s') t1" "rep (nodes s') t2" "heap_step s s' (set (addrs (cs ! j))) n'"
    "numRecords s' = numRecords s" "new_rec k (cs ! j) = 1"
    using IH r by (auto simp: put_post_def)
  obtain n where n: "nodes s a = Some n" "a \<noteq> 0"
    "node_is n False False False (taddr (hd cs)) (node_kvs ks cs)" "\<forall>c \<in> set cs. rep (nodes s) c"
    using rep_internE[OF m] by metis
  let ?ks = "ins_at j sp ks" and ?cs = "take j cs @ [t1, t2] @ drop (Suc j) cs"
  note ch = children_after_put[OF okj jl(2) n(4) d A r IH'(4)]
  have na: "nodes s' a = Some n"
    using IH'(4) n(1) nd_addrs(1)[OF d jl(2)] A by (simp add: heap_step_def)
  have t1: "taddr t1 = taddr (cs ! j)" using ins_taddr[OF okj, of k v "fresh s"] r by simp
  have lk: "length (node_kvs ks cs) < 15" "j \<le> length (node_kvs ks cs)" using len room jl by simp_all
  obtain n1 where n1: "insert_slot s' a n (int j) \<lparr>ekey = sp, eptr = taddr t2\<rparr>
      = Inr ((set_node s' a n1)\<lparr>numRecords := Suc (numRecords s')\<rparr>)"
    "node_is n1 False False False (taddr (hd cs)) (ins_at j (sp, taddr t2) (node_kvs ks cs))"
    using insert_slot_node_is[OF n(3) lk, of s' a "\<lparr>ekey = sp, eptr = taddr t2\<rparr>"] by auto
  define s1 where "s1 = (set_node s' a n1)\<lparr>numRecords := Suc (numRecords s')\<rparr>"
  let ?t = "Nd a False False ?ks ?cs"
  have chs: "\<forall>x \<in> set ?cs. rep (nodes s1) x"
  proof
    fix x assume "x \<in> set ?cs"
    then have "rep (nodes s') x" "a \<notin> set (addrs x)" using ch(1,2)[of x] IH'(2,3) by simp_all
    then show "rep (nodes s1) x" unfolding s1_def by (rule rep_set_node)
  qed
  moreover have "nodes s1 a = Some n1" by (simp add: s1_def set_node_def)
  ultimately have m1: "rep (nodes s1) ?t"
    using n(2) n1(2) node_kvs_insert(1)[OF len jl(1) t1, of sp t2] node_kvs_insert(2)[OF len jl(1) t1, of t2] by simp
  have ins: "ins (Suc h) k v (fresh s) (Nd a False False ks cs) = (One ?t, n')"
    using r room j by (simp add: Let_def)
  have ok1: "bt_ok (Suc h) lo hi f l ?t" by (rule res_ok_ins_Suc[OF ok k ins])
  have ca: "arrays_ok c" "ancestors c ! d = a" "ancestorsIdx c ! d = int j - 1" "arrays_ok ?c"
    using c cur_sub_arrays[OF c] unfolding cur_sub_Cons by (simp_all add: arrays_ok_def)
  let ?p = "spath (Suc h) ?t k" and ?i = "find_ix (Suc h) ?t k"
  have mv: "moveToKey s1 a k ?c (int d) = Inr (cursor_put ?c d (anc ?t ?p) ?p ?i)"
    using moveToKey_correct[OF ok1 m1 dh ca(4), of k] by (simp del: spath.simps)
  have dl: "d < length (ancestors c)" "d < length (ancestorsIdx c)"
    using ca(1) dh by (auto simp: arrays_ok_def)
  have rd: "currAddr ?c = Inr a" "aget (ancestorsIdx c) (int d) = Inr (int j - 1)"
    using ca dl by (simp_all add: currAddr_def)
  have nad: "node_at s' a = Inr n" using na n(2) by (simp add: node_at_def)
  have put: "putEntry s c (int (d + Suc h)) ?e k = Inr (s1, cursor_put ?c d (anc ?t ?p) ?p ?i)"
  proof -
    have "putEntry s' ?c (int d) \<lparr>ekey = sp, eptr = taddr t2\<rparr> k
        = Inr (s1, cursor_put ?c d (anc ?t ?p) ?p ?i)"
      using rd nad n1(1) node_isD[OF n(3)] lk mv s1_def len room
      by (subst putEntry.simps) (simp del: spath.simps anc.simps)
    then show ?thesis using IH'(1) by simp
  qed
  have "vpath ?t ?p" "d + length ?p < 20"
    using spath_vpath[OF ok1, of k] dh by auto
  note cp = cur_sub_put[OF ca(4) this, of ?i]
  have hs: "heap_step s s1 (set (addrs (Nd a False False ks cs))) n'"
    unfolding s1_def using jl(2) by (intro heap_step_set_node[OF IH'(4)]) auto
  have nr: "numRecords s1 = numRecords s + new_rec k (Nd a False False ks cs)"
    using IH'(5,6) new_rec_child[OF ok k] j by (simp add: s1_def)
  show ?thesis
    using cp(2,3) by (intro put_post_OneI[OF ins put m1 hs nr cp(1)]) simp_all
qed

lemma put_post_two_full:
  assumes ok: "bt_ok (Suc h) lo hi f l (Nd a False False ks cs)" and k: "in_bounds lo hi k"
    and m: "rep (nodes s) (Nd a False False ks cs)" and d: "distinct (addrs (Nd a False False ks cs))"
    and A: "\<forall>x \<in> set (addrs (Nd a False False ks cs)). x < fresh s"
    and c: "cur_sub c d (Nd a False False ks cs) (j # spath h (cs ! j) k) li"
    and j: "j = child_ix ks k" and av: "Suc h < avail s" and dh: "d + Suc h < 20"
    and IH: "put_post s c (Suc d) h (cs ! j) k v"
    and r: "ins h k v (fresh s) (cs ! j) = (Two t1 sp t2, n')" and full: "length ks = 15"
  shows "put_post s c d (Suc h) (Nd a False False ks cs) k v"
proof -
  have len: "length cs = Suc (length ks)" and sk: "sorted_wrt (<) ks" using ok by simp_all
  have jl: "j \<le> length ks" "j < length cs" using child_ix_le[of ks k] len by (auto simp: j)
  note okj = bt_ok_child[OF ok jl(1)]
  let ?e = "\<lparr>ekey = k, eptr = v\<rparr>" and ?c = "c\<lparr>level := int d\<rparr>"
    and ?e2 = "\<lparr>ekey = sp, eptr = taddr t2\<rparr>"
  obtain s' where IH': "putEntry s c (int (Suc d + h)) ?e k = putEntry s' ?c (int d) ?e2 k"
    "rep (nodes s') t1" "rep (nodes s') t2" "heap_step s s' (set (addrs (cs ! j))) n'"
    "numRecords s' = numRecords s" "new_rec k (cs ! j) = 1"
    using IH r by (auto simp: put_post_def)
  obtain n where n: "nodes s a = Some n" "a \<noteq> 0"
    "node_is n False False False (taddr (hd cs)) (node_kvs ks cs)" "\<forall>c \<in> set cs. rep (nodes s) c"
    using rep_internE[OF m] by metis
  let ?ks = "ins_at j sp ks" and ?cs = "take j cs @ [t1, t2] @ drop (Suc j) cs"
  note ch = children_after_put[OF okj jl(2) n(4) d A r IH'(4)]
  have na: "nodes s' a = Some n"
    using IH'(4) n(1) nd_addrs(1)[OF d jl(2)] A by (simp add: heap_step_def)
  have t1: "taddr t1 = taddr (cs ! j)" using ins_taddr[OF okj, of k v "fresh s"] r by simp
  have inb: "in_bounds (lo_at lo ks j) (hi_at hi ks j) k"
    using in_bounds_child[OF k sk] j by simp
  have sp: "sep_bounds (lo_at lo ks j) (hi_at hi ks j) sp"
    using ins_ok[OF okj inb, of v "fresh s"] r by (simp add: res_ok_def)
  have rix: "rec_ix (map fst (node_kvs ks cs)) (ekey ?e2) = j"
    using rec_ix_sep[OF jl(1) sep_position[OF sk jl(1) sp]] len by simp
  have lk: "length (node_kvs ks cs) = 15" using len full by simp
  have fr: "fresh s' = n'" "n' \<le> fresh s + Suc h" "avail s' = avail s - (n' - fresh s)" "fresh s \<le> n'"
    using IH'(4) ins_fresh[of "fresh s" h k v "cs ! j"] r by (simp_all add: heap_step_def)
  have aS: "a < fresh s" using A by simp
  have mem: "avail s' \<noteq> 0" "fresh s' \<noteq> 0" "fresh s' \<noteq> a" using fr av aS by auto
  let ?kv = "node_kvs ?ks ?cs"
  have kv: "ins_at j (ekey ?e2, eptr ?e2) (node_kvs ks cs) = ?kv"
    using node_kvs_insert(1)[OF len jl(1) t1] by simp
  obtain n1 m1 where split: "splitnode s' a ?e2 False
      = Inr (split_state s' a n1 m1, \<lparr>ekey = fst (?kv ! 8), eptr = fresh s'\<rparr>)"
    "node_is n1 False False False (taddr (hd cs)) (take 8 ?kv)"
    "node_is m1 False False False (snd (?kv ! 8)) (drop 9 ?kv)"
    using splitnode_node_is[OF na n(2,3) lk mem, where ?e = ?e2] unfolding rix kv by auto
  let ?s1 = "split_state s' a n1 m1"
  let ?t1 = "Nd a False False (take 8 ?ks) (take 9 ?cs)"
    and ?t2 = "Nd n' False False (drop 9 ?ks) (drop 9 ?cs)"
  have lc: "length ?cs = 17" "length ?ks = 16" "length ?cs = Suc (length ?ks)"
    using len full jl by simp_all
  have kv8: "?kv ! 8 = (?ks ! 8, taddr (?cs ! 9))"
    using node_kvs_nth[OF lc(3), of 8] lc(2) by simp
  have ins: "ins (Suc h) k v (fresh s) (Nd a False False ks cs) = (Two ?t1 (?ks ! 8) ?t2, Suc n')"
    using r full j by (simp add: Let_def)
  have chs: "rep (nodes ?s1) x" if x: "x \<in> set ?cs" for x
    using ch[of x] x IH'(2,3) fr(1) by (intro rep_split_state) simp_all
  have "\<forall>x \<in> set (take 9 ?cs). rep (nodes ?s1) x" "\<forall>x \<in> set (drop 9 ?cs). rep (nodes ?s1) x"
    using chs in_set_takeD in_set_dropD by fast+
  moreover have "nodes ?s1 a = Some n1" "nodes ?s1 n' = Some m1"
    using mem fr(1) by (simp_all add: split_state_def)
  moreover have "taddr (hd (take 9 ?cs)) = taddr (hd cs)"
    using node_kvs_insert(2)[OF len jl(1) t1, of t2] hd_take[of 9 ?cs]
    by (simp only: zero_less_numeral)
  moreover have "node_kvs (take 8 ?ks) (take 9 ?cs) = take 8 ?kv"
    using node_kvs_take[of 8 ?ks ?cs] by simp
  moreover have "node_kvs (drop 9 ?ks) (drop 9 ?cs) = drop 9 ?kv" by (rule node_kvs_drop)
  moreover have "hd (drop 9 ?cs) = ?cs ! 9" using lc by (intro hd_drop_conv_nth) simp
  moreover have "n' \<noteq> 0" using mem fr(1) by simp
  ultimately have m': "rep (nodes ?s1) ?t1" "rep (nodes ?s1) ?t2"
    using n(2) split(2,3) kv8 by (simp_all del: append_Cons append.simps)
  have ca: "arrays_ok c" "ancestors c ! d = a"
    using c cur_sub_arrays[OF c] unfolding cur_sub_Cons by simp_all
  have rd: "currAddr ?c = Inr a"
    using ca dh by (simp add: currAddr_def arrays_ok_def)
  have nad: "node_at s' a = Inr n" using na n(2) by (simp add: node_at_def)
  have put: "putEntry s c (int (d + Suc h)) ?e k
      = putEntry ?s1 (c\<lparr>level := int d - 1\<rparr>) (int d - 1) \<lparr>ekey = ?ks ! 8, eptr = taddr ?t2\<rparr> k"
  proof -
    have "putEntry s' ?c (int d) ?e2 k
      = putEntry ?s1 (c\<lparr>level := int d - 1\<rparr>) (int d - 1) \<lparr>ekey = ?ks ! 8, eptr = n'\<rparr> k"
      using rd nad split(1) node_isD[OF n(3)] lk kv8 fr(1)
      by (subst putEntry.simps) simp
    then show ?thesis using IH'(1) by simp
  qed
  have hs: "heap_step s ?s1 (set (addrs (Nd a False False ks cs))) (Suc n')"
    using jl(2) fr av by (intro heap_step_split[OF IH'(4)]) auto
  have nr: "numRecords ?s1 = numRecords s" using IH'(5) by (simp add: split_state_def)
  have new: "new_rec k (Nd a False False ks cs) = 1" using IH'(6) new_rec_child[OF ok k] j by simp
  show ?thesis by (rule put_post_TwoI[OF ins put m' hs nr new])
qed

section \<open>Along the whole path\<close>

lemma putEntry_refines:
  assumes "bt_ok h lo hi f l t" and "rep (nodes s) t" and "distinct (addrs t)"
    and "\<forall>a \<in> set (addrs t). a < fresh s" and "in_bounds lo hi k"
    and "cur_sub c d t (spath h t k) (find_ix h t k)" and "d + h < 20" and "h < avail s" and "fresh s \<noteq> 0"
  shows "put_post s c d h t k v"
  using assms(1-7)
  using assms(8)
proof (induction h arbitrary: lo hi f l t d)
  case 0
  then show ?case using assms(9) by (intro put_post_leaf) auto
next
  case (Suc h)
  from Suc.prems(1) show ?case
  proof (rule bt_ok_SucE)
    fix a ks cs
    assume t: "t = Nd a False False ks cs" and len: "length cs = Suc (length ks)"
      and sk: "sorted_wrt (<) ks" and l15: "length ks \<le> 15"
    define j where "j = child_ix ks k"
    have jl: "j \<le> length ks" "j < length cs" using child_ix_le[of ks k] len by (auto simp: j_def)
    note ok = Suc.prems(1)[unfolded t]
    note pre = Suc.prems(5) Suc.prems(2,3,4)[unfolded t]
    have c: "cur_sub c d (Nd a False False ks cs) (j # spath h (cs ! j) k) (find_ix h (cs ! j) k)"
      using Suc.prems(6) t by (simp add: j_def)
    have csub: "cur_sub c (Suc d) (cs ! j) (spath h (cs ! j) k) (find_ix h (cs ! j) k)"
      using c by (simp add: cur_sub_Cons)
    have inb: "in_bounds (lo_at lo ks j) (hi_at hi ks j) k"
      using in_bounds_child[OF Suc.prems(5) sk] by (simp add: j_def)
    have dj: "distinct (addrs (cs ! j))"
      using pre(3) jl(2) by (auto simp: distinct_concat_iff)
    have Aj: "\<forall>x \<in> set (addrs (cs ! j)). x < fresh s" using pre(4) jl(2) by auto
    have mj: "rep (nodes s) (cs ! j)" using pre(2) jl(2) by auto
    have IH: "put_post s c (Suc d) h (cs ! j) k v"
      using Suc.prems(7,8) by (intro Suc.IH[OF bt_ok_child[OF ok jl(1)] mj dj Aj inb csub]) simp_all
    obtain r n' where r: "ins h k v (fresh s) (cs ! j) = (r, n')" by (cases "ins h k v (fresh s) (cs ! j)")
    show ?thesis
    proof (cases r)
      case (One t')
      show ?thesis
        unfolding t by (rule put_post_one[OF ok pre c j_def IH r[unfolded One]])
    next
      case (Two t1 sp t2)
      show ?thesis
      proof (cases "length ks < 15")
        case True
        show ?thesis
          unfolding t by (rule put_post_two_room[OF ok pre c j_def Suc.prems(7) IH r[unfolded Two] True])
      next
        case False
        then have "length ks = 15" using l15 by simp
        then show ?thesis
          unfolding t
          by (rule put_post_two_full[OF ok pre c j_def Suc.prems(8,7) IH r[unfolded Two]])
      qed
    qed
  qed
qed

section \<open>A new root\<close>

lemma putEntry_new_root:
  fixes c :: cursor
  assumes ok: "bt_ok (Suc h) None None True True (Nd n' False False [sp] [t1, t2])"
    and m: "rep (nodes s') t1" "rep (nodes s') t2" "root s' = taddr t1" "fresh s' = n'"
    and A: "\<forall>x \<in> set (addrs t1) \<union> set (addrs t2). x < n'"
    and av: "avail s' \<noteq> 0" "n' \<noteq> 0" and h: "Suc h < 20" and c: "arrays_ok c"
  defines "t \<equiv> Nd n' False False [sp] [t1, t2]"
  obtains s2 c2 where
    "putEntry s' c (- 1) \<lparr>ekey = sp, eptr = taddr t2\<rparr> k = Inr (s2, c2)"
    "rep (nodes s2) t" "root s2 = n'" "fresh s2 = Suc n'" "avail s2 = avail s' - 1"
    "depth s2 = depth s' + 1" "numRecords s2 = Suc (numRecords s')"
    "\<forall>a. a \<noteq> n' \<longrightarrow> nodes s2 a = nodes s' a"
    "cur_sub c2 0 t (spath (Suc h) t k) (find_ix (Suc h) t k)"
proof -
  let ?e = "\<lparr>ekey = sp, eptr = taddr t2\<rparr>"
  let ?n = "\<lparr>isLeaf = False, FirstLeaf = False, LastLeaf = False, numKeys = 1, ptr0 = root s',
    entries = (replicate 15 None)[0 := Some ?e]\<rparr>"
  define s2 where "s2 = s'\<lparr>fresh := Suc n', avail := avail s' - 1, nodes := (nodes s')(n' \<mapsto> ?n),
    root := n', depth := depth s' + 1, numRecords := Suc (numRecords s')\<rparr>"
  let ?c = "c\<lparr>ancestors := (ancestors c)[0 := n']\<rparr>"
  have nd: "node_is ?n False False False (taddr t1) [(sp, taddr t2)]"
    using m(3) by (simp add: node_is_def slot_of_def numeral_eq_Suc)
  have r1: "rep (nodes s2) t1" "rep (nodes s2) t2"
    using A by (auto simp: s2_def intro!: rep_frame[OF m(1)] rep_frame[OF m(2)])
  have rt: "rep (nodes s2) t"
    using r1 nd av(2) by (simp add: t_def s2_def node_kvs_def)
  have ca: "arrays_ok ?c" using c by (simp add: arrays_ok_def)
  let ?p = "spath (Suc h) t k" and ?i = "find_ix (Suc h) t k"
  have mv: "moveToKey s2 n' k ?c 0 = Inr (cursor_put ?c 0 (anc t ?p) ?p ?i)"
    using moveToKey_correct[OF ok[folded t_def] rt, of 0 ?c k] h ca by (simp add: t_def del: spath.simps)
  have put: "putEntry s' c (- 1) ?e k = Inr (s2, cursor_put ?c 0 (anc t ?p) ?p ?i)"
  proof -
    have "aset (ancestors c) 0 n' = Inr ((ancestors c)[0 := n'])"
      using c by (simp add: aset_def arrays_ok_def)
    moreover have "aset (replicate 15 None) 0 (Some ?e) = Inr ((replicate 15 None)[0 := Some ?e])"
      by (simp add: aset_def)
    ultimately show ?thesis
      using av m(4) mv
      by (subst putEntry.simps)
        (simp add: createNewNode_def node_at_def set_node_def s2_def Let_def del: list_update.simps spath.simps anc.simps)
  qed
  have "vpath t ?p" "length ?p = Suc h" using spath_vpath[OF ok[folded t_def], of k] by auto
  then have cur: "cur_sub (cursor_put ?c 0 (anc t ?p) ?p ?i) 0 t ?p ?i"
    using h by (intro cur_sub_put(1)[OF ca]) simp_all
  have "root s2 = n'" "fresh s2 = Suc n'" "avail s2 = avail s' - 1"
    "depth s2 = depth s' + 1" "numRecords s2 = Suc (numRecords s')"
    "\<forall>a. a \<noteq> n' \<longrightarrow> nodes s2 a = nodes s' a" by (simp_all add: s2_def)
  then show thesis by (rule that[OF put rt _ _ _ _ _ _ cur])
qed

text \<open>
  \<open>RL_PutRecord\<close> updates the content like \<open>alist_put\<close> and keeps the invariant; the cursor
  ends after the record it put.
\<close>

lemma ins_distinct:
  assumes "bt_ok h lo hi f l t" and "distinct (addrs t)" and "\<forall>a \<in> set (addrs t). a < n"
    and "ins h k v n t = (r, n')"
  shows "distinct (concat (map addrs (res_trees r)))"
    "\<forall>x \<in> set (concat (map addrs (res_trees r))). x < n'" "n \<le> n'"
proof -
  have m: "mset (concat (map addrs (res_trees r))) = mset (addrs t @ [n..<n'])"
    using ins_addrs[OF assms(1), of k v n] assms(4) by simp
  show le: "n \<le> n'" using ins_fresh[of n h k v t] assms(4) by simp
  have "distinct (addrs t @ [n..<n'])" using assms(2,3) by auto
  then show "distinct (concat (map addrs (res_trees r)))" using mset_eq_imp_distinct_iff[OF m] by simp
  have "set (concat (map addrs (res_trees r))) = set (addrs t @ [n..<n'])" by (rule mset_eq_setD[OF m])
  also have "\<forall>x \<in> \<dots>. x < n'" using assms(3) le by auto
  finally show "\<forall>x \<in> set (concat (map addrs (res_trees r))). x < n'" .
qed

lemma heap_step_dom:
  assumes "heap_step s s' A n'" and "\<forall>a \<in> dom (nodes s). a < fresh s" and "\<forall>a \<in> A. a < fresh s"
  shows "\<forall>a \<in> dom (nodes s'). a < n'"
proof
  fix a assume a: "a \<in> dom (nodes s')"
  have st: "\<forall>a. a \<notin> A \<and> \<not> (fresh s \<le> a \<and> a < n') \<longrightarrow> nodes s' a = nodes s a" "fresh s \<le> n'"
    using assms(1) unfolding heap_step_def by blast+
  show "a < n'"
  proof (cases "a \<in> A \<or> (fresh s \<le> a \<and> a < n')")
    case True
    then show ?thesis using assms(3) st(2) by (meson order_less_le_trans)
  next
    case False
    then have "a \<in> dom (nodes s)" using a st(1) unfolding dom_def by simp
    then show ?thesis using assms(2) st(2) by (meson order_less_le_trans)
  qed
qed

lemma new_rec_length:
  "sorted_keys (contents t) \<Longrightarrow>
   length (alist_put k v (contents t)) = length (contents t) + new_rec k t"
  by (simp add: length_alist_put new_rec_def)

lemma putEntry_root:
  assumes inv: "rel_inv s h t" and h: "Suc h < 20" and av: "Suc h < avail s"
    and c: "cur_sub c 0 t (spath h t k) (find_ix h t k)"
  obtains s' c' h' t' where
    "putEntry s c (int h) \<lparr>ekey = k, eptr = v\<rparr> k = Inr (s', c')"
    "rel_inv s' h' t'" "contents t' = alist_put k v (contents t)" "h' \<le> Suc h"
    "cur_sub c' 0 t' (spath h' t' k) (find_ix h' t' k)"
    "avail s - (h + 2) \<le> avail s'"
proof -
  note i = rel_invD[OF inv]
  have fr: "fresh s \<noteq> 0" using inv by (simp add: rel_inv_def)
  have A: "\<forall>a \<in> set (addrs t). a < fresh s" using rep_addrs[OF i(2)] i(5) by blast
  obtain r n' where r: "ins h k v (fresh s) t = (r, n')" by (cases "ins h k v (fresh s) t")
  have post: "put_post s c 0 h t k v"
    using av h by (intro putEntry_refines[OF i(1,2,4) A _ c _ _ fr]) simp_all
  have n': "fresh s \<le> n'" "n' \<le> fresh s + Suc h" using ins_fresh[of "fresh s" h k v t] r by simp_all
  note di = ins_distinct[OF i(1,4) A r]
  have ct: "concat (map contents (res_trees r)) = alist_put k v (contents t)"
    using ins_contents[OF i(1), of k v "fresh s"] r by simp
  note rok = ins_ok[OF i(1), of k v "fresh s", unfolded r fst_conv]
  note nl = new_rec_length[OF bt_ok_sorted[OF i(1)], of k v]
  show thesis
  proof (cases r)
    case (One t')
    obtain s' c' where p: "putEntry s c (int h) \<lparr>ekey = k, eptr = v\<rparr> k = Inr (s', c')"
      "rep (nodes s') t'" "heap_step s s' (set (addrs t)) n'"
      "numRecords s' = numRecords s + new_rec k t"
      "cur_sub c' 0 t' (spath h t' k) (find_ix h t' k)"
      using post r One by (auto simp: put_post_def)
    have "taddr t' = taddr t" using ins_taddr[OF i(1), of k v "fresh s"] r One by simp
    moreover have "contents t' = alist_put k v (contents t)" using ct One by simp
    moreover have "bt_ok h None None True True t'" using rok One by (simp add: res_ok_def)
    ultimately have "rel_inv s' h t'"
      using p(2,3,4) di One i(3,6,7,8) nl heap_step_dom[OF p(3) i(5) A] fr n'
      by (simp add: rel_inv_def heap_step_def)
    moreover have "avail s - (h + 2) \<le> avail s'" using p(3) n' by (auto simp: heap_step_def)
    ultimately show thesis using that[of s' c' h t'] p(1,5) \<open>contents t' = _\<close> by simp
  next
    case (Two t1 sp t2)
    obtain s' where p: "putEntry s c (int h) \<lparr>ekey = k, eptr = v\<rparr> k
        = putEntry s' (c\<lparr>level := - 1\<rparr>) (- 1) \<lparr>ekey = sp, eptr = taddr t2\<rparr> k"
      "rep (nodes s') t1" "rep (nodes s') t2" "heap_step s s' (set (addrs t)) n'"
      "numRecords s' = numRecords s" "new_rec k t = 1"
      using post r Two by (auto simp: put_post_def)
    let ?t = "Nd n' False False [sp] [t1, t2]"
    have ok: "bt_ok (Suc h) None None True True ?t" and ct': "contents ?t = alist_put k v (contents t)"
      using put_tree_ok[OF i(1), of k v "fresh s"] r Two by (simp_all del: bt_ok.simps)
    have hs: "fresh s' = n'" "avail s' \<noteq> 0" "avail s' = avail s - (n' - fresh s)" "root s' = taddr t1"
      "depth s' = int h"
      using p(4) n' av i(3,7) ins_taddr[OF i(1), of k v "fresh s"] r Two by (auto simp: heap_step_def)
    have A': "\<forall>x \<in> set (addrs t1) \<union> set (addrs t2). x < n'" using di(2) Two by simp
    have n0: "n' \<noteq> 0" using n' fr by simp
    have ca: "arrays_ok (c\<lparr>level := - 1\<rparr>)" using cur_sub_arrays[OF c] by (simp add: arrays_ok_def)
    obtain s2 c2 where p2:
      "putEntry s' (c\<lparr>level := - 1\<rparr>) (- 1) \<lparr>ekey = sp, eptr = taddr t2\<rparr> k = Inr (s2, c2)"
      "rep (nodes s2) ?t" "root s2 = n'" "fresh s2 = Suc n'" "avail s2 = avail s' - 1"
      "depth s2 = depth s' + 1" "numRecords s2 = Suc (numRecords s')"
      "\<forall>a. a \<noteq> n' \<longrightarrow> nodes s2 a = nodes s' a"
      "cur_sub c2 0 ?t (spath (Suc h) ?t k) (find_ix (Suc h) ?t k)"
      by (rule putEntry_new_root[OF ok p(2,3) hs(4,1) A' hs(2) n0 h ca])
    have "\<forall>a \<in> dom (nodes s2). a < Suc n'"
    proof
      fix a assume "a \<in> dom (nodes s2)"
      then have "a = n' \<or> a \<in> dom (nodes s')" using p2(8) by (auto simp: dom_def)
      then show "a < Suc n'" using heap_step_dom[OF p(4) i(5) A] by (auto simp: less_Suc_eq)
    qed
    moreover have "distinct (addrs ?t)" using di(1) A' Two by auto
    moreover have "numRecords s2 = length (contents ?t)" using p2(7) p(5,6) i(6) nl ct' by simp
    ultimately have "rel_inv s2 (Suc h) ?t"
      using ok p2(2,3,4,6) hs(5) h by (simp add: rel_inv_def del: bt_ok.simps rep.simps)
    then show thesis
      using that[of s2 c2 "Suc h" ?t] p(1) p2(1,9,5) ct' hs(3) n' by simp
  qed
qed

lemma cur_sub_cur_pos:
  assumes "rel_inv s h t" and "cur_sub c 0 t (spath h t k) (find_ix h t k)"
  shows "cur_pos h t c (rec_ix (map fst (contents t)) k)"
proof -
  note inv = rel_invD[OF assms(1)]
  have "fpath h t (spath h t k)" using spath_vpath[OF inv(1), of k] by (simp add: fpath_def)
  moreover have "cpos t (spath h t k) (find_ix h t k) = rec_ix (map fst (contents t)) k"
    by (rule cpos_search[OF inv(1)]) simp
  ultimately show ?thesis
    using find_ix_le[of t h k] assms(2) unfolding cur_pos_def cur_at_cur_sub by blast
qed

lemma RL_PutRecord_inv:
  assumes inv: "rel_inv s h t" and c: "cur_pos h t c p" and h: "Suc h < 20" and av: "Suc h < avail s"
  obtains s' c' h' t' where
    "RL_PutRecord s c k v = Inr (s', c')" "rel_inv s' h' t'"
    "contents t' = alist_put k v (contents t)" "h' \<le> Suc h"
    "cur_pos h' t' c' (Suc (rec_ix (map fst (contents t)) k))" "avail s - (h + 2) \<le> avail s'"
proof -
  note i = rel_invD[OF inv]
  obtain c1 where c1: "goToKey s c k = Inr c1"
    "c1 = cursor_put c 0 (anc t (spath h t k)) (spath h t k) (find_ix h t k)"
    using goToKey_pos[OF inv c] by metis
  have sp: "vpath t (spath h t k)" "length (spath h t k) = h" using spath_vpath[OF i(1)] by auto
  have cs: "cur_sub c1 0 t (spath h t k) (find_ix h t k)"
    unfolding c1(2) using sp h by (intro cur_sub_put(1)[OF cur_pos_arrays[OF c]]) simp_all
  obtain s' c' h' t' where p: "putEntry s c1 (int h) \<lparr>ekey = k, eptr = v\<rparr> k = Inr (s', c')"
    "rel_inv s' h' t'" "contents t' = alist_put k v (contents t)" "h' \<le> Suc h"
    "cur_sub c' 0 t' (spath h' t' k) (find_ix h' t' k)" "avail s - (h + 2) \<le> avail s'"
    by (rule putEntry_root[OF inv h av cs])
  let ?p = "rec_ix (map fst (contents t)) k"
  have pos: "cur_pos h' t' c' ?p"
    using cur_sub_cur_pos[OF p(2,5)] p(3) rec_ix_alist_put[OF bt_ok_sorted[OF i(1)]] by simp
  have "k \<in> fst ` set (contents t')" using p(3) by (simp add: fst_set_alist_put)
  then have lt: "?p < length (contents t')"
    using rec_ix_mem[OF bt_ok_sorted[OF rel_invD(1)[OF p(2)]]] p(3)
      rec_ix_alist_put[OF bt_ok_sorted[OF i(1)]] by simp
  obtain c3 where "RL_MoveToNext s' c' = Inr c3" "cur_pos h' t' c3 (Suc ?p)"
    using RL_MoveToNext_pos[OF p(2) pos] lt by (auto simp: min_def Suc_le_eq)
  moreover have "level c1 = int h" using cs sp by (simp add: cur_sub_def)
  ultimately show thesis
    using c1(1) p by (intro that[of s' c3 h' t']) (simp_all add: RL_PutRecord_def)
qed

end
