(* ===== verification/Relation_Api.thy ===== *)
theory Relation_Api
  imports Relation_Insert
begin

text \<open>
  The contract of \<open>relation.h\<close>: an ordered table of records with cursors on it. The locale
  \<open>ordered_table\<close> states it, its clients are proved against it, and it is interpreted on
  the model of \<open>relation_mem.c\<close>.
\<close>

section \<open>How high a tree can get\<close>

lemma sum_list_ge: "(\<And>x. x \<in> set xs \<Longrightarrow> b \<le> x) \<Longrightarrow> length xs * b \<le> sum_list (xs :: nat list)"
proof (induction xs)
  case (Cons x xs)
  then have "b \<le> x" "length xs * b \<le> sum_list xs" by simp_all
  then show ?case by simp
qed simp

lemma contents_children_ge:
  assumes "bt_ok (Suc h) lo hi f l (Nd a f' l' ks cs)"
    and "\<And>c. c \<in> set cs \<Longrightarrow> b \<le> length (contents c)"
  shows "Suc (length ks) * b \<le> length (contents (Nd a f' l' ks cs))"
proof -
  have "length (map (length \<circ> contents) cs) * b \<le> sum_list (map (length \<circ> contents) cs)"
    using assms(2) by (intro sum_list_ge) auto
  moreover have "length cs = Suc (length ks)" using assms(1) by simp
  ultimately show ?thesis by (simp add: length_concat comp_def)
qed

lemma contents_ge:
  "bt_ok h lo hi f l t \<Longrightarrow> 7 \<le> nkeys t \<Longrightarrow> 7 * 8 ^ h \<le> length (contents t)"
proof (induction h arbitrary: lo hi f l t)
  case 0
  then show ?case by (auto elim!: bt_ok_0E)
next
  case (Suc h)
  from Suc.prems(1) show ?case
  proof (rule bt_ok_SucE)
    fix a ks cs
    assume t: "t = Nd a False False ks cs" and len: "length cs = Suc (length ks)"
      and seven: "\<And>i. i \<le> length ks \<Longrightarrow> 7 \<le> nkeys (cs ! i)"
    have ge: "7 * 8 ^ h \<le> length (contents c)" if "c \<in> set cs" for c
    proof -
      obtain i where i: "i < length cs" "c = cs ! i" using \<open>c \<in> set cs\<close> by (metis in_set_conv_nth)
      then have "i \<le> length ks" using len by simp
      then show ?thesis using Suc.IH[OF bt_ok_child[OF Suc.prems(1)[unfolded t]]] seven i(2) by simp
    qed
    have "Suc (length ks) * (7 * 8 ^ h) \<le> length (contents t)"
      unfolding t by (rule contents_children_ge[OF Suc.prems(1)[unfolded t] ge])
    moreover have "8 * (7 * 8 ^ h) \<le> Suc (length ks) * (7 * (8::nat) ^ h)"
      using Suc.prems(2) t by (intro mult_le_mono1) simp
    ultimately have "8 * (7 * 8 ^ h) \<le> length (contents t)" by (rule order_trans[rotated])
    then show ?thesis by simp
  qed
qed

lemma height_bound:
  assumes "rel_inv s (Suc h) t"
  shows "14 * 8 ^ h \<le> length (contents t)"
proof -
  note inv = rel_invD[OF assms]
  from inv(1) show ?thesis
  proof (rule bt_ok_SucE)
    fix a ks cs
    assume t: "t = Nd a False False ks cs" and len: "length cs = Suc (length ks)" "1 \<le> length ks"
      and seven: "\<And>i. i \<le> length ks \<Longrightarrow> 7 \<le> nkeys (cs ! i)"
    have ge: "7 * 8 ^ h \<le> length (contents c)" if "c \<in> set cs" for c
    proof -
      obtain i where i: "i < length cs" "c = cs ! i" using \<open>c \<in> set cs\<close> by (metis in_set_conv_nth)
      then have "i \<le> length ks" using len by simp
      then show ?thesis using contents_ge[OF bt_ok_child[OF inv(1)[unfolded t]]] seven i(2) by simp
    qed
    have "Suc (length ks) * (7 * 8 ^ h) \<le> length (contents t)"
      unfolding t by (rule contents_children_ge[OF inv(1)[unfolded t] ge])
    moreover have "2 * (7 * 8 ^ h) \<le> Suc (length ks) * (7 * (8::nat) ^ h)"
      using len(2) by (intro mult_le_mono1) simp
    ultimately have "2 * (7 * 8 ^ h) \<le> length (contents t)" by (rule order_trans[rotated])
    then show ?thesis by simp
  qed
qed

text \<open>The number of records up to which no insertion can reach \<open>MAX_TREE_DEPTH\<close>.\<close>

definition record_limit :: nat where
  "record_limit = 14 * 8 ^ 18"

lemma height_below_limit:
  assumes "rel_inv s h t" and "length (contents t) < record_limit"
  shows "h \<le> 18"
proof (cases h)
  case (Suc h')
  have "14 * 8 ^ h' < 14 * (8::nat) ^ 18"
    using height_bound[OF assms(1)[unfolded Suc]] assms(2) unfolding record_limit_def
    by (rule le_less_trans)
  then have "(8::nat) ^ h' < 8 ^ 18" by simp
  then have "h' < 18" by (rule power_less_imp_less_exp[rotated]) simp
  then show ?thesis using Suc by simp
qed simp

section \<open>The contract\<close>

locale ordered_table =
  fixes inv :: "'s \<Rightarrow> 'a \<Rightarrow> bool" and recs :: "'a \<Rightarrow> kvs" and pos_at :: "'a \<Rightarrow> 'c \<Rightarrow> nat \<Rightarrow> bool"
    and room :: "nat \<Rightarrow> 's \<Rightarrow> bool"
    and is_valid :: "'s \<Rightarrow> 'c \<Rightarrow> bool result"
    and get_key :: "'s \<Rightarrow> 'c \<Rightarrow> (ckey \<times> 'c) result"
    and get_record :: "'s \<Rightarrow> 'c \<Rightarrow> (addr \<times> 'c) result"
    and to_next :: "'s \<Rightarrow> 'c \<Rightarrow> 'c result"
    and to_key :: "'s \<Rightarrow> 'c \<Rightarrow> ckey \<Rightarrow> (bool \<times> 'c) result"
    and to_first :: "'s \<Rightarrow> 'c \<Rightarrow> (bool \<times> 'c) result"
    and put :: "'s \<Rightarrow> 'c \<Rightarrow> ckey \<Rightarrow> addr \<Rightarrow> ('s \<times> 'c) result"
  assumes recs_sorted: "inv s a \<Longrightarrow> sorted_keys (recs a)"
    and pos_le: "inv s a \<Longrightarrow> pos_at a c p \<Longrightarrow> p \<le> length (recs a)"
    and is_valid_iff: "inv s a \<Longrightarrow> pos_at a c p \<Longrightarrow> is_valid s c = Inr (p < length (recs a))"
    and get_key_law: "inv s a \<Longrightarrow> pos_at a c p \<Longrightarrow> p < length (recs a) \<Longrightarrow>
      \<exists>c'. get_key s c = Inr (fst (recs a ! p), c') \<and> pos_at a c' p"
    and get_key_invalid: "inv s a \<Longrightarrow> pos_at a c (length (recs a)) \<Longrightarrow> get_key s c = Inl AssertFail"
    and get_record_law: "inv s a \<Longrightarrow> pos_at a c p \<Longrightarrow> p < length (recs a) \<Longrightarrow>
      \<exists>c'. get_record s c = Inr (snd (recs a ! p), c') \<and> pos_at a c' p"
    and to_next_law: "inv s a \<Longrightarrow> pos_at a c p \<Longrightarrow>
      \<exists>c'. to_next s c = Inr c' \<and> pos_at a c' (min (Suc p) (length (recs a)))"
    and to_key_law: "inv s a \<Longrightarrow> pos_at a c p \<Longrightarrow>
      \<exists>c'. to_key s c k = Inr (k \<in> fst ` set (recs a), c') \<and> pos_at a c' (rec_ix (map fst (recs a)) k)"
    and to_first_law: "inv s a \<Longrightarrow> pos_at a c p \<Longrightarrow>
      \<exists>c'. to_first s c = Inr (recs a \<noteq> [], c') \<and> pos_at a c' 0"
    and put_law: "inv s a \<Longrightarrow> pos_at a c p \<Longrightarrow> room (Suc n) s \<Longrightarrow>
      \<exists>s' c' a'. put s c k v = Inr (s', c') \<and> inv s' a' \<and> recs a' = alist_put k v (recs a) \<and>
        pos_at a' c' (Suc (rec_ix (map fst (recs a)) k)) \<and> room n s'"

text \<open>Loops of clients: a sequence of puts, a sequence of reads.\<close>

fun put_list :: "('s \<Rightarrow> 'c \<Rightarrow> ckey \<Rightarrow> addr \<Rightarrow> ('s \<times> 'c) result) \<Rightarrow> 's \<Rightarrow> 'c \<Rightarrow> kvs \<Rightarrow> ('s \<times> 'c) result" where
  "put_list put s c [] = Inr (s, c)"
| "put_list put s c ((k, v) # kvs) = rbind (put s c k v) (\<lambda>(s1, c1). put_list put s1 c1 kvs)"

fun read_list :: "('s \<Rightarrow> 'c \<Rightarrow> (addr \<times> 'c) result) \<Rightarrow> ('s \<Rightarrow> 'c \<Rightarrow> 'c result) \<Rightarrow> 's \<Rightarrow> 'c \<Rightarrow> nat \<Rightarrow>
    (addr list \<times> 'c) result" where
  "read_list get nx s c 0 = Inr ([], c)"
| "read_list get nx s c (Suc n) =
     rbind (get s c) (\<lambda>(x, c1). rbind (nx s c1) (\<lambda>c2.
       rbind (read_list get nx s c2 n) (\<lambda>(xs, c3). Inr (x # xs, c3))))"

definition alist_puts :: "kvs \<Rightarrow> kvs \<Rightarrow> kvs" where
  "alist_puts kvs m = fold (\<lambda>(k, v). alist_put k v) kvs m"

lemma alist_puts_simps [simp]:
  "alist_puts [] m = m"
  "alist_puts ((k, v) # kvs) m = alist_puts kvs (alist_put k v m)"
  by (simp_all add: alist_puts_def)

lemma map_of_alist_puts: "map_of (alist_puts kvs m) = map_of m ++ map_of (rev kvs)"
proof (induction kvs arbitrary: m)
  case (Cons kv kvs)
  then show ?case by (cases kv) (simp add: map_of_alist_put map_add_def fun_eq_iff split: option.splits)
qed simp

context ordered_table
begin

lemma put_list_law:
  "inv s a \<Longrightarrow> pos_at a c p \<Longrightarrow> room (length kvs + n) s \<Longrightarrow>
   \<exists>s' c' a' p'. put_list put s c kvs = Inr (s', c') \<and> inv s' a' \<and>
     recs a' = alist_puts kvs (recs a) \<and> pos_at a' c' p' \<and> room n s'"
proof (induction kvs arbitrary: s a c p)
  case Nil
  then show ?case by auto
next
  case (Cons kv kvs)
  obtain k v where kv: "kv = (k, v)" by (cases kv)
  have "room (Suc (length kvs + n)) s" using Cons.prems(3) by simp
  from put_law[OF Cons.prems(1,2) this, of k v] obtain s1 c1 a1 where
    p: "put s c k v = Inr (s1, c1)" "inv s1 a1" "recs a1 = alist_put k v (recs a)"
      "pos_at a1 c1 (Suc (rec_ix (map fst (recs a)) k))" "room (length kvs + n) s1" by blast
  from Cons.IH[OF p(2,4,5)] p(1,3) show ?case unfolding kv by simp
qed

lemma read_list_law:
  "inv s a \<Longrightarrow> pos_at a c p \<Longrightarrow> p + n \<le> length (recs a) \<Longrightarrow>
   \<exists>c'. read_list get_record to_next s c n = Inr (map snd (take n (drop p (recs a))), c') \<and>
     pos_at a c' (p + n)"
proof (induction n arbitrary: c p)
  case 0
  then show ?case by auto
next
  case (Suc n)
  have lt: "p < length (recs a)" using Suc.prems(3) by simp
  obtain c1 where c1: "get_record s c = Inr (snd (recs a ! p), c1)" "pos_at a c1 p"
    using get_record_law[OF Suc.prems(1,2) lt] by blast
  obtain c2 where c2: "to_next s c1 = Inr c2" "pos_at a c2 (Suc p)"
    using to_next_law[OF Suc.prems(1) c1(2)] lt by (auto simp: min_def Suc_le_eq)
  have "Suc p + n \<le> length (recs a)" using Suc.prems(3) by simp
  then obtain c3 where c3: "read_list get_record to_next s c2 n
      = Inr (map snd (take n (drop (Suc p) (recs a))), c3)" "pos_at a c3 (Suc p + n)"
    using Suc.IH[OF Suc.prems(1) c2(2)] by blast
  have "take (Suc n) (drop p (recs a)) = recs a ! p # take n (drop (Suc p) (recs a))"
    using lt by (simp add: Cons_nth_drop_Suc[symmetric])
  then show ?case using c1 c2 c3 by simp
qed

text \<open>A scan from the first record returns every record, in the order of the keys.\<close>

lemma full_scan:
  assumes "inv s a" and "pos_at a c p"
  shows "\<exists>c1 c2. to_first s c = Inr (recs a \<noteq> [], c1) \<and>
    read_list get_record to_next s c1 (length (recs a)) = Inr (map snd (recs a), c2) \<and>
    is_valid s c2 = Inr False"
proof -
  obtain c1 where c1: "to_first s c = Inr (recs a \<noteq> [], c1)" "pos_at a c1 0"
    using to_first_law[OF assms] by blast
  obtain c2 where "read_list get_record to_next s c1 (length (recs a)) = Inr (map snd (recs a), c2)"
    "pos_at a c2 (length (recs a))"
    using read_list_law[OF assms(1) c1(2), of "length (recs a)"] by auto
  then show ?thesis using c1 is_valid_iff[OF assms(1)] by auto
qed

lemma lookup:
  assumes "inv s a" and "pos_at a c p" and "map_of (recs a) k = Some v"
  shows "\<exists>c1 c2. to_key s c k = Inr (True, c1) \<and> get_record s c1 = Inr (v, c2)"
proof -
  note srt = recs_sorted[OF assms(1)]
  have mem: "k \<in> fst ` set (recs a)" using assms(3) by (metis map_of_eq_None_iff option.distinct(1))
  obtain c1 where c1: "to_key s c k = Inr (True, c1)" "pos_at a c1 (rec_ix (map fst (recs a)) k)"
    using to_key_law[OF assms(1,2), of k] mem by auto
  have "rec_ix (map fst (recs a)) k < length (recs a)" using rec_ix_mem[OF srt] mem by blast
  moreover have "snd (recs a ! rec_ix (map fst (recs a)) k) = v"
    using rec_ix_map_of[OF srt mem] assms(3) by simp
  ultimately show ?thesis using c1 get_record_law[OF assms(1) c1(2)] by auto
qed

end

section \<open>\<open>relation_mem.c\<close> meets the contract\<close>

definition rl_inv :: "rl \<Rightarrow> nat \<times> bt \<Rightarrow> bool" where
  "rl_inv s a \<longleftrightarrow> rel_inv s (fst a) (snd a)"

definition rl_pos :: "nat \<times> bt \<Rightarrow> cursor \<Rightarrow> nat \<Rightarrow> bool" where
  "rl_pos a c p \<longleftrightarrow> cur_pos (fst a) (snd a) c p"

definition rl_recs :: "nat \<times> bt \<Rightarrow> kvs" where
  "rl_recs a = contents (snd a)"

text \<open>Memory, and distance from the record limit, for \<open>n\<close> more insertions.\<close>

definition rl_room :: "nat \<Rightarrow> rl \<Rightarrow> bool" where
  "rl_room n s \<longleftrightarrow> 20 * n \<le> avail s \<and> numRecords s + n \<le> record_limit"

interpretation rt: ordered_table rl_inv rl_recs rl_pos rl_room RL_CursorIsValid RL_GetKey RL_GetRecord
  RL_MoveToNext RL_MoveToKey RL_MoveToFirst RL_PutRecord
proof unfold_locales
  fix s :: rl and a c p n k v
  assume inv: "rl_inv s a"
  then have i: "rel_inv s (fst a) (snd a)" by (simp add: rl_inv_def)
  show "sorted_keys (rl_recs a)"
    using bt_ok_sorted[OF rel_invD(1)[OF i]] by (simp add: rl_recs_def)
  assume "rl_pos a c p"
  then have c: "cur_pos (fst a) (snd a) c p" by (simp add: rl_pos_def)
  show "p \<le> length (rl_recs a)" using cur_pos_le[OF i c] by (simp add: rl_recs_def)
  show "RL_CursorIsValid s c = Inr (p < length (rl_recs a))"
    using isValid_pos[OF i c] by (simp add: RL_CursorIsValid_def rl_recs_def)
  show "p < length (rl_recs a) \<Longrightarrow>
      \<exists>c'. RL_GetKey s c = Inr (fst (rl_recs a ! p), c') \<and> rl_pos a c' p"
    using RL_GetKey_pos[OF i c] by (simp add: rl_recs_def rl_pos_def)
  show "p < length (rl_recs a) \<Longrightarrow>
      \<exists>c'. RL_GetRecord s c = Inr (snd (rl_recs a ! p), c') \<and> rl_pos a c' p"
    using RL_GetRecord_pos[OF i c] by (simp add: rl_recs_def rl_pos_def)
  show "\<exists>c'. RL_MoveToNext s c = Inr c' \<and> rl_pos a c' (min (Suc p) (length (rl_recs a)))"
    using RL_MoveToNext_pos[OF i c] by (simp add: rl_recs_def rl_pos_def)
  show "\<exists>c'. RL_MoveToKey s c k = Inr (k \<in> fst ` set (rl_recs a), c') \<and>
      rl_pos a c' (rec_ix (map fst (rl_recs a)) k)"
    using RL_MoveToKey_pos[OF i c] by (simp add: rl_recs_def rl_pos_def)
  show "\<exists>c'. RL_MoveToFirst s c = Inr (rl_recs a \<noteq> [], c') \<and> rl_pos a c' 0"
    using RL_MoveToFirst_pos[OF i cur_pos_arrays[OF c]] by (simp add: rl_recs_def rl_pos_def)
  assume room: "rl_room (Suc n) s"
  then have lim: "length (contents (snd a)) < record_limit"
    using rel_invD(6)[OF i] by (simp add: rl_room_def)
  have h: "fst a \<le> 18" by (rule height_below_limit[OF i lim])
  then have h': "Suc (fst a) < 20" "Suc (fst a) < avail s" using room by (simp_all add: rl_room_def)
  obtain s' c' h1 t' where p: "RL_PutRecord s c k v = Inr (s', c')" "rel_inv s' h1 t'"
    "contents t' = alist_put k v (contents (snd a))" "h1 \<le> Suc (fst a)"
    "cur_pos h1 t' c' (Suc (rec_ix (map fst (contents (snd a))) k))" "avail s - (fst a + 2) \<le> avail s'"
    by (rule RL_PutRecord_inv[OF i c h'])
  have "numRecords s' \<le> Suc (numRecords s)"
    using rel_invD(6)[OF p(2)] rel_invD(6)[OF i] p(3)
      length_alist_put[OF bt_ok_sorted[OF rel_invD(1)[OF i]], of k v] by simp
  then have "rl_room n s'" using room p(6) h unfolding rl_room_def by arith
  then show "\<exists>s' c' a'. RL_PutRecord s c k v = Inr (s', c') \<and> rl_inv s' a' \<and>
      rl_recs a' = alist_put k v (rl_recs a) \<and>
      rl_pos a' c' (Suc (rec_ix (map fst (rl_recs a)) k)) \<and> rl_room n s'"
    using p by (intro exI[of _ s'] exI[of _ c'] exI[of _ "(h1, t')"])
      (simp add: rl_recs_def rl_pos_def rl_inv_def)
next
  fix s :: rl and a c
  assume "rl_inv s a" "rl_pos a c (length (rl_recs a))"
  then show "RL_GetKey s c = Inl AssertFail"
    using RL_GetEntry_pos[of s "fst a" "snd a" c "length (contents (snd a))"]
    by (simp add: rl_inv_def rl_pos_def rl_recs_def RL_GetKey_def)
qed

text \<open>What uninitialised memory holds does not matter to \<open>RL_NewCursor\<close>; zeros stand for it.\<close>

definition cursor_mem :: cursor where
  "cursor_mem = \<lparr>level = 0, ancestorsIdx = replicate 20 0, ancestors = replicate 20 0\<rparr>"

lemma cursor_mem_ok: "arrays_ok cursor_mem"
  by (simp add: arrays_ok_def cursor_mem_def)

section \<open>A new relation\<close>

lemma RL_NewRelation_inv:
  assumes "RL_NewRelation m = Some s"
  shows "rel_inv s 0 (Lf 1 True True [])" "avail s = m - 2" "2 \<le> m"
  using assms
  by (auto simp: RL_NewRelation_def createNewNode_def rel_inv_def node_is_def Let_def split: if_splits)

lemma rel_inv_avail: "rel_inv s h t \<Longrightarrow> rel_inv (s\<lparr>avail := m\<rparr>) h t"
  by (simp add: rel_inv_def)

text \<open>The table that a list of puts into a new relation builds, with room for \<open>n\<close> more.\<close>

lemma new_table_puts:
  assumes "RL_NewRelation m = Some s0" and "arrays_ok c0"
    and "20 * (length kvs + n) + 3 \<le> m" and "length kvs + n \<le> record_limit"
  shows "\<exists>c s s' c' a p. RL_NewCursor c0 s0 = Inr (Some c, s) \<and>
    put_list RL_PutRecord s c kvs = Inr (s', c') \<and> rl_inv s' a \<and>
    rl_recs a = alist_puts kvs [] \<and> rl_pos a c' p \<and> rl_room n s'"
proof -
  note new = RL_NewRelation_inv[OF assms(1)]
  have "avail s0 \<noteq> 0" using new(2,3) assms(3) by simp
  then obtain c where c: "RL_NewCursor c0 s0 = Inr (Some c, s0\<lparr>avail := avail s0 - 1\<rparr>)"
    "cur_pos 0 (Lf 1 True True []) c 0"
    using RL_NewCursor_pos[OF new(1) assms(2)] by blast
  let ?s = "s0\<lparr>avail := avail s0 - 1\<rparr>" and ?a = "(0, Lf 1 True True [])"
  have "rel_inv ?s 0 (Lf 1 True True [])" by (rule rel_inv_avail[OF new(1)])
  then have "rl_inv ?s ?a" by (simp add: rl_inv_def)
  moreover have "rl_pos ?a c 0" using c(2) by (simp add: rl_pos_def)
  moreover have "rl_room (length kvs + n) ?s"
    using new(2,3) rel_invD(6)[OF new(1)] assms(3,4) by (simp add: rl_room_def)
  ultimately show ?thesis
    using rt.put_list_law[of ?s ?a c 0 kvs n] c(1) by (auto simp: rl_recs_def)
qed

lemma RL_NewRelation_Some: "2 \<le> m \<Longrightarrow> \<exists>s. RL_NewRelation m = Some s"
  by (simp add: RL_NewRelation_def createNewNode_def Let_def)

text \<open>A table with given records, for the examples of the root theory.\<close>

lemma alist_put_append:
  "sorted_keys (xs @ [(k, v)]) \<Longrightarrow> alist_put k v xs = xs @ [(k, v)]"
proof (induction xs)
  case (Cons x xs)
  then show ?case by (cases x) auto
qed simp

lemma alist_puts_sorted: "sorted_keys (m @ kvs) \<Longrightarrow> alist_puts kvs m = m @ kvs"
proof (induction kvs arbitrary: m)
  case (Cons kv kvs)
  obtain k v where kv: "kv = (k, v)" by (cases kv)
  have "sorted_keys (m @ [(k, v)])" "sorted_keys ((m @ [(k, v)]) @ kvs)" using Cons.prems kv by auto
  then show ?case using Cons.IH[of "m @ [(k, v)]"] by (simp add: kv alist_put_append)
qed simp

lemma table_exists:
  assumes "sorted_keys kvs" and "length kvs + n \<le> record_limit"
  obtains s c a p where "rl_inv s a" "rl_recs a = kvs" "rl_pos a c p" "rl_room n s"
proof -
  obtain s0 where s0: "RL_NewRelation (20 * (length kvs + n) + 3) = Some s0"
    using RL_NewRelation_Some[of "20 * (length kvs + n) + 3"] by auto
  have c0: "arrays_ok \<lparr>level = 0, ancestorsIdx = replicate 20 0, ancestors = replicate 20 0\<rparr>"
    by (simp add: arrays_ok_def)
  show thesis
    using new_table_puts[OF s0 c0 order_refl assms(2)] that alist_puts_sorted[of "[]" kvs] assms(1)
    by (metis append_Nil)
qed

text \<open>The same with the cursor on the first record.\<close>

lemma table_exists_first:
  assumes "sorted_keys kvs" and "length kvs + n \<le> record_limit"
  obtains s c a where "rl_inv s a" "rl_recs a = kvs" "rl_pos a c 0" "rl_room n s"
proof -
  obtain s c0 a p0 where t: "rl_inv s a" "rl_recs a = kvs" "rl_pos a c0 p0" "rl_room n s"
    using table_exists[OF assms] .
  obtain c where "rl_pos a c 0" using rt.to_first_law[OF t(1,3)] by blast
  with t that show thesis by blast
qed

end
