(* ===== verification/Relation_Delete.thy ===== *)
theory Relation_Delete
  imports Relation_Api
begin

text \<open>
  \<open>handleDeleteBtree\<close>: the callback is called once on every record, in key order, and every
  node below the root is freed; the root itself is not.
\<close>

lemma leaf_records_node_is:
  assumes "node_is n lf f l p es"
  shows "i + m = length es \<Longrightarrow> leaf_records n (int i) m = Inr (map snd (drop i es))"
proof (induction m arbitrary: i)
  case 0
  then show ?case by simp
next
  case (Suc m)
  then have i: "i < length es" by simp
  have "leaf_records n (int (Suc i)) m = Inr (map snd (drop (Suc i) es))"
    using Suc.IH[of "Suc i"] Suc.prems by (simp del: of_nat_Suc)
  then show ?case
    using entry_at_node_is[OF assms i] i
    by (simp add: Cons_nth_drop_Suc[symmetric] add.commute)
qed

definition freed :: "rl \<Rightarrow> addr set \<Rightarrow> rl" where
  "freed s A = s\<lparr>nodes := (nodes s) |` (- A)\<rparr>"

lemma freed_empty [simp]: "freed s {} = s"
  by (cases s) (simp add: freed_def restrict_map_def)

lemma freed_free_node: "free_node (freed s A) a = freed s (insert a A)"
  by (auto simp: freed_def free_node_def restrict_map_def fun_eq_iff)

lemma freed_freed: "freed (freed s A) B = freed s (A \<union> B)"
  by (auto simp: freed_def restrict_map_def fun_eq_iff)

lemma rep_freed: "rep (nodes s) t \<Longrightarrow> set (addrs t) \<inter> A = {} \<Longrightarrow> rep (nodes (freed s A)) t"
  by (erule rep_frame) (auto simp: freed_def restrict_map_def)

lemma delete_children_correct:
  assumes del: "\<And>c s. c \<in> set cs \<Longrightarrow> rep (nodes s) c \<Longrightarrow> distinct (addrs c) \<Longrightarrow>
      handleDeleteBtree fuel s (taddr c) True
        = Inr (freed s (set (tl (addrs c))), map snd (contents c))"
    and "\<forall>c \<in> set cs. rep (nodes s) c" and "distinct (concat (map addrs cs))"
  shows "delete_children fuel s (map taddr cs) True =
    Inr (freed s (set (concat (map addrs cs))), map snd (concat (map contents cs)))"
  using assms
proof (induction cs arbitrary: s)
  case Nil
  then show ?case by simp
next
  case (Cons c cs)
  have d: "distinct (addrs c)" "distinct (concat (map addrs cs))"
    "set (addrs c) \<inter> set (concat (map addrs cs)) = {}" using Cons.prems(3) by auto
  have a: "insert (taddr c) (set (tl (addrs c))) = set (addrs c)" by (cases c) simp_all
  have first: "handleDeleteBtree fuel s (taddr c) True
      = Inr (freed s (set (tl (addrs c))), map snd (contents c))"
    using Cons.prems(1)[of c s] Cons.prems(2) d(1) by simp
  have "\<forall>x \<in> set cs. rep (nodes (freed s (set (addrs c)))) x"
  proof
    fix x assume x: "x \<in> set cs"
    then have "set (addrs x) \<inter> set (addrs c) = {}" using d(3) by auto
    then show "rep (nodes (freed s (set (addrs c)))) x" using Cons.prems(2) x by (intro rep_freed) auto
  qed
  then have "delete_children fuel (freed s (set (addrs c))) (map taddr cs) True =
    Inr (freed (freed s (set (addrs c))) (set (concat (map addrs cs))), map snd (concat (map contents cs)))"
    using Cons.prems(1) d(2) by (intro Cons.IH) auto
  then show ?case using first by (simp add: freed_free_node a freed_freed)
qed

lemma handleDeleteBtree_correct:
  assumes "bt_ok h lo hi f l t" and "rep (nodes s) t" and "distinct (addrs t)"
  shows "handleDeleteBtree (Suc h) s (taddr t) True
    = Inr (freed s (set (tl (addrs t))), map snd (contents t))"
  using assms
proof (induction h arbitrary: lo hi f l t s)
  case 0
  from 0(1) obtain a es where t: "t = Lf a f l es" by (auto elim: bt_ok_0E)
  obtain n where n: "node_at s a = Inr n" "node_is n True f l 0 es"
    using rep_leafE[of s a f l es] 0(2) t by metis
  then show ?case
    using leaf_records_node_is[OF n(2), of 0 "length es"] t
    by (simp add: node_isD[OF n(2)])
next
  case (Suc h)
  from Suc.prems(1) show ?case
  proof (rule bt_ok_SucE)
    fix a ks cs
    assume t: "t = Nd a False False ks cs" and len: "length cs = Suc (length ks)"
    obtain n where n: "node_at s a = Inr n" "node_is n False False False (taddr (hd cs)) (node_kvs ks cs)"
      "\<forall>c \<in> set cs. rep (nodes s) c"
      using rep_internE[of s a False False ks cs] Suc.prems(2) t by metis
    have "leaf_records n 0 (length (node_kvs ks cs)) = Inr (map taddr (tl cs))"
      using leaf_records_node_is[OF n(2), of 0 "length (node_kvs ks cs)"] len
      by (simp add: node_kvs_def)
    moreover have "taddr (hd cs) # map taddr (tl cs) = map taddr cs" using len by (cases cs) simp_all
    moreover have "delete_children (Suc h) s (map taddr cs) True =
      Inr (freed s (set (concat (map addrs cs))), map snd (concat (map contents cs)))"
    proof (rule delete_children_correct[OF _ n(3)])
      fix c and s :: rl assume c: "c \<in> set cs" "rep (nodes s) c" "distinct (addrs c)"
      then obtain i where "i < length cs" "c = cs ! i" by (metis in_set_conv_nth)
      with c show "handleDeleteBtree (Suc h) s (taddr c) True
          = Inr (freed s (set (tl (addrs c))), map snd (contents c))"
        using Suc.IH[OF bt_ok_child[OF Suc.prems(1)[unfolded t]]] len by simp
    qed (use Suc.prems(3) t in simp)
    ultimately show ?thesis
      using n(1) t len by (subst handleDeleteBtree.simps(2)) (simp add: node_isD[OF n(2)] del: handleDeleteBtree.simps delete_children.simps)
  qed
qed

end
