(* ===== verification/Index_Int.thy ===== *)
theory Index_Int
  imports Relation_Api
begin

text \<open>
  The two clients of \<open>relation.h\<close> in the repository: the index interface of
  \<open>index_int.c\<close>, and the range query of \<open>relapps.c\<close>.
\<close>

section \<open>\<open>index_int.c\<close>\<close>

text \<open>A cursor pointer is NULL or points to a cursor; a NULL cursor is passed through.\<close>

definition Iempty :: "nat \<Rightarrow> rl option" where
  "Iempty m = RL_NewRelation m"

definition Imove_cursor :: "rl \<Rightarrow> ckey \<Rightarrow> cursor option \<Rightarrow> cursor option result" where
  "Imove_cursor s key cur =
     (case cur of
        None \<Rightarrow> Inr None
      | Some c \<Rightarrow> rbind (RL_MoveToKey s c key) (\<lambda>(b, c1). if \<not> b then Inr None else Inr (Some c1)))"

definition Imake_cursor :: "cursor \<Rightarrow> ckey \<Rightarrow> rl option \<Rightarrow> (cursor option \<times> rl option) result" where
  "Imake_cursor c0 key index =
     (case index of
        None \<Rightarrow> Inr (None, None)
      | Some s \<Rightarrow> rbind (RL_NewCursor c0 s) (\<lambda>(cur, s1).
          case cur of
            None \<Rightarrow> Inr (None, Some s1)
          | Some c \<Rightarrow> rbind (Imove_cursor s1 key (Some c)) (\<lambda>r. Inr (r, Some s1))))"

definition Ifirst_cursor :: "rl \<Rightarrow> cursor option \<Rightarrow> cursor option result" where
  "Ifirst_cursor s cur =
     (case cur of
        None \<Rightarrow> Inr None
      | Some c \<Rightarrow> rbind (RL_MoveToFirst s c) (\<lambda>(b, c1). if \<not> b then Inr None else Inr (Some c1)))"

text \<open>The loop of \<open>Ilast_cursor\<close> runs until the cursor is invalid; the fuel bounds its rounds.\<close>

fun Ilast_loop :: "nat \<Rightarrow> rl \<Rightarrow> cursor \<Rightarrow> cursor result" where
  "Ilast_loop 0 s c = Inl NoReturn"
| "Ilast_loop (Suc fuel) s c =
     rbind (RL_MoveToNextValid s c) (\<lambda>(b, c1). if b then Ilast_loop fuel s c1 else Inr c1)"

definition Ilast_cursor :: "nat \<Rightarrow> rl \<Rightarrow> cursor option \<Rightarrow> cursor option result" where
  "Ilast_cursor fuel s cur =
     (case cur of
        None \<Rightarrow> Inr None
      | Some c \<Rightarrow> rbind (Ilast_loop fuel s c) (\<lambda>c1. rbind (RL_MoveToPrevious s c1) (\<lambda>c2. Inr (Some c2))))"

definition Inext_cursor :: "rl \<Rightarrow> cursor option \<Rightarrow> cursor option result" where
  "Inext_cursor s cur =
     (case cur of None \<Rightarrow> Inr None | Some c \<Rightarrow> rbind (RL_MoveToNext s c) (\<lambda>c1. Inr (Some c1)))"

definition Iprev_cursor :: "rl \<Rightarrow> cursor option \<Rightarrow> cursor option result" where
  "Iprev_cursor s cur =
     (case cur of None \<Rightarrow> Inr None | Some c \<Rightarrow> rbind (RL_MoveToPrevious s c) (\<lambda>c1. Inr (Some c1)))"

text \<open>
  The two getters write through a pointer; the result is the returned flag, the value
  written (None: nothing written) and the cursor. A key or record of 0 gives False.
\<close>

definition Iget_key :: "rl \<Rightarrow> cursor option \<Rightarrow> (bool \<times> ckey option \<times> cursor option) result" where
  "Iget_key s cur =
     (case cur of
        None \<Rightarrow> Inr (False, None, None)
      | Some c \<Rightarrow> rbind (RL_GetKey s c) (\<lambda>(k, c1). Inr (k \<noteq> 0, Some k, Some c1)))"

definition Iget_value :: "rl \<Rightarrow> cursor option \<Rightarrow> (bool \<times> addr option \<times> cursor option) result" where
  "Iget_value s cur =
     (case cur of
        None \<Rightarrow> Inr (False, None, None)
      | Some c \<Rightarrow> rbind (RL_GetRecord s c) (\<lambda>(v, c1). Inr (v \<noteq> NULL, Some v, Some c1)))"

definition Iput :: "rl \<Rightarrow> ckey \<Rightarrow> addr \<Rightarrow> cursor \<Rightarrow> (rl \<times> cursor) result" where
  "Iput s key value c = RL_PutRecord s c key value"

text \<open>A put followed by a search of the same key finds the value.\<close>

lemma Iput_Imove:
  assumes "rl_inv s a" and "rl_pos a c p" and "rl_room (Suc n) s"
  shows "\<exists>s1 c1 c2 c3. Iput s k v c = Inr (s1, c1) \<and> Imove_cursor s1 k (Some c1) = Inr (Some c2) \<and>
     Iget_value s1 (Some c2) = Inr (v \<noteq> NULL, Some v, c3)"
proof -
  obtain s1 c1 a1 where p: "RL_PutRecord s c k v = Inr (s1, c1)" "rl_inv s1 a1"
    "rl_recs a1 = alist_put k v (rl_recs a)" "rl_pos a1 c1 (Suc (rec_ix (map fst (rl_recs a)) k))"
    using rt.put_law[OF assms, of k v] by blast
  have "map_of (rl_recs a1) k = Some v" by (simp add: p(3) map_of_alist_put)
  from rt.lookup[OF p(2,4) this] p(1) show ?thesis
    by (auto simp: Iput_def Imove_cursor_def Iget_value_def)
qed

text \<open>\<open>Ilast_cursor\<close> ends on the last record.\<close>

lemma Ilast_loop_pos:
  assumes "rl_inv s a"
  shows "rl_pos a c p \<Longrightarrow> length (rl_recs a) - p < fuel \<Longrightarrow>
    \<exists>c'. Ilast_loop fuel s c = Inr c' \<and> rl_pos a c' (length (rl_recs a))"
proof (induction fuel arbitrary: c p)
  case 0
  then show ?case by simp
next
  case (Suc fuel)
  obtain c1 where c1: "RL_MoveToNext s c = Inr c1" "rl_pos a c1 (min (Suc p) (length (rl_recs a)))"
    using rt.to_next_law[OF assms Suc.prems(1)] by blast
  have v: "RL_MoveToNextValid s c = Inr (Suc p < length (rl_recs a), c1)"
    using c1(1) rt.is_valid_iff[OF assms c1(2)] rt.pos_le[OF assms Suc.prems(1)]
    by (auto simp: RL_MoveToNextValid_def)
  show ?case
  proof (cases "Suc p < length (rl_recs a)")
    case True
    then have "rl_pos a c1 (Suc p)" "length (rl_recs a) - Suc p < fuel"
      using c1(2) Suc.prems(2) by (auto simp: min_def split: if_splits)
    from Suc.IH[OF this] v True show ?thesis by simp
  next
    case False
    then show ?thesis using v c1(2) by (simp add: min_def split: if_splits)
  qed
qed

lemma cpos_end_leaf:
  assumes "rel_inv s h t" and "cur_pos h t c (length (contents t))" and "contents t \<noteq> []"
  obtains js where "fpath h t js" "cur_at c t js (length (leaf_at t js))" "0 < length (leaf_at t js)"
    "cpos t js (length (leaf_at t js)) = length (contents t)"
proof -
  note inv = rel_invD[OF assms(1)]
  obtain js li where c: "fpath h t js" "li \<le> length (leaf_at t js)" "cur_at c t js li"
    "cpos t js li = length (contents t)"
    using assms(2) unfolding cur_pos_def by blast
  have li: "li = length (leaf_at t js)"
    using cur_pos_leaf(1)[OF inv(1) c(1,2)] c(4) by simp
  have "0 < length (leaf_at t js)"
  proof (cases js)
    case Nil
    then have "h = 0" using c(1) by (simp add: fpath_def)
    with inv(1) obtain a es where "t = Lf a True True es" by (auto elim: bt_ok_0E)
    then show ?thesis using assms(3) Nil by (simp add: leaf_at_def)
  next
    case (Cons j js')
    obtain lo' hi' f' l' where ctx: "pctx None None True True t js = (lo', hi', f', l')"
      by (metis prod_cases4)
    obtain a where "subtree t js = Lf a f' l' (leaf_at t js)"
      using leaf_subtree[OF inv(1) c(1) ctx] .
    moreover have "7 \<le> nkeys (subtree t js)"
      using nkeys_subtree[OF inv(1)] c(1) Cons by (simp add: fpath_def)
    ultimately show ?thesis by (cases "leaf_at t js") auto
  qed
  then show thesis using that c li by blast
qed

lemma Ilast_cursor_pos:
  assumes "rl_inv s a" and "rl_pos a c p" and "rl_recs a \<noteq> []" and "length (rl_recs a) < fuel"
  shows "\<exists>c'. Ilast_cursor fuel s (Some c) = Inr (Some c') \<and> rl_pos a c' (length (rl_recs a) - 1)"
proof -
  have i: "rel_inv s (fst a) (snd a)" using assms(1) by (simp add: rl_inv_def)
  obtain c1 where c1: "Ilast_loop fuel s c = Inr c1" "rl_pos a c1 (length (rl_recs a))"
    using Ilast_loop_pos[OF assms(1,2), of fuel] assms(4) by (meson diff_le_self le_less_trans)
  obtain js where js: "fpath (fst a) (snd a) js" "cur_at c1 (snd a) js (length (leaf_at (snd a) js))"
    "0 < length (leaf_at (snd a) js)"
    "cpos (snd a) js (length (leaf_at (snd a) js)) = length (contents (snd a))"
    using cpos_end_leaf[OF i] c1(2) assms(3) by (auto simp: rl_pos_def rl_recs_def)
  then obtain m where m: "length (leaf_at (snd a) js) = Suc m" by (cases "length (leaf_at (snd a) js)") auto
  obtain c' where "RL_MoveToPrevious s c1 = Inr c'" "cur_pos (fst a) (snd a) c' (cpos (snd a) js m)"
    "cpos (snd a) js (Suc m) = Suc (cpos (snd a) js m)"
    using RL_MoveToPrevious_in_leaf[OF i js(1), of c1 m] js(2) m by auto
  moreover from this have "length (contents (snd a)) - 1 = cpos (snd a) js m" using js(4) m by simp
  ultimately show ?thesis
    using c1(1) by (simp add: Ilast_cursor_def rl_pos_def rl_recs_def)
qed

section \<open>\<open>relapps.c\<close>\<close>

text \<open>
  \<open>UTIL_ResizeArray\<close> on an array of pointers, \<open>None\<close> for NULL: \<open>realloc\<close> keeps the elements and
  adds uninitialised ones, or fails and gives NULL. \<open>mem\<close> is the number of allocations that will
  still succeed. The caller stores the result without a test: what it tests, \<open>arrLength == 0\<close>, is
  never true. It also forgets to update \<open>arrLength\<close>, which is kept as it is in the code.
\<close>

definition UTIL_ResizeArray :: "nat \<Rightarrow> 'a option list option \<Rightarrow> nat \<Rightarrow> nat \<Rightarrow> ('a option list option \<times> nat) result" where
  "UTIL_ResizeArray mem arr currLength desiredLength =
     (case arr of
        None \<Rightarrow> Inl AssertFail
      | Some xs \<Rightarrow>
          rbind (check (currLength \<noteq> 0) AssertFail) (\<lambda>_.
          if mem = 0 then Inr (None, 0)
          else Inr (Some (take desiredLength xs @ replicate (desiredLength - length xs) None), mem - 1)))"

fun range_loop :: "nat \<Rightarrow> nat \<Rightarrow> rl \<Rightarrow> cursor \<Rightarrow> ckey \<Rightarrow> addr option list option \<Rightarrow> nat \<Rightarrow> nat \<Rightarrow>
    (addr option list option \<times> nat \<times> cursor) result" where
  "range_loop 0 mem s c upper records arrLength numRecs = Inl NoReturn"
| "range_loop (Suc fuel) mem s c upper records arrLength numRecs =
     rbind (RL_GetKey s c) (\<lambda>(currKey, c1).
       if upper < currKey then Inr (records, numRecs, c1)
       else
         rbind (if arrLength = numRecs then UTIL_ResizeArray mem records arrLength (arrLength * 2)
                else Inr (records, mem)) (\<lambda>(records1, mem1).
         if arrLength = numRecs \<and> arrLength = 0 then Inr (None, 0, c1)
         else
           rbind (RL_GetRecord s c1) (\<lambda>(currRecord, c2).
           rbind (case records1 of None \<Rightarrow> Inl NullDeref | Some rs \<Rightarrow> aset rs (int numRecs) (Some currRecord)) (\<lambda>rs.
           rbind (RL_MoveToNextValid s c2) (\<lambda>(notAtLast, c3).
             if notAtLast then range_loop fuel mem1 s c3 upper (Some rs) arrLength (numRecs + 1)
             else Inr (Some rs, numRecs + 1, c3))))))"

text \<open>
  The result of \<open>RL_MoveToKey\<close> is a \<open>Bool\<close>, so the test \<open>moveCursorRes < 0\<close> never
  holds and its branch is dead. \<open>mem\<close> is the number of allocations that succeed, the first
  \<open>malloc\<close> being one.
\<close>

definition RLAPP_RangeQuery :: "nat \<Rightarrow> nat \<Rightarrow> rl \<Rightarrow> cursor \<Rightarrow> ckey \<Rightarrow> ckey \<Rightarrow>
    (addr option list option \<times> nat \<times> cursor) result" where
  "RLAPP_RangeQuery fuel mem s c lower upper =
     rbind (RL_CursorIsValid s c) (\<lambda>v. rbind (check v AssertFail) (\<lambda>_.
       if mem = 0 then Inr (None, 0, c)
       else rbind (RL_MoveToKey s c lower) (\<lambda>(moveCursorRes, c1).
         rbind (range_loop fuel (mem - 1) s c1 upper (Some [None, None]) 2 0) (\<lambda>(records, n, c2).
           if n = 0 then Inr (None, 0, c2) else Inr (records, n, c2)))))"

text \<open>The records the query asks for: those from position \<open>p\<close> on with key at most \<open>upper\<close>.\<close>

definition in_range :: "kvs \<Rightarrow> nat \<Rightarrow> ckey \<Rightarrow> kvs" where
  "in_range m p upper = takeWhile (\<lambda>kv. fst kv \<le> upper) (drop p m)"

lemma in_range_step:
  assumes "p < length m"
  shows "in_range m p upper =
    (if fst (m ! p) \<le> upper then m ! p # in_range m (Suc p) upper else [])"
  using assms by (simp add: in_range_def Cons_nth_drop_Suc[symmetric])

lemma in_range_sorted:
  assumes "sorted_keys m"
  shows "in_range m (rec_ix (map fst m) lower) upper = filter (\<lambda>kv. lower \<le> fst kv \<and> fst kv \<le> upper) m"
  using assms
proof (induction m)
  case (Cons kv m)
  show ?case
  proof (cases "fst kv < lower")
    case True
    then have "\<not> lower \<le> fst kv" by simp
    with True Cons show ?thesis by (simp add: rec_ix_def in_range_def)
  next
    case False
    have "takeWhile (\<lambda>kv. fst kv \<le> upper) m = filter (\<lambda>kv. lower \<le> fst kv \<and> fst kv \<le> upper) m"
      if "sorted_keys m" "\<forall>x \<in> fst ` set m. lower < x" for m :: kvs
      using that
    proof (induction m)
      case (Cons kv m)
      show ?case
      proof (cases "fst kv \<le> upper")
        case False
        have "\<forall>x \<in> set m. \<not> (lower \<le> fst x \<and> fst x \<le> upper)"
          using Cons.prems(1) False by force
        then show ?thesis using False by (simp add: filter_False)
      qed (use Cons in \<open>simp add: less_imp_le\<close>)
    qed simp
    moreover have "\<forall>x \<in> fst ` set m. lower < x" using Cons.prems False by force
    moreover have "\<not> fst kv \<le> upper \<Longrightarrow> filter (\<lambda>kv. lower \<le> fst kv \<and> fst kv \<le> upper) m = []"
      using Cons.prems by (force simp: filter_empty_conv)
    ultimately show ?thesis using Cons.prems False by (auto simp: rec_ix_def in_range_def)
  qed
qed (simp add: rec_ix_def in_range_def)

text \<open>
  The array grows once, from 2 elements to 4, because \<open>arrLength\<close> stays 2: the query is
  right for up to four records and writes past the array on the fifth. When \<open>realloc\<close> fails it is
  right for up to two, and writes through NULL on the third. \<open>lim\<close> is the number of records that fit.
\<close>

definition rq_array :: "nat \<Rightarrow> nat \<Rightarrow> addr option list \<Rightarrow> nat \<Rightarrow> bool" where
  "rq_array lim mem rs n \<longleftrightarrow> length rs = (if n \<le> 2 then 2 else 4) \<and>
     lim = (if n \<le> 2 \<and> mem = 0 then 2 else 4)"

definition rq_store :: "nat \<Rightarrow> addr option list \<Rightarrow> nat \<Rightarrow> addr \<Rightarrow> (addr option list \<times> nat) result" where
  "rq_store mem rs n x =
     rbind (if 2 = n then UTIL_ResizeArray mem (Some rs) 2 (2 * 2) else Inr (Some rs, mem)) (\<lambda>(r, mem1).
     rbind (case r of None \<Rightarrow> Inl NullDeref | Some rs \<Rightarrow> aset rs (int n) (Some x)) (\<lambda>rs1. Inr (rs1, mem1)))"

lemma rq_store_ok:
  assumes "rq_array lim mem rs n" and "n < lim"
  shows "\<exists>rs1 mem1. rq_store mem rs n x = Inr (rs1, mem1) \<and> rq_array lim mem1 rs1 (Suc n) \<and>
    take (Suc n) rs1 = take n rs @ [Some x]"
proof (cases "n = 2")
  case True
  then have "length rs = 2" "mem \<noteq> 0" "lim = 4" using assms by (auto simp: rq_array_def split: if_splits)
  moreover from this obtain u v where "rs = [u, v]" by (auto simp: numeral_eq_Suc length_Suc_conv)
  ultimately show ?thesis
    using True by (simp add: rq_store_def UTIL_ResizeArray_def aset_def rq_array_def numeral_eq_Suc)
next
  case False
  then have len: "n < length rs" using assms by (auto simp: rq_array_def split: if_splits)
  then have "take (Suc n) (rs[n := Some x]) = take n rs @ [Some x]"
    by (simp add: take_Suc_conv_app_nth)
  moreover have "rq_array lim mem (rs[n := Some x]) (Suc n)"
    using assms False by (auto simp: rq_array_def split: if_splits)
  ultimately show ?thesis using False len by (simp add: rq_store_def)
qed

lemma rq_store_full:
  assumes "rq_array lim mem rs lim"
  shows "rq_store mem rs lim x = Inl (if lim = 2 then NullDeref else OutOfBounds)"
  using assms by (auto simp: rq_array_def rq_store_def UTIL_ResizeArray_def aset_def split: if_splits)

lemma range_loop_unfold:
  assumes "rl_inv s a" and "rl_pos a c p" and "p < length (rl_recs a)"
  shows "\<exists>c3. range_loop (Suc fuel) mem s c upper (Some rs) 2 n =
    (if fst (rl_recs a ! p) \<le> upper then
       rbind (rq_store mem rs n (snd (rl_recs a ! p))) (\<lambda>(rs1, mem1).
         if Suc p < length (rl_recs a) then range_loop fuel mem1 s c3 upper (Some rs1) 2 (n + 1)
         else Inr (Some rs1, n + 1, c3))
     else Inr (Some rs, n, c3)) \<and>
    (fst (rl_recs a ! p) \<le> upper \<longrightarrow> rl_pos a c3 (Suc p))"
proof -
  obtain c1 where c1: "RL_GetKey s c = Inr (fst (rl_recs a ! p), c1)" "rl_pos a c1 p"
    using rt.get_key_law[OF assms] by blast
  obtain c2 where c2: "RL_GetRecord s c1 = Inr (snd (rl_recs a ! p), c2)" "rl_pos a c2 p"
    using rt.get_record_law[OF assms(1) c1(2) assms(3)] by blast
  obtain c3 where c3: "RL_MoveToNext s c2 = Inr c3" "rl_pos a c3 (Suc p)"
    using rt.to_next_law[OF assms(1) c2(2)] assms(3) by (auto simp: min_def Suc_le_eq)
  have nx: "RL_MoveToNextValid s c2 = Inr (Suc p < length (rl_recs a), c3)"
    using c3(1) rt.is_valid_iff[OF assms(1) c3(2)] by (simp add: RL_MoveToNextValid_def)
  show ?thesis
  proof (cases "fst (rl_recs a ! p) \<le> upper")
    case True
    then have "\<not> upper < fst (rl_recs a ! p)" by simp
    then show ?thesis using c1(1) c2(1) nx c3(2) True
      by (intro exI[of _ c3]) (simp add: rq_store_def rbind_assoc split_def cong: option.case_cong if_cong)
  next
    case False
    then have "upper < fst (rl_recs a ! p)" by (simp add: not_le)
    with False show ?thesis using c1(1) by (intro exI[of _ c1]) simp
  qed
qed

lemma range_loop_correct:
  assumes inv: "rl_inv s a"
  shows "rl_pos a c p \<Longrightarrow> p < length (rl_recs a) \<Longrightarrow> rq_array lim mem rs n \<Longrightarrow> n \<le> lim \<Longrightarrow>
    length (in_range (rl_recs a) p upper) < fuel \<Longrightarrow>
    (if n + length (in_range (rl_recs a) p upper) \<le> lim
     then \<exists>rs' c'. range_loop fuel mem s c upper (Some rs) 2 n
         = Inr (Some rs', n + length (in_range (rl_recs a) p upper), c') \<and>
       take (n + length (in_range (rl_recs a) p upper)) rs'
         = take n rs @ map (Some \<circ> snd) (in_range (rl_recs a) p upper)
     else range_loop fuel mem s c upper (Some rs) 2 n = Inl (if lim = 2 then NullDeref else OutOfBounds))"
proof (induction fuel arbitrary: c p mem rs n)
  case 0
  then show ?case by simp
next
  case (Suc fuel)
  let ?m = "rl_recs a"
  obtain c3 where step: "range_loop (Suc fuel) mem s c upper (Some rs) 2 n =
    (if fst (?m ! p) \<le> upper then
       rbind (rq_store mem rs n (snd (?m ! p))) (\<lambda>(rs1, mem1).
         if Suc p < length ?m then range_loop fuel mem1 s c3 upper (Some rs1) 2 (n + 1)
         else Inr (Some rs1, n + 1, c3))
     else Inr (Some rs, n, c3))" and c3: "fst (?m ! p) \<le> upper \<Longrightarrow> rl_pos a c3 (Suc p)"
    using range_loop_unfold[OF inv Suc.prems(1,2), of fuel mem upper rs n] by blast
  show ?case
  proof (cases "fst (?m ! p) \<le> upper")
    case False
    then show ?thesis using step in_range_step[OF Suc.prems(2)] Suc.prems(4) by simp
  next
    case True
    then have r: "in_range ?m p upper = ?m ! p # in_range ?m (Suc p) upper"
      using in_range_step[OF Suc.prems(2)] by simp
    show ?thesis
    proof (cases "n = lim")
      case full: True
      then show ?thesis using step r rq_store_full[of lim mem rs] Suc.prems(3) True by simp
    next
      case False
      then have "n < lim" using Suc.prems(4) by simp
      from rq_store_ok[OF Suc.prems(3) this, of "snd (?m ! p)"] obtain rs1 mem1 where
        r2: "rq_store mem rs n (snd (?m ! p)) = Inr (rs1, mem1)" "rq_array lim mem1 rs1 (Suc n)"
          "take (Suc n) rs1 = take n rs @ [Some (snd (?m ! p))]" by blast
      show ?thesis
      proof (cases "Suc p < length ?m")
        case in_m: True
        have "length (in_range ?m (Suc p) upper) < fuel" using Suc.prems(5) r by simp
        with Suc.IH[OF c3[OF True] in_m r2(2)] \<open>n < lim\<close>
        have "if Suc n + length (in_range ?m (Suc p) upper) \<le> lim
          then \<exists>rs' c'. range_loop fuel mem1 s c3 upper (Some rs1) 2 (Suc n)
              = Inr (Some rs', Suc n + length (in_range ?m (Suc p) upper), c') \<and>
            take (Suc n + length (in_range ?m (Suc p) upper)) rs'
              = take (Suc n) rs1 @ map (Some \<circ> snd) (in_range ?m (Suc p) upper)
          else range_loop fuel mem1 s c3 upper (Some rs1) 2 (Suc n) = Inl (if lim = 2 then NullDeref else OutOfBounds)"
          by simp
        moreover have "range_loop (Suc fuel) mem s c upper (Some rs) 2 n
            = range_loop fuel mem1 s c3 upper (Some rs1) 2 (Suc n)"
          using step r2(1) True in_m by simp
        moreover have "n + length (in_range ?m p upper) = Suc n + length (in_range ?m (Suc p) upper)"
          using r by simp
        moreover have "take n rs @ map (Some \<circ> snd) (in_range ?m p upper)
            = take (Suc n) rs1 @ map (Some \<circ> snd) (in_range ?m (Suc p) upper)"
          using r r2(3) by simp
        ultimately show ?thesis by (simp only:)
      next
        case False
        then have "in_range ?m (Suc p) upper = []" by (simp add: in_range_def)
        then show ?thesis using step r2 r False True \<open>n < lim\<close> by simp
      qed
    qed
  qed
qed

lemma rec_ix_beyond: "rec_ix ks lower = length ks \<longleftrightarrow> (\<forall>k \<in> set ks. k < lower)" for lower :: ckey
proof
  assume "\<forall>k \<in> set ks. k < lower"
  then have "takeWhile (\<lambda>x. x < lower) ks = ks" by (simp add: takeWhile_eq_all_conv)
  then show "rec_ix ks lower = length ks" unfolding rec_ix_def by (rule arg_cong)
next
  assume "rec_ix ks lower = length ks"
  then show "\<forall>k \<in> set ks. k < lower" using rec_ix_nth_less[of _ ks lower] by (force simp: in_set_conv_nth)
qed

lemma RLAPP_RangeQuery_correct:
  fixes lower upper :: ckey
  assumes inv: "rl_inv s a" and c: "rl_pos a c p" "p < length (rl_recs a)"
    and fuel: "length (rl_recs a) < fuel"
  defines "q \<equiv> filter (\<lambda>kv. lower \<le> fst kv \<and> fst kv \<le> upper) (rl_recs a)"
    and "beyond \<equiv> (\<forall>k \<in> fst ` set (rl_recs a). k < lower)"
  shows "if mem = 0 then RLAPP_RangeQuery fuel mem s c lower upper = Inr (None, 0, c)
    else if beyond then RLAPP_RangeQuery fuel mem s c lower upper = Inl AssertFail
    else if mem = 1 \<and> 2 < length q then RLAPP_RangeQuery fuel mem s c lower upper = Inl NullDeref
    else if 4 < length q then RLAPP_RangeQuery fuel mem s c lower upper = Inl OutOfBounds
    else \<exists>records c'. RLAPP_RangeQuery fuel mem s c lower upper
        = Inr (if q = [] then None else Some records, length q, c') \<and>
      take (length q) records = map (Some \<circ> snd) q"
proof -
  let ?m = "rl_recs a" and ?p = "rec_ix (map fst (rl_recs a)) lower"
  have v: "RL_CursorIsValid s c = Inr True" using rt.is_valid_iff[OF inv c(1)] c(2) by simp
  obtain c1 b where c1: "RL_MoveToKey s c lower = Inr (b, c1)" "rl_pos a c1 ?p"
    using rt.to_key_law[OF inv c(1)] by blast
  have q: "in_range ?m ?p upper = q"
    unfolding q_def by (rule in_range_sorted[OF rt.recs_sorted[OF inv]])
  have byd: "beyond \<longleftrightarrow> ?p = length ?m"
    using rec_ix_beyond[of "map fst ?m" lower] unfolding beyond_def by simp
  consider "mem = 0" | "mem \<noteq> 0" beyond | "mem \<noteq> 0" "\<not> beyond" by blast
  then show ?thesis
  proof cases
    case 1
    then show ?thesis using v by (simp add: RLAPP_RangeQuery_def)
  next
    case 2
    then have "RL_GetKey s c1 = Inl AssertFail" using rt.get_key_invalid[OF inv, of c1] c1(2) byd by simp
    moreover obtain f where "fuel = Suc f" using fuel by (cases fuel) auto
    ultimately show ?thesis using 2 v c1(1) by (simp add: RLAPP_RangeQuery_def)
  next
    case 3
    then have lt: "?p < length ?m" using byd rec_ix_le[of "map fst ?m" lower] by simp
    let ?lim = "if mem = 1 then 2 else (4 :: nat)"
    have a0: "rq_array ?lim (mem - 1) [None, None] 0" using 3(1) by (simp add: rq_array_def)
    have "length q < fuel" using fuel length_filter_le[of _ ?m] unfolding q_def by (rule le_less_trans[rotated])
    then have "if length q \<le> ?lim then \<exists>rs' c'. range_loop fuel (mem - 1) s c1 upper (Some [None, None]) 2 0
           = Inr (Some rs', length q, c') \<and> take (length q) rs' = map (Some \<circ> snd) q
       else range_loop fuel (mem - 1) s c1 upper (Some [None, None]) 2 0
         = Inl (if ?lim = 2 then NullDeref else OutOfBounds)"
      using range_loop_correct[OF inv c1(2) lt a0, of upper fuel, unfolded q add_0 take_0 append_Nil]
      by blast
    then show ?thesis using 3 v c1(1) by (auto simp: RLAPP_RangeQuery_def split: if_splits)
  qed
qed

end
