(* ===== verification/Kv_Util.thy ===== *)
theory Kv_Util
  imports Prelude "HOL-Library.Multiset"
begin

text \<open>
  \<open>util.c\<close>: binary search, the conversions between strings and 8-byte integers (key slices),
  string comparison and the shuffle of an array. A \<open>char\<close> is an \<open>8 word\<close>; a string is the
  list of the bytes its pointer reaches.
\<close>

type_synonym byte = "8 word"

definition keyslice_length :: nat where [simp]: "keyslice_length = 8"

section \<open>Binary search\<close>

definition INT_MAX :: int where [simp]: "INT_MAX = 2 ^ 31 - 1"

function UTIL_BinarySearch :: "int list \<Rightarrow> int \<Rightarrow> int \<Rightarrow> int \<Rightarrow> int result" where
  "UTIL_BinarySearch a tgt lo hi =
     (if lo < hi then
        rbind (check (lo + hi \<le> INT_MAX) IntOverflow) (\<lambda>_.
          let mid = (lo + hi) div 2 in
          rbind (aget a mid) (\<lambda>val.
            if val = tgt then Inr mid
            else if val < tgt then UTIL_BinarySearch a tgt (mid + 1) hi
            else UTIL_BinarySearch a tgt lo mid))
      else Inr (- 1))"
  by pat_completeness auto
termination
  by (relation "measure (\<lambda>(a, tgt, lo, hi). nat (hi - lo))") auto

declare UTIL_BinarySearch.simps [simp del]

text \<open>Between \<open>lo\<close> and \<open>hi\<close> of a sorted array the search finds the target if it is there.\<close>

lemma UTIL_BinarySearch_correct:
  assumes "sorted a" and "0 \<le> lo" and "hi \<le> int (length a)" and "2 * int (length a) \<le> INT_MAX"
  shows "\<exists>r. UTIL_BinarySearch a tgt lo hi = Inr r \<and>
    (if \<exists>i. lo \<le> i \<and> i < hi \<and> a ! nat i = tgt then lo \<le> r \<and> r < hi \<and> a ! nat r = tgt else r = - 1)"
  using assms(2,3)
proof (induction "nat (hi - lo)" arbitrary: lo hi rule: less_induct)
  case less
  show ?case
  proof (cases "lo < hi")
    case False
    then show ?thesis by (subst UTIL_BinarySearch.simps) auto
  next
    case True
    define mid where "mid = (lo + hi) div 2"
    have mid: "lo \<le> mid" "mid < hi" using True by (auto simp: mid_def)
    have ov: "lo + hi \<le> INT_MAX" using less.prems True assms(4) by linarith
    have get: "aget a mid = Inr (a ! nat mid)" using mid less.prems by (simp add: aget_def)
    have unfold: "UTIL_BinarySearch a tgt lo hi =
      (if a ! nat mid = tgt then Inr mid
       else if a ! nat mid < tgt then UTIL_BinarySearch a tgt (mid + 1) hi
       else UTIL_BinarySearch a tgt lo mid)"
      using True ov get by (subst UTIL_BinarySearch.simps) (simp add: mid_def Let_def del: INT_MAX_def)
    have mono: "a ! nat i \<le> a ! nat j" if "0 \<le> i" "i \<le> j" "j < hi" for i j
      using assms(1) that less.prems by (intro sorted_nth_mono) auto
    consider (eq) "a ! nat mid = tgt" | (less) "a ! nat mid < tgt" | (greater) "tgt < a ! nat mid"
      by linarith
    then show ?thesis
    proof cases
      case eq
      then show ?thesis using unfold mid by auto
    next
      case l: less
      have "nat (hi - (mid + 1)) < nat (hi - lo)" using mid by linarith
      from less.hyps[OF this] obtain r where r: "UTIL_BinarySearch a tgt (mid + 1) hi = Inr r"
        "if \<exists>i. mid + 1 \<le> i \<and> i < hi \<and> a ! nat i = tgt
         then mid + 1 \<le> r \<and> r < hi \<and> a ! nat r = tgt else r = - 1"
        using less.prems mid by auto
      have right: "mid + 1 \<le> i" if "lo \<le> i" "i < hi" "a ! nat i = tgt" for i
      proof (rule ccontr)
        assume "\<not> mid + 1 \<le> i"
        then have "a ! nat i \<le> a ! nat mid" using mono[of i mid] that mid less.prems by simp
        then show False using l that(3) by simp
      qed
      have "(lo \<le> i \<and> i < hi \<and> a ! nat i = tgt) = (mid + 1 \<le> i \<and> i < hi \<and> a ! nat i = tgt)" for i
        using right[of i] mid(1) by auto
      then have iff: "(\<exists>i. lo \<le> i \<and> i < hi \<and> a ! nat i = tgt) = (\<exists>i. mid + 1 \<le> i \<and> i < hi \<and> a ! nat i = tgt)" by simp
      define found where "found \<longleftrightarrow> (\<exists>i. mid + 1 \<le> i \<and> i < hi \<and> a ! nat i = tgt)"
      have "UTIL_BinarySearch a tgt lo hi = Inr r" using unfold l r(1) by simp
      then show ?thesis
        using r(2) mid unfolding iff found_def[symmetric] by (cases found) simp_all
    next
      case g: greater
      have "nat (mid - lo) < nat (hi - lo)" using mid by linarith
      from less.hyps[OF this] obtain r where r: "UTIL_BinarySearch a tgt lo mid = Inr r"
        "if \<exists>i. lo \<le> i \<and> i < mid \<and> a ! nat i = tgt
         then lo \<le> r \<and> r < mid \<and> a ! nat r = tgt else r = - 1"
        using less.prems mid by auto
      have left: "i < mid" if "lo \<le> i" "i < hi" "a ! nat i = tgt" for i
      proof (rule ccontr)
        assume "\<not> i < mid"
        then have "a ! nat mid \<le> a ! nat i" using mono[of mid i] that mid less.prems by simp
        then show False using g that(3) by simp
      qed
      have "(lo \<le> i \<and> i < hi \<and> a ! nat i = tgt) = (lo \<le> i \<and> i < mid \<and> a ! nat i = tgt)" for i
        using left[of i] mid(2) by auto
      then have iff: "(\<exists>i. lo \<le> i \<and> i < hi \<and> a ! nat i = tgt) = (\<exists>i. lo \<le> i \<and> i < mid \<and> a ! nat i = tgt)" by simp
      define found where "found \<longleftrightarrow> (\<exists>i. lo \<le> i \<and> i < mid \<and> a ! nat i = tgt)"
      have "UTIL_BinarySearch a tgt lo hi = Inr r" using unfold g r(1) by simp
      then show ?thesis
        using r(2) mid unfolding iff found_def[symmetric] by (cases found) simp_all
    qed
  qed
qed

section \<open>Key slices\<close>

text \<open>\<open>res <<= 8; res |= c & 255\<close>\<close>

definition add_byte :: "64 word \<Rightarrow> byte \<Rightarrow> 64 word" where
  "add_byte res c = or (push_bit 8 res) (and (ucast c) 255)"

fun slice_loop :: "byte list \<Rightarrow> nat \<Rightarrow> nat \<Rightarrow> 64 word \<Rightarrow> 64 word result" where
  "slice_loop str i 0 res = Inr res"
| "slice_loop str i (Suc n) res = rbind (aget str (int i)) (\<lambda>c. slice_loop str (Suc i) n (add_byte res c))"

fun pad_loop :: "nat \<Rightarrow> 64 word \<Rightarrow> 64 word" where
  "pad_loop 0 res = res"
| "pad_loop (Suc n) res = pad_loop n (push_bit 8 res)"

definition UTIL_GetNextKeySlice :: "byte list \<Rightarrow> nat \<Rightarrow> 64 word result" where
  "UTIL_GetNextKeySlice str len =
     rbind (check (len \<le> keyslice_length) AssertFail) (\<lambda>_.
       rbind (slice_loop str 0 len 0) (\<lambda>res. Inr (pad_loop (keyslice_length - len) res)))"

text \<open>\<open>while((*str) != NUL && i < keyslice_length)\<close>\<close>

fun str_to_ul_loop :: "byte list \<Rightarrow> nat \<Rightarrow> nat \<Rightarrow> 64 word \<Rightarrow> (nat \<times> 64 word) result" where
  "str_to_ul_loop str i 0 res = rbind (aget str (int i)) (\<lambda>c. Inr (i, res))"
| "str_to_ul_loop str i (Suc n) res =
     rbind (aget str (int i)) (\<lambda>c.
       if c \<noteq> 0 then str_to_ul_loop str (Suc i) n (add_byte res c) else Inr (i, res))"

definition UTIL_StrToUl :: "byte list \<Rightarrow> 64 word result" where
  "UTIL_StrToUl str =
     rbind (str_to_ul_loop str 0 keyslice_length 0) (\<lambda>(i, res). Inr (pad_loop (keyslice_length - i) res))"

text \<open>
  The loops that write the bytes of an integer from the last to the first. \<open>calloc\<close> gives zeroed
  bytes, or NULL (\<open>None\<close>) when there is no memory; the result is not tested, so that the first write
  is one through NULL. A negative length fails its \<open>assert\<close> before anything is written.
\<close>

definition calloc_bytes :: "bool \<Rightarrow> nat \<Rightarrow> byte list option" where
  "calloc_bytes mem n = (if mem then Some (replicate n 0) else None)"

definition set_byte :: "byte list option \<Rightarrow> nat \<Rightarrow> byte \<Rightarrow> byte list option result" where
  "set_byte res i c = (case res of None \<Rightarrow> Inl NullDeref | Some bs \<Rightarrow> rbind (aset bs (int i) c) (\<lambda>cs. Inr (Some cs)))"

fun ul_to_str_loop :: "byte list option \<Rightarrow> nat \<Rightarrow> 64 word \<Rightarrow> byte list option result" where
  "ul_to_str_loop res 0 ul = Inr res"
| "ul_to_str_loop res (Suc i) ul = rbind (set_byte res i (ucast ul)) (\<lambda>res1. ul_to_str_loop res1 i (drop_bit 8 ul))"

definition UTIL_UlToStr :: "bool \<Rightarrow> 64 word \<Rightarrow> byte list option result" where
  "UTIL_UlToStr mem ul = ul_to_str_loop (calloc_bytes mem 9) 8 ul"

fun slice_to_str_loop :: "byte list option \<Rightarrow> int \<Rightarrow> nat \<Rightarrow> 64 word \<Rightarrow> byte list option result" where
  "slice_to_str_loop res len 0 ul = Inr res"
| "slice_to_str_loop res len (Suc i) ul =
     rbind (if int i < len then set_byte res i (ucast ul) else Inr res) (\<lambda>res1.
     slice_to_str_loop res1 len i (drop_bit 8 ul))"

definition UTIL_KeySliceToStr :: "bool \<Rightarrow> 64 word \<Rightarrow> int \<Rightarrow> byte list option result" where
  "UTIL_KeySliceToStr mem keySlice len =
     rbind (check (0 \<le> len) AssertFail) (\<lambda>_.
     rbind (check (len \<le> int keyslice_length) AssertFail) (\<lambda>_.
     slice_to_str_loop (calloc_bytes mem (nat len)) len 8 keySlice))"

section \<open>Small functions\<close>

definition UTIL_Min :: "nat \<Rightarrow> nat \<Rightarrow> nat" where
  "UTIL_Min a b = (if a \<le> b then a else b)"

fun str_equal_loop :: "byte list \<Rightarrow> byte list \<Rightarrow> nat \<Rightarrow> nat \<Rightarrow> bool result" where
  "str_equal_loop a b i 0 = Inr True"
| "str_equal_loop a b i (Suc n) =
     rbind (aget a (int i)) (\<lambda>x. rbind (aget b (int i)) (\<lambda>y.
       if x \<noteq> y then Inr False else str_equal_loop a b (Suc i) n))"

definition UTIL_StrEqual :: "byte list \<Rightarrow> nat \<Rightarrow> byte list \<Rightarrow> nat \<Rightarrow> bool result" where
  "UTIL_StrEqual a lenA b lenB =
     (if lenA \<noteq> lenB then Inr False else str_equal_loop a b 0 lenA)"

text \<open>\<open>UTIL_Shuffle\<close> on the stream of the values that \<open>rand()\<close> returns.\<close>

fun shuffle_loop :: "int list \<Rightarrow> nat \<Rightarrow> int list \<Rightarrow> int list result" where
  "shuffle_loop arr i [] = Inr arr"
| "shuffle_loop arr i (r # rs) =
     (let r1 = (if r < 0 then r * - 1 else r);
          r2 = r1 mod (int i + 1) in
      rbind (aget arr (int i)) (\<lambda>temp. rbind (aget arr r2) (\<lambda>x.
        rbind (aset arr (int i) x) (\<lambda>arr1. rbind (aset arr1 r2 temp) (\<lambda>arr2.
          shuffle_loop arr2 (Suc i) rs)))))"

definition UTIL_Shuffle :: "int list \<Rightarrow> nat \<Rightarrow> (nat \<Rightarrow> int) \<Rightarrow> int list result" where
  "UTIL_Shuffle arr len rand = shuffle_loop arr 0 (map rand [0..<len])"

section \<open>What the key slices are\<close>

definition bytes_val :: "byte list \<Rightarrow> 64 word" where
  "bytes_val bs = foldl add_byte 0 bs"

lemma add_byte_or: "add_byte res c = or (push_bit 8 res) (ucast c)"
proof -
  have "and (ucast c) (255 :: 64 word) = take_bit 8 (ucast c)"
    by (simp add: take_bit_eq_mask mask_eq_exp_minus_1)
  also have "\<dots> = ucast c"
    by (intro bit_word_eqI) (auto simp: bit_take_bit_iff bit_ucast_iff dest: bit_imp_le_length)
  finally show ?thesis by (simp add: add_byte_def)
qed

lemma add_byte_0: "add_byte res 0 = push_bit 8 res"
  by (simp add: add_byte_or)

lemma bit_add_byte:
  "n < 64 \<Longrightarrow> bit (add_byte res c) n \<longleftrightarrow> (if n < 8 then bit c n else bit res (n - 8))"
  by (auto simp: add_byte_or bit_or_iff bit_push_bit_iff bit_ucast_iff not_less dest: bit_imp_le_length)

lemma ucast_add_byte: "ucast (add_byte res c) = (c :: byte)"
  by (intro bit_word_eqI) (simp add: bit_ucast_iff bit_add_byte)

lemma drop_bit_add_byte:
  assumes "take_bit 56 res = res"
  shows "drop_bit 8 (add_byte res c) = res"
proof (intro bit_word_eqI)
  fix n assume n: "n < LENGTH(64)"
  have "bit res n \<longleftrightarrow> n < 56 \<and> bit res n" using assms by (metis bit_take_bit_iff)
  then show "bit (drop_bit 8 (add_byte res c)) n = bit res n"
    using n by (cases "n < 56") (auto simp: bit_drop_bit_eq bit_add_byte dest: bit_imp_le_length)
qed

lemma take_bit_add_byte:
  assumes "take_bit (8 * k) res = res" and "k < 8"
  shows "take_bit (8 * Suc k) (add_byte res c) = add_byte res c"
proof (intro bit_word_eqI)
  fix n assume n: "n < LENGTH(64)"
  have "bit res m \<longleftrightarrow> m < 8 * k \<and> bit res m" for m using assms(1) by (metis bit_take_bit_iff)
  from this[of "n - 8"] show "bit (take_bit (8 * Suc k) (add_byte res c)) n = bit (add_byte res c) n"
    using n by (auto simp: bit_take_bit_iff bit_add_byte)
qed

lemma bytes_val_append1: "bytes_val (bs @ [b]) = add_byte (bytes_val bs) b"
  by (simp add: bytes_val_def)

lemma take_bit_bytes_val: "length bs \<le> 8 \<Longrightarrow> take_bit (8 * length bs) (bytes_val bs) = bytes_val bs"
proof (induction bs rule: rev_induct)
  case (snoc b bs)
  then show ?case
    using take_bit_add_byte[of "length bs" "bytes_val bs" b] by (simp add: bytes_val_append1)
qed (simp add: bytes_val_def)

lemma take_bit_mono_eq:
  fixes x :: "64 word"
  assumes "m \<le> n" and "take_bit m x = x"
  shows "take_bit n x = x"
proof -
  have "take_bit n (take_bit m x) = take_bit m x" using assms(1) by (simp add: min_absorb2)
  then show ?thesis using assms(2) by simp
qed

lemma unat_byte_less: "unat (c :: byte) < 256"
  using unsigned_less[of c, where ?'a = nat] by simp

lemma bytes_val_snoc:
  assumes "length bs < 8"
  shows "ucast (bytes_val (bs @ [b])) = b" "drop_bit 8 (bytes_val (bs @ [b])) = bytes_val bs"
proof -
  have "take_bit 56 (bytes_val bs) = bytes_val bs"
  proof (rule take_bit_mono_eq)
    show "8 * length bs \<le> 56" using assms by simp
    show "take_bit (8 * length bs) (bytes_val bs) = bytes_val bs"
      by (rule take_bit_bytes_val) (use assms in simp)
  qed
  then show "drop_bit 8 (bytes_val (bs @ [b])) = bytes_val bs"
    unfolding bytes_val_append1 by (rule drop_bit_add_byte)
  show "ucast (bytes_val (bs @ [b])) = b" unfolding bytes_val_append1 by (rule ucast_add_byte)
qed

lemma pad_loop_foldl: "pad_loop n res = foldl add_byte res (replicate n 0)"
  by (induction n arbitrary: res) (simp_all add: add_byte_0)

lemma slice_loop_foldl:
  "i + n \<le> length str \<Longrightarrow> slice_loop str i n res = Inr (foldl add_byte res (take n (drop i str)))"
  by (induction n arbitrary: i res) (simp_all add: Cons_nth_drop_Suc[symmetric])

lemma GetNextKeySlice_val:
  assumes "len \<le> 8" and "len \<le> length str"
  shows "UTIL_GetNextKeySlice str len = Inr (bytes_val (take len str @ replicate (8 - len) 0))"
  using assms slice_loop_foldl[of 0 len str 0]
  by (simp add: UTIL_GetNextKeySlice_def pad_loop_foldl bytes_val_def)

text \<open>Writing an integer's bytes inverts reading them.\<close>

lemma set_byte_in: "i < length bs \<Longrightarrow> set_byte (Some bs) i c = Inr (Some (bs[i := c]))"
  by (simp add: set_byte_def)

lemma ul_to_str_loop_bytes:
  "length bs \<le> 8 \<Longrightarrow> length bs \<le> length res \<Longrightarrow>
   ul_to_str_loop (Some res) (length bs) (bytes_val bs) = Inr (Some (bs @ drop (length bs) res))"
proof (induction bs arbitrary: res rule: rev_induct)
  case (snoc b bs)
  note bv = bytes_val_snoc[of bs b]
  have "ul_to_str_loop (Some (res[length bs := b])) (length bs) (bytes_val bs)
      = Inr (Some (bs @ drop (length bs) (res[length bs := b])))"
    using snoc by simp
  moreover have "drop (length bs) (res[length bs := b]) = b # drop (Suc (length bs)) res"
    using snoc.prems by (simp add: drop_update_swap Cons_nth_drop_Suc[symmetric])
  ultimately show ?case using bv snoc.prems by (simp add: set_byte_in)
qed simp

lemma UlToStr_bytes_val: "length bs = 8 \<Longrightarrow> UTIL_UlToStr True (bytes_val bs) = Inr (Some (bs @ [0]))"
proof -
  assume len: "length bs = 8"
  have "drop 8 (replicate 9 (0::byte)) = [0]" by (simp add: numeral_eq_Suc)
  then show ?thesis
    using ul_to_str_loop_bytes[of bs "replicate 9 0"] len by (simp add: UTIL_UlToStr_def calloc_bytes_def)
qed

lemma bytes_val_inj: "length bs = 8 \<Longrightarrow> length cs = 8 \<Longrightarrow> bytes_val bs = bytes_val cs \<longleftrightarrow> bs = cs"
  by (metis UlToStr_bytes_val butlast_snoc option.inject sum.inject(2))

lemma slice_to_str_loop_bytes:
  "length bs \<le> 8 \<Longrightarrow> length res = len \<Longrightarrow>
   slice_to_str_loop (Some res) (int len) (length bs) (bytes_val bs) = Inr (Some (take len bs @ drop (length bs) res))"
proof (induction bs arbitrary: res rule: rev_induct)
  case (snoc b bs)
  note bv = bytes_val_snoc[of bs b]
  show ?case
  proof (cases "length bs < len")
    case True
    have "slice_to_str_loop (Some (res[length bs := b])) (int len) (length bs) (bytes_val bs)
        = Inr (Some (take len bs @ drop (length bs) (res[length bs := b])))"
      using snoc by simp
    moreover have "drop (length bs) (res[length bs := b]) = b # drop (Suc (length bs)) res"
      using snoc.prems True by (simp add: drop_update_swap Cons_nth_drop_Suc[symmetric])
    ultimately show ?thesis using bv snoc.prems True by (simp add: set_byte_in)
  next
    case False
    then show ?thesis using bv snoc by simp
  qed
qed simp

lemma slice_to_str_loop_NULL:
  "slice_to_str_loop None (int len) i ul = (if len = 0 \<or> i = 0 then Inr None else Inl NullDeref)"
  by (induction i arbitrary: ul) (auto simp: set_byte_def)

text \<open>Slicing a string and writing the slice back gives the string, if there is memory for it.\<close>

lemma KeySlice_roundtrip:
  assumes "len \<le> 8" and "len \<le> length str"
  shows "\<exists>s. UTIL_GetNextKeySlice str len = Inr s \<and> UTIL_KeySliceToStr True s (int len) = Inr (Some (take len str)) \<and>
    UTIL_KeySliceToStr False s (int len) = (if len = 0 then Inr None else Inl NullDeref)"
  using slice_to_str_loop_bytes[of "take len str @ replicate (8 - len) 0" "replicate len 0" len] assms
  by (simp add: GetNextKeySlice_val UTIL_KeySliceToStr_def calloc_bytes_def slice_to_str_loop_NULL)

text \<open>The order of slices is the order of the strings: an index on slices is an index on keys.\<close>

lemma unat_add_byte:
  assumes "unat res < 2 ^ 56"
  shows "unat (add_byte res c) = unat res * 256 + unat c"
proof -
  have "and (push_bit 8 res) (ucast c :: 64 word) = 0"
    by (intro bit_word_eqI) (auto simp: bit_and_iff bit_push_bit_iff bit_ucast_iff dest: bit_imp_le_length)
  then have "add_byte res c = push_bit 8 res + ucast c"
    by (simp add: add_byte_or disjunctive_add_eq_or)
  moreover have "push_bit 8 res = res * 256" by (simp add: push_bit_eq_mult)
  moreover have "unat (ucast c :: 64 word) = unat c"
    using unat_byte_less[of c] by (simp add: unsigned_ucast_eq take_bit_nat_eq_self)
  ultimately have "unat (add_byte res c) = (unat res * 256 + unat c) mod 2 ^ 64"
    by (simp add: unat_word_ariths mod_add_left_eq)
  moreover have "unat res * 256 + unat c < 2 ^ 64"
    using assms unat_byte_less[of c] by simp
  ultimately show ?thesis by simp
qed

fun bytes_less :: "byte list \<Rightarrow> byte list \<Rightarrow> bool" where
  "bytes_less (x # xs) (y # ys) \<longleftrightarrow> x < y \<or> (x = y \<and> bytes_less xs ys)"
| "bytes_less [] (y # ys) \<longleftrightarrow> True"
| "bytes_less _ [] \<longleftrightarrow> False"

lemma bytes_less_snoc:
  "length xs = length ys \<Longrightarrow>
   bytes_less (xs @ [x]) (ys @ [y]) \<longleftrightarrow> bytes_less xs ys \<or> (xs = ys \<and> x < y)"
  by (induction xs ys rule: list_induct2) auto

lemma unat_bytes_val_bound: "length bs \<le> 8 \<Longrightarrow> unat (bytes_val bs) < 256 ^ length bs"
proof (induction bs rule: rev_induct)
  case (snoc b bs)
  have "unat (bytes_val bs) < 256 ^ length bs" using snoc by simp
  moreover have "256 ^ length bs \<le> (256 :: nat) ^ 7" using snoc.prems by (intro power_increasing) simp_all
  ultimately have "unat (bytes_val bs) < 2 ^ 56" by simp
  then have "unat (bytes_val (bs @ [b])) = unat (bytes_val bs) * 256 + unat b"
    unfolding bytes_val_append1 by (rule unat_add_byte)
  moreover have "unat b < 256" by (rule unat_byte_less)
  moreover have "(unat (bytes_val bs) + 1) * 256 \<le> 256 ^ length bs * 256"
    using \<open>unat (bytes_val bs) < 256 ^ length bs\<close> by (intro mult_le_mono1) simp
  ultimately show ?case by simp
qed (simp add: bytes_val_def)

lemma bytes_val_less:
  "length bs = length cs \<Longrightarrow> length cs \<le> 8 \<Longrightarrow> bytes_val bs < bytes_val cs \<longleftrightarrow> bytes_less bs cs"
proof (induction bs arbitrary: cs rule: rev_induct)
  case (snoc b bs)
  then obtain c cs' where cs: "cs = cs' @ [c]" "length bs = length cs'"
    by (metis append_butlast_last_id length_append_singleton length_butlast diff_Suc_1 list.size(3) nat.distinct(1))
  have len: "length cs' < 8" "length bs < 8" using snoc.prems cs by simp_all
  have small: "unat (bytes_val xs) < 2 ^ 56" if "length xs < 8" for xs
  proof -
    have "unat (bytes_val xs) < 256 ^ length xs" using that by (intro unat_bytes_val_bound) simp
    also have "256 ^ length xs \<le> (256 :: nat) ^ 7" using that by (intro power_increasing) simp_all
    finally show ?thesis by simp
  qed
  have v: "unat (bytes_val (xs @ [x])) = unat (bytes_val xs) * 256 + unat x" if "length xs < 8" for xs x
    unfolding bytes_val_append1 by (rule unat_add_byte[OF small[OF that]])
  have b: "unat b < 256" "unat c < 256" by (rule unat_byte_less)+
  have IH: "bytes_val bs < bytes_val cs' \<longleftrightarrow> bytes_less bs cs'"
    using cs(2) len(1) by (intro snoc.IH) simp_all
  have inj: "bytes_val bs = bytes_val cs' \<longleftrightarrow> bs = cs'"
  proof
    assume eq: "bytes_val bs = bytes_val cs'"
    have A: "ul_to_str_loop (Some (replicate 9 0)) (length bs) (bytes_val bs) = Inr (Some (bs @ drop (length bs) (replicate 9 0)))"
      by (rule ul_to_str_loop_bytes) (use len in simp_all)
    have B: "ul_to_str_loop (Some (replicate 9 0)) (length cs') (bytes_val cs') = Inr (Some (cs' @ drop (length cs') (replicate 9 0)))"
      by (rule ul_to_str_loop_bytes) (use len in simp_all)
    from trans[OF A[unfolded eq cs(2), symmetric] B] show "bs = cs'" by (simp only: sum.inject option.inject append_same_eq)
  qed simp
  have "bytes_val (bs @ [b]) < bytes_val cs \<longleftrightarrow>
      unat (bytes_val bs) * 256 + unat b < unat (bytes_val cs') * 256 + unat c"
    unfolding cs(1) word_less_nat_alt v[OF len(1)] v[OF len(2)] ..
  also have "\<dots> \<longleftrightarrow> unat (bytes_val bs) < unat (bytes_val cs') \<or>
      (unat (bytes_val bs) = unat (bytes_val cs') \<and> unat b < unat c)"
    using b by linarith
  also have "\<dots> \<longleftrightarrow> bytes_less bs cs' \<or> (bs = cs' \<and> b < c)"
    using IH inj[unfolded word_unat_eq_iff] by (simp add: word_less_nat_alt)
  finally show ?case using bytes_less_snoc[OF cs(2)] cs(1) by simp
qed simp

section \<open>String comparison\<close>

lemma str_equal_loop_correct:
  "i + n \<le> length a \<Longrightarrow> i + n \<le> length b \<Longrightarrow>
   str_equal_loop a b i n = Inr (take n (drop i a) = take n (drop i b))"
  by (induction n arbitrary: i) (simp_all add: Cons_nth_drop_Suc[symmetric])

lemma StrEqual_correct:
  "lenA \<le> length a \<Longrightarrow> lenB \<le> length b \<Longrightarrow>
   UTIL_StrEqual a lenA b lenB = Inr (take lenA a = take lenB b)"
  using str_equal_loop_correct[of 0 lenA a b]
  by (auto simp: UTIL_StrEqual_def dest: arg_cong[where f = length])

section \<open>The shuffle permutes\<close>

lemma shuffle_loop_perm:
  "i + length rs \<le> length arr \<Longrightarrow> \<exists>arr'. shuffle_loop arr i rs = Inr arr' \<and> mset arr' = mset arr"
proof (induction rs arbitrary: arr i)
  case (Cons r rs)
  define j where "j = nat ((if r < 0 then r * - 1 else r) mod (int i + 1))"
  have j: "(if r < 0 then r * - 1 else r) mod (int i + 1) = int j" "j \<le> i"
  proof -
    define q where "q = (if r < 0 then r * - 1 else r)"
    have "0 \<le> q mod (int i + 1)" "q mod (int i + 1) < int i + 1"
      by (rule pos_mod_sign pos_mod_bound, simp)+
    then have "int (nat (q mod (int i + 1))) = q mod (int i + 1)" "nat (q mod (int i + 1)) \<le> i"
      by linarith+
    then show "(if r < 0 then r * - 1 else r) mod (int i + 1) = int j" "j \<le> i"
      unfolding j_def q_def[symmetric] by (simp only:)+
  qed
  have i: "i < length arr" "j < length arr" using Cons.prems j by simp_all
  let ?arr = "arr[i := arr ! j, j := arr ! i]"
  have "shuffle_loop arr i (r # rs) = shuffle_loop ?arr (Suc i) rs"
    using i j by (simp add: Let_def del: if_split)
  moreover have "mset ?arr = mset arr" using i by (rule mset_swap[of j arr i, simplified, rotated])
  ultimately show ?case using Cons.IH[of "Suc i" ?arr] Cons.prems by simp
qed simp

lemma UTIL_Shuffle_perm:
  "len \<le> length arr \<Longrightarrow> \<exists>arr'. UTIL_Shuffle arr len rand = Inr arr' \<and> mset arr' = mset arr"
  using shuffle_loop_perm[of 0 "map rand [0..<len]" arr] by (simp add: UTIL_Shuffle_def)

end
