(* ===== verification/Kv_Data.thy ===== *)
theory Kv_Data
  imports Kv_Util
begin

text \<open>
  The small data structures of the trie: permutations packed into a \<open>long\<close>
  (\<open>permuter.c\<close>), the string bag (\<open>stringbag.c\<close>), keys (\<open>kvstore.c\<close>) and border nodes
  (\<open>bordernode.c\<close>).
\<close>

section \<open>\<open>permuter.c\<close>\<close>

unbundle bit_operations_syntax

definition Permuter_size :: "64 word \<Rightarrow> 64 word" where
  "Permuter_size permutation = permutation AND 15"

definition Permuter_setSize :: "64 word \<Rightarrow> 64 word \<Rightarrow> 64 word" where
  "Permuter_setSize permutation sz = (permutation AND NOT 15) OR (sz AND 15)"

text \<open>The right shift of a \<open>long\<close> is arithmetic.\<close>

definition Permuter_get :: "64 word \<Rightarrow> nat \<Rightarrow> 64 word" where
  "Permuter_get permutation i = signed_drop_bit (i * 4 + 4) permutation AND 15"

text \<open>
  \<open>15 << (i * 4 + 4)\<close> is computed in \<open>int\<close>; it is defined while the result is at most
  \<open>INT_MAX\<close>.
\<close>

definition Permuter_set :: "64 word \<Rightarrow> nat \<Rightarrow> 64 word \<Rightarrow> 64 word result" where
  "Permuter_set permutation i val =
     rbind (check (15 * 2 ^ (i * 4 + 4) \<le> INT_MAX) IntOverflow) (\<lambda>_.
       let permutation1 = permutation AND NOT (push_bit (i * 4 + 4) 15) in
       Inr (permutation1 OR push_bit (i * 4 + 4) (val AND 15)))"

lemma bit_15: "bit (15 :: int) n \<longleftrightarrow> n < 4"
proof -
  have e: "(15 :: int) = mask 4" by (simp add: mask_eq_exp_minus_1)
  show ?thesis unfolding e bit_mask_iff by auto
qed

lemma bit_not_15: "bit (- 16 :: int) n \<longleftrightarrow> 4 \<le> n"
proof -
  have e: "(- 16 :: int) = NOT 15" by simp
  show ?thesis unfolding e bit_not_iff bit_15 by auto
qed

lemma bit_get:
  assumes "i \<le> 14" and "n < 64"
  shows "bit (Permuter_get p i) n \<longleftrightarrow> n < 4 \<and> bit p (i * 4 + 4 + n)"
proof (cases "n < 4")
  case True
  then have "\<not> 64 - (i * 4 + 4) \<le> n" using assms by linarith
  then show ?thesis using True
    by (simp add: Permuter_get_def bit_and_iff bit_15 bit_signed_drop_bit_iff del: One_nat_def)
qed (simp add: Permuter_get_def bit_and_iff bit_15)

lemma permuter_range: "15 * 2 ^ (i * 4 + 4) \<le> INT_MAX \<longleftrightarrow> i \<le> 5"
proof
  assume a: "15 * 2 ^ (i * 4 + 4) \<le> INT_MAX"
  show "i \<le> 5"
  proof (rule ccontr)
    assume "\<not> i \<le> 5"
    then have "(2 :: int) ^ 28 \<le> 2 ^ (i * 4 + 4)" by (intro power_increasing) simp_all
    then show False using a by simp
  qed
next
  assume "i \<le> 5"
  then have "(2 :: int) ^ (i * 4 + 4) \<le> 2 ^ 24" by (intro power_increasing) simp_all
  then show "15 * 2 ^ (i * 4 + 4) \<le> INT_MAX" by simp
qed

lemma Permuter_set_get:
  assumes "i \<le> 5" and "j \<le> 14"
  shows "\<exists>p'. Permuter_set p i v = Inr p' \<and>
    Permuter_get p' j = (if j = i then v AND 15 else Permuter_get p j) \<and>
    Permuter_size p' = Permuter_size p"
proof -
  let ?p' = "(p AND NOT (push_bit (i * 4 + 4) 15)) OR push_bit (i * 4 + 4) (v AND 15)"
  have bit: "bit ?p' n \<longleftrightarrow> (if i * 4 + 4 \<le> n \<and> n < i * 4 + 8 then bit v (n - (i * 4 + 4)) else bit p n)"
    if "n < 64" for n
    using that by (auto simp: bit_and_iff bit_or_iff bit_not_iff bit_push_bit_iff bit_15 bit_not_15)
  have "Permuter_set p i v = Inr ?p'"
    using assms(1) by (simp add: Permuter_set_def permuter_range del: INT_MAX_def)
  moreover have "Permuter_get ?p' j = (if j = i then v AND 15 else Permuter_get p j)"
  proof (intro bit_word_eqI)
    fix n assume n: "n < LENGTH(64)"
    then show "bit (Permuter_get ?p' j) n = bit (if j = i then v AND 15 else Permuter_get p j) n"
      using assms bit[of "j * 4 + 4 + n"]
      by (cases "n < 4") (auto simp: bit_get bit_and_iff bit_15)
  qed
  moreover have "Permuter_size ?p' = Permuter_size p"
  proof (intro bit_word_eqI)
    fix n assume n: "n < LENGTH(64)"
    then show "bit (Permuter_size ?p') n = bit (Permuter_size p) n"
      using bit[of n] by (cases "n < 4") (simp_all add: Permuter_size_def bit_and_iff bit_15)
  qed
  ultimately show ?thesis by blast
qed

lemma Permuter_set_overflow: "6 \<le> i \<Longrightarrow> Permuter_set p i v = Inl IntOverflow"
  by (simp add: Permuter_set_def permuter_range del: INT_MAX_def)

lemma Permuter_setSize_get:
  assumes "j \<le> 14"
  shows "Permuter_size (Permuter_setSize p n) = n AND 15"
    "Permuter_get (Permuter_setSize p n) j = Permuter_get p j"
proof -
  have bit: "bit (Permuter_setSize p n) k \<longleftrightarrow> (if k < 4 then bit n k else bit p k)" if "k < 64" for k
    using that by (auto simp: Permuter_setSize_def bit_and_iff bit_or_iff bit_15 bit_not_15)
  show "Permuter_size (Permuter_setSize p n) = n AND 15"
    by (intro bit_word_eqI) (auto simp: Permuter_size_def bit_and_iff bit_15 bit)
  show "Permuter_get (Permuter_setSize p n) j = Permuter_get p j"
  proof (intro bit_word_eqI)
    fix k assume "k < LENGTH(64)"
    then show "bit (Permuter_get (Permuter_setSize p n) j) k = bit (Permuter_get p j) k"
      using assms bit[of "j * 4 + 4 + k"] by (cases "k < 4") (auto simp: bit_get)
  qed
qed

section \<open>\<open>stringbag.c\<close>\<close>

text \<open>
  A bag of \<open>width\<close> strings lives in \<open>capacity\<close> bytes; the header (32 bytes and 16 for each
  string after the first) comes first. The union lets \<open>strBuf\<close> start at the header, so
  positions count from there.
\<close>

record stringbag =
  sb_size :: nat
  sb_capacity :: nat
  sb_info :: "(nat \<times> nat) list"
  sb_buf :: "byte list"

definition SB_Overhead :: "nat \<Rightarrow> nat result" where
  "SB_Overhead width = rbind (check (0 < width) AssertFail) (\<lambda>_. Inr (32 + (width - 1) * 16))"

definition SB_SafeSize :: "nat \<Rightarrow> nat \<Rightarrow> nat result" where
  "SB_SafeSize width len =
     rbind (check (0 < width) AssertFail) (\<lambda>_. rbind (SB_Overhead width) (\<lambda>o1. Inr (o1 + len)))"

text \<open>\<open>mem\<close> is the memory the bag is made in; \<open>None\<close> is NULL.\<close>

definition SB_NewStringBag :: "byte list option \<Rightarrow> nat \<Rightarrow> nat \<Rightarrow> stringbag result" where
  "SB_NewStringBag mem width capacity =
     rbind (SB_Overhead width) (\<lambda>firstPos.
       case mem of
         None \<Rightarrow> Inl AssertFail
       | Some buf \<Rightarrow>
           rbind (check (0 < width) AssertFail) (\<lambda>_.
           rbind (check (firstPos \<le> capacity \<and> capacity \<le> 2 ^ 64 - 1) AssertFail) (\<lambda>_.
           rbind (check (firstPos \<le> length buf) OutOfBounds) (\<lambda>_.
           Inr \<lparr>sb_size = firstPos, sb_capacity = capacity, sb_info = replicate width (0, 0),
                sb_buf = buf\<rparr>))))"

definition SB_Capacity :: "stringbag option \<Rightarrow> nat result" where
  "SB_Capacity strBag = (case strBag of None \<Rightarrow> Inl AssertFail | Some b \<Rightarrow> Inr (sb_capacity b))"

definition SB_UsedCapacity :: "stringbag option \<Rightarrow> nat result" where
  "SB_UsedCapacity strBag = (case strBag of None \<Rightarrow> Inl AssertFail | Some b \<Rightarrow> Inr (sb_size b))"

text \<open>The pointer and the length that \<open>SB_Get\<close> returns, as the bytes they denote.\<close>

definition SB_Get :: "stringbag \<Rightarrow> nat \<Rightarrow> byte list result" where
  "SB_Get b p = rbind (aget (sb_info b) (int p)) (\<lambda>(pos, len). Inr (take len (drop pos (sb_buf b))))"

definition write_bytes :: "byte list \<Rightarrow> nat \<Rightarrow> byte list \<Rightarrow> byte list result" where
  "write_bytes buf pos s =
     (if pos + length s \<le> length buf
      then Inr (take pos buf @ s @ drop (pos + length s) buf) else Inl OutOfBounds)"

definition SB_Assign :: "stringbag \<Rightarrow> nat \<Rightarrow> byte list \<Rightarrow> nat \<Rightarrow> (bool \<times> stringbag) result" where
  "SB_Assign b p s len =
     rbind (check (len \<le> length s) OutOfBounds) (\<lambda>_.
     rbind (aget (sb_info b) (int p)) (\<lambda>(pos0, oldLen).
       if len \<le> oldLen then
         rbind (write_bytes (sb_buf b) pos0 (take len s)) (\<lambda>buf.
         rbind (aset (sb_info b) (int p) (pos0, len)) (\<lambda>info.
           Inr (True, b\<lparr>sb_info := info, sb_buf := buf\<rparr>)))
       else if sb_size b + len \<le> sb_capacity b then
         rbind (write_bytes (sb_buf b) (sb_size b) (take len s)) (\<lambda>buf.
         rbind (aset (sb_info b) (int p) (sb_size b, len)) (\<lambda>info.
           Inr (True, b\<lparr>sb_size := sb_size b + len, sb_info := info, sb_buf := buf\<rparr>)))
       else Inr (False, b)))"

text \<open>
  The strings of a bag lie behind the header, inside the used part, and apart from each other;
  an empty one has no place.
\<close>

definition sb_header :: "stringbag \<Rightarrow> nat" where
  "sb_header b = 32 + (length (sb_info b) - 1) * 16"


definition apart :: "nat \<times> nat \<Rightarrow> nat \<times> nat \<Rightarrow> bool" where
  "apart x y \<longleftrightarrow>
     snd x = 0 \<or> snd y = 0 \<or> fst x + snd x \<le> fst y \<or> fst y + snd y \<le> fst x"

definition sb_ok :: "stringbag \<Rightarrow> bool" where
  "sb_ok b \<longleftrightarrow>
     sb_header b \<le> sb_size b \<and> sb_size b \<le> sb_capacity b \<and> sb_capacity b \<le> length (sb_buf b) \<and>
     (\<forall>i < length (sb_info b). snd (sb_info b ! i) \<noteq> 0 \<longrightarrow> sb_header b \<le> fst (sb_info b ! i)) \<and>
     (\<forall>i < length (sb_info b). fst (sb_info b ! i) + snd (sb_info b ! i) \<le> sb_size b) \<and>
     (\<forall>i < length (sb_info b). \<forall>j < length (sb_info b). i \<noteq> j \<longrightarrow>
        apart (sb_info b ! i) (sb_info b ! j))"

lemma sb_okD:
  assumes "sb_ok b"
  shows "sb_size b \<le> sb_capacity b" "sb_capacity b \<le> length (sb_buf b)"
    "sb_header b \<le> sb_size b"
    "i < length (sb_info b) \<Longrightarrow> fst (sb_info b ! i) + snd (sb_info b ! i) \<le> sb_size b"
    "i < length (sb_info b) \<Longrightarrow> j < length (sb_info b) \<Longrightarrow> i \<noteq> j \<Longrightarrow>
      apart (sb_info b ! i) (sb_info b ! j)"
    "i < length (sb_info b) \<Longrightarrow> snd (sb_info b ! i) \<noteq> 0 \<Longrightarrow> sb_header b \<le> fst (sb_info b ! i)"
  using assms unfolding sb_ok_def by blast+

lemma SB_New_ok:
  assumes "0 < width" and "32 + (width - 1) * 16 \<le> capacity" and "capacity \<le> 2 ^ 64 - 1"
    and "length buf = capacity"
  shows "\<exists>b. SB_NewStringBag (Some buf) width capacity = Inr b \<and> sb_ok b \<and>
    (\<forall>p < width. SB_Get b p = Inr [])"
  using assms by (auto simp: SB_NewStringBag_def SB_Overhead_def sb_ok_def sb_header_def SB_Get_def apart_def)

lemma write_bytes_read:
  assumes "write_bytes buf pos s = Inr buf'"
  shows "length buf' = length buf" "take (length s) (drop pos buf') = s"
    "n = 0 \<or> q + n \<le> pos \<or> pos + length s \<le> q \<Longrightarrow> take n (drop q buf') = take n (drop q buf)"
proof -
  have le: "pos + length s \<le> length buf" and buf': "buf' = take pos buf @ s @ drop (pos + length s) buf"
    using assms by (auto simp: write_bytes_def split: if_splits)
  then show "length buf' = length buf" "take (length s) (drop pos buf') = s" by simp_all
  assume "n = 0 \<or> q + n \<le> pos \<or> pos + length s \<le> q"
  then show "take n (drop q buf') = take n (drop q buf)"
  proof (elim disjE)
    assume "q + n \<le> pos"
    then have "take n (drop q buf') = drop q (take (q + n) buf')" by (simp add: take_drop add.commute)
    also have "take (q + n) buf' = take (q + n) buf"
      using \<open>q + n \<le> pos\<close> le buf' by (simp add: min_absorb1)
    finally show ?thesis by (simp add: take_drop add.commute)
  next
    assume "pos + length s \<le> q"
    then have "drop q buf' = drop q buf" using le buf' by simp
    then show ?thesis by simp
  qed simp
qed

text \<open>The bag after the string \<open>p\<close> was written at \<open>pos\<close>.\<close>

definition sb_put :: "stringbag \<Rightarrow> nat \<Rightarrow> nat \<Rightarrow> nat \<Rightarrow> nat \<Rightarrow> byte list \<Rightarrow> stringbag" where
  "sb_put b p pos len size' buf =
     b\<lparr>sb_size := size', sb_info := (sb_info b)[p := (pos, len)], sb_buf := buf\<rparr>"

lemma sb_put_ok:
  assumes ok: "sb_ok b" and p: "p < length (sb_info b)" and len: "len \<le> length s"
    and w: "write_bytes (sb_buf b) pos (take len s) = Inr buf"
    and sz: "sb_size b \<le> size'" "size' \<le> sb_capacity b" "pos + len \<le> size'" "len \<noteq> 0 \<longrightarrow> sb_header b \<le> pos"
    and away: "\<And>q. q < length (sb_info b) \<Longrightarrow> q \<noteq> p \<Longrightarrow> apart (pos, len) (sb_info b ! q)"
  shows "sb_ok (sb_put b p pos len size' buf)" "SB_Get (sb_put b p pos len size' buf) p = Inr (take len s)"
    "q < length (sb_info b) \<Longrightarrow> q \<noteq> p \<Longrightarrow> SB_Get (sb_put b p pos len size' buf) q = SB_Get b q"
proof -
  let ?b = "sb_put b p pos len size' buf"
  have lt: "length (take len s) = len" using len by simp
  note rd = write_bytes_read[OF w, unfolded lt] and okd = sb_okD[OF ok]
  have sym: "apart x y = apart y x" for x y by (auto simp: apart_def)
  have hd: "sb_header ?b = sb_header b" by (simp add: sb_header_def sb_put_def)
  show "sb_ok ?b"
    unfolding sb_ok_def hd
  proof (intro conjI allI impI)
    fix i assume "i < length (sb_info ?b)" "snd (sb_info ?b ! i) \<noteq> 0"
    then show "sb_header b \<le> fst (sb_info ?b ! i)"
      using okd(6)[of i] sz(4) by (cases "i = p") (simp_all add: sb_put_def)
  next
    fix i assume "i < length (sb_info ?b)"
    then show "fst (sb_info ?b ! i) + snd (sb_info ?b ! i) \<le> sb_size ?b"
      using okd(4)[of i] sz by (cases "i = p") (simp_all add: sb_put_def)
  next
    fix i j assume "i < length (sb_info ?b)" "j < length (sb_info ?b)" "i \<noteq> j"
    then show "apart (sb_info ?b ! i) (sb_info ?b ! j)"
      using okd(5)[of i j] away[of i] away[of j] p sym
      by (cases "i = p"; cases "j = p") (simp_all add: sb_put_def)
  qed (use okd(1-3) sz rd(1) in \<open>simp_all add: sb_put_def\<close>)
  show "SB_Get ?b p = Inr (take len s)"
    using p rd(2) by (simp add: SB_Get_def sb_put_def)
  assume q: "q < length (sb_info b)" "q \<noteq> p"
  obtain pq lq where pq: "sb_info b ! q = (pq, lq)" by (cases "sb_info b ! q")
  have "take lq (drop pq buf) = take lq (drop pq (sb_buf b))"
  proof (cases "len = 0")
    case True
    then have "buf = sb_buf b" using w by (auto simp: write_bytes_def split: if_splits)
    then show ?thesis by simp
  next
    case False
    then show ?thesis using away[OF q] pq by (intro rd(3)) (auto simp: apart_def)
  qed
  then show "SB_Get ?b q = SB_Get b q" using q pq by (simp add: SB_Get_def sb_put_def)
qed

lemma SB_Assign_ok:
  assumes ok: "sb_ok b" and p: "p < length (sb_info b)" and len: "len \<le> length s"
  shows "\<exists>r b'. SB_Assign b p s len = Inr (r, b') \<and> sb_ok b' \<and> length (sb_info b') = length (sb_info b) \<and>
    SB_Get b' p = (if r then Inr (take len s) else SB_Get b p) \<and>
    (\<forall>q < length (sb_info b). q \<noteq> p \<longrightarrow> SB_Get b' q = SB_Get b q) \<and>
    (\<not> r \<longrightarrow> b' = b \<and> snd (sb_info b ! p) < len \<and> sb_capacity b < sb_size b + len)"
proof -
  obtain pos0 oldLen where info: "sb_info b ! p = (pos0, oldLen)" by (cases "sb_info b ! p")
  note okd = sb_okD[OF ok]
  consider (same) "len \<le> oldLen" | (new) "oldLen < len" "sb_size b + len \<le> sb_capacity b"
    | (full) "oldLen < len" "sb_capacity b < sb_size b + len" by linarith
  then show ?thesis
  proof cases
    case same
    have le: "pos0 + len \<le> sb_size b" using okd(4)[OF p] info same by simp
    obtain buf where w: "write_bytes (sb_buf b) pos0 (take len s) = Inr buf"
      using le len okd(1,2) by (simp add: write_bytes_def)
    have away: "apart (pos0, len) (sb_info b ! q)" if "q < length (sb_info b)" "q \<noteq> p" for q
      using okd(5)[OF p that(1)] that(2) info same by (auto simp: apart_def)
    have behind: "len \<noteq> 0 \<longrightarrow> sb_header b \<le> pos0" using okd(6)[OF p] info same by auto
    note put = sb_put_ok[OF ok p len w order_refl okd(1) le behind away]
    have "SB_Assign b p s len = Inr (True, sb_put b p pos0 len (sb_size b) buf)"
      using p info same w len by (simp add: SB_Assign_def sb_put_def)
    moreover have "\<forall>q < length (sb_info b). q \<noteq> p \<longrightarrow> SB_Get (sb_put b p pos0 len (sb_size b) buf) q = SB_Get b q"
      using put(3) by blast
    moreover have "length (sb_info (sb_put b p pos0 len (sb_size b) buf)) = length (sb_info b)"
      by (simp add: sb_put_def)
    ultimately show ?thesis
      using put(1,2) by (intro exI[of _ True] exI[of _ "sb_put b p pos0 len (sb_size b) buf"]) simp
  next
    case new
    obtain buf where w: "write_bytes (sb_buf b) (sb_size b) (take len s) = Inr buf"
      using new len okd(2) by (simp add: write_bytes_def)
    have away: "apart (sb_size b, len) (sb_info b ! q)" if "q < length (sb_info b)" "q \<noteq> p" for q
      using okd(4)[OF that(1)] by (simp add: apart_def)
    note put = sb_put_ok[OF ok p len w le_add1 new(2) order_refl impI[OF okd(3)] away]
    have "SB_Assign b p s len = Inr (True, sb_put b p (sb_size b) len (sb_size b + len) buf)"
      using p info new w len by (simp add: SB_Assign_def sb_put_def)
    moreover have "\<forall>q < length (sb_info b). q \<noteq> p \<longrightarrow> SB_Get (sb_put b p (sb_size b) len (sb_size b + len) buf) q = SB_Get b q"
      using put(3) by blast
    moreover have "length (sb_info (sb_put b p (sb_size b) len (sb_size b + len) buf)) = length (sb_info b)"
      by (simp add: sb_put_def)
    ultimately show ?thesis
      using put(1,2) by (intro exI[of _ True] exI[of _ "sb_put b p (sb_size b) len (sb_size b + len) buf"]) simp
  next
    case full
    then have "SB_Assign b p s len = Inr (False, b)"
      using p info len by (simp add: SB_Assign_def)
    then show ?thesis using ok info full by (intro exI[of _ False]) simp
  qed
qed

end
