(* ===== verification/Kv_Store.thy ===== *)
theory Kv_Store
  imports Kv_Data Relation_Api
begin

text \<open>
  The key-value store (\<open>kvstore.c\<close>, \<open>bordernode.c\<close>): a trie whose nodes are B+-trees over
  8-byte slices of the keys. The records of these trees are pointers to border nodes. A border
  node holds the values of the keys that end within the slice (\<open>prefixLinks\<close>), and either
  one key suffix with its value or a link to the trie node of the next slice. The state \<open>kv\<close>
  has one heap for trie nodes and one for border nodes; \<open>kmem\<close> is the number of allocations
  that still succeed, shared with the B+-trees.
\<close>

section \<open>Keys\<close>

text \<open>The string of a key is what its pointer reaches; \<open>None\<close> is NULL.\<close>

record kvkey =
  kstr :: "byte list option"
  klen :: nat

definition surely_malloc :: "nat \<Rightarrow> nat result" where
  "surely_malloc mem = (if mem = 0 then Inl ExitFailure else Inr (mem - 1))"

definition str_of :: "byte list option \<Rightarrow> byte list" where
  "str_of p = (case p of None \<Rightarrow> [] | Some bs \<Rightarrow> bs)"

fun copy_loop :: "byte list \<Rightarrow> nat \<Rightarrow> nat \<Rightarrow> byte list result" where
  "copy_loop str i 0 = Inr []"
| "copy_loop str i (Suc n) =
     rbind (aget str (int i)) (\<lambda>c. rbind (copy_loop str (Suc i) n) (\<lambda>cs. Inr (c # cs)))"

definition KV_NewKey :: "byte list option \<Rightarrow> nat \<Rightarrow> nat \<Rightarrow> (kvkey \<times> nat) result" where
  "KV_NewKey str len mem =
     rbind (if 0 < len then
              rbind (check (str \<noteq> None) AssertFail) (\<lambda>_.
              rbind (surely_malloc mem) (\<lambda>mem1.
              rbind (copy_loop (str_of str) 0 len) (\<lambda>newStr. Inr (Some newStr, mem1))))
            else Inr (None, mem)) (\<lambda>(newStr, mem1).
     rbind (surely_malloc mem1) (\<lambda>mem2. Inr (\<lparr>kstr = newStr, klen = len\<rparr>, mem2)))"

definition KV_MoveKey :: "byte list option \<Rightarrow> nat \<Rightarrow> nat \<Rightarrow> (kvkey \<times> nat) result" where
  "KV_MoveKey str len mem =
     rbind (if 0 < len then check (str \<noteq> None) AssertFail else Inr ()) (\<lambda>_.
     rbind (surely_malloc mem) (\<lambda>mem1. Inr (\<lparr>kstr = str, klen = len\<rparr>, mem1)))"

text \<open>\<open>None\<close> is a NULL key.\<close>

definition KV_GetCharArray :: "kvkey option \<Rightarrow> byte list option result" where
  "KV_GetCharArray key = (case key of None \<Rightarrow> Inl AssertFail | Some k \<Rightarrow> Inr (kstr k))"

definition KV_GetCharArraySize :: "kvkey option \<Rightarrow> nat result" where
  "KV_GetCharArraySize key = (case key of None \<Rightarrow> Inl AssertFail | Some k \<Rightarrow> Inr (klen k))"

definition KV_KeyEqual :: "kvkey \<Rightarrow> kvkey \<Rightarrow> bool result" where
  "KV_KeyEqual key1 key2 = UTIL_StrEqual (str_of (kstr key1)) (klen key1) (str_of (kstr key2)) (klen key2)"

section \<open>Border nodes\<close>

record bordernode =
  prefixLinks :: "addr list"
  suffixLink :: addr
  keySuffix :: "byte list option"
  keySuffixLength :: nat

definition MAX_BN_SIZE :: int where [simp]: "MAX_BN_SIZE = 8"

definition BN_NewBorderNode :: "nat \<Rightarrow> (bordernode \<times> nat) result" where
  "BN_NewBorderNode mem =
     rbind (surely_malloc mem) (\<lambda>mem1.
       Inr (\<lparr>prefixLinks = replicate (nat MAX_BN_SIZE) NULL, suffixLink = NULL, keySuffix = None,
             keySuffixLength = 0\<rparr>, mem1))"

definition BN_SetPrefixValue :: "bordernode \<Rightarrow> int \<Rightarrow> addr \<Rightarrow> bordernode result" where
  "BN_SetPrefixValue bn i val =
     rbind (check (0 < i) AssertFail) (\<lambda>_. rbind (check (i \<le> MAX_BN_SIZE) AssertFail) (\<lambda>_.
       rbind (aset (prefixLinks bn) (i - 1) val) (\<lambda>ls. Inr (bn\<lparr>prefixLinks := ls\<rparr>))))"

definition BN_GetPrefixValue :: "bordernode \<Rightarrow> int \<Rightarrow> addr result" where
  "BN_GetPrefixValue bn i =
     rbind (check (0 < i) AssertFail) (\<lambda>_. rbind (check (i \<le> MAX_BN_SIZE) AssertFail) (\<lambda>_.
       aget (prefixLinks bn) (i - 1)))"

definition BN_SetSuffixValue :: "bordernode \<Rightarrow> byte list \<Rightarrow> nat \<Rightarrow> addr \<Rightarrow> nat \<Rightarrow> (bordernode \<times> nat) result" where
  "BN_SetSuffixValue bn suffix len val mem =
     rbind (surely_malloc mem) (\<lambda>mem1. rbind (copy_loop suffix 0 len) (\<lambda>s.
       Inr (bn\<lparr>suffixLink := val, keySuffix := Some s, keySuffixLength := len\<rparr>, mem1)))"

text \<open>The subtraction of lengths is one of \<open>size_t\<close>.\<close>

definition size_minus :: "nat \<Rightarrow> nat \<Rightarrow> nat" where
  "size_minus a b = (if b \<le> a then a - b else a + 2 ^ 64 - b)"

definition BN_TestSuffix :: "bordernode \<Rightarrow> kvkey option \<Rightarrow> bool result" where
  "BN_TestSuffix bn key =
     (case keySuffix bn of
        None \<Rightarrow> Inr False
      | Some suf \<Rightarrow>
          rbind (KV_GetCharArray key) (\<lambda>str. rbind (KV_GetCharArraySize key) (\<lambda>len.
            UTIL_StrEqual (drop keyslice_length (str_of str)) (size_minus len keyslice_length)
              suf (keySuffixLength bn))))"

definition BN_GetSuffixValue :: "bordernode \<Rightarrow> byte list \<Rightarrow> nat \<Rightarrow> addr result" where
  "BN_GetSuffixValue bn suf len =
     (case keySuffix bn of
        None \<Rightarrow> Inr NULL
      | Some s \<Rightarrow> rbind (UTIL_StrEqual suf len s (keySuffixLength bn)) (\<lambda>b.
          Inr (if b then suffixLink bn else NULL)))"

definition BN_ExportSuffixValue :: "bordernode \<Rightarrow> nat \<Rightarrow> (addr \<times> kvkey option \<times> bordernode \<times> nat) result" where
  "BN_ExportSuffixValue bn mem =
     (case keySuffix bn of
        Some s \<Rightarrow> rbind (KV_MoveKey (Some s) (keySuffixLength bn) mem) (\<lambda>(key, mem1).
          Inr (suffixLink bn, Some key,
               bn\<lparr>suffixLink := NULL, keySuffix := None, keySuffixLength := 0\<rparr>, mem1))
      | None \<Rightarrow> Inr (suffixLink bn, None, bn\<lparr>suffixLink := NULL\<rparr>, mem))"

definition BN_SetLink :: "bordernode \<Rightarrow> addr \<Rightarrow> bordernode" where
  "BN_SetLink bn val = bn\<lparr>suffixLink := val, keySuffix := None, keySuffixLength := 0\<rparr>"

definition BN_GetLink :: "bordernode \<Rightarrow> addr" where
  "BN_GetLink bn = (if keySuffix bn \<noteq> None then NULL else suffixLink bn)"

definition BN_HasSuffix :: "bordernode \<Rightarrow> bool" where
  "BN_HasSuffix bn = (keySuffix bn \<noteq> None)"

definition BN_SetValue :: "bordernode \<Rightarrow> kvkey option \<Rightarrow> addr \<Rightarrow> nat \<Rightarrow> (bordernode \<times> nat) result" where
  "BN_SetValue bn key val mem =
     rbind (KV_GetCharArraySize key) (\<lambda>len.
       if keyslice_length < len then
         rbind (KV_GetCharArray key) (\<lambda>str.
           BN_SetSuffixValue bn (drop keyslice_length (str_of str)) (len - keyslice_length) val mem)
       else rbind (BN_SetPrefixValue bn (int len) val) (\<lambda>bn1. Inr (bn1, mem)))"

section \<open>The store\<close>

record kvnode =
  kv_tree :: rl
  kv_cursor :: cursor

record kv =
  kvnodes :: "addr \<rightharpoonup> kvnode"
  bnodes :: "addr \<rightharpoonup> bordernode"
  kfresh :: addr
  kmem :: nat
  rootNode :: addr
  numKeys_kv :: nat

definition kvnode_at :: "kv \<Rightarrow> addr \<Rightarrow> kvnode result" where
  "kvnode_at s a = (if a = NULL then Inl NullDeref
                    else case kvnodes s a of None \<Rightarrow> Inl WildPtr | Some n \<Rightarrow> Inr n)"

definition bnode_at :: "kv \<Rightarrow> addr \<Rightarrow> bordernode result" where
  "bnode_at s a = (if a = NULL then Inl NullDeref
                   else case bnodes s a of None \<Rightarrow> Inl WildPtr | Some n \<Rightarrow> Inr n)"

definition set_bnode :: "kv \<Rightarrow> addr \<Rightarrow> bordernode \<Rightarrow> nat \<Rightarrow> kv" where
  "set_bnode s a bn mem = s\<lparr>bnodes := (bnodes s)(a \<mapsto> bn), kmem := mem\<rparr>"

text \<open>An operation on the tree of a trie node, through the node's cursor.\<close>

definition with_tree :: "kv \<Rightarrow> addr \<Rightarrow> (rl \<Rightarrow> cursor \<Rightarrow> ('a \<times> rl \<times> cursor) result) \<Rightarrow> ('a \<times> kv) result" where
  "with_tree s a f =
     rbind (kvnode_at s a) (\<lambda>n.
     rbind (f ((kv_tree n)\<lparr>avail := kmem s\<rparr>) (kv_cursor n)) (\<lambda>(x, t, c).
       Inr (x, s\<lparr>kvnodes := (kvnodes s)(a \<mapsto> \<lparr>kv_tree = t, kv_cursor = c\<rparr>), kmem := avail t\<rparr>)))"

definition kv_put_record :: "kv \<Rightarrow> addr \<Rightarrow> ckey \<Rightarrow> addr \<Rightarrow> kv result" where
  "kv_put_record s a k v =
     rbind (with_tree s a (\<lambda>t c. rbind (RL_PutRecord t c k v) (\<lambda>(t1, c1). Inr ((), t1, c1)))) (\<lambda>(_, s1).
       Inr s1)"

definition kv_move_to_key :: "kv \<Rightarrow> addr \<Rightarrow> ckey \<Rightarrow> (bool \<times> kv) result" where
  "kv_move_to_key s a k =
     with_tree s a (\<lambda>t c. rbind (RL_MoveToKey t c k) (\<lambda>(b, c1). Inr (b, t, c1)))"

definition kv_get_record :: "kv \<Rightarrow> addr \<Rightarrow> (addr \<times> kv) result" where
  "kv_get_record s a =
     with_tree s a (\<lambda>t c. rbind (RL_GetRecord t c) (\<lambda>(r, c1). Inr (r, t, c1)))"

definition newKVNode :: "kv \<Rightarrow> (addr \<times> kv) result" where
  "newKVNode s =
     (if kmem s = 0 then Inr (NULL, s)
      else case RL_NewRelation (kmem s - 1) of
        None \<Rightarrow> Inr (NULL, s)
      | Some tree \<Rightarrow>
          rbind (RL_NewCursor cursor_mem tree) (\<lambda>(cur, tree1).
            case cur of
              None \<Rightarrow> Inr (NULL, s\<lparr>kmem := kmem s - 2\<rparr>)
            | Some c \<Rightarrow>
                Inr (kfresh s,
                     s\<lparr>kvnodes := (kvnodes s)(kfresh s \<mapsto> \<lparr>kv_tree = tree1, kv_cursor = c\<rparr>),
                       kfresh := Suc (kfresh s), kmem := avail tree1\<rparr>)))"

definition KV_NewKVStore :: "nat \<Rightarrow> kv option result" where
  "KV_NewKVStore m =
     (if m = 0 then Inr None
      else
        let s0 = \<lparr>kvnodes = (\<lambda>_. None), bnodes = (\<lambda>_. None), kfresh = 1, kmem = m - 1,
                  rootNode = NULL, numKeys_kv = 0\<rparr> in
        rbind (newKVNode s0) (\<lambda>(root, s1).
          if root = NULL then Inr None
          else Inr (Some (s1\<lparr>rootNode := root, numKeys_kv := 0\<rparr>))))"

definition new_bnode :: "kv \<Rightarrow> (addr \<times> kv) result" where
  "new_bnode s =
     rbind (BN_NewBorderNode (kmem s)) (\<lambda>(bn, mem).
       Inr (kfresh s, s\<lparr>bnodes := (bnodes s)(kfresh s \<mapsto> bn), kfresh := Suc (kfresh s), kmem := mem\<rparr>))"

text \<open>The suffix is freed with its border node.\<close>

definition BN_FreeBorderNode :: "kv \<Rightarrow> addr \<Rightarrow> kv result" where
  "BN_FreeBorderNode s b =
     (if b = NULL then Inr s
      else rbind (bnode_at s b) (\<lambda>bn. Inr (s\<lparr>bnodes := (bnodes s)(b := None)\<rparr>)))"

definition bn_set_value :: "kv \<Rightarrow> addr \<Rightarrow> kvkey \<Rightarrow> addr \<Rightarrow> kv result" where
  "bn_set_value s b key v =
     rbind (bnode_at s b) (\<lambda>bn. rbind (BN_SetValue bn (Some key) v (kmem s)) (\<lambda>(bn1, mem).
       Inr (set_bnode s b bn1 mem)))"

definition next_slice :: "kvkey \<Rightarrow> ckey result" where
  "next_slice key = UTIL_GetNextKeySlice (str_of (kstr key)) (UTIL_Min keyslice_length (klen key))"

text \<open>\<open>key->str += KEY_SLICE_LENGTH; key->len -= KEY_SLICE_LENGTH\<close>\<close>

definition advance :: "kvkey \<Rightarrow> kvkey" where
  "advance key = \<lparr>kstr = map_option (drop keyslice_length) (kstr key), klen = klen key - keyslice_length\<rparr>"

definition incr_keys :: "kv \<Rightarrow> kv" where
  "incr_keys s = s\<lparr>numKeys_kv := Suc (numKeys_kv s)\<rparr>"

text \<open>
  One round of the loop of \<open>KV_Put\<close>. It has finished (\<open>Inl\<close>) or goes on with another node,
  key and second key (\<open>Inr\<close>). A new border node is filled and then put into the tree.
\<close>

definition put_new_border :: "kv \<Rightarrow> addr \<Rightarrow> ckey \<Rightarrow> kvkey \<Rightarrow> addr \<Rightarrow> kv result" where
  "put_new_border s node ks key v =
     rbind (new_bnode s) (\<lambda>(b, s1). rbind (bn_set_value s1 b key v) (\<lambda>s2. kv_put_record s2 node ks b))"

type_synonym put_state = "addr \<times> kvkey \<times> (kvkey \<times> addr) option"

definition put_two_keys :: "kv \<Rightarrow> addr \<Rightarrow> kvkey \<Rightarrow> addr \<Rightarrow> kvkey \<Rightarrow> addr \<Rightarrow>
    ((kv \<times> kvkey) + (kv \<times> put_state)) result" where
  "put_two_keys s curNode key value sndKey sndValue =
     rbind (next_slice key) (\<lambda>nextKeySlice. rbind (next_slice sndKey) (\<lambda>sndKeySlice.
       if nextKeySlice = sndKeySlice then
         if klen key \<le> keyslice_length \<or> klen sndKey \<le> keyslice_length then
           rbind (new_bnode s) (\<lambda>(b, s1).
           rbind (bn_set_value s1 b key value) (\<lambda>s2.
           rbind (bn_set_value s2 b key sndValue) (\<lambda>s3.
           rbind (kv_put_record s3 curNode nextKeySlice b) (\<lambda>s4.
             Inr (Inl (incr_keys s4, key))))))
         else
           rbind (newKVNode s) (\<lambda>(link, s1).
           rbind (check (link \<noteq> NULL) AssertFail) (\<lambda>_.
           rbind (new_bnode s1) (\<lambda>(b, s2).
           rbind (bnode_at s2 b) (\<lambda>bn.
           rbind (kv_put_record (set_bnode s2 b (BN_SetLink bn link) (kmem s2)) curNode nextKeySlice b) (\<lambda>s3.
             Inr (Inr (s3, link, advance key, Some (advance sndKey, sndValue))))))))
       else
         rbind (put_new_border s curNode nextKeySlice key value) (\<lambda>s1.
         rbind (put_new_border s1 curNode sndKeySlice sndKey sndValue) (\<lambda>s2.
           Inr (Inl (incr_keys s2, key))))))"

definition put_at_border :: "kv \<Rightarrow> addr \<Rightarrow> addr \<Rightarrow> kvkey \<Rightarrow> addr \<Rightarrow>
    ((kv \<times> kvkey) + (kv \<times> put_state)) result" where
  "put_at_border s curNode b key value =
     rbind (bnode_at s b) (\<lambda>bn.
       if klen key \<le> keyslice_length then
         rbind (BN_GetPrefixValue bn (int (klen key))) (\<lambda>old.
         let s1 = (if old = NULL then incr_keys s else s) in
         rbind (BN_SetPrefixValue bn (int (klen key)) value) (\<lambda>bn1.
           Inr (Inl (set_bnode s1 b bn1 (kmem s1), key))))
       else if BN_HasSuffix bn then
         rbind (BN_TestSuffix bn (Some key)) (\<lambda>same.
           if same then
             rbind (BN_SetSuffixValue bn (drop keyslice_length (str_of (kstr key)))
                      (klen key - keyslice_length) value (kmem s)) (\<lambda>(bn1, mem).
               Inr (Inl (set_bnode s b bn1 mem, key)))
           else
             rbind (BN_ExportSuffixValue bn (kmem s)) (\<lambda>(sndValue, sndKey, bn1, mem).
             rbind (newKVNode (set_bnode s b bn1 mem)) (\<lambda>(link, s2).
             rbind (bnode_at s2 b) (\<lambda>bn2.
               Inr (Inr (set_bnode s2 b (BN_SetLink bn2 link) (kmem s2), link, advance key,
                         case sndKey of None \<Rightarrow> None | Some k \<Rightarrow> Some (k, sndValue)))))))
       else if BN_GetLink bn \<noteq> NULL then
         Inr (Inr (s, BN_GetLink bn, advance key, None))
       else
         rbind (BN_SetSuffixValue bn (drop keyslice_length (str_of (kstr key)))
                  (klen key - keyslice_length) value (kmem s)) (\<lambda>(bn1, mem).
           Inr (Inl (incr_keys (set_bnode s b bn1 mem), key))))"

definition put_one_key :: "kv \<Rightarrow> addr \<Rightarrow> kvkey \<Rightarrow> addr \<Rightarrow> ((kv \<times> kvkey) + (kv \<times> put_state)) result" where
  "put_one_key s curNode key value =
     rbind (next_slice key) (\<lambda>nextKeySlice.
     rbind (kv_move_to_key s curNode nextKeySlice) (\<lambda>(btreeStatus, s1).
       if \<not> btreeStatus then
         rbind (put_new_border s1 curNode nextKeySlice key value) (\<lambda>s2.
           Inr (Inr (incr_keys s2, curNode, key, None)))
       else
         rbind (kv_get_record s1 curNode) (\<lambda>(b, s2). put_at_border s2 curNode b key value)))"

fun KV_Put_loop :: "nat \<Rightarrow> kv \<Rightarrow> addr \<Rightarrow> put_state \<Rightarrow> (kv \<times> kvkey) result" where
  "KV_Put_loop 0 s value st = Inl NoReturn"
| "KV_Put_loop (Suc fuel) s value (curNode, key, snd1) =
     rbind (case snd1 of
              Some (sndKey, sndValue) \<Rightarrow> put_two_keys s curNode key value sndKey sndValue
            | None \<Rightarrow> put_one_key s curNode key value) (\<lambda>r.
       case r of
         Inl done \<Rightarrow> Inr done
       | Inr (s1, st1) \<Rightarrow> KV_Put_loop fuel s1 value st1)"

text \<open>\<open>KV_Put\<close> also returns the caller's key, whose fields the loop changes.\<close>

definition KV_Put :: "nat \<Rightarrow> kv \<Rightarrow> kvkey \<Rightarrow> addr \<Rightarrow> (bool \<times> kv \<times> kvkey) result" where
  "KV_Put fuel s key value =
     rbind (check (kstr key \<noteq> None \<or> klen key = 0) AssertFail) (\<lambda>_.
     rbind (check (value \<noteq> NULL) AssertFail) (\<lambda>_.
     rbind (KV_Put_loop fuel s value (rootNode s, key, None)) (\<lambda>(s1, key1).
       Inr (True, s1, key1))))"

function getValueOfPartialKey :: "kv \<Rightarrow> addr \<Rightarrow> byte list \<Rightarrow> nat \<Rightarrow> (addr \<times> kv) result" where
  "getValueOfPartialKey s node partialKey len =
     rbind (UTIL_GetNextKeySlice partialKey (UTIL_Min keyslice_length len)) (\<lambda>keySlice.
     rbind (kv_move_to_key s node keySlice) (\<lambda>(btreeStatus, s1).
       if \<not> btreeStatus then Inr (NULL, s1)
       else
         rbind (kv_get_record s1 node) (\<lambda>(b, s2).
         rbind (bnode_at s2 b) (\<lambda>bn.
           if len \<le> keyslice_length then
             rbind (BN_GetPrefixValue bn (int len)) (\<lambda>v. Inr (v, s2))
           else if BN_HasSuffix bn then
             rbind (BN_GetSuffixValue bn (drop keyslice_length partialKey) (len - keyslice_length)) (\<lambda>v.
               Inr (v, s2))
           else if BN_GetLink bn \<noteq> NULL then
             getValueOfPartialKey s2 (BN_GetLink bn) (drop keyslice_length partialKey)
               (len - keyslice_length)
           else Inr (NULL, s2)))))"
  by pat_completeness auto
termination
  by (relation "measure (\<lambda>(s, node, partialKey, len). len)") auto

declare getValueOfPartialKey.simps [simp del]

definition KV_Get :: "kv \<Rightarrow> kvkey \<Rightarrow> (addr \<times> kv) result" where
  "KV_Get s key = getValueOfPartialKey s (rootNode s) (str_of (kstr key)) (klen key)"

definition KV_NumKeys :: "kv \<Rightarrow> nat" where
  "KV_NumKeys s = numKeys_kv s"

definition kvkey_of :: "byte list \<Rightarrow> kvkey" where
  "kvkey_of bs = \<lparr>kstr = Some bs, klen = length bs\<rparr>"

end
