(* ===== verification/Tuple_Index.thy ===== *)
theory Tuple_Index
  imports Prelude
begin

text \<open>
  The indexes of \<open>src/tuplekey\<close>: hash tables on integers (\<open>inthash.c\<close>), association lists on
  strings (\<open>stringlist.c\<close>), and the schemas that dispatch to them or combine two of them into
  an index on pairs (\<open>index.c\<close>, \<open>inthash_schema.c\<close>, \<open>stringlist_schema.c\<close>,
  \<open>tuple_schema.c\<close>). Each table is an object of the heap \<open>objs\<close>; the linked cells that only
  their table reaches are a list. Values are pointers the tables never follow, and so are the
  indexes that a pair index stores in its first component. \<open>omem\<close> is the number of calls of
  \<open>malloc\<close> that still succeed.
\<close>

section \<open>The heap of tables\<close>

text \<open>
  A key is a \<open>void *\<close>: an integer, a pointer to a string or a pointer to a \<open>struct keypair\<close>. Nothing
  in the pointer says which. \<open>kaddr\<close> gives the address of a string or a pair that is used as a key;
  it can be anything, and no operation changes it. \<open>key_word\<close> is the key itself, as a machine word.
\<close>

datatype key = KInt "64 word" | KStr string | KPair key key

record icell =
  ic_key :: "64 word"
  ic_value :: addr

record scell =
  sc_key :: string
  sc_value :: addr

datatype obj = IntHash "icell list list" | StringList "scell list"

record theap =
  objs :: "addr \<rightharpoonup> obj"
  ofresh :: addr
  omem :: nat
  kaddr :: "key \<Rightarrow> 64 word"

definition key_word :: "theap \<Rightarrow> key \<Rightarrow> 64 word" where
  "key_word h k = (case k of KInt n \<Rightarrow> n | _ \<Rightarrow> kaddr h k)"

lemma key_word_KInt [simp]: "key_word h (KInt n) = n"
  by (simp add: key_word_def)

text \<open>What following a key does that does not point to what the code expects.\<close>

definition bad_key :: "key \<Rightarrow> cerror" where
  "bad_key k = (if k = KInt 0 then NullDeref else WildPtr)"

definition malloc_cell :: "theap \<Rightarrow> theap result" where
  "malloc_cell h = (if omem h = 0 then Inl ExitFailure else Inr (h\<lparr>omem := omem h - 1\<rparr>))"

definition malloc_obj :: "theap \<Rightarrow> obj \<Rightarrow> (addr \<times> theap) result" where
  "malloc_obj h ob = rbind (malloc_cell h) (\<lambda>h1.
     Inr (ofresh h1, h1\<lparr>objs := (objs h1)(ofresh h1 \<mapsto> ob), ofresh := Suc (ofresh h1)\<rparr>))"

definition set_obj :: "theap \<Rightarrow> addr \<Rightarrow> obj \<Rightarrow> theap" where
  "set_obj h p ob = h\<lparr>objs := (objs h)(p \<mapsto> ob)\<rparr>"

text \<open>Reading a table through a pointer; a pointer to the other kind of table is a wild one.\<close>

definition buckets_at :: "theap \<Rightarrow> addr \<Rightarrow> icell list list result" where
  "buckets_at h p =
     (if p = NULL then Inl NullDeref
      else case objs h p of Some (IntHash bs) \<Rightarrow> Inr bs | _ \<Rightarrow> Inl WildPtr)"

definition cells_at :: "theap \<Rightarrow> addr \<Rightarrow> scell list result" where
  "cells_at h p =
     (if p = NULL then Inl NullDeref
      else case objs h p of Some (StringList cs) \<Rightarrow> Inr cs | _ \<Rightarrow> Inl WildPtr)"

section \<open>\<open>inthash.c\<close>\<close>

definition N_buckets :: nat where [simp]: "N_buckets = 10"

definition inthash_new :: "theap \<Rightarrow> (addr \<times> theap) result" where
  "inthash_new h = malloc_obj h (IntHash (replicate N_buckets []))"

definition new_icell :: "theap \<Rightarrow> 64 word \<Rightarrow> addr \<Rightarrow> (icell \<times> theap) result" where
  "new_icell h key val = rbind (malloc_cell h) (\<lambda>h1. Inr (\<lparr>ic_key = key, ic_value = val\<rparr>, h1))"

fun inthash_scan :: "icell list \<Rightarrow> 64 word \<Rightarrow> addr" where
  "inthash_scan [] key = NULL"
| "inthash_scan (q # qs) key = (if ic_key q = key then ic_value q else inthash_scan qs key)"

definition inthash_lookup :: "theap \<Rightarrow> addr \<Rightarrow> 64 word \<Rightarrow> addr result" where
  "inthash_lookup h p key =
     rbind (buckets_at h p) (\<lambda>bs.
     rbind (aget bs (int (unat key mod N_buckets))) (\<lambda>qs. Inr (inthash_scan qs key)))"

text \<open>\<open>inthash_insert_list\<close> returns a pointer to the cell of the key: its position in the list.\<close>

fun inthash_insert_list :: "theap \<Rightarrow> icell list \<Rightarrow> 64 word \<Rightarrow> (nat \<times> icell list \<times> theap) result" where
  "inthash_insert_list h [] key = rbind (new_icell h key NULL) (\<lambda>(p, h1). Inr (0, [p], h1))"
| "inthash_insert_list h (p # ps) key =
     (if ic_key p = key then Inr (0, p # ps, h)
      else rbind (inthash_insert_list h ps key) (\<lambda>(i, qs, h1). Inr (Suc i, p # qs, h1)))"

definition inthash_insert :: "theap \<Rightarrow> addr \<Rightarrow> 64 word \<Rightarrow> addr \<Rightarrow> (addr \<times> theap) result" where
  "inthash_insert h p key val =
     rbind (buckets_at h p) (\<lambda>bs.
     rbind (aget bs (int (unat key mod N_buckets))) (\<lambda>ps.
     rbind (inthash_insert_list h ps key) (\<lambda>(i, qs, h1).
     rbind (aget qs (int i)) (\<lambda>q.
     Inr (ic_value q,
          set_obj h1 p (IntHash (bs[unat key mod N_buckets := qs[i := q\<lparr>ic_value := val\<rparr>]])))))))"

section \<open>\<open>stringlist.c\<close>\<close>

definition stringlist_new :: "theap \<Rightarrow> (addr \<times> theap) result" where
  "stringlist_new h = malloc_obj h (StringList [])"

definition copy_string :: "theap \<Rightarrow> string \<Rightarrow> (string \<times> theap) result" where
  "copy_string h s = rbind (malloc_cell h) (\<lambda>h1. Inr (s, h1))"

definition new_scell :: "theap \<Rightarrow> string \<Rightarrow> addr \<Rightarrow> (scell \<times> theap) result" where
  "new_scell h key val =
     rbind (malloc_cell h) (\<lambda>h1. rbind (copy_string h1 key) (\<lambda>(k, h2).
       Inr (\<lparr>sc_key = k, sc_value = val\<rparr>, h2)))"

fun stringlist_insert_loop :: "theap \<Rightarrow> scell list \<Rightarrow> string \<Rightarrow> addr \<Rightarrow> (addr \<times> scell list \<times> theap) result" where
  "stringlist_insert_loop h [] key val =
     rbind (new_scell h key val) (\<lambda>(c, h1). Inr (NULL, [c], h1))"
| "stringlist_insert_loop h (q # qs) key val =
     (if sc_key q = key then Inr (sc_value q, q\<lparr>sc_value := val\<rparr> # qs, h)
      else rbind (stringlist_insert_loop h qs key val) (\<lambda>(old, rs, h1). Inr (old, q # rs, h1)))"

definition stringlist_insert :: "theap \<Rightarrow> addr \<Rightarrow> string \<Rightarrow> addr \<Rightarrow> (addr \<times> theap) result" where
  "stringlist_insert h p key val =
     rbind (cells_at h p) (\<lambda>cs.
     rbind (stringlist_insert_loop h cs key val) (\<lambda>(old, ds, h1).
       Inr (old, set_obj h1 p (StringList ds))))"

fun stringlist_scan :: "scell list \<Rightarrow> string \<Rightarrow> addr" where
  "stringlist_scan [] key = NULL"
| "stringlist_scan (q # qs) key = (if sc_key q = key then sc_value q else stringlist_scan qs key)"

definition stringlist_lookup :: "theap \<Rightarrow> addr \<Rightarrow> string \<Rightarrow> addr result" where
  "stringlist_lookup h p key = rbind (cells_at h p) (\<lambda>cs. Inr (stringlist_scan cs key))"

fun cardinality_loop :: "scell list \<Rightarrow> int \<Rightarrow> int" where
  "cardinality_loop [] n = n"
| "cardinality_loop (q # qs) n = cardinality_loop qs (n + 1)"

definition stringlist_cardinality :: "theap \<Rightarrow> addr \<Rightarrow> int result" where
  "stringlist_cardinality h p = rbind (cells_at h p) (\<lambda>cs. Inr (cardinality_loop cs 0))"

subsection \<open>Cursors\<close>

record slcursor =
  sl_list :: addr
  sl_cur :: int

fun find_key_loop :: "scell list \<Rightarrow> string \<Rightarrow> int \<Rightarrow> int" where
  "find_key_loop [] key cur = 0"
| "find_key_loop (q # qs) key cur = (if sc_key q = key then cur else find_key_loop qs key (cur + 1))"

text \<open>The result of \<open>malloc\<close> is not tested here: without memory the field is set through NULL.\<close>

definition stringlist_get_cursor :: "theap \<Rightarrow> addr \<Rightarrow> string \<Rightarrow> (slcursor \<times> theap) result" where
  "stringlist_get_cursor h p key =
     (if omem h = 0 then Inl NullDeref
      else rbind (cells_at h p) (\<lambda>cs.
        Inr (\<lparr>sl_list = p, sl_cur = find_key_loop cs key 0\<rparr>, h\<lparr>omem := omem h - 1\<rparr>)))"

text \<open>Behind the last cell, the pointer that is returned was never set.\<close>

fun get_pair_loop :: "theap \<Rightarrow> scell list \<Rightarrow> int \<Rightarrow> int \<Rightarrow> ((string \<times> addr) \<times> theap) result" where
  "get_pair_loop h [] cur position = Inl Uninit"
| "get_pair_loop h (q # qs) cur position =
     (if cur = position then
        (if omem h = 0 then Inl NullDeref
         else Inr ((sc_key q, sc_value q), h\<lparr>omem := omem h - 1\<rparr>))
      else get_pair_loop h qs cur (position + 1))"

definition stringlist_get_pair :: "theap \<Rightarrow> slcursor \<Rightarrow> ((string \<times> addr) \<times> theap) result" where
  "stringlist_get_pair h mc = rbind (cells_at h (sl_list mc)) (\<lambda>cs. get_pair_loop h cs (sl_cur mc) 0)"

definition stringlist_move_to_next :: "theap \<Rightarrow> slcursor \<Rightarrow> slcursor result" where
  "stringlist_move_to_next h mc =
     rbind (stringlist_cardinality h (sl_list mc)) (\<lambda>len.
       let cur = sl_cur mc + 1 in
       Inr (if len < cur then mc\<lparr>sl_cur := len - 1\<rparr>
            else if cur \<le> 0 then mc\<lparr>sl_cur := 0\<rparr>
            else mc\<lparr>sl_cur := cur\<rparr>))"

definition stringlist_move_to_first :: "slcursor \<Rightarrow> slcursor" where
  "stringlist_move_to_first mc = mc\<lparr>sl_cur := 0\<rparr>"

section \<open>Schemas\<close>

text \<open>A schema is its table of methods, each applied to the schema's private data.\<close>

record schema_t =
  schema_new :: "theap \<Rightarrow> (addr \<times> theap) result"
  schema_insert :: "theap \<Rightarrow> addr \<Rightarrow> key \<Rightarrow> addr \<Rightarrow> (addr \<times> theap) result"
  schema_lookup :: "theap \<Rightarrow> addr \<Rightarrow> key \<Rightarrow> addr result"

definition index_new :: "schema_t \<Rightarrow> theap \<Rightarrow> (addr \<times> theap) result" where
  "index_new sch h = schema_new sch h"

definition index_insert :: "schema_t \<Rightarrow> theap \<Rightarrow> addr \<Rightarrow> key \<Rightarrow> addr \<Rightarrow> (addr \<times> theap) result" where
  "index_insert sch h ind key val = schema_insert sch h ind key val"

definition index_lookup :: "schema_t \<Rightarrow> theap \<Rightarrow> addr \<Rightarrow> key \<Rightarrow> addr result" where
  "index_lookup sch h ind key = schema_lookup sch h ind key"

text \<open>A hash table casts every key to an integer, whatever it points to.\<close>

definition inthash_insert_method :: "theap \<Rightarrow> addr \<Rightarrow> key \<Rightarrow> addr \<Rightarrow> (addr \<times> theap) result" where
  "inthash_insert_method h ind key val = inthash_insert h ind (key_word h key) val"

definition inthash_lookup_method :: "theap \<Rightarrow> addr \<Rightarrow> key \<Rightarrow> addr result" where
  "inthash_lookup_method h ind key = inthash_lookup h ind (key_word h key)"

definition inthash_schema :: schema_t where
  "inthash_schema = \<lparr>schema_new = inthash_new, schema_insert = inthash_insert_method,
     schema_lookup = inthash_lookup_method\<rparr>"

text \<open>
  A list of strings follows the key when it compares it with the first cell, and when it copies it
  into a new cell. Without a cell, a search does not look at the key.
\<close>

definition stringlist_insert_method :: "theap \<Rightarrow> addr \<Rightarrow> key \<Rightarrow> addr \<Rightarrow> (addr \<times> theap) result" where
  "stringlist_insert_method h ind key val =
     (case key of
        KStr s \<Rightarrow> stringlist_insert h ind s val
      | _ \<Rightarrow> rbind (cells_at h ind) (\<lambda>cs.
          if cs = [] then rbind (malloc_cell h) (\<lambda>_. Inl (bad_key key)) else Inl (bad_key key)))"

definition stringlist_lookup_method :: "theap \<Rightarrow> addr \<Rightarrow> key \<Rightarrow> addr result" where
  "stringlist_lookup_method h ind key =
     (case key of
        KStr s \<Rightarrow> stringlist_lookup h ind s
      | _ \<Rightarrow> rbind (cells_at h ind) (\<lambda>cs. if cs = [] then Inr NULL else Inl (bad_key key)))"

definition stringlist_schema :: schema_t where
  "stringlist_schema = \<lparr>schema_new = stringlist_new, schema_insert = stringlist_insert_method,
     schema_lookup = stringlist_lookup_method\<rparr>"

definition tuple_new_method :: "schema_t \<Rightarrow> schema_t \<Rightarrow> theap \<Rightarrow> (addr \<times> theap) result" where
  "tuple_new_method a b h = index_new a h"

definition tuple_insert_method :: "schema_t \<Rightarrow> schema_t \<Rightarrow> theap \<Rightarrow> addr \<Rightarrow> key \<Rightarrow> addr \<Rightarrow> (addr \<times> theap) result" where
  "tuple_insert_method a b h ind key val =
     (case key of
        KPair ka kb \<Rightarrow>
          rbind (index_lookup a h ind ka) (\<lambda>bindex.
          rbind (if bindex = NULL then
                   rbind (index_new b h) (\<lambda>(bindex1, h1).
                   rbind (index_insert a h1 ind ka bindex1) (\<lambda>(_, h2). Inr (bindex1, h2)))
                 else Inr (bindex, h)) (\<lambda>(bindex1, h1).
          index_insert b h1 bindex1 kb val))
      | _ \<Rightarrow> Inl (bad_key key))"

definition tuple_lookup_method :: "schema_t \<Rightarrow> schema_t \<Rightarrow> theap \<Rightarrow> addr \<Rightarrow> key \<Rightarrow> addr result" where
  "tuple_lookup_method a b h ind key =
     (case key of
        KPair ka kb \<Rightarrow>
          rbind (index_lookup a h ind ka) (\<lambda>bindex.
          if bindex = NULL then Inr NULL else index_lookup b h bindex kb)
      | _ \<Rightarrow> Inl (bad_key key))"

text \<open>
  \<open>tuple_mtable a b\<close> is the schema with the methods above and the private data \<open>a\<close>, \<open>b\<close>.
  \<open>tuple_schema\<close> allocates the private data and then the schema, and \<open>build_keypair\<close> a pair of keys;
  none of them tests the result, so that without memory a field is set through NULL. \<open>mem\<close> is the
  number of allocations that still succeed.
\<close>

definition tuple_mtable :: "schema_t \<Rightarrow> schema_t \<Rightarrow> schema_t" where
  "tuple_mtable a b = \<lparr>schema_new = tuple_new_method a b, schema_insert = tuple_insert_method a b,
     schema_lookup = tuple_lookup_method a b\<rparr>"

definition tuple_schema :: "nat \<Rightarrow> schema_t \<Rightarrow> schema_t \<Rightarrow> (schema_t \<times> nat) result" where
  "tuple_schema mem a b =
     (if mem = 0 then Inl NullDeref
      else if mem - 1 = 0 then Inl NullDeref
      else Inr (tuple_mtable a b, mem - 1 - 1))"

definition build_keypair :: "nat \<Rightarrow> key \<Rightarrow> key \<Rightarrow> (key \<times> nat) result" where
  "build_keypair mem a b = (if mem = 0 then Inl NullDeref else Inr (KPair a b, mem - 1))"

end
