(* ===== verification/Tuple_Laws.thy ===== *)
theory Tuple_Laws
  imports Tuple_Index
begin

text \<open>
  The contract of a schema as a locale: an index represents a finite map, owns a set of heap
  objects, and an operation changes no object outside that set. The integer and string tables
  meet it, and the pair schema of two schemas that meet it meets it again.
\<close>

definition heap_ok :: "theap \<Rightarrow> bool" where
  "heap_ok h \<longleftrightarrow> 0 < ofresh h \<and> (\<forall>a \<in> dom (objs h). 0 < a \<and> a < ofresh h)"

text \<open>
  From \<open>h\<close> to \<open>h'\<close>, an operation that takes at most \<open>n\<close> calls of \<open>malloc\<close> changes the objects
  \<open>F\<close> of an index, which then owns \<open>F'\<close>: those and new ones.
\<close>

definition table_step :: "theap \<Rightarrow> addr set \<Rightarrow> theap \<Rightarrow> addr set \<Rightarrow> nat \<Rightarrow> bool" where
  "table_step h F h' F' n \<longleftrightarrow>
     heap_ok h' \<and> ofresh h \<le> ofresh h' \<and> F \<subseteq> F' \<and> F' \<subseteq> F \<union> {ofresh h ..< ofresh h'} \<and>
     (\<forall>a < ofresh h. a \<notin> F \<longrightarrow> objs h' a = objs h a) \<and> omem h \<le> omem h' + n"

lemma table_stepD:
  assumes "table_step h F h' F' n"
  shows "heap_ok h'" "ofresh h \<le> ofresh h'" "F \<subseteq> F'" "F' \<subseteq> F \<union> {ofresh h ..< ofresh h'}"
    "a < ofresh h \<Longrightarrow> a \<notin> F \<Longrightarrow> objs h' a = objs h a" "omem h \<le> omem h' + n"
  using assms by (auto simp: table_step_def)

locale index_schema =
  fixes sch :: schema_t
    and valid :: "key \<Rightarrow> bool"
    and rep :: "theap \<Rightarrow> addr \<Rightarrow> addr set \<Rightarrow> (key \<rightharpoonup> addr) \<Rightarrow> bool"
    and cost :: nat
  assumes rep_frame: "rep h p F m \<Longrightarrow> (\<And>a. a \<in> F \<Longrightarrow> objs h' a = objs h a) \<Longrightarrow> rep h' p F m"
    and rep_owns: "rep h p F m \<Longrightarrow> p \<noteq> NULL \<and> p \<in> F \<and> F \<subseteq> dom (objs h)"
    and new_law: "heap_ok h \<Longrightarrow> cost \<le> omem h \<Longrightarrow>
      \<exists>p h' F. index_new sch h = Inr (p, h') \<and> rep h' p F Map.empty \<and> table_step h {} h' F cost"
    and lookup_law: "rep h p F m \<Longrightarrow> valid k \<Longrightarrow>
      index_lookup sch h p k = Inr (case m k of None \<Rightarrow> NULL | Some v \<Rightarrow> v)"
    and insert_law: "heap_ok h \<Longrightarrow> rep h p F m \<Longrightarrow> valid k \<Longrightarrow> cost \<le> omem h \<Longrightarrow>
      \<exists>h' F'. index_insert sch h p k v = Inr (case m k of None \<Rightarrow> NULL | Some v \<Rightarrow> v, h') \<and>
        rep h' p F' (m(k \<mapsto> v)) \<and> table_step h F h' F' cost"

text \<open>A sequence of insertions.\<close>

fun insert_all :: "schema_t \<Rightarrow> theap \<Rightarrow> addr \<Rightarrow> (key \<times> addr) list \<Rightarrow> theap result" where
  "insert_all sch h ind [] = Inr h"
| "insert_all sch h ind ((k, v) # kvs) =
     rbind (index_insert sch h ind k v) (\<lambda>(old, h1). insert_all sch h1 ind kvs)"

lemma table_step_trans:
  assumes "table_step h F h' F' n" and "table_step h' F' h'' F'' n'"
  shows "table_step h F h'' F'' (n + n')"
proof -
  note d = table_stepD[OF assms(1)] and d' = table_stepD[OF assms(2)]
  have "objs h'' a = objs h a" if a: "a < ofresh h" "a \<notin> F" for a
  proof -
    have "a \<notin> F'" using d(4) a by auto
    then show ?thesis using d'(5)[of a] d(5)[of a] a d(2) by simp
  qed
  moreover have "F'' \<subseteq> F \<union> {ofresh h ..< ofresh h''}"
    using d(2,4) d'(2,4) by (auto dest!: subsetD)
  ultimately show ?thesis
    unfolding table_step_def using d d' by auto
qed

context index_schema
begin

lemma insert_all_rep:
  assumes "heap_ok h" and "rep h p F m" and "\<forall>kv \<in> set kvs. valid (fst kv)"
    and "length kvs * cost \<le> omem h"
  shows "\<exists>h' F'. insert_all sch h p kvs = Inr h' \<and> rep h' p F' (m ++ map_of (rev kvs)) \<and>
    table_step h F h' F' (length kvs * cost)"
  using assms
proof (induction kvs arbitrary: h F m)
  case Nil
  then show ?case by (auto simp: table_step_def intro!: exI[of _ F])
next
  case (Cons kv kvs)
  obtain k v where kv: "kv = (k, v)" by (cases kv)
  have k: "valid k" and mem: "cost \<le> omem h" using Cons.prems kv by auto
  obtain h1 F1 where ins: "index_insert sch h p k v = Inr (case m k of None \<Rightarrow> NULL | Some v \<Rightarrow> v, h1)"
    and rep1: "rep h1 p F1 (m(k \<mapsto> v))" and st: "table_step h F h1 F1 cost"
    using insert_law[OF Cons.prems(1,2) k mem] by blast
  have "length kvs * cost \<le> omem h1" using table_stepD(6)[OF st] Cons.prems(4) by simp
  then obtain h' F' where all: "insert_all sch h1 p kvs = Inr h'"
    and rep': "rep h' p F' (m(k \<mapsto> v) ++ map_of (rev kvs))" and st': "table_step h1 F1 h' F' (length kvs * cost)"
    using Cons.IH[OF table_stepD(1)[OF st] rep1] Cons.prems(3) by (metis list.set_intros(2))
  have "m(k \<mapsto> v) ++ map_of (rev kvs) = m ++ map_of (rev (kv # kvs))"
    by (simp add: kv map_add_upd_left fun_eq_iff map_add_def split: option.splits)
  then show ?case
    using ins all rep' table_step_trans[OF st st'] by (auto simp: kv add.commute)
qed

lemma insert_all_lookup:
  assumes "heap_ok h" and "rep h p F m" and "\<forall>kv \<in> set kvs. valid (fst kv)"
    and "length kvs * cost \<le> omem h" and "valid k"
  shows "\<exists>h'. insert_all sch h p kvs = Inr h' \<and>
    index_lookup sch h' p k = Inr (case (m ++ map_of (rev kvs)) k of None \<Rightarrow> NULL | Some v \<Rightarrow> v)"
  using insert_all_rep[OF assms(1-4)] lookup_law[OF _ assms(5)] by blast

text \<open>An index is not changed by the operations on an index that shares no object with it.\<close>

lemma rep_step_other:
  assumes "rep h p F m" and "table_step h G h' G' n" and "F \<inter> G = {}" and "heap_ok h"
  shows "rep h' p F m" "F \<inter> G' = {}"
proof -
  have lt: "a < ofresh h" if "a \<in> F" for a
    using rep_owns[OF assms(1)] assms(4) that by (auto simp: heap_ok_def)
  show "rep h' p F m"
    using assms lt by (intro rep_frame[OF assms(1)] table_stepD(5)[OF assms(2)]) auto
  show "F \<inter> G' = {}"
    using table_stepD(4)[OF assms(2)] assms(3) lt by fastforce
qed

end

section \<open>Integer tables\<close>

definition icells_map :: "icell list \<Rightarrow> 64 word \<rightharpoonup> addr" where
  "icells_map qs = map_of (map (\<lambda>q. (ic_key q, ic_value q)) qs)"

definition bucket_ok :: "nat \<Rightarrow> icell list \<Rightarrow> bool" where
  "bucket_ok i qs \<longleftrightarrow> distinct (map ic_key qs) \<and> (\<forall>q \<in> set qs. unat (ic_key q) mod N_buckets = i)"

definition valid_int :: "key \<Rightarrow> bool" where
  "valid_int k \<longleftrightarrow> (case k of KInt _ \<Rightarrow> True | _ \<Rightarrow> False)"

definition int_map :: "icell list list \<Rightarrow> key \<rightharpoonup> addr" where
  "int_map bs k = (case k of KInt n \<Rightarrow> icells_map (bs ! (unat n mod N_buckets)) n | _ \<Rightarrow> None)"

definition int_rep :: "theap \<Rightarrow> addr \<Rightarrow> addr set \<Rightarrow> (key \<rightharpoonup> addr) \<Rightarrow> bool" where
  "int_rep h p F m \<longleftrightarrow> p \<noteq> NULL \<and> F = {p} \<and> (\<exists>bs. objs h p = Some (IntHash bs) \<and>
     length bs = N_buckets \<and> (\<forall>i < N_buckets. bucket_ok i (bs ! i)) \<and> m = int_map bs)"

lemma inthash_scan_map: "inthash_scan qs k = (case icells_map qs k of None \<Rightarrow> NULL | Some v \<Rightarrow> v)"
  by (induction qs) (auto simp: icells_map_def)

lemma malloc_cell_ok: "0 < omem h \<Longrightarrow> malloc_cell h = Inr (h\<lparr>omem := omem h - 1\<rparr>)"
  by (simp add: malloc_cell_def)

lemma malloc_obj_step:
  assumes "heap_ok h" and "0 < omem h"
  shows "\<exists>h'. malloc_obj h ob = Inr (ofresh h, h') \<and> objs h' (ofresh h) = Some ob \<and>
    table_step h {} h' {ofresh h} 1"
  using assms by (auto simp: malloc_obj_def malloc_cell_ok table_step_def heap_ok_def less_Suc_eq)

lemma set_obj_step:
  assumes "heap_ok h" and "p \<in> dom (objs h)" and "objs h1 = objs h" "ofresh h1 = ofresh h" "omem h \<le> omem h1 + n"
  shows "table_step h {p} (set_obj h1 p ob) {p} n"
  using assms by (auto simp: table_step_def heap_ok_def set_obj_def)

text \<open>The list and the position of the key's cell after \<open>inthash_insert_list\<close>.\<close>

lemma insert_list_correct:
  assumes "0 < omem h"
  shows "\<exists>i qs h'. inthash_insert_list h ps key = Inr (i, qs, h') \<and> objs h' = objs h \<and>
    ofresh h' = ofresh h \<and> omem h \<le> omem h' + 1 \<and> i < length qs \<and>
    ic_value (qs ! i) = inthash_scan ps key \<and>
    icells_map (qs[i := (qs ! i)\<lparr>ic_value := v\<rparr>]) = (icells_map ps)(key \<mapsto> v) \<and>
    map ic_key (qs[i := (qs ! i)\<lparr>ic_value := v\<rparr>]) =
      (if key \<in> ic_key ` set ps then map ic_key ps else map ic_key ps @ [key])"
proof (induction ps)
  case Nil
  then show ?case using assms by (simp add: new_icell_def malloc_cell_ok icells_map_def fun_eq_iff)
next
  case (Cons p ps)
  show ?case
  proof (cases "ic_key p = key")
    case True
    then show ?thesis by (auto simp: icells_map_def)
  next
    case False
    obtain i qs h' where "inthash_insert_list h ps key = Inr (i, qs, h')" "objs h' = objs h"
      "ofresh h' = ofresh h" "omem h \<le> omem h' + 1" "i < length qs"
      "ic_value (qs ! i) = inthash_scan ps key"
      "icells_map (qs[i := (qs ! i)\<lparr>ic_value := v\<rparr>]) = (icells_map ps)(key \<mapsto> v)"
      "map ic_key (qs[i := (qs ! i)\<lparr>ic_value := v\<rparr>]) =
        (if key \<in> ic_key ` set ps then map ic_key ps else map ic_key ps @ [key])"
      using Cons.IH by blast
    then show ?thesis
      using False by (intro exI[of _ "Suc i"] exI[of _ "p # qs"] exI[of _ h'])
        (auto simp: icells_map_def fun_upd_twist)
  qed
qed

lemma bucket_ok_insert:
  assumes "bucket_ok (unat key mod N_buckets) ps"
    and "map ic_key qs = (if key \<in> ic_key ` set ps then map ic_key ps else map ic_key ps @ [key])"
  shows "bucket_ok (unat key mod N_buckets) qs"
proof -
  have "ic_key ` set qs = set (map ic_key qs)" by simp
  also have "\<dots> = insert key (ic_key ` set ps)" by (simp only: assms(2)) auto
  finally have "\<forall>k \<in> ic_key ` set qs. unat k mod N_buckets = unat key mod N_buckets"
    using assms(1) by (auto simp: bucket_ok_def)
  then show ?thesis using assms by (auto simp: bucket_ok_def)
qed

lemma inthash_insert_correct:
  assumes "heap_ok h" and "int_rep h p F m" and "0 < omem h"
  shows "\<exists>h'. inthash_insert h p n v = Inr (case m (KInt n) of None \<Rightarrow> NULL | Some v \<Rightarrow> v, h') \<and>
    int_rep h' p F (m(KInt n \<mapsto> v)) \<and> table_step h F h' F 1"
proof -
  let ?i = "unat n mod N_buckets"
  obtain bs where bs: "p \<noteq> NULL" "F = {p}" "objs h p = Some (IntHash bs)" "length bs = N_buckets"
    "\<And>i. i < N_buckets \<Longrightarrow> bucket_ok i (bs ! i)" "m = int_map bs"
    using assms(2) by (auto simp: int_rep_def)
  obtain i qs h1 where ins: "inthash_insert_list h (bs ! ?i) n = Inr (i, qs, h1)" "objs h1 = objs h"
      "ofresh h1 = ofresh h" "omem h \<le> omem h1 + 1" "i < length qs"
      "ic_value (qs ! i) = inthash_scan (bs ! ?i) n"
    and map_new: "icells_map (qs[i := (qs ! i)\<lparr>ic_value := v\<rparr>]) = (icells_map (bs ! ?i))(n \<mapsto> v)"
    and keys_new: "map ic_key (qs[i := (qs ! i)\<lparr>ic_value := v\<rparr>]) =
        (if n \<in> ic_key ` set (bs ! ?i) then map ic_key (bs ! ?i) else map ic_key (bs ! ?i) @ [n])"
    using insert_list_correct[OF assms(3), of "bs ! ?i" n v] by blast
  define qs' where "qs' = qs[i := (qs ! i)\<lparr>ic_value := v\<rparr>]"
  define h' where "h' = set_obj h1 p (IntHash (bs[?i := qs']))"
  have lt: "?i < length bs" using bs(4) by simp
  have buckets: "buckets_at h p = Inr bs" using bs by (simp add: buckets_at_def)
  have res: "inthash_insert h p n v = Inr (case m (KInt n) of None \<Rightarrow> NULL | Some v \<Rightarrow> v, h')"
    unfolding inthash_insert_def buckets rbind_Inr aget_int[OF lt] ins(1) prod.case aget_int[OF ins(5)]
    by (simp add: ins(6) inthash_scan_map bs(6) int_map_def h'_def qs'_def)
  have "bucket_ok i' (bs[?i := qs'] ! i')" if "i' < N_buckets" for i'
    using bs(5)[OF that] bucket_ok_insert[OF bs(5)[of ?i] keys_new] lt
    by (cases "i' = ?i") (auto simp: qs'_def)
  moreover have "int_map (bs[?i := qs']) = m(KInt n \<mapsto> v)"
  proof
    fix k
    show "int_map (bs[?i := qs']) k = (m(KInt n \<mapsto> v)) k"
    proof (cases k)
      case (KInt n')
      then show ?thesis
        using map_new lt by (cases "unat n' mod N_buckets = ?i") (auto simp: int_map_def bs(6) qs'_def)
    qed (simp_all add: int_map_def bs(6))
  qed
  ultimately have "int_rep h' p F (m(KInt n \<mapsto> v))"
    using bs by (simp add: int_rep_def h'_def set_obj_def)
  moreover have "table_step h F h' F 1"
    unfolding h'_def bs(2) using assms(1) bs(3) ins(2-4) by (intro set_obj_step) auto
  ultimately show ?thesis using res by blast
qed

interpretation inthash: index_schema inthash_schema valid_int int_rep 1
proof unfold_locales
  fix h p F m h'
  show "int_rep h' p F m" if "int_rep h p F m" "\<And>a. a \<in> F \<Longrightarrow> objs h' a = objs h a"
    using that by (auto simp: int_rep_def)
  show "p \<noteq> NULL \<and> p \<in> F \<and> F \<subseteq> dom (objs h)" if "int_rep h p F m"
    using that by (auto simp: int_rep_def)
  show "\<exists>p h' F. index_new inthash_schema h = Inr (p, h') \<and> int_rep h' p F Map.empty \<and> table_step h {} h' F 1"
    if ok: "heap_ok h" and mem: "1 \<le> omem h"
  proof -
    obtain h' where h': "malloc_obj h (IntHash (replicate N_buckets [])) = Inr (ofresh h, h')"
      "objs h' (ofresh h) = Some (IntHash (replicate N_buckets []))" "table_step h {} h' {ofresh h} 1"
      using malloc_obj_step[OF ok] mem by auto
    have "int_map (replicate N_buckets []) = Map.empty"
      by (auto simp: int_map_def icells_map_def split: key.split)
    then have "int_rep h' (ofresh h) {ofresh h} Map.empty"
      using ok h'(2) by (auto simp: int_rep_def heap_ok_def bucket_ok_def)
    then show ?thesis
      using h'(1,3) by (auto simp: index_new_def inthash_schema_def inthash_new_def)
  qed
  show "index_lookup inthash_schema h p k = Inr (case m k of None \<Rightarrow> NULL | Some v \<Rightarrow> v)"
    if "int_rep h p F m" "valid_int k" for k
    using that by (cases k) (auto simp: int_rep_def valid_int_def index_lookup_def inthash_schema_def
        inthash_lookup_method_def inthash_lookup_def buckets_at_def int_map_def inthash_scan_map
        simp flip: of_nat_mod)
  show "\<exists>h' F'. index_insert inthash_schema h p k v = Inr (case m k of None \<Rightarrow> NULL | Some v \<Rightarrow> v, h') \<and>
      int_rep h' p F' (m(k \<mapsto> v)) \<and> table_step h F h' F' 1"
    if ok: "heap_ok h" and rep: "int_rep h p F m" and k: "valid_int k" and mem: "1 \<le> omem h" for k v
  proof -
    obtain n where n: "k = KInt n" using k by (cases k) (auto simp: valid_int_def)
    show ?thesis
      using inthash_insert_correct[OF ok rep, of n v] mem
      by (auto simp: n index_insert_def inthash_schema_def inthash_insert_method_def)
  qed
qed

end
