(* ===== verification/Fo_Index.thy ===== *)
theory Fo_Index
  imports Tuple_Laws
begin

text \<open>
  \<open>fo_index.c\<close>: indexes over vectors of keys, described by an array of descriptors that ends with
  \<open>desc_End\<close>. A schema \<open>sch\<close> is the rest of that array from the pointer on, and a key vector the
  rest of its array. \<open>assert\<close> is the macro of \<open>tuplekey/stdlib.h\<close>, which exits.
\<close>

datatype descriptor = desc_End | desc_Int | desc_Str

fun fo_index_new :: "theap \<Rightarrow> descriptor list \<Rightarrow> (addr \<times> theap) result" where
  "fo_index_new h [] = Inl OutOfBounds"
| "fo_index_new h (desc_Int # sch) = inthash_new h"
| "fo_index_new h (desc_Str # sch) = stringlist_new h"
| "fo_index_new h (desc_End # sch) = Inl ExitFailure"

text \<open>
  Reading \<open>vk[0]\<close>. The tables are called on it as the methods of \<open>inthash_schema.c\<close> and
  \<open>stringlist_schema.c\<close> call them: cast to an integer, or as a pointer to a string.
\<close>

fun head_key :: "key list \<Rightarrow> key result" where
  "head_key [] = Inl OutOfBounds"
| "head_key (k # vk) = Inr k"

fun fo_index_insert :: "theap \<Rightarrow> descriptor list \<Rightarrow> addr \<Rightarrow> key list \<Rightarrow> addr \<Rightarrow> (addr \<times> theap) result" where
  "fo_index_insert h [] ind vk val = Inl OutOfBounds"
| "fo_index_insert h (desc_End # sch) ind vk val = Inr (ind, h)"
| "fo_index_insert h (desc_Int # sch) ind vk val =
     rbind (head_key vk) (\<lambda>k.
     rbind (inthash_lookup_method h ind k) (\<lambda>bindex.
     rbind (if bindex = NULL then
              rbind (fo_index_new h sch) (\<lambda>(bindex1, h1).
              rbind (inthash_insert_method h1 ind k bindex1) (\<lambda>(_, h2). Inr (bindex1, h2)))
            else Inr (bindex, h)) (\<lambda>(bindex1, h1).
     fo_index_insert h1 sch bindex1 (tl vk) val)))"
| "fo_index_insert h (desc_Str # sch) ind vk val =
     rbind (head_key vk) (\<lambda>k.
     rbind (stringlist_lookup_method h ind k) (\<lambda>bindex.
     rbind (if bindex = NULL then
              rbind (fo_index_new h sch) (\<lambda>(bindex1, h1).
              rbind (stringlist_insert_method h1 ind k bindex1) (\<lambda>(_, h2). Inr (bindex1, h2)))
            else Inr (bindex, h)) (\<lambda>(bindex1, h1).
     fo_index_insert h1 sch bindex1 (tl vk) val)))"

fun fo_index_lookup :: "theap \<Rightarrow> descriptor list \<Rightarrow> addr \<Rightarrow> key list \<Rightarrow> addr result" where
  "fo_index_lookup h [] ind vk = Inl OutOfBounds"
| "fo_index_lookup h (desc_End # sch) ind vk = Inr ind"
| "fo_index_lookup h (desc_Int # sch) ind vk =
     rbind (head_key vk) (\<lambda>k.
     rbind (inthash_lookup_method h ind k) (\<lambda>bindex.
       if bindex = NULL then Inr NULL else fo_index_lookup h sch bindex (tl vk)))"
| "fo_index_lookup h (desc_Str # sch) ind vk =
     rbind (head_key vk) (\<lambda>k.
     rbind (stringlist_lookup_method h ind k) (\<lambda>bindex.
       if bindex = NULL then Inr NULL else fo_index_lookup h sch bindex (tl vk)))"

section \<open>No key can be added\<close>

lemma typed_methods [simp]:
  "inthash_insert_method h ind (KInt n) v = inthash_insert h ind n v"
  "inthash_lookup_method h ind (KInt n) = inthash_lookup h ind n"
  "stringlist_insert_method h ind (KStr s) v = stringlist_insert h ind s v"
  "stringlist_lookup_method h ind (KStr s) = stringlist_lookup h ind s"
  by (simp_all add: inthash_insert_method_def inthash_lookup_method_def
      stringlist_insert_method_def stringlist_lookup_method_def)

text \<open>A key vector that fits a schema.\<close>

fun fits :: "descriptor list \<Rightarrow> key list \<Rightarrow> bool" where
  "fits [] vk = False"
| "fits (desc_End # sch) vk = True"
| "fits (desc_Int # sch) (KInt n # vk) = fits sch vk"
| "fits (desc_Str # sch) (KStr s # vk) = fits sch vk"
| "fits _ _ = False"

lemma insert_ignores_value: "fo_index_insert h sch ind vk v = fo_index_insert h sch ind vk w"
  by (induction h sch ind vk v rule: fo_index_insert.induct)
    (auto intro!: rbind_cong split: prod.splits)

text \<open>An error other than exiting comes from the tables only when the pointer is not to one.\<close>

lemma malloc_obj_cases:
  "malloc_obj h ob = Inl ExitFailure \<or>
   malloc_obj h ob = Inr (ofresh h, h\<lparr>omem := omem h - 1, objs := (objs h)(ofresh h \<mapsto> ob), ofresh := Suc (ofresh h)\<rparr>)"
  by (simp add: malloc_obj_def malloc_cell_def)

lemma insert_list_total:
  "inthash_insert_list h ps key = Inl ExitFailure \<or>
   (\<exists>i qs h'. inthash_insert_list h ps key = Inr (i, qs, h') \<and> i < length qs \<and> objs h' = objs h \<and> ofresh h' = ofresh h)"
  by (induction ps) (auto simp: new_icell_def malloc_cell_def)

lemma insert_loop_total:
  "stringlist_insert_loop h ps key v = Inl ExitFailure \<or>
   (\<exists>old qs h'. stringlist_insert_loop h ps key v = Inr (old, qs, h') \<and> objs h' = objs h \<and> ofresh h' = ofresh h)"
  by (induction ps) (auto simp: new_scell_def copy_string_def malloc_cell_def)

lemma inthash_insert_total:
  assumes "inthash_lookup h p k = Inr x" and "h1 = h \<or> objs h1 p = objs h p"
  shows "inthash_insert h1 p k v = Inl ExitFailure \<or>
    (\<exists>old h'. inthash_insert h1 p k v = Inr (old, h') \<and> ofresh h' = ofresh h1 \<and>
       (heap_ok h1 \<longrightarrow> heap_ok h') \<and> (\<forall>a. a \<noteq> p \<longrightarrow> objs h' a = objs h1 a))"
proof -
  obtain bs ps where bs: "buckets_at h p = Inr bs" "aget bs (int (unat k mod N_buckets)) = Inr ps"
    using assms(1) by (auto simp: inthash_lookup_def rbind_eq_Inr simp del: N_buckets_def)
  then have b1: "buckets_at h1 p = Inr bs" using assms(2) by (auto simp: buckets_at_def split: if_splits)
  have dom: "p \<in> dom (objs h1)"
    using b1 by (auto simp: buckets_at_def split: if_splits option.splits)
  from insert_list_total[of h1 ps k] show ?thesis
    using b1 bs(2) dom by (elim disjE exE conjE)
      (auto simp: inthash_insert_def set_obj_def heap_ok_def simp del: N_buckets_def)
qed

lemma stringlist_insert_total:
  assumes "stringlist_lookup h p k = Inr x" and "h1 = h \<or> objs h1 p = objs h p"
  shows "stringlist_insert h1 p k v = Inl ExitFailure \<or>
    (\<exists>old h'. stringlist_insert h1 p k v = Inr (old, h') \<and> ofresh h' = ofresh h1 \<and>
       (heap_ok h1 \<longrightarrow> heap_ok h') \<and> (\<forall>a. a \<noteq> p \<longrightarrow> objs h' a = objs h1 a))"
proof -
  obtain cs where cs: "cells_at h p = Inr cs"
    using assms(1) by (auto simp: stringlist_lookup_def rbind_eq_Inr)
  then have c1: "cells_at h1 p = Inr cs" using assms(2) by (auto simp: cells_at_def split: if_splits)
  have dom: "p \<in> dom (objs h1)"
    using c1 by (auto simp: cells_at_def split: if_splits option.splits)
  from insert_loop_total[of h1 cs k v] show ?thesis
    using c1 dom by (elim disjE exE conjE) (auto simp: stringlist_insert_def set_obj_def heap_ok_def)
qed

text \<open>A new table for the schema \<open>sch\<close> is empty.\<close>

definition empty_table :: "theap \<Rightarrow> descriptor list \<Rightarrow> addr \<Rightarrow> bool" where
  "empty_table h sch p \<longleftrightarrow> p \<noteq> NULL \<and> p < ofresh h \<and>
     (case sch of desc_Int # _ \<Rightarrow> objs h p = Some (IntHash (replicate N_buckets []))
      | desc_Str # _ \<Rightarrow> objs h p = Some (StringList []) | _ \<Rightarrow> False)"

lemma fo_index_new_cases:
  assumes "heap_ok h" and "sch \<noteq> []"
  obtains "fo_index_new h sch = Inl ExitFailure"
  | p h' where "fo_index_new h sch = Inr (p, h')" "empty_table h' sch p" "heap_ok h'" "p \<notin> dom (objs h)"
      "\<forall>a \<in> dom (objs h). objs h' a = objs h a"
proof -
  let ?h = "\<lambda>ob. h\<lparr>omem := omem h - 1, objs := (objs h)(ofresh h \<mapsto> ob), ofresh := Suc (ofresh h)\<rparr>"
  have new: "ofresh h \<notin> dom (objs h)" "0 < ofresh h" using assms(1) by (auto simp: heap_ok_def)
  obtain d sch' where sch: "sch = d # sch'" using assms(2) by (cases sch) auto
  have ok: "heap_ok (?h ob)" "\<forall>a \<in> dom (objs h). objs (?h ob) a = objs h a" for ob
    using assms(1) new(1) by (auto simp: heap_ok_def less_Suc_eq)
  show thesis
  proof (cases d)
    case desc_End
    then show thesis using that(1) sch by simp
  next
    case desc_Int
    let ?ob = "IntHash (replicate N_buckets [])"
    have "empty_table (?h ?ob) sch (ofresh h)" using desc_Int sch new by (simp add: empty_table_def)
    then show thesis
      using malloc_obj_cases[of h ?ob] that(1) that(2)[OF _ _ ok(1)[of ?ob] new(1) ok(2)] desc_Int sch
      by (auto simp: inthash_new_def simp del: N_buckets_def)
  next
    case desc_Str
    let ?ob = "StringList []"
    have "empty_table (?h ?ob) sch (ofresh h)" using desc_Str sch new by (simp add: empty_table_def)
    then show thesis
      using malloc_obj_cases[of h ?ob] that(1) that(2)[OF _ _ ok(1)[of ?ob] new(1) ok(2)] desc_Str sch
      by (auto simp: stringlist_new_def)
  qed
qed

lemma empty_table_frame:
  "empty_table h sch q \<Longrightarrow> objs h' q = objs h q \<Longrightarrow> ofresh h' = ofresh h \<Longrightarrow> empty_table h' sch q"
  by (simp add: empty_table_def split: list.splits descriptor.splits)

text \<open>
  One level of \<open>fo_index_insert\<close> where the key is absent: it exits, or goes on with an empty table
  for the rest of the schema.
\<close>

lemma absent_level:
  assumes "heap_ok h" and "sch \<noteq> []" and "p \<in> dom (objs h)"
    and ins: "\<And>h1 v. objs h1 p = objs h p \<Longrightarrow> ins h1 v = Inl ExitFailure \<or>
      (\<exists>old h'. ins h1 v = Inr (old :: addr, h') \<and> ofresh h' = ofresh h1 \<and> (heap_ok h1 \<longrightarrow> heap_ok h') \<and>
        (\<forall>a. a \<noteq> p \<longrightarrow> objs h' a = objs h1 a))"
    and rest: "\<And>h' q. heap_ok h' \<Longrightarrow> empty_table h' sch q \<Longrightarrow> f q h' = Inl ExitFailure"
  shows "rbind (rbind (fo_index_new h sch) (\<lambda>(q, h1). rbind (ins h1 q) (\<lambda>(_, h2). Inr (q, h2))))
    (\<lambda>(q, h1). f q h1) = Inl ExitFailure"
proof (rule fo_index_new_cases[OF assms(1,2)])
  assume "fo_index_new h sch = Inl ExitFailure"
  then show ?thesis by simp
next
  fix q h1
  assume new: "fo_index_new h sch = Inr (q, h1)" "empty_table h1 sch q" "heap_ok h1" "q \<notin> dom (objs h)"
    "\<forall>a \<in> dom (objs h). objs h1 a = objs h a"
  have "objs h1 p = objs h p" using new(5) assms(3) by blast
  from ins[OF this, of q] show ?thesis
  proof (elim disjE exE conjE)
    fix old h'
    assume h': "ins h1 q = Inr (old, h')" "ofresh h' = ofresh h1" "heap_ok h1 \<longrightarrow> heap_ok h'"
      "\<forall>a. a \<noteq> p \<longrightarrow> objs h' a = objs h1 a"
    have "q \<noteq> p" using new(4) assms(3) by blast
    then have "empty_table h' sch q" using empty_table_frame[OF new(2)] h' by blast
    then show ?thesis using rest h' new(1,3) by simp
  qed (simp add: new(1))
qed

lemma lookup_dom:
  "inthash_lookup h p k = Inr x \<Longrightarrow> p \<in> dom (objs h)"
  "stringlist_lookup h p s = Inr x \<Longrightarrow> p \<in> dom (objs h)"
  by (auto simp: inthash_lookup_def stringlist_lookup_def buckets_at_def cells_at_def rbind_eq_Inr
      split: if_splits option.splits obj.splits)

lemma fits_nonempty: "fits sch vk \<Longrightarrow> sch \<noteq> []"
  by auto

lemma insert_into_empty:
  "heap_ok h \<Longrightarrow> empty_table h sch p \<Longrightarrow> fits sch vk \<Longrightarrow> fo_index_insert h sch p vk v = Inl ExitFailure"
proof (induction sch vk arbitrary: h p rule: fits.induct)
  case (3 sch n vk)
  have l: "inthash_lookup h p n = Inr NULL"
    using 3(3) by (simp add: empty_table_def inthash_lookup_def buckets_at_def aget_def)
  have "rbind (rbind (fo_index_new h sch) (\<lambda>(q, h1). rbind (inthash_insert h1 p n q) (\<lambda>(_, h2). Inr (q, h2))))
    (\<lambda>(q, h1). fo_index_insert h1 sch q vk v) = Inl ExitFailure"
    using 3 inthash_insert_total[OF l] lookup_dom(1)[OF l]
    by (intro absent_level) (auto simp: fits_nonempty)
  then show ?case using l by simp
next
  case (4 sch s vk)
  have l: "stringlist_lookup h p s = Inr NULL"
    using 4(3) by (simp add: empty_table_def stringlist_lookup_def cells_at_def)
  have "rbind (rbind (fo_index_new h sch) (\<lambda>(q, h1). rbind (stringlist_insert h1 p s q) (\<lambda>(_, h2). Inr (q, h2))))
    (\<lambda>(q, h1). fo_index_insert h1 sch q vk v) = Inl ExitFailure"
    using 4 stringlist_insert_total[OF l] lookup_dom(2)[OF l]
    by (intro absent_level) (auto simp: fits_nonempty)
  then show ?case using l by simp
qed (auto simp: empty_table_def)

text \<open>A key that is not there cannot be inserted: the insertion runs into the end of the schema.\<close>

lemma insert_absent_exits:
  "heap_ok h \<Longrightarrow> ind \<noteq> NULL \<Longrightarrow> fits sch vk \<Longrightarrow> fo_index_lookup h sch ind vk = Inr NULL \<Longrightarrow>
   fo_index_insert h sch ind vk v = Inl ExitFailure"
proof (induction sch vk arbitrary: ind rule: fits.induct)
  case (3 sch n vk)
  obtain x where l: "inthash_lookup h ind n = Inr x" using 3(5) by (auto simp: rbind_eq_Inr)
  show ?case
  proof (cases "x = NULL")
    case True
    have "rbind (rbind (fo_index_new h sch) (\<lambda>(q, h1). rbind (inthash_insert h1 ind n q) (\<lambda>(_, h2). Inr (q, h2))))
      (\<lambda>(q, h1). fo_index_insert h1 sch q vk v) = Inl ExitFailure"
      using 3(2,4) inthash_insert_total[OF l] lookup_dom(1)[OF l]
      by (intro absent_level) (auto simp: fits_nonempty insert_into_empty)
    then show ?thesis using l True by simp
  next
    case False
    then show ?thesis using 3 l by simp
  qed
next
  case (4 sch s vk)
  obtain x where l: "stringlist_lookup h ind s = Inr x" using 4(5) by (auto simp: rbind_eq_Inr)
  show ?case
  proof (cases "x = NULL")
    case True
    have "rbind (rbind (fo_index_new h sch) (\<lambda>(q, h1). rbind (stringlist_insert h1 ind s q) (\<lambda>(_, h2). Inr (q, h2))))
      (\<lambda>(q, h1). fo_index_insert h1 sch q vk v) = Inl ExitFailure"
      using 4(2,4) stringlist_insert_total[OF l] lookup_dom(2)[OF l]
      by (intro absent_level) (auto simp: fits_nonempty insert_into_empty)
    then show ?thesis using l True by simp
  next
    case False
    then show ?thesis using 4 l by simp
  qed
qed auto

end
