(* ===== verification/Malloc.thy ===== *)
theory Malloc
  imports Prelude
begin

text \<open>
  The memory manager \<open>src/memmgr/malloc.c\<close>. Memory is a map from word-aligned byte addresses to
  words; what is not mapped is not in the domain. \<open>mmap0\<close> is not in the repository (its body is
  commented out), so it is a parameter: a function that picks the address for a request, or NULL.
  The pages that it returns are mapped and zero, as \<open>MAP_ANONYMOUS\<close> promises. Sizes are natural
  numbers and the additions of \<open>size_t\<close> that can wrap are written with their modulus.
\<close>

section \<open>Model\<close>

definition WORD :: nat where [simp]: "WORD = 8"
definition ALIGN :: nat where [simp]: "ALIGN = 2"
definition WASTE :: nat where "WASTE = WORD * ALIGN - WORD"
definition BIGBLOCK :: nat where "BIGBLOCK = 131072 * WORD"
definition BINS :: nat where [simp]: "BINS = 8"
definition PAGE :: nat where [simp]: "PAGE = 4096"
definition SIZE_MOD :: nat where "SIZE_MOD = 18446744073709551616"

record mm =
  words :: "addr \<rightharpoonup> nat"
  bin :: "addr list"

type_synonym mmap_fun = "mm \<Rightarrow> nat \<Rightarrow> addr"

definition in_region :: "addr \<Rightarrow> addr \<Rightarrow> nat \<Rightarrow> bool" where
  "in_region a p n \<longleftrightarrow> a mod WORD = 0 \<and> p \<le> a \<and> a < p + n"

definition round_page :: "nat \<Rightarrow> nat" where
  "round_page n = (n + PAGE - 1) div PAGE * PAGE"

definition load_word :: "mm \<Rightarrow> addr \<Rightarrow> nat result" where
  "load_word st a = (case words st a of None \<Rightarrow> Inl WildPtr | Some v \<Rightarrow> Inr v)"

definition store_word :: "mm \<Rightarrow> addr \<Rightarrow> nat \<Rightarrow> mm result" where
  "store_word st a v =
     (case words st a of None \<Rightarrow> Inl WildPtr | Some _ \<Rightarrow> Inr (st\<lparr>words := (words st)(a \<mapsto> v)\<rparr>))"

definition mmap_call :: "mmap_fun \<Rightarrow> mm \<Rightarrow> nat \<Rightarrow> addr \<times> mm" where
  "mmap_call mmap0 st len =
     (let p = mmap0 st len in
      if p = NULL then (NULL, st)
      else (p, st\<lparr>words := (\<lambda>a. if in_region a p (round_page len) then Some 0 else words st a)\<rparr>))"

definition munmap :: "mm \<Rightarrow> addr \<Rightarrow> nat \<Rightarrow> mm" where
  "munmap st p len = st\<lparr>words := (\<lambda>a. if in_region a p (round_page len) then None else words st a)\<rparr>"

definition bin2size :: "nat \<Rightarrow> nat" where
  "bin2size b = ((b + 1) * ALIGN - 1) * WORD"

definition size2bin :: "nat \<Rightarrow> int" where
  "size2bin s = (if s > bin2size (BINS - 1) then - 1
                 else int ((s + (WORD * (ALIGN - 1) - 1)) div (WORD * ALIGN)))"

text \<open>The loop of \<open>fill_bin\<close>; the last argument is \<open>Nblocks - 1 - j\<close>.\<close>

fun fill_loop :: "mm \<Rightarrow> addr \<Rightarrow> nat \<Rightarrow> nat \<Rightarrow> (mm \<times> addr) result" where
  "fill_loop st q s 0 = Inr (st, q)"
| "fill_loop st q s (Suc k) =
     rbind (store_word st q s) (\<lambda>st1.
     rbind (store_word st1 (q + WORD) (q + WORD + (s + WORD))) (\<lambda>st2.
     fill_loop st2 (q + (s + WORD)) s k))"

definition fill_bin :: "mmap_fun \<Rightarrow> mm \<Rightarrow> int \<Rightarrow> (addr \<times> mm) result" where
  "fill_bin mmap0 st b =
     (let s = bin2size (nat b); (p, st1) = mmap_call mmap0 st BIGBLOCK in
      if p = NULL then Inr (NULL, st1)
      else let Nblocks = (BIGBLOCK - WASTE) div (s + WORD) in
        rbind (fill_loop st1 (p + WASTE) s (Nblocks - 1)) (\<lambda>(st2, q).
        rbind (store_word st2 q s) (\<lambda>st3.
        rbind (store_word st3 (q + WORD) NULL) (\<lambda>st4.
        Inr (p + WASTE + WORD, st4)))))"

definition set_bin :: "mm \<Rightarrow> int \<Rightarrow> addr \<Rightarrow> mm result" where
  "set_bin st b p = rbind (aset (bin st) b p) (\<lambda>bs. Inr (st\<lparr>bin := bs\<rparr>))"

definition malloc_small :: "mmap_fun \<Rightarrow> mm \<Rightarrow> nat \<Rightarrow> (addr \<times> mm) result" where
  "malloc_small mmap0 st nbytes =
     (let b = size2bin nbytes in
      rbind (aget (bin st) b) (\<lambda>p0.
      rbind (if p0 = NULL then
               rbind (fill_bin mmap0 st b) (\<lambda>(p1, st1).
                 if p1 = NULL then Inr (NULL, st1)
                 else rbind (set_bin st1 b p1) (\<lambda>st2. Inr (p1, st2)))
             else Inr (p0, st)) (\<lambda>(p, st1).
      if p = NULL then Inr (NULL, st1)
      else rbind (load_word st1 p) (\<lambda>q.
        rbind (set_bin st1 b q) (\<lambda>st2. Inr (p, st2))))))"

definition malloc_large :: "mmap_fun \<Rightarrow> mm \<Rightarrow> nat \<Rightarrow> (addr \<times> mm) result" where
  "malloc_large mmap0 st nbytes =
     (let (p, st1) = mmap_call mmap0 st ((nbytes + WASTE + WORD) mod SIZE_MOD) in
      if p = NULL then Inr (NULL, st1)
      else rbind (store_word st1 (p + WASTE) nbytes) (\<lambda>st2. Inr (p + WASTE + WORD, st2)))"

definition free_small :: "mm \<Rightarrow> addr \<Rightarrow> nat \<Rightarrow> mm result" where
  "free_small st p s =
     (let b = size2bin s in
      rbind (aget (bin st) b) (\<lambda>q. rbind (store_word st p q) (\<lambda>st1. set_bin st1 b p)))"

definition free :: "mm \<Rightarrow> addr \<Rightarrow> mm result" where
  "free st p =
     (if p \<noteq> NULL then
        rbind (load_word st (p - WORD)) (\<lambda>s.
          if s \<le> bin2size (BINS - 1) then free_small st p s
          else Inr (munmap st (p - (WASTE + WORD)) ((s + WASTE + WORD) mod SIZE_MOD)))
      else Inr st)"

definition malloc :: "mmap_fun \<Rightarrow> mm \<Rightarrow> nat \<Rightarrow> (addr \<times> mm) result" where
  "malloc mmap0 st nbytes =
     (if nbytes > bin2size (BINS - 1) then malloc_large mmap0 st nbytes
      else malloc_small mmap0 st nbytes)"

section \<open>Sizes and bins\<close>

lemma bin2size_eq: "bin2size b = 16 * b + 8"
  by (simp add: bin2size_def)

lemma WASTE_eq [simp]: "WASTE = 8"
  by (simp add: WASTE_def)

lemma size2bin_eq: "size2bin s = (if s \<le> 120 then int ((s + 7) div 16) else - 1)"
  by (simp add: size2bin_def bin2size_eq)

text \<open>The four claims in the comment of the source.\<close>

lemma bin_claims:
  "s \<le> bin2size (BINS - 1) \<longleftrightarrow> 0 \<le> size2bin s \<and> s \<le> bin2size (nat (size2bin s))"
  "s \<le> bin2size (BINS - 1) \<Longrightarrow> 0 \<le> size2bin s \<and> size2bin s < int BINS"
  "s \<le> bin2size (BINS - 1) \<Longrightarrow> size2bin (bin2size (nat (size2bin s))) = size2bin s"
  "(bin2size b + WORD) mod (WORD * ALIGN) = 0"
proof -
  show "s \<le> bin2size (BINS - 1) \<longleftrightarrow> 0 \<le> size2bin s \<and> s \<le> bin2size (nat (size2bin s))"
    by (simp add: size2bin_eq bin2size_eq) linarith
  show "s \<le> bin2size (BINS - 1) \<Longrightarrow> 0 \<le> size2bin s \<and> size2bin s < int BINS"
    by (simp add: size2bin_eq bin2size_eq)
  show "s \<le> bin2size (BINS - 1) \<Longrightarrow> size2bin (bin2size (nat (size2bin s))) = size2bin s"
    by (simp add: size2bin_eq bin2size_eq)
  show "(bin2size b + WORD) mod (WORD * ALIGN) = 0"
    by (simp add: bin2size_eq)
qed

lemma size2bin_bin2size: "b < 8 \<Longrightarrow> size2bin (bin2size b) = int b"
  by (simp add: size2bin_eq bin2size_eq)

lemma size2bin_small: "s \<le> 120 \<Longrightarrow> \<exists>b < 8. size2bin s = int b \<and> s \<le> bin2size b"
  by (rule exI[of _ "(s + 7) div 16"]) (simp add: size2bin_eq bin2size_eq, linarith)

section \<open>The invariant\<close>

definition region :: "addr \<Rightarrow> nat \<Rightarrow> addr set" where
  "region p n = {a. in_region a p n}"

text \<open>The words a block \<open>p\<close> of \<open>s\<close> bytes occupies: its header and data, or its pages.\<close>

definition foot :: "addr \<times> nat \<Rightarrow> addr set" where
  "foot x = (if snd x \<le> 120 then region (fst x - 8) (snd x + 8)
             else region (fst x - 16) (round_page (snd x + 16)))"

definition block_ok :: "mm \<Rightarrow> addr \<times> nat \<Rightarrow> bool" where
  "block_ok st x \<longleftrightarrow> 0 < fst x \<and> fst x mod 16 = 0 \<and> words st (fst x - 8) = Some (snd x) \<and>
     foot x \<subseteq> dom (words st) \<and> (if snd x \<le> 120 then \<exists>b < 8. snd x = bin2size b else snd x + 16 < SIZE_MOD)"

fun flist :: "(addr \<rightharpoonup> nat) \<Rightarrow> addr \<Rightarrow> addr list \<Rightarrow> bool" where
  "flist w p [] \<longleftrightarrow> p = NULL"
| "flist w p (a # as) \<longleftrightarrow> p = a \<and> a \<noteq> NULL \<and> (\<exists>q. w a = Some q \<and> flist w q as)"

definition blocks :: "(nat \<Rightarrow> addr list) \<Rightarrow> (addr \<rightharpoonup> nat) \<Rightarrow> (addr \<times> nat) set" where
  "blocks fl al = {(p, bin2size b) |p b. b < 8 \<and> p \<in> set (fl b)} \<union> {(p, s). al p = Some s}"

text \<open>
  \<open>fl\<close> gives the free lists of the bins, \<open>al\<close> the allocated blocks with their sizes. All blocks
  lie apart.
\<close>

definition mem_inv :: "mm \<Rightarrow> (nat \<Rightarrow> addr list) \<Rightarrow> (addr \<rightharpoonup> nat) \<Rightarrow> bool" where
  "mem_inv st fl al \<longleftrightarrow> length (bin st) = 8 \<and>
     (\<forall>b < 8. flist (words st) (bin st ! b) (fl b) \<and> distinct (fl b) \<and> (\<forall>p \<in> set (fl b). al p = None)) \<and>
     (\<forall>x \<in> blocks fl al. block_ok st x) \<and>
     (\<forall>x \<in> blocks fl al. \<forall>y \<in> blocks fl al. x \<noteq> y \<longrightarrow> foot x \<inter> foot y = {})"

text \<open>What the system promises of \<open>mmap0\<close>: pages that were not mapped.\<close>

definition mmap_ok :: "mmap_fun \<Rightarrow> bool" where
  "mmap_ok mmap0 \<longleftrightarrow> (\<forall>st len. mmap0 st len \<noteq> NULL \<longrightarrow>
     0 < len \<and> mmap0 st len mod PAGE = 0 \<and> region (mmap0 st len) (round_page len) \<inter> dom (words st) = {})"

lemma mem_invD:
  assumes "mem_inv st fl al"
  shows "length (bin st) = 8" "b < 8 \<Longrightarrow> flist (words st) (bin st ! b) (fl b)" "b < 8 \<Longrightarrow> distinct (fl b)"
    "b < 8 \<Longrightarrow> p \<in> set (fl b) \<Longrightarrow> al p = None" "x \<in> blocks fl al \<Longrightarrow> block_ok st x"
    "x \<in> blocks fl al \<Longrightarrow> y \<in> blocks fl al \<Longrightarrow> x \<noteq> y \<Longrightarrow> foot x \<inter> foot y = {}"
  using assms unfolding mem_inv_def by blast+

lemma flist_frame: "flist w p as \<Longrightarrow> (\<And>a. a \<in> set as \<Longrightarrow> w' a = w a) \<Longrightarrow> flist w' p as"
  by (induction as arbitrary: p) auto

lemma blocks_free: "b < 8 \<Longrightarrow> p \<in> set (fl b) \<Longrightarrow> (p, bin2size b) \<in> blocks fl al"
  by (auto simp: blocks_def)

lemma blocks_alloc: "al p = Some s \<Longrightarrow> (p, s) \<in> blocks fl al"
  by (auto simp: blocks_def)

lemma round_page_ge: "m \<le> round_page m"
proof -
  have "m + 4095 = (m + 4095) div 4096 * 4096 + (m + 4095) mod 4096" by simp
  moreover have "(m + 4095) mod 4096 < 4096" by simp
  ultimately have "m \<le> (m + 4095) div 4096 * 4096" by linarith
  then show ?thesis by (simp add: round_page_def)
qed

lemma region_iff: "a \<in> region p n \<longleftrightarrow> a mod 8 = 0 \<and> p \<le> a \<and> a < p + n"
  by (simp add: region_def in_region_def)

lemma aligned16: "0 < p \<Longrightarrow> p mod 16 = 0 \<Longrightarrow> 16 \<le> p \<and> p mod 8 = 0 \<and> (p - 8) mod 8 = (0 :: nat)"
  by presburger

lemma foot_data:
  assumes "0 < p" and "p mod 16 = 0"
  shows "0 < s \<Longrightarrow> p \<in> foot (p, s)" "p - 8 \<in> foot (p, s)" "in_region a p s \<Longrightarrow> a \<in> foot (p, s)"
proof -
  have "16 \<le> p" using aligned16[OF assms] by blast
  then obtain q where q: "p = q + 16" using le_Suc_ex[of 16 p] by (metis add.commute)
  then have m: "q mod 8 = 0" using assms(2) by presburger
  have f: "foot (p, s) = (if s \<le> 120 then region (q + 8) (s + 8) else region q (round_page (s + 16)))"
    by (simp add: foot_def q add.commute)
  note ge = round_page_ge[of "s + 16"]
  have m8: "(q + 8) mod 8 = 0" "(q + 16) mod 8 = 0" using m by presburger+
  show "p \<in> foot (p, s)" if "0 < s"
    using that ge m8 unfolding f by (simp add: region_iff q)
  show "p - 8 \<in> foot (p, s)"
    using ge m8 unfolding f by (simp add: region_iff q)
  show "a \<in> foot (p, s)" if "in_region a p s"
    using that ge unfolding f by (simp add: region_iff in_region_def q)
qed

lemma bin2size_pos [simp]: "0 < bin2size b" "bin2size b \<le> 120 \<longleftrightarrow> b < 8"
  by (auto simp: bin2size_eq)

text \<open>Free blocks other than \<open>x\<close> keep their links and headers when words of \<open>x\<close> change.\<close>

lemma mem_inv_change:
  assumes inv: "mem_inv st fl al" and x: "x \<in> blocks fl al"
    and same: "\<And>a. a \<notin> foot x \<Longrightarrow> words st' a = words st a" and dom: "dom (words st') = dom (words st)"
    and hd: "words st' (fst x - 8) = Some (snd x)"
  shows "y \<in> blocks fl al \<Longrightarrow> block_ok st' y"
    "b < 8 \<Longrightarrow> flist (words st) p as \<Longrightarrow> set as \<subseteq> set (fl b) \<Longrightarrow> al (fst x) = Some (snd x) \<Longrightarrow> flist (words st') p as"
proof -
  note d = mem_invD[OF inv]
  show "block_ok st' y" if y: "y \<in> blocks fl al"
  proof (cases "y = x")
    case True
    then show ?thesis using d(5)[OF x] hd dom by (simp add: block_ok_def)
  next
    case False
    have ok: "block_ok st y" using d(5)[OF y] .
    have "fst y - 8 \<in> foot y" using ok foot_data(2)[of "fst y" "snd y"] by (simp add: block_ok_def)
    then have "fst y - 8 \<notin> foot x" using d(6)[OF y x False] by blast
    then show ?thesis using ok same dom by (simp add: block_ok_def)
  qed
  show "flist (words st') p as" if b: "b < 8" "flist (words st) p as" "set as \<subseteq> set (fl b)"
    and "al (fst x) = Some (snd x)"
  proof (rule flist_frame[OF b(2)])
    fix a assume "a \<in> set as"
    then have a: "a \<in> set (fl b)" using b(3) by blast
    have y: "(a, bin2size b) \<in> blocks fl al" using b(1) a by (rule blocks_free)
    have ne: "(a, bin2size b) \<noteq> x" using d(4)[OF b(1) a] \<open>al (fst x) = Some (snd x)\<close> by auto
    have "a \<in> foot (a, bin2size b)" using foot_data(1)[of a "bin2size b"] d(5)[OF y] by (simp add: block_ok_def)
    then have "a \<notin> foot x" using d(6)[OF y x ne] by blast
    then show "words st' a = words st a" by (rule same)
  qed
qed

text \<open>A client may write the data of its blocks.\<close>

lemma client_write:
  assumes inv: "mem_inv st fl al" and al: "al p = Some s" and a: "in_region a p s"
  shows "\<exists>st'. store_word st a v = Inr st' \<and> mem_inv st' fl al"
proof -
  note d = mem_invD[OF inv]
  have x: "(p, s) \<in> blocks fl al" using al by (rule blocks_alloc)
  have ok: "block_ok st (p, s)" by (rule d(5)[OF x])
  then have p: "0 < p" "p mod 16 = 0" by (simp_all add: block_ok_def)
  note p16 = aligned16[OF p]
  have af: "a \<in> foot (p, s)" by (rule foot_data(3)[OF p a])
  then have "a \<in> dom (words st)" using ok by (auto simp: block_ok_def)
  then obtain w where w: "words st a = Some w" by blast
  let ?st = "st\<lparr>words := (words st)(a \<mapsto> v)\<rparr>"
  have c: "\<And>a'. a' \<notin> foot (p, s) \<Longrightarrow> words ?st a' = words st a'" "dom (words ?st) = dom (words st)"
    "words ?st (fst (p, s) - 8) = Some (snd (p, s))"
    using af w ok a p16 by (auto simp: block_ok_def in_region_def)
  have "mem_inv ?st fl al"
    unfolding mem_inv_def
  proof (intro conjI allI impI ballI)
    fix b :: nat assume b: "b < 8"
    show "flist (words ?st) (bin ?st ! b) (fl b)"
      using mem_inv_change(2)[OF inv x c b d(2)[OF b]] al by simp
    show "distinct (fl b)" by (rule d(3)[OF b])
    show "p \<in> set (fl b) \<Longrightarrow> al p = None" for p by (rule d(4)[OF b])
  next
    show "block_ok ?st y" if "y \<in> blocks fl al" for y by (rule mem_inv_change(1)[OF inv x c that])
    show "x \<in> blocks fl al \<Longrightarrow> y \<in> blocks fl al \<Longrightarrow> x \<noteq> y \<Longrightarrow> foot x \<inter> foot y = {}" for x y by (rule d(6))
  qed (use d(1) in simp)
  then show ?thesis using w by (auto simp: store_word_def)
qed

section \<open>Taking and returning small blocks\<close>

lemma blocks_iff:
  "(p, s) \<in> blocks fl al \<longleftrightarrow> (\<exists>b < 8. s = bin2size b \<and> p \<in> set (fl b)) \<or> al p = Some s"
  by (auto simp: blocks_def)

lemma blocks_pop:
  assumes "b < 8" and "fl b = p # ps" and "al p = None"
  shows "blocks (fl(b := ps)) (al(p \<mapsto> bin2size b)) = blocks fl al"
proof -
  have "(a, s) \<in> blocks (fl(b := ps)) (al(p \<mapsto> bin2size b)) \<longleftrightarrow> (a, s) \<in> blocks fl al" for a s
  proof (cases "a = p")
    case True
    then show ?thesis unfolding blocks_iff using assms by (auto split: if_splits)
  next
    case False
    then have "a \<in> set ((fl(b := ps)) c) \<longleftrightarrow> a \<in> set (fl c)" for c using assms(2) by auto
    then show ?thesis unfolding blocks_iff using False by simp
  qed
  then show ?thesis by auto
qed

lemma free_lists_apart:
  assumes "mem_inv st fl al" and "b < 8" "b' < 8" "b \<noteq> b'" and "p \<in> set (fl b)"
  shows "p \<notin> set (fl b')"
proof
  assume p': "p \<in> set (fl b')"
  note d = mem_invD[OF assms(1)]
  have x: "(p, bin2size b) \<in> blocks fl al" "(p, bin2size b') \<in> blocks fl al"
    using blocks_free assms(2,3,5) p' by blast+
  have ok: "0 < p" "p mod 16 = 0" using d(5)[OF x(1)] by (simp_all add: block_ok_def)
  have "(p, bin2size b) \<noteq> (p, bin2size b')" using assms(4) by (simp add: bin2size_eq)
  from d(6)[OF x this] show False using foot_data(2)[OF ok] by blast
qed

lemma pop_inv:
  assumes inv: "mem_inv st fl al" and b: "b < 8" and fl: "fl b = p # ps" and q: "words st p = Some q"
  shows "mem_inv (st\<lparr>bin := (bin st)[b := q]\<rparr>) (fl(b := ps)) (al(p \<mapsto> bin2size b))"
proof -
  note d = mem_invD[OF inv]
  have al: "al p = None" using d(4)[OF b] fl by simp
  have tl: "flist (words st) q ps" "p \<notin> set ps" "distinct ps" using d(2,3)[OF b] fl q by auto
  have bl: "blocks (fl(b := ps)) (al(p \<mapsto> bin2size b)) = blocks fl al"
    using b fl al by (rule blocks_pop)
  show ?thesis
    unfolding mem_inv_def bl
  proof (intro conjI allI impI ballI)
    fix b' :: nat assume b': "b' < 8"
    show "flist (words (st\<lparr>bin := (bin st)[b := q]\<rparr>)) (bin (st\<lparr>bin := (bin st)[b := q]\<rparr>) ! b') ((fl(b := ps)) b')"
      using d(2)[OF b'] d(1) b' tl(1) by (cases "b' = b") simp_all
    show "distinct ((fl(b := ps)) b')" using d(3)[OF b'] tl(3) by simp
    fix a assume a: "a \<in> set ((fl(b := ps)) b')"
    show "(al(p \<mapsto> bin2size b)) a = None"
    proof (cases "b' = b")
      case True
      then show ?thesis using a tl(2) d(4)[OF b] fl by (cases "a = p") auto
    next
      case False
      then have "a \<noteq> p" using a free_lists_apart[OF inv b' b False] fl by auto
      then show ?thesis using a False d(4)[OF b'] by simp
    qed
  next
    show "block_ok (st\<lparr>bin := (bin st)[b := q]\<rparr>) x" if "x \<in> blocks fl al" for x
      using d(5)[OF that] by (simp add: block_ok_def)
    show "x \<in> blocks fl al \<Longrightarrow> y \<in> blocks fl al \<Longrightarrow> x \<noteq> y \<Longrightarrow> foot x \<inter> foot y = {}" for x y by (rule d(6))
  qed (use d(1) in simp)
qed

lemma blocks_push:
  assumes "b < 8" and "al p = Some (bin2size b)"
  shows "blocks (fl(b := p # fl b)) (al(p := None)) = blocks fl al"
proof -
  have "(a, s) \<in> blocks (fl(b := p # fl b)) (al(p := None)) \<longleftrightarrow> (a, s) \<in> blocks fl al" for a s
  proof (cases "a = p")
    case True
    then show ?thesis unfolding blocks_iff using assms by (auto split: if_splits)
  next
    case False
    then have "a \<in> set ((fl(b := p # fl b)) c) \<longleftrightarrow> a \<in> set (fl c)" for c by auto
    then show ?thesis unfolding blocks_iff using False by simp
  qed
  then show ?thesis by auto
qed

lemma free_small_inv:
  assumes inv: "mem_inv st fl al" and al: "al p = Some s" and s: "s \<le> 120"
  shows "\<exists>st' b. free_small st p s = Inr st' \<and> b < 8 \<and> s = bin2size b \<and> bin st' ! b = p \<and>
    words st' p = Some (bin st ! b) \<and> mem_inv st' (fl(b := p # fl b)) (al(p := None))"
proof -
  note d = mem_invD[OF inv]
  have x: "(p, s) \<in> blocks fl al" using al by (rule blocks_alloc)
  have ok: "block_ok st (p, s)" by (rule d(5)[OF x])
  then have p: "0 < p" "p mod 16 = 0" "words st (p - 8) = Some s" by (simp_all add: block_ok_def)
  obtain b where b: "b < 8" "s = bin2size b" using ok s by (auto simp: block_ok_def)
  have pf: "p \<in> foot (p, s)" by (rule foot_data(1)[OF p(1,2)]) (simp add: b(2))
  then obtain w where w: "words st p = Some w" using ok by (auto simp: block_ok_def)
  let ?st1 = "st\<lparr>words := (words st)(p \<mapsto> bin st ! b)\<rparr>"
  let ?st' = "?st1\<lparr>bin := (bin st)[b := p]\<rparr>"
  have run: "free_small st p s = Inr ?st'"
    using b d(1) w by (simp add: free_small_def size2bin_bin2size store_word_def set_bin_def)
  have ne: "p - 8 \<noteq> p" using p(1) by simp
  have c: "\<And>a'. a' \<notin> foot (p, s) \<Longrightarrow> words ?st' a' = words st a'" "dom (words ?st') = dom (words st)"
    "words ?st' (fst (p, s) - 8) = Some (snd (p, s))"
    using pf w p(3) ne by auto
  have bl: "blocks (fl(b := p # fl b)) (al(p := None)) = blocks fl al"
    by (rule blocks_push[OF b(1)]) (simp add: al b(2))
  have keep: "flist (words ?st') (bin st ! b') (fl b')" if "b' < 8" for b'
    using mem_inv_change(2)[OF inv x c that d(2)[OF that]] al by simp
  have notin: "p \<notin> set (fl b')" if "b' < 8" for b'
    using d(4)[OF that, of p] al by auto
  have "mem_inv ?st' (fl(b := p # fl b)) (al(p := None))"
    unfolding mem_inv_def bl
  proof (intro conjI allI impI ballI)
    fix b' :: nat assume b': "b' < 8"
    show "flist (words ?st') (bin ?st' ! b') ((fl(b := p # fl b)) b')"
      using keep[OF b'] b' d(1) p(1) by (cases "b' = b") simp_all
    show "distinct ((fl(b := p # fl b)) b')" using d(3)[OF b'] notin[OF b'] by (cases "b' = b") auto
    show "a \<in> set ((fl(b := p # fl b)) b') \<Longrightarrow> (al(p := None)) a = None" for a
      using d(4)[OF b'] by (auto split: if_splits)
  next
    show "block_ok ?st' y" if "y \<in> blocks fl al" for y by (rule mem_inv_change(1)[OF inv x c that])
    show "x \<in> blocks fl al \<Longrightarrow> y \<in> blocks fl al \<Longrightarrow> x \<noteq> y \<Longrightarrow> foot x \<inter> foot y = {}" for x y by (rule d(6))
  qed (use d(1) in simp)
  then show ?thesis using run b d(1) by (intro exI[of _ ?st'] exI[of _ b]) simp
qed

section \<open>Filling a bin\<close>

definition block_list :: "addr \<Rightarrow> nat \<Rightarrow> nat \<Rightarrow> addr list" where
  "block_list q s n = map (\<lambda>i. q + 8 + i * (s + 8)) [0..<n]"

lemma block_list_Suc: "block_list q s (Suc n) = (q + 8) # block_list (q + (s + 8)) s n"
  unfolding block_list_def upt_conv_Cons[OF zero_less_Suc] list.map map_Suc_upt[symmetric] map_map
  by (simp add: algebra_simps)

lemma set_block_list: "set (block_list q s n) = {q + 8 + i * (s + 8) |i. i < n}"
  by (auto simp: block_list_def)

definition fill_rest :: "mm \<Rightarrow> addr \<Rightarrow> nat \<Rightarrow> nat \<Rightarrow> mm result" where
  "fill_rest st q s k =
     rbind (fill_loop st q s k) (\<lambda>(st2, q).
     rbind (store_word st2 q s) (\<lambda>st3. store_word st3 (q + WORD) NULL))"

lemma region_split: "region q (n + m) = region q n \<union> region (q + n) m"
  by (auto simp: region_iff)

lemma store_word_region:
  assumes "region q n \<subseteq> dom (words st)" and "a \<in> region q n"
  shows "store_word st a v = Inr (st\<lparr>words := (words st)(a \<mapsto> v)\<rparr>)"
    "dom (words (st\<lparr>words := (words st)(a \<mapsto> v)\<rparr>)) = dom (words st)"
  using assms by (auto simp: store_word_def split: option.splits)

text \<open>Two stores write the header and the link of one block.\<close>

lemma store_block:
  assumes "region q (s + 8) \<subseteq> dom (words st)" and "q mod 8 = 0" and "0 < s"
  shows "\<exists>st2. rbind (store_word st q s) (\<lambda>st1. store_word st1 (q + WORD) v) = Inr st2 \<and>
    bin st2 = bin st \<and> words st2 = (words st)(q \<mapsto> s, q + 8 \<mapsto> v) \<and> dom (words st2) = dom (words st)"
proof -
  have "q \<in> region q (s + 8)" "q + 8 \<in> region q (s + 8)"
    using assms(2,3) by (auto simp: region_iff mod_add_eq)
  then have "q \<in> dom (words st)" "q + 8 \<in> dom (words st)" using assms(1) by blast+
  then show ?thesis by (auto simp: store_word_def)
qed

lemma fill_rest_correct:
  assumes "region q (Suc k * (s + 8)) \<subseteq> dom (words st)" and "q mod 8 = 0" and "s mod 8 = 0" and "0 < s"
  shows "\<exists>st'. fill_rest st q s k = Inr st' \<and> bin st' = bin st \<and> dom (words st') = dom (words st) \<and>
    (\<forall>a. a \<notin> region q (Suc k * (s + 8)) \<longrightarrow> words st' a = words st a) \<and>
    flist (words st') (q + 8) (block_list q s (Suc k)) \<and>
    (\<forall>p \<in> set (block_list q s (Suc k)). words st' (p - 8) = Some s)"
  using assms(1,2)
proof (induction k arbitrary: st q)
  case 0
  have r: "region q (s + 8) \<subseteq> dom (words st)" using 0(1) by simp
  obtain st2 where "rbind (store_word st q s) (\<lambda>st1. store_word st1 (q + WORD) NULL) = Inr st2"
    "bin st2 = bin st" "words st2 = (words st)(q \<mapsto> s, q + 8 \<mapsto> NULL)" "dom (words st2) = dom (words st)"
    using store_block[OF r 0(2) assms(4), of NULL] by blast
  then show ?case
    using 0(2) assms(4) by (auto simp: fill_rest_def block_list_def region_iff mod_add_eq)
next
  case (Suc k)
  have split: "region q (Suc (Suc k) * (s + 8)) = region q (s + 8) \<union> region (q + (s + 8)) (Suc k * (s + 8))"
    by (simp add: region_split[symmetric])
  have r: "region q (s + 8) \<subseteq> dom (words st)" using Suc.prems(1) unfolding split by simp
  obtain st2 where st2: "rbind (store_word st q s) (\<lambda>st1. store_word st1 (q + WORD) (q + WORD + (s + WORD))) = Inr st2"
    "bin st2 = bin st" "words st2 = (words st)(q \<mapsto> s, q + 8 \<mapsto> q + WORD + (s + WORD))" "dom (words st2) = dom (words st)"
    using store_block[OF r Suc.prems(2) assms(4), of "q + WORD + (s + WORD)"] by blast
  have q': "(q + (s + 8)) mod 8 = 0" using Suc.prems(2) assms(3) by presburger
  have r': "region (q + (s + 8)) (Suc k * (s + 8)) \<subseteq> dom (words st2)"
    using Suc.prems(1) unfolding split st2(4) by simp
  obtain st' where st': "fill_rest st2 (q + (s + 8)) s k = Inr st'" "bin st' = bin st2"
    "dom (words st') = dom (words st2)"
    "\<forall>a. a \<notin> region (q + (s + 8)) (Suc k * (s + 8)) \<longrightarrow> words st' a = words st2 a"
    "flist (words st') (q + (s + 8) + 8) (block_list (q + (s + 8)) s (Suc k))"
    "\<forall>p \<in> set (block_list (q + (s + 8)) s (Suc k)). words st' (p - 8) = Some s"
    using Suc.IH[OF r' q'] by blast
  have run: "fill_rest st q s (Suc k) = fill_rest st2 (q + (s + 8)) s k"
    using st2(1) by (auto simp: fill_rest_def rbind_eq_Inr)
  have at: "words st' q = Some s" "words st' (q + 8) = Some (q + (s + 8) + 8)"
    using st'(4) st2(3) assms(4) by (simp_all add: region_iff)
  have "words st' a = words st a" if a: "a \<notin> region q (Suc (Suc k) * (s + 8))" for a
  proof -
    have "q \<in> region q (s + 8)" "q + 8 \<in> region q (s + 8)"
      using Suc.prems(2) assms(4) by (auto simp: region_iff mod_add_eq)
    then have "a \<noteq> q" "a \<noteq> q + 8" "a \<notin> region (q + (s + 8)) (Suc k * (s + 8))"
      using a unfolding split by blast+
    then show ?thesis using st'(4) st2(3) by simp
  qed
  then show ?case
    unfolding run block_list_Suc[of q s "Suc k"] using st' st2(2,4) at by simp
qed

text \<open>Memory that is new: mapped now, and not before.\<close>

definition extends :: "mm \<Rightarrow> mm \<Rightarrow> addr set \<Rightarrow> bool" where
  "extends st st' R \<longleftrightarrow> bin st' = bin st \<and> R \<inter> dom (words st) = {} \<and>
     dom (words st') = dom (words st) \<union> R \<and> (\<forall>a. a \<notin> R \<longrightarrow> words st' a = words st a)"

lemma extends_old:
  assumes inv: "mem_inv st fl al" and ex: "extends st st' R"
  shows "x \<in> blocks fl al \<Longrightarrow> block_ok st' x" "x \<in> blocks fl al \<Longrightarrow> foot x \<inter> R = {}"
    "b < 8 \<Longrightarrow> flist (words st') (bin st ! b) (fl b)"
    "0 < p \<Longrightarrow> p mod 16 = 0 \<Longrightarrow> foot (p, s) \<subseteq> R \<Longrightarrow> al p = None"
proof -
  note d = mem_invD[OF inv]
  have same: "words st' a = words st a" if "a \<in> dom (words st)" for a
    using ex that unfolding extends_def by blast
  have hd: "fst x - 8 \<in> dom (words st)" if "x \<in> blocks fl al" for x
    using d(5)[OF that] by (auto simp: block_ok_def)
  show ok: "block_ok st' x" if x: "x \<in> blocks fl al" for x
    using d(5)[OF x] same[OF hd[OF x]] ex by (auto simp: block_ok_def extends_def)
  show sep: "foot x \<inter> R = {}" if "x \<in> blocks fl al" for x
    using d(5)[OF that] ex unfolding block_ok_def extends_def by blast
  show "flist (words st') (bin st ! b) (fl b)" if b: "b < 8"
  proof (rule flist_frame[OF d(2)[OF b]])
    fix a assume a: "a \<in> set (fl b)"
    have x: "(a, bin2size b) \<in> blocks fl al" using b a by (rule blocks_free)
    have "block_ok st (a, bin2size b)" by (rule d(5)[OF x])
    then have "a \<in> dom (words st)" using foot_data(1)[of a "bin2size b"] by (auto simp: block_ok_def)
    then show "words st' a = words st a" by (rule same)
  qed
  show "al p = None" if p: "0 < p" "p mod 16 = 0" "foot (p, s) \<subseteq> R"
  proof (cases "al p")
    case (Some t)
    then have "(p, t) \<in> blocks fl al" by (rule blocks_alloc)
    from sep[OF this] show ?thesis using foot_data(2)[OF p(1,2)] p(3) by blast
  qed
qed

lemma blocks_fill:
  assumes "b < 8" and "fl b = []"
  shows "blocks (fl(b := ps)) al = blocks fl al \<union> (\<lambda>a. (a, bin2size b)) ` set ps"
proof -
  have "(a, s) \<in> blocks (fl(b := ps)) al \<longleftrightarrow> (a, s) \<in> blocks fl al \<union> (\<lambda>a. (a, bin2size b)) ` set ps" for a s
  proof -
    have "(\<exists>c < 8. s = bin2size c \<and> a \<in> set ((fl(b := ps)) c)) \<longleftrightarrow>
        (\<exists>c < 8. c \<noteq> b \<and> s = bin2size c \<and> a \<in> set (fl c)) \<or> s = bin2size b \<and> a \<in> set ps"
      using assms(1) by auto
    moreover have "(\<exists>c < 8. s = bin2size c \<and> a \<in> set (fl c)) \<longleftrightarrow>
        (\<exists>c < 8. c \<noteq> b \<and> s = bin2size c \<and> a \<in> set (fl c))"
      using assms(2) by (metis empty_iff list.set(1))
    ultimately show ?thesis unfolding blocks_iff Un_iff by blast
  qed
  then show ?thesis by auto
qed

lemma add_free_blocks:
  assumes inv: "mem_inv st fl al" and ex: "extends st st' R" and b: "b < 8" "fl b = []"
    and ps: "flist (words st') p ps" "distinct ps" "\<And>a. a \<in> set ps \<Longrightarrow> block_ok st' (a, bin2size b)"
      "\<And>a. a \<in> set ps \<Longrightarrow> foot (a, bin2size b) \<subseteq> R"
      "\<And>a a'. a \<in> set ps \<Longrightarrow> a' \<in> set ps \<Longrightarrow> a \<noteq> a' \<Longrightarrow> foot (a, bin2size b) \<inter> foot (a', bin2size b) = {}"
  shows "mem_inv (st'\<lparr>bin := (bin st)[b := p]\<rparr>) (fl(b := ps)) al"
proof -
  note d = mem_invD[OF inv] and old = extends_old[OF inv ex]
  let ?st = "st'\<lparr>bin := (bin st)[b := p]\<rparr>"
  have al: "al a = None" if "a \<in> set ps" for a
    using old(4)[OF _ _ ps(4)[OF that]] ps(3)[OF that] by (auto simp: block_ok_def)
  have bl: "blocks (fl(b := ps)) al = blocks fl al \<union> (\<lambda>a. (a, bin2size b)) ` set ps"
    using b by (rule blocks_fill)
  show ?thesis
    unfolding mem_inv_def
  proof (intro conjI allI impI ballI)
    fix b' :: nat assume b': "b' < 8"
    show "flist (words ?st) (bin ?st ! b') ((fl(b := ps)) b')"
      using old(3)[OF b'] ps(1) b' d(1) by (cases "b' = b") simp_all
    show "distinct ((fl(b := ps)) b')" using d(3)[OF b'] ps(2) by simp
    show "a \<in> set ((fl(b := ps)) b') \<Longrightarrow> al a = None" for a
      using d(4)[OF b'] al by (cases "b' = b") simp_all
  next
    fix x assume "x \<in> blocks (fl(b := ps)) al"
    then have "block_ok st' x" unfolding bl using old(1) ps(3) by blast
    then show "block_ok ?st x" by (simp add: block_ok_def)
  next
    fix x y assume "x \<in> blocks (fl(b := ps)) al" "y \<in> blocks (fl(b := ps)) al" "x \<noteq> y"
    then show "foot x \<inter> foot y = {}"
      unfolding bl using d(6) old(2) ps(4,5) by (elim UnE imageE) (blast, blast, blast, simp)
  qed (use d(1) ex in \<open>simp add: extends_def\<close>)
qed

lemma add_allocated:
  assumes inv: "mem_inv st fl al" and ex: "extends st st' (foot (p, s))" and ok: "block_ok st' (p, s)"
  shows "al p = None" "mem_inv st' fl (al(p \<mapsto> s))"
proof -
  note d = mem_invD[OF inv] and old = extends_old[OF inv ex]
  have p: "0 < p" "p mod 16 = 0" using ok by (simp_all add: block_ok_def)
  show al: "al p = None" by (rule old(4)[OF p subset_refl])
  have bl: "blocks fl (al(p \<mapsto> s)) = insert (p, s) (blocks fl al)"
    using al by (auto simp: blocks_def split: if_splits)
  have notfree: "p \<notin> set (fl b)" if b: "b < 8" for b
  proof
    assume "p \<in> set (fl b)"
    then have "(p, bin2size b) \<in> blocks fl al" using b by (intro blocks_free)
    from old(2)[OF this] show False using foot_data(2)[OF p] by blast
  qed
  show "mem_inv st' fl (al(p \<mapsto> s))"
    unfolding mem_inv_def bl
  proof (intro conjI allI impI ballI)
    fix b :: nat assume b: "b < 8"
    show "flist (words st') (bin st' ! b) (fl b)" using old(3)[OF b] ex by (simp add: extends_def)
    show "distinct (fl b)" by (rule d(3)[OF b])
    show "a \<in> set (fl b) \<Longrightarrow> (al(p \<mapsto> s)) a = None" for a
      using d(4)[OF b] notfree[OF b] by auto
  next
    show "block_ok st' x" if "x \<in> insert (p, s) (blocks fl al)" for x using that ok old(1) by blast
    show "foot x \<inter> foot y = {}" if "x \<in> insert (p, s) (blocks fl al)" "y \<in> insert (p, s) (blocks fl al)" "x \<noteq> y"
      for x y using that d(6) old(2) by blast
  qed (use d(1) ex in \<open>simp add: extends_def\<close>)
qed

lemma remove_allocated:
  assumes inv: "mem_inv st fl al" and al: "al p = Some s"
    and st': "bin st' = bin st" "\<And>a. a \<notin> foot (p, s) \<Longrightarrow> words st' a = words st a"
  shows "mem_inv st' fl (al(p := None))"
proof -
  note d = mem_invD[OF inv]
  have x: "(p, s) \<in> blocks fl al" using al by (rule blocks_alloc)
  have notfree: "p \<notin> set (fl b)" if "b < 8" for b using d(4)[OF that, of p] al by auto
  have "(a, t) \<in> blocks fl (al(p := None)) \<longleftrightarrow> (a, t) \<in> blocks fl al - {(p, s)}" for a t
    unfolding Diff_iff blocks_iff using al notfree by (cases "a = p") auto
  then have bl: "blocks fl (al(p := None)) = blocks fl al - {(p, s)}" by auto
  have ok: "block_ok st' y" if y: "y \<in> blocks fl al - {(p, s)}" for y
  proof -
    have sep: "foot y \<inter> foot (p, s) = {}" and oky: "block_ok st y" using y x d(5,6) by blast+
    have "fst y - 8 \<in> foot y" using oky foot_data(2)[of "fst y" "snd y"] by (simp add: block_ok_def)
    then have hd: "words st' (fst y - 8) = words st (fst y - 8)" using sep st'(2) by blast
    have "foot y \<subseteq> dom (words st')"
    proof
      fix a assume a: "a \<in> foot y"
      then have "words st' a = words st a" using sep st'(2) by blast
      then show "a \<in> dom (words st')" using oky a by (auto simp: block_ok_def)
    qed
    then show ?thesis using oky hd by (simp add: block_ok_def)
  qed
  show ?thesis
    unfolding mem_inv_def bl
  proof (intro conjI allI impI ballI)
    fix b :: nat assume b: "b < 8"
    show "flist (words st') (bin st' ! b) (fl b)"
      unfolding st'(1)
    proof (rule flist_frame[OF d(2)[OF b]])
      fix a assume a: "a \<in> set (fl b)"
      then have y: "(a, bin2size b) \<in> blocks fl al - {(p, s)}" using b notfree[OF b] blocks_free by blast
      then have "foot (a, bin2size b) \<inter> foot (p, s) = {}" "block_ok st (a, bin2size b)" using x d(5,6) by blast+
      then show "words st' a = words st a"
        using foot_data(1)[of a "bin2size b"] st'(2) by (auto simp: block_ok_def)
    qed
    show "distinct (fl b)" by (rule d(3)[OF b])
    show "a \<in> set (fl b) \<Longrightarrow> (al(p := None)) a = None" for a using d(4)[OF b] by simp
  next
    show "x \<in> blocks fl al - {(p, s)} \<Longrightarrow> y \<in> blocks fl al - {(p, s)} \<Longrightarrow> x \<noteq> y \<Longrightarrow> foot x \<inter> foot y = {}" for x y
      using d(6) by blast
  qed (use d(1) st'(1) ok in simp_all)
qed

section \<open>The operations\<close>

lemma mmap_call_extends:
  assumes "mmap_ok mmap0" and "mmap0 st len = p" and "p \<noteq> NULL"
  shows "\<exists>st1. mmap_call mmap0 st len = (p, st1) \<and> extends st st1 (region p (round_page len))"
    "p mod 4096 = 0" "0 < len"
  using assms unfolding mmap_ok_def
  by (auto simp: mmap_call_def Let_def extends_def region_def split: if_splits)

lemma extends_trans:
  assumes "extends st st1 R" and "bin st' = bin st1" and "dom (words st') = dom (words st1)"
    and "\<And>a. a \<notin> R \<Longrightarrow> words st' a = words st1 a"
  shows "extends st st' R"
  using assms unfolding extends_def by simp

lemma store_extends:
  assumes "extends st st1 R" and "a \<in> R"
  shows "\<exists>st'. store_word st1 a v = Inr st' \<and> words st' = (words st1)(a \<mapsto> v) \<and> extends st st' R"
proof -
  have "a \<in> dom (words st1)" using assms unfolding extends_def by blast
  then have "store_word st1 a v = Inr (st1\<lparr>words := (words st1)(a \<mapsto> v)\<rparr>)"
    "dom ((words st1)(a \<mapsto> v)) = dom (words st1)" by (auto simp: store_word_def)
  moreover have "extends st (st1\<lparr>words := (words st1)(a \<mapsto> v)\<rparr>) R"
  proof (rule extends_trans[OF assms(1)])
    show "words (st1\<lparr>words := (words st1)(a \<mapsto> v)\<rparr>) x = words st1 x" if "x \<notin> R" for x
      using that assms(2) by auto
  qed (use calculation in simp_all)
  ultimately show ?thesis by simp
qed

lemma page_aligned: "(q :: nat) mod 4096 = 0 \<Longrightarrow> q mod 16 = 0 \<and> (q + 8) mod 16 = 8 \<and> (q + 8) mod 8 = 0"
proof -
  assume "q mod 4096 = 0"
  then obtain k where "q = 16 * (256 * k)" by (auto simp: mod_eq_0_iff_dvd elim!: dvdE)
  then have "q mod 16 = 0" by simp
  then show ?thesis by presburger
qed

lemma fill_bin_rest:
  "fill_bin mmap0 st (int b) =
     (case mmap_call mmap0 st BIGBLOCK of (p, st1) \<Rightarrow>
        if p = NULL then Inr (NULL, st1)
        else rbind (fill_rest st1 (p + WASTE) (bin2size b) ((BIGBLOCK - WASTE) div (bin2size b + WORD) - 1))
          (\<lambda>st4. Inr (p + WASTE + WORD, st4)))"
  by (simp add: fill_bin_def fill_rest_def Let_def rbind_assoc split_def)

lemma block_foot:
  assumes "q mod 16 = 8" and "b < 8" and "p = q + 8 + i * (bin2size b + 8)"
  shows "0 < p" "p mod 16 = 0" "foot (p, bin2size b) = region (q + i * (bin2size b + 8)) (bin2size b + 8)"
proof -
  have p: "p = (q + 8) + 16 * (i * (b + 1))" by (simp add: assms(3) bin2size_eq algebra_simps)
  have "(q + 8) mod 16 = 0" using assms(1) by presburger
  then show "p mod 16 = 0" unfolding p mod_mult_self2 .
  show "0 < p" by (simp add: assms(3))
  show "foot (p, bin2size b) = region (q + i * (bin2size b + 8)) (bin2size b + 8)"
    using assms(2) by (simp add: foot_def assms(3) algebra_simps)
qed

lemma region_blocks_apart:
  assumes "i < (j :: nat)"
  shows "region (q + i * n) n \<inter> region (q + j * n) n = {}"
proof -
  have "Suc i * n \<le> j * n" using assms by (intro mult_le_mono1) simp
  then show ?thesis by (auto simp: region_iff)
qed

lemma region_mono: "q \<le> q' \<Longrightarrow> q' + n' \<le> q + n \<Longrightarrow> region q' n' \<subseteq> region q n"
  by (auto simp: region_iff)

lemma fill_bin_inv:
  assumes inv: "mem_inv st fl al" and mm: "mmap_ok mmap0" and b: "b < 8" "fl b = []"
  shows "fill_bin mmap0 st (int b) = Inr (NULL, st) \<or>
    (\<exists>p st' R ps. fill_bin mmap0 st (int b) = Inr (p, st') \<and> p \<noteq> NULL \<and> extends st st' R \<and>
       mem_inv (st'\<lparr>bin := (bin st)[b := p]\<rparr>) (fl(b := p # ps)) al)"
proof (cases "mmap0 st BIGBLOCK = NULL")
  case True
  then show ?thesis by (simp add: fill_bin_rest mmap_call_def)
next
  case False
  define p where "p = mmap0 st BIGBLOCK"
  let ?s = "bin2size b" and ?q = "p + 8"
  define k where "k = (BIGBLOCK - WASTE) div (?s + WORD) - 1"
  have big: "round_page BIGBLOCK = 1048576" "BIGBLOCK = 1048576" by (simp_all add: round_page_def BIGBLOCK_def)
  obtain st1 where st1: "mmap_call mmap0 st BIGBLOCK = (p, st1)" "extends st st1 (region p 1048576)" "p mod 4096 = 0"
    using mmap_call_extends[OF mm p_def[symmetric]] False big by (auto simp: p_def)
  have p0: "p \<noteq> NULL" using False by (simp add: p_def)
  have s: "?s + 8 = 16 * (b + 1)" "?s mod 8 = 0" "0 < ?s" by (simp_all add: bin2size_eq)
  have q: "?q mod 16 = 8" "?q mod 8 = 0" using page_aligned[OF st1(3)] by blast+
  have "?s + 8 \<le> 1048568" using b(1) s(1) by simp
  then have N: "1 \<le> 1048568 div (?s + 8)" by (simp add: div_greater_zero_iff Suc_le_eq)
  have k: "Suc k = 1048568 div (?s + 8)" using N by (simp add: k_def big)
  have size: "Suc k * (?s + 8) \<le> 1048568" unfolding k by simp
  have sub: "region ?q (Suc k * (?s + 8)) \<subseteq> region p 1048576" using size by (intro region_mono) simp_all
  then have "region ?q (Suc k * (?s + 8)) \<subseteq> dom (words st1)" using st1(2) unfolding extends_def by blast
  from fill_rest_correct[OF this q(2) s(2,3)] obtain st' where st': "fill_rest st1 ?q ?s k = Inr st'"
    "bin st' = bin st1" "dom (words st') = dom (words st1)"
    "\<forall>a. a \<notin> region ?q (Suc k * (?s + 8)) \<longrightarrow> words st' a = words st1 a"
    "flist (words st') (?q + 8) (block_list ?q ?s (Suc k))"
    "\<forall>a \<in> set (block_list ?q ?s (Suc k)). words st' (a - 8) = Some ?s" by blast
  have ex: "extends st st' (region p 1048576)"
    using st'(2-4) sub by (intro extends_trans[OF st1(2)]) auto
  have foot: "0 < a \<and> a mod 16 = 0 \<and> (\<exists>i < Suc k. a = ?q + 8 + i * (?s + 8) \<and>
      foot (a, ?s) = region (?q + i * (?s + 8)) (?s + 8) \<and> foot (a, ?s) \<subseteq> region p 1048576)"
    if a: "a \<in> set (block_list ?q ?s (Suc k))" for a
  proof -
    obtain i where i: "i < Suc k" "a = ?q + 8 + i * (?s + 8)" using a by (auto simp: set_block_list)
    have "Suc i * (?s + 8) \<le> Suc k * (?s + 8)" using i(1) by (intro mult_le_mono1) simp
    from order_trans[OF this size] have "i * (?s + 8) + (?s + 8) \<le> 1048568" by simp
    then have "p + 8 + i * (?s + 8) + (?s + 8) \<le> p + 1048576" by linarith
    then have "region (?q + i * (?s + 8)) (?s + 8) \<subseteq> region p 1048576"
      by (intro region_mono) linarith+
    then show ?thesis using i block_foot[OF q(1) b(1) i(2)] by blast
  qed
  have "mem_inv (st'\<lparr>bin := (bin st)[b := ?q + 8]\<rparr>) (fl(b := block_list ?q ?s (Suc k))) al"
  proof (rule add_free_blocks[OF inv ex b])
    show "flist (words st') (?q + 8) (block_list ?q ?s (Suc k))" by (rule st'(5))
    show "distinct (block_list ?q ?s (Suc k))"
      using s(3) by (auto simp: block_list_def distinct_map inj_on_def)
  next
    fix a assume a: "a \<in> set (block_list ?q ?s (Suc k))"
    show "foot (a, ?s) \<subseteq> region p 1048576" using foot[OF a] by blast
    show "block_ok st' (a, ?s)"
      using foot[OF a] st'(6) a ex b(1) unfolding extends_def block_ok_def by auto
    fix a' assume a': "a' \<in> set (block_list ?q ?s (Suc k))" "a \<noteq> a'"
    obtain i j where "a = ?q + 8 + i * (?s + 8)" "foot (a, ?s) = region (?q + i * (?s + 8)) (?s + 8)"
      "a' = ?q + 8 + j * (?s + 8)" "foot (a', ?s) = region (?q + j * (?s + 8)) (?s + 8)"
      using foot[OF a] foot[OF a'(1)] by blast
    moreover from this have "i \<noteq> j" using a'(2) by blast
    moreover from this have "i < j \<or> j < i" by linarith
    ultimately show "foot (a, ?s) \<inter> foot (a', ?s) = {}"
      using region_blocks_apart[of i j ?q "?s + 8"] region_blocks_apart[of j i ?q "?s + 8"] by auto
  qed
  moreover have "fill_bin mmap0 st (int b) = Inr (?q + 8, st')"
    using st1(1) st'(1) p0 by (simp add: fill_bin_rest k_def add.assoc)
  moreover have "?q + 8 \<noteq> NULL" by simp
  ultimately show ?thesis using ex unfolding block_list_Suc by blast
qed

text \<open>\<open>malloc_small\<close> takes the first block of the bin, which is filled when it is empty.\<close>

definition new_block :: "mm \<Rightarrow> (addr \<rightharpoonup> nat) \<Rightarrow> nat \<Rightarrow> addr \<Rightarrow> mm \<Rightarrow> bool" where
  "new_block st al n p st' \<longleftrightarrow> (\<exists>s fl'. al p = None \<and> n \<le> s \<and> p mod 16 = 0 \<and>
     mem_inv st' fl' (al(p \<mapsto> s)) \<and> (\<forall>a \<in> dom (words st). words st' a = words st a))"

lemma take_first:
  assumes inv: "mem_inv st fl al" and b: "b < 8" "n \<le> bin2size b" and fl: "fl b = p # ps"
    and old: "\<forall>a \<in> dom (words st0). words st a = words st0 a"
  shows "\<exists>st'. rbind (load_word st p) (\<lambda>q. rbind (set_bin st (int b) q) (\<lambda>st2. Inr (p, st2))) = Inr (p, st') \<and>
    p \<noteq> NULL \<and> new_block st0 al n p st'"
proof -
  note d = mem_invD[OF inv]
  obtain q where q: "words st p = Some q" and p0: "p \<noteq> NULL" using d(2)[OF b(1)] fl by auto
  have "(p, bin2size b) \<in> blocks fl al" using b(1) fl by (intro blocks_free) simp_all
  then have "p mod 16 = 0" using d(5) by (auto simp: block_ok_def)
  moreover have "al p = None" using d(4)[OF b(1)] fl by simp
  ultimately have "new_block st0 al n p (st\<lparr>bin := (bin st)[b := q]\<rparr>)"
    using pop_inv[OF inv b(1) fl q] b(2) old unfolding new_block_def by auto
  then show ?thesis using q p0 b(1) d(1) by (simp add: load_word_def set_bin_def)
qed

lemma malloc_small_inv:
  assumes inv: "mem_inv st fl al" and mm: "mmap_ok mmap0" and n: "n \<le> 120"
  shows "malloc_small mmap0 st n = Inr (NULL, st) \<or>
    (\<exists>p st'. malloc_small mmap0 st n = Inr (p, st') \<and> p \<noteq> NULL \<and> new_block st al n p st')"
proof -
  note d = mem_invD[OF inv]
  obtain b where b: "b < 8" "size2bin n = int b" "n \<le> bin2size b" using size2bin_small[OF n] by blast
  have bin: "aget (bin st) (int b) = Inr (bin st ! b)" using b(1) d(1) by simp
  show ?thesis
  proof (cases "fl b")
    case (Cons p ps)
    then have "bin st ! b = p" "p \<noteq> NULL" using d(2)[OF b(1)] by auto
    then show ?thesis
      using take_first[OF inv b(1,3) Cons] by (auto simp: malloc_small_def b(2) bin)
  next
    case Nil
    then have p0: "bin st ! b = NULL" using d(2)[OF b(1)] by simp
    from fill_bin_inv[OF inv mm b(1) Nil] show ?thesis
    proof (elim disjE exE conjE)
      assume "fill_bin mmap0 st (int b) = Inr (NULL, st)"
      then show ?thesis by (simp add: malloc_small_def b(2) bin p0)
    next
      fix p st1 R ps
      assume f: "fill_bin mmap0 st (int b) = Inr (p, st1)" "p \<noteq> NULL" "extends st st1 R"
        "mem_inv (st1\<lparr>bin := (bin st)[b := p]\<rparr>) (fl(b := p # ps)) al"
      let ?st1 = "st1\<lparr>bin := (bin st)[b := p]\<rparr>"
      have set: "set_bin st1 (int b) p = Inr ?st1"
        using f(3) b(1) d(1) by (simp add: set_bin_def extends_def)
      have same: "\<forall>a \<in> dom (words st). words ?st1 a = words st a"
        using f(3) unfolding extends_def by auto
      from take_first[OF f(4) b(1,3) fun_upd_same same] obtain st' where
        "rbind (load_word ?st1 p) (\<lambda>q. rbind (set_bin ?st1 (int b) q) (\<lambda>st2. Inr (p, st2))) = Inr (p, st')"
        "new_block st al n p st'" by blast
      then show ?thesis using f(1,2) set by (simp add: malloc_small_def b(2) bin p0)
    qed
  qed
qed

lemma foot_large: "120 < s \<Longrightarrow> foot (q + 16, s) = region q (round_page (s + 16))"
  by (simp add: foot_def)

lemma malloc_large_inv:
  assumes inv: "mem_inv st fl al" and mm: "mmap_ok mmap0" and n: "120 < n" "n + 16 < SIZE_MOD"
  shows "malloc_large mmap0 st n = Inr (NULL, st) \<or>
    (\<exists>p st'. malloc_large mmap0 st n = Inr (p, st') \<and> p \<noteq> NULL \<and> new_block st al n p st')"
proof (cases "mmap0 st (n + 16) = NULL")
  case True
  then show ?thesis using n(2) by (simp add: malloc_large_def mmap_call_def add.assoc)
next
  case False
  define q where "q = mmap0 st (n + 16)"
  obtain st1 where st1: "mmap_call mmap0 st (n + 16) = (q, st1)" "extends st st1 (region q (round_page (n + 16)))"
    "q mod 4096 = 0" "q \<noteq> NULL"
    using mmap_call_extends[OF mm q_def[symmetric]] False by (auto simp: q_def)
  have q8: "q mod 16 = 0" "(q + 8) mod 8 = 0" using page_aligned[OF st1(3)] by blast+
  have "q + 8 \<in> region q (round_page (n + 16))"
    using round_page_ge[of "n + 16"] q8(2) by (simp add: region_iff)
  from store_extends[OF st1(2) this, of n] obtain st' where st': "store_word st1 (q + 8) n = Inr st'"
    "words st' = (words st1)(q + 8 \<mapsto> n)" "extends st st' (foot (q + 16, n))"
    unfolding foot_large[OF n(1)] by blast
  have "foot (q + 16, n) \<subseteq> dom (words st')" using st'(3) unfolding extends_def by blast
  then have ok: "block_ok st' (q + 16, n)"
    using q8(1) st'(2) n by (simp add: block_ok_def)
  have "\<forall>a \<in> dom (words st). words st' a = words st a"
    using st'(3) unfolding extends_def by blast
  then have "new_block st al n (q + 16) st'"
    unfolding new_block_def using add_allocated[OF inv st'(3) ok] q8(1) by auto
  then show ?thesis
    using st1(1,4) st'(1) n(2) by (simp add: malloc_large_def add.assoc)
qed

lemma malloc_inv:
  assumes "mem_inv st fl al" and "mmap_ok mmap0" and "n + 16 < SIZE_MOD"
  shows "malloc mmap0 st n = Inr (NULL, st) \<or>
    (\<exists>p st'. malloc mmap0 st n = Inr (p, st') \<and> p \<noteq> NULL \<and> new_block st al n p st')"
  using malloc_small_inv[OF assms(1,2), of n] malloc_large_inv[OF assms(1,2), of n] assms(3)
  by (cases "n \<le> 120") (simp_all add: malloc_def bin2size_eq)

lemma round_page_small: "0 < m \<Longrightarrow> m \<le> 4096 \<Longrightarrow> round_page m = 4096"
proof -
  assume "0 < m" "m \<le> 4096"
  then have "(m + 4095) div 4096 = 1" by (intro div_nat_eqI) simp_all
  then show "round_page m = 4096" by (simp add: round_page_def)
qed

text \<open>When the size wraps around, a block of less than a page is returned for a huge request.\<close>

lemma malloc_overflow:
  assumes "mmap_ok mmap0" and "SIZE_MOD - 16 < n" and "n < SIZE_MOD" and "mmap0 st (n + 16 - SIZE_MOD) = q" "q \<noteq> NULL"
  shows "\<exists>st'. malloc mmap0 st n = Inr (q + 16, st') \<and> extends st st' (region q 4096)"
proof -
  have S: "136 < SIZE_MOD" by (simp add: SIZE_MOD_def)
  have wrap: "SIZE_MOD < n + 16" "n + 16 - SIZE_MOD < SIZE_MOD" using assms(2,3) S by linarith+
  have "(n + 16) mod SIZE_MOD = (n + 16 - SIZE_MOD) mod SIZE_MOD" using wrap(1) by (intro le_mod_geq) simp
  then have len: "(n + WASTE + WORD) mod SIZE_MOD = n + 16 - SIZE_MOD"
    using wrap(2) by (simp add: add.assoc)
  have large: "bin2size (BINS - 1) < n" using assms(2) S by (simp add: bin2size_eq)
  have "0 < n + 16 - SIZE_MOD" "n + 16 - SIZE_MOD \<le> 4096" using assms(2,3) by linarith+
  then have page: "round_page (n + 16 - SIZE_MOD) = 4096" by (rule round_page_small)
  note mm = mmap_call_extends[OF assms(1,4,5), unfolded page]
  obtain st1 where st1: "mmap_call mmap0 st (n + 16 - SIZE_MOD) = (q, st1)" "extends st st1 (region q 4096)"
    using mm(1) by (elim exE conjE) (rule that)
  have "(q + 8) mod 8 = 0" using page_aligned[OF mm(2)] by blast
  then have q8: "q + 8 \<in> region q 4096" by (simp add: region_iff)
  from store_extends[OF st1(2) this, of n] obtain st' where "store_word st1 (q + 8) n = Inr st'"
    "extends st st' (region q 4096)" by blast
  then show ?thesis
    unfolding malloc_def malloc_large_def len if_P[OF large] using st1(1) assms(5)
    by (simp add: add.assoc)
qed

lemma free_inv:
  assumes inv: "mem_inv st fl al" and al: "al p = Some s"
  shows "\<exists>st' fl'. free st p = Inr st' \<and> mem_inv st' fl' (al(p := None)) \<and>
    (\<forall>a. a \<notin> foot (p, s) \<longrightarrow> words st' a = words st a)"
proof -
  have x: "(p, s) \<in> blocks fl al" using al by (rule blocks_alloc)
  have ok: "block_ok st (p, s)" by (rule mem_invD(5)[OF inv x])
  then have p: "0 < p" "p mod 16 = 0" "words st (p - 8) = Some s" by (simp_all add: block_ok_def)
  show ?thesis
  proof (cases "s \<le> 120")
    case True
    have pf: "p \<in> foot (p, s)" using foot_data(1)[OF p(1,2)] ok True by (auto simp: block_ok_def)
    obtain st' b where f: "free_small st p s = Inr st'" "mem_inv st' (fl(b := p # fl b)) (al(p := None))"
      using free_small_inv[OF inv al True] by blast
    have "\<forall>a. a \<notin> foot (p, s) \<longrightarrow> words st' a = words st a"
      using f(1) pf by (auto simp: free_small_def store_word_def set_bin_def rbind_eq_Inr Let_def split: option.splits)
    then show ?thesis using f p(1,3) True by (auto simp: free_def load_word_def bin2size_eq)
  next
    case False
    let ?st' = "munmap st (p - 16) (s + 16)"
    have "s + 16 < SIZE_MOD" using ok False by (simp add: block_ok_def)
    then have run: "free st p = Inr ?st'"
      using p(1,3) False by (simp add: free_def load_word_def bin2size_eq add.assoc)
    have same: "words ?st' a = words st a" if "a \<notin> foot (p, s)" for a
      using that False by (simp add: munmap_def foot_def region_def)
    have "bin ?st' = bin st" by (simp add: munmap_def)
    from remove_allocated[OF inv al this same] show ?thesis using run same by blast
  qed
qed

text \<open>The block that was freed last in a bin is the next one it gives out.\<close>

lemma free_malloc_same:
  assumes inv: "mem_inv st fl al" and al: "al p = Some s" and s: "s \<le> 120"
    and n: "size2bin n = size2bin s"
  shows "\<exists>st1 st2. free st p = Inr st1 \<and> malloc mmap0 st1 n = Inr (p, st2) \<and> bin st2 = bin st"
proof -
  have ok: "block_ok st (p, s)" using mem_invD(5)[OF inv blocks_alloc[of al p s]] al by blast
  obtain st1 b where f: "free_small st p s = Inr st1" "b < 8" "s = bin2size b" "bin st1 ! b = p"
    "words st1 p = Some (bin st ! b)"
    using free_small_inv[OF inv al s] by blast
  have b: "size2bin s = int b" using f(2,3) by (simp add: size2bin_bin2size)
  have bin1: "bin st1 = (bin st)[b := p]" "length (bin st) = 8"
    using f(1) mem_invD(1)[OF inv] b f(2)
    by (auto simp: free_small_def store_word_def set_bin_def rbind_eq_Inr aset_eq_Inr Let_def split: option.splits)
  have "n \<le> 120" using n b size2bin_eq[of n] by (auto split: if_splits)
  then show ?thesis
    using f b n ok s bin1
    by (simp add: free_def load_word_def block_ok_def bin2size_eq malloc_def malloc_small_def set_bin_def)
qed

text \<open>The state before the first call.\<close>

definition mm_init :: mm where
  "mm_init = \<lparr>words = Map.empty, bin = replicate BINS NULL\<rparr>"

lemma mm_init_inv: "mem_inv mm_init (\<lambda>_. []) Map.empty"
  by (simp add: mem_inv_def mm_init_def blocks_def)

section \<open>An example\<close>

text \<open>An \<open>mmap\<close> that maps one request at 4096 in an empty memory, and refuses the others.\<close>

definition mmap_once :: mmap_fun where
  "mmap_once st len = (if 0 < len \<and> words st = Map.empty then 4096 else NULL)"

lemma mmap_once_ok: "mmap_ok mmap_once"
  by (simp add: mmap_ok_def mmap_once_def)

lemma malloc_once_not_null:
  assumes "n + 16 < SIZE_MOD"
  shows "malloc mmap_once mm_init n \<noteq> Inr (NULL, mm_init)"
proof (cases "n \<le> 120")
  case False
  then show ?thesis using assms
    by (auto simp: malloc_def malloc_large_def mmap_call_def mmap_once_def mm_init_def bin2size_eq elim!: rbind_InrE)
next
  case True
  then obtain b where b: "b < 8" "size2bin n = int b" using size2bin_small by blast
  have call: "\<exists>st1. mmap_call mmap_once mm_init BIGBLOCK = (4096, st1)"
    by (simp add: mmap_call_def mmap_once_def mm_init_def BIGBLOCK_def)
  have f: "fill_bin mmap_once mm_init (int b) \<noteq> Inr (NULL, st')" for st'
    using call unfolding fill_bin_rest by (auto elim!: rbind_InrE)
  obtain p st' where "fill_bin mmap_once mm_init (int b) = Inr (p, st')" "p \<noteq> NULL"
    using fill_bin_inv[OF mm_init_inv mmap_once_ok b(1)] f by blast
  then show ?thesis using b True
    by (auto simp: malloc_def malloc_small_def bin2size_eq mm_init_def aget_def Let_def elim!: rbind_InrE)
qed

lemma malloc_once:
  assumes "n + 16 < SIZE_MOD"
  shows "\<exists>p st s fl. malloc mmap_once mm_init n = Inr (p, st) \<and> p \<noteq> NULL \<and> n \<le> s \<and> mem_inv st fl [p \<mapsto> s]"
  using malloc_inv[OF mm_init_inv mmap_once_ok assms] malloc_once_not_null[OF assms]
  unfolding new_block_def by auto

end
