(* ===== verification/Tuple_Pair.thy ===== *)
theory Tuple_Pair
  imports Tuple_Laws
begin

text \<open>
  String tables meet the contract of a schema, and so does the pair schema of two schemas that
  meet it; hence every schema built from the three meets it.
\<close>

section \<open>String tables\<close>

definition scells_map :: "scell list \<Rightarrow> string \<rightharpoonup> addr" where
  "scells_map qs = map_of (map (\<lambda>q. (sc_key q, sc_value q)) qs)"

definition valid_str :: "key \<Rightarrow> bool" where
  "valid_str k \<longleftrightarrow> (case k of KStr _ \<Rightarrow> True | _ \<Rightarrow> False)"

definition str_map :: "scell list \<Rightarrow> key \<rightharpoonup> addr" where
  "str_map cs k = (case k of KStr s \<Rightarrow> scells_map cs s | _ \<Rightarrow> None)"

definition str_rep :: "theap \<Rightarrow> addr \<Rightarrow> addr set \<Rightarrow> (key \<rightharpoonup> addr) \<Rightarrow> bool" where
  "str_rep h p F m \<longleftrightarrow> p \<noteq> NULL \<and> F = {p} \<and>
     (\<exists>cs. objs h p = Some (StringList cs) \<and> distinct (map sc_key cs) \<and> m = str_map cs)"

lemma stringlist_scan_map: "stringlist_scan qs k = (case scells_map qs k of None \<Rightarrow> NULL | Some v \<Rightarrow> v)"
  by (induction qs) (auto simp: scells_map_def)

lemma insert_loop_correct:
  assumes "2 \<le> omem h"
  shows "\<exists>ds h'. stringlist_insert_loop h cs key v = Inr (stringlist_scan cs key, ds, h') \<and>
    objs h' = objs h \<and> ofresh h' = ofresh h \<and> omem h \<le> omem h' + 2 \<and>
    scells_map ds = (scells_map cs)(key \<mapsto> v) \<and>
    map sc_key ds = (if key \<in> sc_key ` set cs then map sc_key cs else map sc_key cs @ [key])"
proof (induction cs)
  case Nil
  then show ?case
    using assms by (simp add: new_scell_def copy_string_def malloc_cell_ok scells_map_def fun_eq_iff)
next
  case (Cons c cs)
  show ?case
  proof (cases "sc_key c = key")
    case True
    then show ?thesis by (auto simp: scells_map_def)
  next
    case False
    then show ?thesis using Cons.IH by (auto simp: scells_map_def fun_eq_iff)
  qed
qed

lemma stringlist_insert_correct:
  assumes "heap_ok h" and "str_rep h p F m" and "2 \<le> omem h"
  shows "\<exists>h'. stringlist_insert h p s v = Inr (case m (KStr s) of None \<Rightarrow> NULL | Some v \<Rightarrow> v, h') \<and>
    str_rep h' p F (m(KStr s \<mapsto> v)) \<and> table_step h F h' F 2"
proof -
  obtain cs where cs: "p \<noteq> NULL" "F = {p}" "objs h p = Some (StringList cs)" "distinct (map sc_key cs)"
    "m = str_map cs"
    using assms(2) by (auto simp: str_rep_def)
  obtain ds h1 where ins: "stringlist_insert_loop h cs s v = Inr (stringlist_scan cs s, ds, h1)"
      "objs h1 = objs h" "ofresh h1 = ofresh h" "omem h \<le> omem h1 + 2"
    and ds: "scells_map ds = (scells_map cs)(s \<mapsto> v)"
      "map sc_key ds = (if s \<in> sc_key ` set cs then map sc_key cs else map sc_key cs @ [s])"
    using insert_loop_correct[OF assms(3), of cs s v] by blast
  define h' where "h' = set_obj h1 p (StringList ds)"
  have "str_map ds = m(KStr s \<mapsto> v)"
    by (auto simp: fun_eq_iff str_map_def cs(5) ds(1) split: key.split)
  moreover have "distinct (map sc_key ds)" using cs(4) ds(2) by auto
  ultimately have "str_rep h' p F (m(KStr s \<mapsto> v))"
    using cs by (simp add: str_rep_def h'_def set_obj_def)
  moreover have "table_step h F h' F 2"
    unfolding h'_def cs(2) using assms(1) cs(3) ins(2-4) by (intro set_obj_step) auto
  moreover have "stringlist_insert h p s v = Inr (case m (KStr s) of None \<Rightarrow> NULL | Some v \<Rightarrow> v, h')"
    using ins(1) cs by (simp add: stringlist_insert_def cells_at_def stringlist_scan_map str_map_def h'_def)
  ultimately show ?thesis by blast
qed

interpretation stringlist: index_schema stringlist_schema valid_str str_rep 2
proof unfold_locales
  fix h p F m h'
  show "str_rep h' p F m" if "str_rep h p F m" "\<And>a. a \<in> F \<Longrightarrow> objs h' a = objs h a"
    using that by (auto simp: str_rep_def)
  show "p \<noteq> NULL \<and> p \<in> F \<and> F \<subseteq> dom (objs h)" if "str_rep h p F m"
    using that by (auto simp: str_rep_def)
  show "\<exists>p h' F. index_new stringlist_schema h = Inr (p, h') \<and> str_rep h' p F Map.empty \<and> table_step h {} h' F 2"
    if ok: "heap_ok h" and mem: "2 \<le> omem h"
  proof -
    obtain h' where h': "malloc_obj h (StringList []) = Inr (ofresh h, h')"
      "objs h' (ofresh h) = Some (StringList [])" "table_step h {} h' {ofresh h} 1"
      using malloc_obj_step[OF ok] mem by auto
    have "str_map [] = Map.empty"
      by (auto simp: str_map_def scells_map_def split: key.split)
    then have "str_rep h' (ofresh h) {ofresh h} Map.empty"
      using ok h'(2) by (auto simp: str_rep_def heap_ok_def)
    moreover have "table_step h {} h' {ofresh h} 2" using h'(3) by (simp add: table_step_def)
    ultimately show ?thesis
      using h'(1) by (auto simp: index_new_def stringlist_schema_def stringlist_new_def)
  qed
  show "index_lookup stringlist_schema h p k = Inr (case m k of None \<Rightarrow> NULL | Some v \<Rightarrow> v)"
    if "str_rep h p F m" "valid_str k" for k
    using that by (cases k) (auto simp: str_rep_def valid_str_def index_lookup_def stringlist_schema_def
        stringlist_lookup_method_def stringlist_lookup_def cells_at_def str_map_def stringlist_scan_map)
  show "\<exists>h' F'. index_insert stringlist_schema h p k v = Inr (case m k of None \<Rightarrow> NULL | Some v \<Rightarrow> v, h') \<and>
      str_rep h' p F' (m(k \<mapsto> v)) \<and> table_step h F h' F' 2"
    if ok: "heap_ok h" and rep: "str_rep h p F m" and k: "valid_str k" and mem: "2 \<le> omem h" for k v
  proof -
    obtain s where s: "k = KStr s" using k by (cases k) (auto simp: valid_str_def)
    show ?thesis
      using stringlist_insert_correct[OF ok rep mem, of s v]
      by (auto simp: s index_insert_def stringlist_schema_def stringlist_insert_method_def)
  qed
qed

section \<open>Pair schemas\<close>

definition valid_pair :: "(key \<Rightarrow> bool) \<Rightarrow> (key \<Rightarrow> bool) \<Rightarrow> key \<Rightarrow> bool" where
  "valid_pair va vb k \<longleftrightarrow> (case k of KPair ka kb \<Rightarrow> va ka \<and> vb kb | _ \<Rightarrow> False)"

definition pair_map :: "(key \<rightharpoonup> addr) \<Rightarrow> (key \<Rightarrow> key \<rightharpoonup> addr) \<Rightarrow> key \<rightharpoonup> addr" where
  "pair_map ma mb k = (case k of KPair ka kb \<Rightarrow> if ka \<in> dom ma then mb ka kb else None | _ \<Rightarrow> None)"

text \<open>
  The index of the first schema maps to indexes of the second, which share no object with it or
  with each other.
\<close>

definition pair_rep :: "(theap \<Rightarrow> addr \<Rightarrow> addr set \<Rightarrow> (key \<rightharpoonup> addr) \<Rightarrow> bool) \<Rightarrow>
    (theap \<Rightarrow> addr \<Rightarrow> addr set \<Rightarrow> (key \<rightharpoonup> addr) \<Rightarrow> bool) \<Rightarrow>
    theap \<Rightarrow> addr \<Rightarrow> addr set \<Rightarrow> (key \<rightharpoonup> addr) \<Rightarrow> bool" where
  "pair_rep ra rb h p F m \<longleftrightarrow> (\<exists>ma Fa G mb. ra h p Fa ma \<and>
     (\<forall>k \<in> dom ma. rb h (the (ma k)) (G k) (mb k) \<and> Fa \<inter> G k = {}) \<and>
     (\<forall>k \<in> dom ma. \<forall>l \<in> dom ma. k \<noteq> l \<longrightarrow> G k \<inter> G l = {}) \<and>
     F = Fa \<union> (\<Union>k \<in> dom ma. G k) \<and> m = pair_map ma mb)"

lemma pair_repE:
  assumes "pair_rep ra rb h p F m"
  obtains ma Fa G mb where "ra h p Fa ma"
    "\<forall>k \<in> dom ma. rb h (the (ma k)) (G k) (mb k) \<and> Fa \<inter> G k = {}"
    "\<forall>k \<in> dom ma. \<forall>l \<in> dom ma. k \<noteq> l \<longrightarrow> G k \<inter> G l = {}"
    "F = Fa \<union> (\<Union>k \<in> dom ma. G k)" "m = pair_map ma mb"
  using assms unfolding pair_rep_def by blast

lemma table_step_widen:
  assumes "table_step h G h' G' n" and "G \<subseteq> F"
  shows "table_step h F h' (F \<union> G') n"
  using assms unfolding table_step_def by blast

lemma table_step_mono: "table_step h F h' F' n \<Longrightarrow> n \<le> n' \<Longrightarrow> table_step h F h' F' n'"
  by (simp add: table_step_def)

lemma index_tuple:
  "index_new (tuple_mtable A B) = tuple_new_method A B"
  "index_insert (tuple_mtable A B) = tuple_insert_method A B"
  "index_lookup (tuple_mtable A B) = tuple_lookup_method A B"
  by (simp_all add: fun_eq_iff index_new_def index_insert_def index_lookup_def tuple_mtable_def)

locale pair_schema =
  a: index_schema A va ra ca + b: index_schema B vb rb cb
  for A va ra ca B vb rb cb
begin

lemma pair_insert_old:
  assumes ok: "heap_ok h" and ra: "ra h p Fa ma" and rb: "\<forall>k \<in> dom ma. rb h (the (ma k)) (G k) (mb k) \<and> Fa \<inter> G k = {}"
    and dis: "\<forall>k \<in> dom ma. \<forall>l \<in> dom ma. k \<noteq> l \<longrightarrow> G k \<inter> G l = {}"
    and q: "ma ka = Some q" and kb: "vb kb" and mem: "cb \<le> omem h"
  defines "F \<equiv> Fa \<union> (\<Union>k \<in> dom ma. G k)"
  shows "\<exists>h' F'. index_insert B h q kb v = Inr (case mb ka kb of None \<Rightarrow> NULL | Some v \<Rightarrow> v, h') \<and>
    pair_rep ra rb h' p F' ((pair_map ma mb)(KPair ka kb \<mapsto> v)) \<and> table_step h F h' F' cb"
proof -
  have ka: "ka \<in> dom ma" "the (ma ka) = q" using q by auto
  have rq: "rb h q (G ka) (mb ka)" using rb ka by auto
  obtain h' G' where ins: "index_insert B h q kb v = Inr (case mb ka kb of None \<Rightarrow> NULL | Some v \<Rightarrow> v, h')"
    "rb h' q G' ((mb ka)(kb \<mapsto> v))" "table_step h (G ka) h' G' cb"
    using b.insert_law[OF ok rq kb mem] by blast
  have fa: "ra h' p Fa ma" "Fa \<inter> G' = {}"
    using a.rep_step_other[OF ra ins(3) _ ok] rb ka by auto
  have other: "rb h' (the (ma k)) (G k) (mb k) \<and> G k \<inter> G' = {}" if k: "k \<in> dom ma" "k \<noteq> ka" for k
    using b.rep_step_other[OF _ ins(3) _ ok, of "the (ma k)" "G k" "mb k"] rb dis k ka(1) by blast
  have "pair_rep ra rb h' p (F \<union> G') ((pair_map ma mb)(KPair ka kb \<mapsto> v))"
    unfolding pair_rep_def
  proof (intro exI conjI)
    show "ra h' p Fa ma" by (rule fa)
    show "\<forall>k \<in> dom ma. rb h' (the (ma k)) ((G(ka := G')) k) ((mb(ka := (mb ka)(kb \<mapsto> v))) k) \<and> Fa \<inter> (G(ka := G')) k = {}"
      using other ins(2) fa(2) rb ka by auto
    show "\<forall>k \<in> dom ma. \<forall>l \<in> dom ma. k \<noteq> l \<longrightarrow> (G(ka := G')) k \<inter> (G(ka := G')) l = {}"
      using other dis by auto
    have "G ka \<subseteq> G'" using table_stepD(3)[OF ins(3)] .
    then show "F \<union> G' = Fa \<union> (\<Union>k \<in> dom ma. (G(ka := G')) k)"
      using ka(1) unfolding F_def by (auto split: if_splits)
    show "(pair_map ma mb)(KPair ka kb \<mapsto> v) = pair_map ma (mb(ka := (mb ka)(kb \<mapsto> v)))"
      using ka(1) by (auto simp: pair_map_def fun_eq_iff split: key.split)
  qed
  moreover have "table_step h F h' (F \<union> G') cb"
    using ka(1) unfolding F_def by (intro table_step_widen[OF ins(3)]) auto
  ultimately show ?thesis using ins(1) by blast
qed

lemma pair_insert_new:
  assumes ok: "heap_ok h" and ra: "ra h p Fa ma" and rb: "\<forall>k \<in> dom ma. rb h (the (ma k)) (G k) (mb k) \<and> Fa \<inter> G k = {}"
    and dis: "\<forall>k \<in> dom ma. \<forall>l \<in> dom ma. k \<noteq> l \<longrightarrow> G k \<inter> G l = {}"
    and ka: "ma ka = None" "va ka" and mem: "ca + cb \<le> omem h"
  defines "F \<equiv> Fa \<union> (\<Union>k \<in> dom ma. G k)"
  shows "\<exists>q h1 h2 Fa' G1. index_new B h = Inr (q, h1) \<and> index_insert A h1 p ka q = Inr (NULL, h2) \<and>
    ra h2 p Fa' (ma(ka \<mapsto> q)) \<and>
    (\<forall>k \<in> dom (ma(ka \<mapsto> q)). rb h2 (the ((ma(ka \<mapsto> q)) k)) ((G(ka := G1)) k) ((mb(ka := Map.empty)) k) \<and>
       Fa' \<inter> (G(ka := G1)) k = {}) \<and>
    (\<forall>k \<in> dom (ma(ka \<mapsto> q)). \<forall>l \<in> dom (ma(ka \<mapsto> q)). k \<noteq> l \<longrightarrow> (G(ka := G1)) k \<inter> (G(ka := G1)) l = {}) \<and>
    table_step h F h2 (Fa' \<union> (\<Union>k \<in> dom (ma(ka \<mapsto> q)). (G(ka := G1)) k)) (cb + ca)"
proof -
  have mem': "cb \<le> omem h" using mem by simp
  obtain q h1 G1 where new: "index_new B h = Inr (q, h1)" "rb h1 q G1 Map.empty" "table_step h {} h1 G1 cb"
    using b.new_law[OF ok mem'] by blast
  have ok1: "heap_ok h1" using table_stepD(1)[OF new(3)] .
  have fa1: "ra h1 p Fa ma" "Fa \<inter> G1 = {}" using a.rep_step_other[OF ra new(3) _ ok] by auto
  have mem1: "ca \<le> omem h1" using table_stepD(6)[OF new(3)] mem by simp
  obtain h2 Fa' where ins: "index_insert A h1 p ka q = Inr (NULL, h2)"
    "ra h2 p Fa' (ma(ka \<mapsto> q))" "table_step h1 Fa h2 Fa' ca"
    using a.insert_law[OF ok1 fa1(1) ka(2) mem1, of q] ka(1) by auto
  have q2: "rb h2 q G1 Map.empty" "G1 \<inter> Fa' = {}"
    using b.rep_step_other[OF new(2) ins(3) _ ok1] fa1(2) by auto
  have other: "rb h2 (the (ma k)) (G k) (mb k) \<and> G k \<inter> G1 = {} \<and> G k \<inter> Fa' = {}" if k: "k \<in> dom ma" for k
  proof -
    have r: "rb h (the (ma k)) (G k) (mb k)" "Fa \<inter> G k = {}" using rb k by auto
    have r1: "rb h1 (the (ma k)) (G k) (mb k)" "G k \<inter> G1 = {}"
      using b.rep_step_other[OF r(1) new(3) _ ok] by auto
    then show ?thesis using b.rep_step_other[OF r1(1) ins(3) _ ok1] r(2) by auto
  qed
  have "table_step h F h2 (Fa' \<union> (\<Union>k \<in> dom (ma(ka \<mapsto> q)). (G(ka := G1)) k)) (cb + ca)"
  proof -
    have "table_step h1 (F \<union> G1) h2 (F \<union> G1 \<union> Fa') ca"
      by (rule table_step_widen[OF ins(3)]) (auto simp: F_def)
    from table_step_trans[OF table_step_widen[OF new(3), of F] this]
    have "table_step h F h2 (F \<union> G1 \<union> Fa') (cb + ca)" by simp
    moreover have "F \<union> G1 \<union> Fa' = Fa' \<union> (\<Union>k \<in> dom (ma(ka \<mapsto> q)). (G(ka := G1)) k)"
      using table_stepD(3)[OF ins(3)] ka(1) by (auto simp: F_def split: if_splits)
    ultimately show ?thesis by simp
  qed
  moreover have "\<forall>k \<in> dom (ma(ka \<mapsto> q)). rb h2 (the ((ma(ka \<mapsto> q)) k)) ((G(ka := G1)) k) ((mb(ka := Map.empty)) k) \<and>
       Fa' \<inter> (G(ka := G1)) k = {}"
    using other q2 by auto
  moreover have "\<forall>k \<in> dom (ma(ka \<mapsto> q)). \<forall>l \<in> dom (ma(ka \<mapsto> q)). k \<noteq> l \<longrightarrow> (G(ka := G1)) k \<inter> (G(ka := G1)) l = {}"
    using other dis by auto
  ultimately show ?thesis using new(1) ins(1,2) by blast
qed

lemma pair_insert_law:
  assumes ok: "heap_ok h" and rep: "pair_rep ra rb h p F m" and k: "valid_pair va vb k"
    and mem: "ca + 2 * cb \<le> omem h"
  shows "\<exists>h' F'. index_insert (tuple_mtable A B) h p k v = Inr (case m k of None \<Rightarrow> NULL | Some v \<Rightarrow> v, h') \<and>
    pair_rep ra rb h' p F' (m(k \<mapsto> v)) \<and> table_step h F h' F' (ca + 2 * cb)"
proof -
  obtain ka kb where kk: "k = KPair ka kb" "va ka" "vb kb" using k by (cases k) (auto simp: valid_pair_def)
  obtain ma Fa G mb where r: "ra h p Fa ma"
    "\<forall>k \<in> dom ma. rb h (the (ma k)) (G k) (mb k) \<and> Fa \<inter> G k = {}"
    "\<forall>k \<in> dom ma. \<forall>l \<in> dom ma. k \<noteq> l \<longrightarrow> G k \<inter> G l = {}"
    "F = Fa \<union> (\<Union>k \<in> dom ma. G k)" "m = pair_map ma mb"
    using rep unfolding pair_rep_def by blast
  have look: "index_lookup A h p ka = Inr (case ma ka of None \<Rightarrow> NULL | Some v \<Rightarrow> v)"
    by (rule a.lookup_law[OF r(1) kk(2)])
  show ?thesis
  proof (cases "ma ka")
    case (Some q)
    have "rb h q (G ka) (mb ka)" using r(2) Some by force
    then have q: "q \<noteq> NULL" using b.rep_owns by blast
    have mem': "cb \<le> omem h" using mem by simp
    obtain h' F' where h': "index_insert B h q kb v = Inr (case mb ka kb of None \<Rightarrow> NULL | Some v \<Rightarrow> v, h')"
      "pair_rep ra rb h' p F' (m(k \<mapsto> v))" "table_step h F h' F' cb"
      using pair_insert_old[OF ok r(1-3) Some kk(3) mem', of v, folded r(4,5) kk(1)] by blast
    moreover have "m k = mb ka kb" using Some by (auto simp: r(5) kk(1) pair_map_def)
    moreover have "table_step h F h' F' (ca + 2 * cb)" by (rule table_step_mono[OF h'(3)]) simp
    moreover have "index_insert (tuple_mtable A B) h p k v = index_insert B h q kb v"
      using look Some q by (simp add: index_tuple tuple_insert_method_def kk(1))
    ultimately show ?thesis by auto
  next
    case None
    have mem': "ca + cb \<le> omem h" using mem by simp
    obtain q h1 h2 Fa' G1 where s: "index_new B h = Inr (q, h1)" "index_insert A h1 p ka q = Inr (NULL, h2)"
      "ra h2 p Fa' (ma(ka \<mapsto> q))"
      "\<forall>k \<in> dom (ma(ka \<mapsto> q)). rb h2 (the ((ma(ka \<mapsto> q)) k)) ((G(ka := G1)) k) ((mb(ka := Map.empty)) k) \<and>
         Fa' \<inter> (G(ka := G1)) k = {}"
      "\<forall>k \<in> dom (ma(ka \<mapsto> q)). \<forall>l \<in> dom (ma(ka \<mapsto> q)). k \<noteq> l \<longrightarrow> (G(ka := G1)) k \<inter> (G(ka := G1)) l = {}"
      "table_step h F h2 (Fa' \<union> (\<Union>k \<in> dom (ma(ka \<mapsto> q)). (G(ka := G1)) k)) (cb + ca)"
      using pair_insert_new[OF ok r(1-3) None kk(2) mem', folded r(4)] by (elim exE conjE) (rule that)
    have ok2: "heap_ok h2" and mem2: "cb \<le> omem h2"
      using table_stepD(1,6)[OF s(6)] mem by simp_all
    have absent: "(case (mb(ka := Map.empty)) ka kb of None \<Rightarrow> NULL | Some v \<Rightarrow> v) = NULL" by simp
    obtain h' F' where h': "index_insert B h2 q kb v = Inr (NULL, h')"
      "pair_rep ra rb h' p F' ((pair_map (ma(ka \<mapsto> q)) (mb(ka := Map.empty)))(KPair ka kb \<mapsto> v))"
      "table_step h2 (Fa' \<union> (\<Union>k \<in> dom (ma(ka \<mapsto> q)). (G(ka := G1)) k)) h' F' cb"
      using pair_insert_old[OF ok2 s(3-5) fun_upd_same kk(3) mem2, of v, unfolded absent] by blast
    have "pair_map (ma(ka \<mapsto> q)) (mb(ka := Map.empty)) = m"
      using None by (auto simp: r(5) pair_map_def fun_eq_iff split: key.split)
    moreover have "m k = None" using None by (auto simp: r(5) kk(1) pair_map_def)
    moreover have "table_step h F h' F' (ca + 2 * cb)"
      by (rule table_step_mono[OF table_step_trans[OF s(6) h'(3)]]) simp
    moreover have "index_insert (tuple_mtable A B) h p k v = Inr (NULL, h')"
      using look None s(1,2) h'(1)
      by (simp add: index_tuple tuple_insert_method_def kk(1))
    ultimately show ?thesis using h'(2) kk(1) by (intro exI[of _ h'] exI[of _ F']) simp
  qed
qed

lemma pair_lookup_law:
  assumes rep: "pair_rep ra rb h p F m" and k: "valid_pair va vb k"
  shows "index_lookup (tuple_mtable A B) h p k = Inr (case m k of None \<Rightarrow> NULL | Some v \<Rightarrow> v)"
proof -
  obtain ka kb where kk: "k = KPair ka kb" "va ka" "vb kb" using k by (cases k) (auto simp: valid_pair_def)
  obtain ma Fa G mb where r: "ra h p Fa ma"
    "\<forall>k \<in> dom ma. rb h (the (ma k)) (G k) (mb k) \<and> Fa \<inter> G k = {}" "m = pair_map ma mb"
    using rep unfolding pair_rep_def by blast
  note simps = index_tuple tuple_lookup_method_def kk(1)
    a.lookup_law[OF r(1) kk(2)] r(3) pair_map_def
  show ?thesis
  proof (cases "ma ka")
    case None
    then show ?thesis by (simp add: simps domIff)
  next
    case (Some q)
    have rq: "rb h q (G ka) (mb ka)" using r(2) Some by force
    show ?thesis
      using Some b.rep_owns[OF rq] b.lookup_law[OF rq kk(3)] by (simp add: simps domIff)
  qed
qed

end

sublocale pair_schema \<subseteq> pair: index_schema "tuple_mtable A B" "valid_pair va vb" "pair_rep ra rb" "ca + 2 * cb"
proof unfold_locales
  fix h p F m h'
  show "pair_rep ra rb h' p F m" if rep: "pair_rep ra rb h p F m" and same: "\<And>a. a \<in> F \<Longrightarrow> objs h' a = objs h a"
  proof -
    obtain ma Fa G mb where r: "ra h p Fa ma"
      "\<forall>k \<in> dom ma. rb h (the (ma k)) (G k) (mb k) \<and> Fa \<inter> G k = {}"
      "\<forall>k \<in> dom ma. \<forall>l \<in> dom ma. k \<noteq> l \<longrightarrow> G k \<inter> G l = {}"
      "F = Fa \<union> (\<Union>k \<in> dom ma. G k)" "m = pair_map ma mb"
      using rep unfolding pair_rep_def by blast
    have "ra h' p Fa ma" using same r(4) by (intro a.rep_frame[OF r(1)]) auto
    moreover have "rb h' (the (ma k)) (G k) (mb k)" if "k \<in> dom ma" for k
    proof (rule b.rep_frame)
      show "rb h (the (ma k)) (G k) (mb k)" using r(2) that by blast
      show "objs h' x = objs h x" if x: "x \<in> G k" for x
        using same[of x] x \<open>k \<in> dom ma\<close> r(4) by blast
    qed
    ultimately show ?thesis using r(2-5) unfolding pair_rep_def by blast
  qed
  show "p \<noteq> NULL \<and> p \<in> F \<and> F \<subseteq> dom (objs h)" if rep: "pair_rep ra rb h p F m"
  proof -
    obtain ma Fa G mb where r: "ra h p Fa ma"
      "\<forall>k \<in> dom ma. rb h (the (ma k)) (G k) (mb k) \<and> Fa \<inter> G k = {}"
      "F = Fa \<union> (\<Union>k \<in> dom ma. G k)"
      by (rule pair_repE[OF rep]) (rule that)
    have "G k \<subseteq> dom (objs h)" if "k \<in> dom ma" for k
      using b.rep_owns[of h "the (ma k)" "G k" "mb k"] r(2) that by simp
    then show ?thesis using a.rep_owns[OF r(1)] r(3) by auto
  qed
  show "\<exists>p h' F. index_new (tuple_mtable A B) h = Inr (p, h') \<and> pair_rep ra rb h' p F Map.empty \<and>
      table_step h {} h' F (ca + 2 * cb)"
    if ok: "heap_ok h" and mem: "ca + 2 * cb \<le> omem h"
  proof -
    have mem': "ca \<le> omem h" using mem by simp
    obtain p h' F where new: "index_new A h = Inr (p, h')" "ra h' p F Map.empty" "table_step h {} h' F ca"
      using a.new_law[OF ok mem'] by blast
    have "pair_map Map.empty (\<lambda>_. Map.empty) = Map.empty" by (auto simp: pair_map_def fun_eq_iff split: key.split)
    then have "pair_rep ra rb h' p F Map.empty"
      using new(2) unfolding pair_rep_def by (intro exI[of _ Map.empty] exI[of _ F] exI[of _ "\<lambda>_. {}"] exI[of _ "\<lambda>_. Map.empty"]) simp
    moreover have "table_step h {} h' F (ca + 2 * cb)" by (rule table_step_mono[OF new(3)]) simp
    ultimately show ?thesis using new(1) by (auto simp: index_tuple tuple_new_method_def)
  qed
  show "index_lookup (tuple_mtable A B) h p k = Inr (case m k of None \<Rightarrow> NULL | Some v \<Rightarrow> v)"
    if "pair_rep ra rb h p F m" "valid_pair va vb k" for k
    by (rule pair_lookup_law[OF that])
  show "\<exists>h' F'. index_insert (tuple_mtable A B) h p k v = Inr (case m k of None \<Rightarrow> NULL | Some v \<Rightarrow> v, h') \<and>
      pair_rep ra rb h' p F' (m(k \<mapsto> v)) \<and> table_step h F h' F' (ca + 2 * cb)"
    if "heap_ok h" "pair_rep ra rb h p F m" "valid_pair va vb k" "ca + 2 * cb \<le> omem h" for k v
    by (rule pair_insert_law[OF that])
qed

context pair_schema
begin

lemma tuple_contract: "index_schema (tuple_mtable A B) (valid_pair va vb) (pair_rep ra rb) (ca + 2 * cb)"
  by (rule pair.index_schema_axioms)

end

interpretation pairs: pair_schema inthash_schema valid_int int_rep 1 stringlist_schema valid_str str_rep 2
  by unfold_locales

section \<open>All schemas\<close>

text \<open>The schemas a client can build, with what they represent and how much memory they need.\<close>

datatype shape = Int_shape | Str_shape | Pair_shape shape shape

fun schema_of :: "shape \<Rightarrow> schema_t" where
  "schema_of Int_shape = inthash_schema"
| "schema_of Str_shape = stringlist_schema"
| "schema_of (Pair_shape a b) = tuple_mtable (schema_of a) (schema_of b)"

fun valid_key :: "shape \<Rightarrow> key \<Rightarrow> bool" where
  "valid_key Int_shape = valid_int"
| "valid_key Str_shape = valid_str"
| "valid_key (Pair_shape a b) = valid_pair (valid_key a) (valid_key b)"

fun shape_rep :: "shape \<Rightarrow> theap \<Rightarrow> addr \<Rightarrow> addr set \<Rightarrow> (key \<rightharpoonup> addr) \<Rightarrow> bool" where
  "shape_rep Int_shape = int_rep"
| "shape_rep Str_shape = str_rep"
| "shape_rep (Pair_shape a b) = pair_rep (shape_rep a) (shape_rep b)"

fun shape_cost :: "shape \<Rightarrow> nat" where
  "shape_cost Int_shape = 1"
| "shape_cost Str_shape = 2"
| "shape_cost (Pair_shape a b) = shape_cost a + 2 * shape_cost b"

lemma schema_of_contract: "index_schema (schema_of d) (valid_key d) (shape_rep d) (shape_cost d)"
proof (induction d)
  case Int_shape
  then show ?case using inthash.index_schema_axioms by simp
next
  case Str_shape
  then show ?case using stringlist.index_schema_axioms by simp
next
  case (Pair_shape a b)
  then have "pair_schema (schema_of a) (valid_key a) (shape_rep a) (shape_cost a)
    (schema_of b) (valid_key b) (shape_rep b) (shape_cost b)"
    by (simp add: pair_schema_def)
  then show ?case using pair_schema.tuple_contract by simp
qed

end
