(* ===== verification/Fifo.thy ===== *)
theory Fifo
  imports Prelude
begin

text \<open>
  The queue \<open>queue2.c\<close>: a linked list of elements with pointers to its first and last one. The
  elements belong to the client, who allocates them with \<open>make_elem\<close>. The link of an element that
  was never put into a queue is not initialised (\<open>None\<close>).
\<close>

section \<open>Model\<close>

record elem =
  elem_data :: addr
  elem_next :: "addr option"

record fifo =
  q_head :: addr
  q_tail :: addr

record qheap =
  fifos :: "addr \<rightharpoonup> fifo"
  elems :: "addr \<rightharpoonup> elem"
  qfresh :: addr
  qmem :: nat

definition fifo_at :: "qheap \<Rightarrow> addr \<Rightarrow> fifo result" where
  "fifo_at h a = (if a = NULL then Inl NullDeref
                  else case fifos h a of None \<Rightarrow> Inl WildPtr | Some q \<Rightarrow> Inr q)"

definition elem_at :: "qheap \<Rightarrow> addr \<Rightarrow> elem result" where
  "elem_at h a = (if a = NULL then Inl NullDeref
                  else case elems h a of None \<Rightarrow> Inl WildPtr | Some e \<Rightarrow> Inr e)"

definition set_elem :: "qheap \<Rightarrow> addr \<Rightarrow> elem \<Rightarrow> qheap" where
  "set_elem h a e = h\<lparr>elems := (elems h)(a \<mapsto> e)\<rparr>"

definition set_fifo :: "qheap \<Rightarrow> addr \<Rightarrow> fifo \<Rightarrow> qheap" where
  "set_fifo h a q = h\<lparr>fifos := (fifos h)(a \<mapsto> q)\<rparr>"

definition fifo_new :: "qheap \<Rightarrow> (addr \<times> qheap) result" where
  "fifo_new h =
     (if qmem h = 0 then Inl ExitFailure
      else Inr (qfresh h, h\<lparr>fifos := (fifos h)(qfresh h \<mapsto> \<lparr>q_head = NULL, q_tail = NULL\<rparr>),
                           qfresh := Suc (qfresh h), qmem := qmem h - 1\<rparr>))"

definition fifo_put :: "qheap \<Rightarrow> addr \<Rightarrow> addr \<Rightarrow> qheap result" where
  "fifo_put h Q p =
     rbind (elem_at h p) (\<lambda>e. let h1 = set_elem h p (e\<lparr>elem_next := Some NULL\<rparr>) in
     rbind (fifo_at h1 Q) (\<lambda>q.
       if q_head q = NULL then Inr (set_fifo h1 Q \<lparr>q_head = p, q_tail = p\<rparr>)
       else rbind (elem_at h1 (q_tail q)) (\<lambda>t.
         Inr (set_fifo (set_elem h1 (q_tail q) (t\<lparr>elem_next := Some p\<rparr>)) Q (q\<lparr>q_tail := p\<rparr>)))))"

definition fifo_empty :: "qheap \<Rightarrow> addr \<Rightarrow> bool result" where
  "fifo_empty h Q = rbind (fifo_at h Q) (\<lambda>q. Inr (q_head q = NULL))"

definition fifo_get :: "qheap \<Rightarrow> addr \<Rightarrow> (addr \<times> qheap) result" where
  "fifo_get h Q =
     rbind (fifo_at h Q) (\<lambda>q.
     rbind (elem_at h (q_head q)) (\<lambda>e.
       case elem_next e of
         None \<Rightarrow> Inl Uninit
       | Some n \<Rightarrow> Inr (q_head q, set_fifo h Q (q\<lparr>q_head := n\<rparr>))))"

definition make_elem :: "qheap \<Rightarrow> addr \<Rightarrow> (addr \<times> qheap) result" where
  "make_elem h data =
     (if qmem h = 0 then Inl ExitFailure
      else Inr (qfresh h, h\<lparr>elems := (elems h)(qfresh h \<mapsto> \<lparr>elem_data = data, elem_next = None\<rparr>),
                           qfresh := Suc (qfresh h), qmem := qmem h - 1\<rparr>))"

section \<open>A fifo is a list\<close>

text \<open>The elements from the pointer \<open>p\<close> to NULL.\<close>

fun elist :: "(addr \<rightharpoonup> elem) \<Rightarrow> addr \<Rightarrow> addr list \<Rightarrow> bool" where
  "elist m p [] \<longleftrightarrow> p = NULL"
| "elist m p (a # as) \<longleftrightarrow> p = a \<and> a \<noteq> NULL \<and>
     (\<exists>e n. m a = Some e \<and> elem_next e = Some n \<and> elist m n as)"

text \<open>The tail pointer counts only while the queue is not empty; \<open>fifo_get\<close> does not reset it.\<close>

definition fifo_rep :: "qheap \<Rightarrow> addr \<Rightarrow> addr list \<Rightarrow> bool" where
  "fifo_rep h Q es \<longleftrightarrow> Q \<noteq> NULL \<and> distinct es \<and>
     (\<exists>q. fifos h Q = Some q \<and> elist (elems h) (q_head q) es \<and> (es \<noteq> [] \<longrightarrow> q_tail q = last es))"

definition data_of :: "qheap \<Rightarrow> addr list \<Rightarrow> addr list" where
  "data_of h es = map (\<lambda>a. elem_data (the (elems h a))) es"

definition qheap_ok :: "qheap \<Rightarrow> bool" where
  "qheap_ok h \<longleftrightarrow> 0 < qfresh h \<and> (\<forall>a \<in> dom (elems h) \<union> dom (fifos h). 0 < a \<and> a < qfresh h)"

text \<open>An operation on \<open>Q\<close> with the elements \<open>E\<close> leaves every other queue and element alone.\<close>

definition q_step :: "qheap \<Rightarrow> addr \<Rightarrow> addr set \<Rightarrow> qheap \<Rightarrow> bool" where
  "q_step h Q E h' \<longleftrightarrow> qheap_ok h' \<and> (\<forall>a. a \<noteq> Q \<longrightarrow> fifos h' a = fifos h a) \<and>
     (\<forall>a. a \<notin> E \<longrightarrow> elems h' a = elems h a) \<and> qmem h' = qmem h \<and> qfresh h' = qfresh h"

lemma elist_frame: "elist m p es \<Longrightarrow> (\<And>a. a \<in> set es \<Longrightarrow> m' a = m a) \<Longrightarrow> elist m' p es"
  by (induction es arbitrary: p) auto

lemma elist_dom: "elist m p es \<Longrightarrow> a \<in> set es \<Longrightarrow> a \<noteq> NULL \<and> a \<in> dom m"
  by (induction es arbitrary: p) auto

lemma elist_snoc:
  assumes "elist m p (as @ [t])" and "distinct (as @ [t])" and "e \<notin> set (as @ [t])" and "e \<noteq> NULL"
    and "m t = Some te"
  shows "elist (m(e \<mapsto> \<lparr>elem_data = d, elem_next = Some NULL\<rparr>, t \<mapsto> te\<lparr>elem_next := Some e\<rparr>)) p (as @ [t, e])"
  using assms(1-3)
proof (induction as arbitrary: p)
  case Nil
  then show ?case using assms(4,5) by auto
next
  case (Cons a as)
  obtain x n where x: "p = a" "a \<noteq> NULL" "m a = Some x" "elem_next x = Some n" "elist m n (as @ [t])"
    using Cons.prems(1) by auto
  have ne: "a \<noteq> t" "a \<noteq> e" using Cons.prems(2,3) by auto
  define m' where "m' = m(e \<mapsto> \<lparr>elem_data = d, elem_next = Some NULL\<rparr>, t \<mapsto> te\<lparr>elem_next := Some e\<rparr>)"
  have "distinct (as @ [t])" "e \<notin> set (as @ [t])" using Cons.prems by simp_all
  from Cons.IH[OF x(5) this] have "elist m' n (as @ [t, e])" by (simp only: m'_def)
  moreover have "m' a = Some x" using x ne by (simp add: m'_def)
  ultimately have "elist m' p ((a # as) @ [t, e])" using x by simp
  then show ?case by (simp only: m'_def)
qed

lemma fifo_rep_frame:
  assumes "fifo_rep h Q es" and "fifos h' Q = fifos h Q" and "\<And>a. a \<in> set es \<Longrightarrow> elems h' a = elems h a"
  shows "fifo_rep h' Q es" "data_of h' es = data_of h es"
  using assms elist_frame[of "elems h" _ es "elems h'"] unfolding fifo_rep_def data_of_def by auto

lemma fifo_new_rep:
  assumes "qheap_ok h" and "0 < qmem h"
  shows "\<exists>h'. fifo_new h = Inr (qfresh h, h') \<and> fifo_rep h' (qfresh h) [] \<and> qheap_ok h' \<and>
    elems h' = elems h \<and> (\<forall>a. a \<noteq> qfresh h \<longrightarrow> fifos h' a = fifos h a) \<and> Suc (qmem h') = qmem h \<and>
    qfresh h' = Suc (qfresh h)"
  using assms by (auto simp: fifo_new_def fifo_rep_def qheap_ok_def less_Suc_eq)

lemma make_elem_rep:
  assumes "qheap_ok h" and "0 < qmem h"
  shows "\<exists>h'. make_elem h d = Inr (qfresh h, h') \<and> elems h' (qfresh h) = Some \<lparr>elem_data = d, elem_next = None\<rparr> \<and>
    qheap_ok h' \<and> fifos h' = fifos h \<and> (\<forall>a. a \<noteq> qfresh h \<longrightarrow> elems h' a = elems h a) \<and> Suc (qmem h') = qmem h \<and>
    qfresh h' = Suc (qfresh h)"
  using assms by (auto simp: make_elem_def qheap_ok_def less_Suc_eq)

lemma fifo_put_rep:
  assumes ok: "qheap_ok h" and rep: "fifo_rep h Q es" and p: "elems h p = Some e" "p \<notin> set es"
  shows "\<exists>h'. fifo_put h Q p = Inr h' \<and> fifo_rep h' Q (es @ [p]) \<and>
    data_of h' (es @ [p]) = data_of h es @ [elem_data e] \<and> q_step h Q (insert p (set es)) h'"
proof -
  obtain q where q: "Q \<noteq> NULL" "fifos h Q = Some q" "elist (elems h) (q_head q) es" "distinct es"
    "es \<noteq> [] \<longrightarrow> q_tail q = last es"
    using rep by (auto simp: fifo_rep_def)
  have p0: "p \<noteq> NULL" using ok p(1) by (auto simp: qheap_ok_def)
  show ?thesis
  proof (cases es rule: rev_cases)
    case Nil
    then have h0: "q_head q = NULL" using q(3) by simp
    let ?h = "set_fifo (set_elem h p (e\<lparr>elem_next := Some NULL\<rparr>)) Q \<lparr>q_head = p, q_tail = p\<rparr>"
    have "fifo_put h Q p = Inr ?h"
      using p p0 q h0 by (simp add: fifo_put_def elem_at_def fifo_at_def set_elem_def)
    then show ?thesis
      using Nil ok p p0 q
      by (auto simp: fifo_rep_def data_of_def q_step_def qheap_ok_def set_elem_def set_fifo_def)
  next
    case (snoc as t)
    have tl: "q_tail q = t" using q(5) snoc by simp
    have hd: "q_head q \<noteq> NULL" using q(3) snoc by (cases as) auto
    have t: "t \<noteq> NULL" "t \<noteq> p" using elist_dom[OF q(3)] snoc p(2) by auto
    obtain te where te: "elems h t = Some te" using elist_dom[OF q(3), of t] snoc by auto
    define m where "m = (elems h)(p \<mapsto> e\<lparr>elem_next := Some NULL\<rparr>, t \<mapsto> te\<lparr>elem_next := Some p\<rparr>)"
    let ?h = "h\<lparr>elems := m, fifos := (fifos h)(Q \<mapsto> q\<lparr>q_tail := p\<rparr>)\<rparr>"
    have run: "fifo_put h Q p = Inr ?h"
      using p p0 q hd tl t te
      by (simp add: fifo_put_def elem_at_def fifo_at_def set_elem_def set_fifo_def m_def)
    have e: "e\<lparr>elem_next := Some NULL\<rparr> = \<lparr>elem_data = elem_data e, elem_next = Some NULL\<rparr>" by simp
    have "elist m (q_head q) (as @ [t, p])"
      unfolding m_def e using q(3,4) p(2) p0 te snoc by (intro elist_snoc) auto
    then have "fifo_rep ?h Q (es @ [p])" using q p(2) snoc by (simp add: fifo_rep_def)
    moreover have "elem_data (the (m a)) = elem_data (the (elems h a))" if "a \<in> set es" for a
      using that p(2) te t by (auto simp: m_def)
    then have "data_of ?h (es @ [p]) = data_of h es @ [elem_data e]"
      using p(1) t te by (auto simp: data_of_def m_def)
    moreover have "q_step h Q (insert p (set es)) ?h"
      using ok p(1) te q(2) snoc by (auto simp: q_step_def qheap_ok_def m_def)
    ultimately show ?thesis using run by blast
  qed
qed

lemma fifo_empty_rep:
  assumes "fifo_rep h Q es"
  shows "fifo_empty h Q = Inr (es = [])"
  using assms by (cases es) (auto simp: fifo_rep_def fifo_empty_def fifo_at_def)

lemma fifo_get_rep:
  assumes ok: "qheap_ok h" and rep: "fifo_rep h Q (e # es)"
  shows "\<exists>h'. fifo_get h Q = Inr (e, h') \<and> fifo_rep h' Q es \<and> elems h' = elems h \<and> q_step h Q {} h'"
proof -
  obtain q x n where q: "Q \<noteq> NULL" "fifos h Q = Some q" "q_head q = e" "e \<noteq> NULL" "elems h e = Some x"
    "elem_next x = Some n" "elist (elems h) n es" "distinct (e # es)" "q_tail q = last (e # es)"
    using rep by (auto simp: fifo_rep_def)
  let ?h = "set_fifo h Q (q\<lparr>q_head := n\<rparr>)"
  have "fifo_get h Q = Inr (e, ?h)" using q by (simp add: fifo_get_def fifo_at_def elem_at_def)
  moreover have "fifo_rep ?h Q es" using q by (auto simp: fifo_rep_def set_fifo_def)
  moreover have "q_step h Q {} ?h"
    using ok q(2) by (auto simp: q_step_def qheap_ok_def set_fifo_def)
  ultimately show ?thesis by (auto simp: set_fifo_def)
qed

lemma fifo_get_empty:
  "fifo_rep h Q [] \<Longrightarrow> fifo_get h Q = Inl NullDeref"
  by (auto simp: fifo_rep_def fifo_get_def fifo_at_def elem_at_def)

section \<open>The contract of a queue of values\<close>

text \<open>
  What a client relies on: \<open>rep h Q xs\<close> says that the queue \<open>Q\<close> holds the values \<open>xs\<close>. Adding a
  value is \<open>make_elem\<close> followed by \<open>fifo_put\<close>.
\<close>

definition put_data :: "qheap \<Rightarrow> addr \<Rightarrow> addr \<Rightarrow> qheap result" where
  "put_data h Q d = rbind (make_elem h d) (\<lambda>(p, h1). fifo_put h1 Q p)"

definition get_data :: "qheap \<Rightarrow> addr \<Rightarrow> (addr \<times> qheap) result" where
  "get_data h Q = rbind (fifo_get h Q) (\<lambda>(p, h1). rbind (elem_at h1 p) (\<lambda>e. Inr (elem_data e, h1)))"

locale fifo_queue =
  fixes ok :: "'h \<Rightarrow> bool" and rep :: "'h \<Rightarrow> 'q \<Rightarrow> 'x list \<Rightarrow> bool" and room :: "'h \<Rightarrow> nat"
    and put :: "'h \<Rightarrow> 'q \<Rightarrow> 'x \<Rightarrow> 'h result" and get :: "'h \<Rightarrow> 'q \<Rightarrow> ('x \<times> 'h) result"
    and is_empty :: "'h \<Rightarrow> 'q \<Rightarrow> bool result"
  assumes put_law: "ok h \<Longrightarrow> rep h Q xs \<Longrightarrow> 0 < room h \<Longrightarrow>
      \<exists>h'. put h Q x = Inr h' \<and> ok h' \<and> rep h' Q (xs @ [x]) \<and> room h = Suc (room h')"
    and get_law: "ok h \<Longrightarrow> rep h Q (x # xs) \<Longrightarrow>
      \<exists>h'. get h Q = Inr (x, h') \<and> ok h' \<and> rep h' Q xs \<and> room h' = room h"
    and empty_law: "rep h Q xs \<Longrightarrow> is_empty h Q = Inr (xs = [])"

fun put_all :: "('h \<Rightarrow> 'q \<Rightarrow> 'x \<Rightarrow> 'h result) \<Rightarrow> 'h \<Rightarrow> 'q \<Rightarrow> 'x list \<Rightarrow> 'h result" where
  "put_all put h Q [] = Inr h"
| "put_all put h Q (x # xs) = rbind (put h Q x) (\<lambda>h1. put_all put h1 Q xs)"

fun get_all :: "('h \<Rightarrow> 'q \<Rightarrow> ('x \<times> 'h) result) \<Rightarrow> 'h \<Rightarrow> 'q \<Rightarrow> nat \<Rightarrow> ('x list \<times> 'h) result" where
  "get_all get h Q 0 = Inr ([], h)"
| "get_all get h Q (Suc n) =
     rbind (get h Q) (\<lambda>(x, h1). rbind (get_all get h1 Q n) (\<lambda>(xs, h2). Inr (x # xs, h2)))"

context fifo_queue
begin

lemma put_all_rep:
  "ok h \<Longrightarrow> rep h Q xs \<Longrightarrow> length ys \<le> room h \<Longrightarrow>
   \<exists>h'. put_all put h Q ys = Inr h' \<and> ok h' \<and> rep h' Q (xs @ ys)"
proof (induction ys arbitrary: h xs)
  case Nil
  then show ?case by auto
next
  case (Cons y ys)
  then have "0 < room h" by simp
  then obtain h1 where h1: "put h Q y = Inr h1" "ok h1" "rep h1 Q (xs @ [y])" "room h = Suc (room h1)"
    using put_law[OF Cons.prems(1,2)] by blast
  then show ?case using Cons.IH[OF h1(2,3)] Cons.prems(3) by simp
qed

lemma get_all_rep:
  "ok h \<Longrightarrow> rep h Q (xs @ ys) \<Longrightarrow>
   \<exists>h'. get_all get h Q (length xs) = Inr (xs, h') \<and> ok h' \<and> rep h' Q ys"
proof (induction xs arbitrary: h)
  case Nil
  then show ?case by auto
next
  case (Cons x xs)
  then obtain h1 where h1: "get h Q = Inr (x, h1)" "ok h1" "rep h1 Q (xs @ ys)"
    using get_law[of h Q x "xs @ ys"] by auto
  then show ?case using Cons.IH[OF h1(2,3)] by auto
qed

text \<open>First in, first out.\<close>

lemma put_get_all:
  assumes "ok h" and "rep h Q []" and "length xs \<le> room h"
  shows "\<exists>h1 h2. put_all put h Q xs = Inr h1 \<and> get_all get h1 Q (length xs) = Inr (xs, h2) \<and>
    is_empty h2 Q = Inr True"
proof -
  obtain h1 where h1: "put_all put h Q xs = Inr h1" "ok h1" "rep h1 Q ([] @ xs)"
    using put_all_rep[OF assms] by blast
  then obtain h2 where "get_all get h1 Q (length xs) = Inr (xs, h2)" "rep h2 Q []"
    using get_all_rep[of h1 Q xs "[]"] by auto
  then show ?thesis using h1(1) empty_law by auto
qed

end

definition queue_rep :: "qheap \<Rightarrow> addr \<Rightarrow> addr list \<Rightarrow> bool" where
  "queue_rep h Q xs \<longleftrightarrow> (\<exists>es. fifo_rep h Q es \<and> data_of h es = xs)"

lemma put_data_rep:
  assumes ok: "qheap_ok h" and rep: "fifo_rep h Q es" and mem: "0 < qmem h"
  shows "\<exists>h'. put_data h Q d = Inr h' \<and> fifo_rep h' Q (es @ [qfresh h]) \<and>
    data_of h' (es @ [qfresh h]) = data_of h es @ [d] \<and> qheap_ok h' \<and> qmem h = Suc (qmem h') \<and>
    (\<forall>a. a \<noteq> Q \<longrightarrow> fifos h' a = fifos h a) \<and>
    (\<forall>a. a \<notin> set es \<longrightarrow> a \<noteq> qfresh h \<longrightarrow> elems h' a = elems h a) \<and> qfresh h' = Suc (qfresh h)"
proof -
  obtain h1 where h1: "make_elem h d = Inr (qfresh h, h1)" "elems h1 (qfresh h) = Some \<lparr>elem_data = d, elem_next = None\<rparr>"
    "qheap_ok h1" "fifos h1 = fifos h" "\<forall>a. a \<noteq> qfresh h \<longrightarrow> elems h1 a = elems h a" "Suc (qmem h1) = qmem h"
    "qfresh h1 = Suc (qfresh h)"
    using make_elem_rep[OF ok mem, of d] by (elim exE conjE) (rule that)
  obtain q :: fifo where q: "elist (elems h) (q_head q) es" using rep by (auto simp: fifo_rep_def)
  have new: "qfresh h \<notin> set es"
  proof
    assume "qfresh h \<in> set es"
    then have "qfresh h \<in> dom (elems h)" using elist_dom[OF q] by blast
    then show False using ok by (auto simp: qheap_ok_def)
  qed
  have same: "elems h1 a = elems h a" if "a \<in> set es" for a
    using h1(5) new that by (cases "a = qfresh h") simp_all
  have "fifos h1 Q = fifos h Q" by (simp add: h1(4))
  then have rep1: "fifo_rep h1 Q es" "data_of h1 es = data_of h es"
    using fifo_rep_frame[OF rep, of h1] same by blast+
  obtain h' where h': "fifo_put h1 Q (qfresh h) = Inr h'" "fifo_rep h' Q (es @ [qfresh h])"
    "data_of h' (es @ [qfresh h]) = data_of h1 es @ [d]" "q_step h1 Q (insert (qfresh h) (set es)) h'"
    using fifo_put_rep[OF h1(3) rep1(1) h1(2) new] by (elim exE conjE) (simp add: that)
  have "put_data h Q d = Inr h'" using h1(1) h'(1) by (simp add: put_data_def)
  moreover have "\<forall>a. a \<noteq> Q \<longrightarrow> fifos h' a = fifos h a"
    "\<forall>a. a \<notin> set es \<longrightarrow> a \<noteq> qfresh h \<longrightarrow> elems h' a = elems h a" "qheap_ok h'"
    "qmem h = Suc (qmem h')" "qfresh h' = Suc (qfresh h)"
    using h'(4) h1(4-7) by (simp_all add: q_step_def)
  ultimately show ?thesis using h'(2,3) rep1(2) by simp
qed

interpretation fifo: fifo_queue qheap_ok queue_rep qmem put_data get_data fifo_empty
proof unfold_locales
  fix h Q xs
  show "\<exists>h'. put_data h Q x = Inr h' \<and> qheap_ok h' \<and> queue_rep h' Q (xs @ [x]) \<and> qmem h = Suc (qmem h')"
    if "qheap_ok h" "queue_rep h Q xs" "0 < qmem h" for x
    using that put_data_rep[of h Q _ x] unfolding queue_rep_def by blast
  show "\<exists>h'. get_data h Q = Inr (x, h') \<and> qheap_ok h' \<and> queue_rep h' Q xs \<and> qmem h' = qmem h"
    if ok: "qheap_ok h" and rep: "queue_rep h Q (x # xs)" for x
  proof -
    obtain es where es: "fifo_rep h Q es" "data_of h es = x # xs" using rep by (auto simp: queue_rep_def)
    then obtain e es' where e: "es = e # es'" by (cases es) (auto simp: data_of_def)
    obtain h' where h': "fifo_get h Q = Inr (e, h')" "fifo_rep h' Q es'" "elems h' = elems h" "q_step h Q {} h'"
      using fifo_get_rep[OF ok] es(1) e by blast
    have "e \<noteq> NULL \<and> e \<in> dom (elems h)" using es(1) e by (auto simp: fifo_rep_def)
    then have at: "elem_at h' e = Inr (the (elems h e))" using h'(3) by (auto simp: elem_at_def)
    have data: "elem_data (the (elems h e)) = x" "data_of h' es' = xs"
      using es(2) e h'(3) by (auto simp: data_of_def)
    have "get_data h Q = Inr (x, h')" using h'(1) at data(1) by (simp add: get_data_def)
    moreover have "queue_rep h' Q xs" unfolding queue_rep_def using h'(2) data(2) by blast
    moreover have "qheap_ok h'" "qmem h' = qmem h" using h'(4) by (simp_all add: q_step_def)
    ultimately show ?thesis by blast
  qed
  show "fifo_empty h Q = Inr (xs = [])" if rep: "queue_rep h Q xs"
  proof -
    obtain es where es: "fifo_rep h Q es" "data_of h es = xs" using rep by (auto simp: queue_rep_def)
    have "(es = []) = (xs = [])" using es(2) by (auto simp: data_of_def)
    then show ?thesis using fifo_empty_rep[OF es(1)] by simp
  qed
qed

end
