(* ===== verification/Db_Ops.thy ===== *)
theory Db_Ops
  imports Relation_Api Tuple_Pair Fifo
begin

text \<open>
  The query operators of \<open>src/src/low level algos (Pablo)\<close>: attribute lists and projections
  (\<open>db_util.c\<close>), and sequential scans, index scans and index joins on top of B+-trees, tuple
  indexes and queues (\<open>db_operations_light.c\<close>). The heap \<open>dheap\<close> has one part for the indexes,
  one for the queues and one for the tuples. A tuple is an array of columns; a column is an
  integer or a string, or \<open>None\<close> when it was never written.
\<close>

section \<open>Attributes\<close>

datatype domain = Int_dom | Str_dom

record attribute =
  att_id :: string
  att_domain :: domain

type_synonym attribute_list = "attribute list"

fun attribute_list_length :: "attribute_list \<Rightarrow> nat" where
  "attribute_list_length [] = 0"
| "attribute_list_length (x # xs) = Suc (attribute_list_length xs)"

definition get_schema_aux :: "domain \<Rightarrow> schema_t" where
  "get_schema_aux d = (case d of Int_dom \<Rightarrow> inthash_schema | Str_dom \<Rightarrow> stringlist_schema)"

text \<open>
  \<open>None\<close> is the NULL schema of an empty list. \<open>mem\<close> is the number of allocations that still
  succeed, here and in the field \<open>dmem\<close> of the heap below.
\<close>

fun get_schema :: "nat \<Rightarrow> attribute_list \<Rightarrow> (schema_t option \<times> nat) result" where
  "get_schema mem [] = Inr (None, mem)"
| "get_schema mem (a # as) =
     (let s = get_schema_aux (att_domain a) in
      rbind (get_schema mem as) (\<lambda>(t, mem1).
        case t of
          None \<Rightarrow> Inr (Some s, mem1)
        | Some t \<Rightarrow> rbind (tuple_schema mem1 s t) (\<lambda>(u, mem2). Inr (Some u, mem2))))"

fun get_offset_loop :: "attribute_list \<Rightarrow> string \<Rightarrow> domain \<Rightarrow> int \<Rightarrow> int result" where
  "get_offset_loop [] i dmn res = Inr (- 1)"
| "get_offset_loop (x # xs) i dmn res =
     (if i = att_id x then (if dmn = att_domain x then Inr res else Inl ExitFailure)
      else get_offset_loop xs i dmn (res + 1))"

definition get_offset :: "attribute_list \<Rightarrow> string \<Rightarrow> domain \<Rightarrow> int result" where
  "get_offset attrs_all i dmn = (if attrs_all = [] then Inl ExitFailure else get_offset_loop attrs_all i dmn 0)"

section \<open>Tuples\<close>

type_synonym tuple = "key option list"

record dheap =
  tabs :: theap
  qs :: qheap
  tups :: "addr \<rightharpoonup> tuple"
  dfresh :: addr
  dmem :: nat

definition tuple_at :: "dheap \<Rightarrow> addr \<Rightarrow> tuple result" where
  "tuple_at h t = (if t = NULL then Inl NullDeref
                   else case tups h t of None \<Rightarrow> Inl WildPtr | Some xs \<Rightarrow> Inr xs)"

definition get_field :: "tuple \<Rightarrow> int \<Rightarrow> key result" where
  "get_field xs i = rbind (aget xs i) (\<lambda>x. case x of None \<Rightarrow> Inl Uninit | Some k \<Rightarrow> Inr k)"

text \<open>The address of a column is the tuple and the offset in it.\<close>

definition get_field_address :: "attribute_list \<Rightarrow> string \<Rightarrow> domain \<Rightarrow> addr \<Rightarrow> (addr \<times> int) result" where
  "get_field_address attrs_all i dmn t = rbind (get_offset attrs_all i dmn) (\<lambda>ofs. Inr (t, ofs))"

fun get_projection :: "dheap \<Rightarrow> attribute_list \<Rightarrow> addr \<Rightarrow> attribute_list \<Rightarrow> (key \<times> dheap) result" where
  "get_projection h attrs_all t [] = Inl ExitFailure"
| "get_projection h attrs_all t (p # ps) =
     rbind (get_offset attrs_all (att_id p) (att_domain p)) (\<lambda>ofs.
     rbind (tuple_at h t) (\<lambda>xs.
     rbind (get_field xs ofs) (\<lambda>current.
       if ps = [] then Inr (current, h)
       else rbind (get_projection h attrs_all t ps) (\<lambda>(k, h1).
         rbind (build_keypair (dmem h1) current k) (\<lambda>(kp, m). Inr (kp, h1\<lparr>dmem := m\<rparr>))))))"

section \<open>Iterators\<close>

text \<open>An iterator is its table of methods; \<open>'e\<close> is the type of the environments they work on.\<close>

record 'e iterator =
  it_init :: "'e \<Rightarrow> dheap \<Rightarrow> ('e \<times> dheap) result"
  it_next :: "'e \<Rightarrow> dheap \<Rightarrow> (addr \<times> 'e \<times> dheap) result"
  it_close :: "'e \<Rightarrow> dheap \<Rightarrow> ('e \<times> dheap) result"

definition init_iterator :: "'e iterator \<Rightarrow> 'e \<Rightarrow> dheap \<Rightarrow> ('e \<times> dheap) result" where
  "init_iterator it e h = it_init it e h"

definition get_next :: "'e iterator \<Rightarrow> 'e \<Rightarrow> dheap \<Rightarrow> (addr \<times> 'e \<times> dheap) result" where
  "get_next it e h = it_next it e h"

definition close_iterator :: "'e iterator \<Rightarrow> 'e \<Rightarrow> dheap \<Rightarrow> ('e \<times> dheap) result" where
  "close_iterator it e h = it_close it e h"

fun materialize_loop :: "nat \<Rightarrow> 'e iterator \<Rightarrow> 'e \<Rightarrow> dheap \<Rightarrow> addr \<Rightarrow> ('e \<times> dheap) result" where
  "materialize_loop 0 it e h res = Inl NoReturn"
| "materialize_loop (Suc fuel) it e h res =
     rbind (get_next it e h) (\<lambda>(a, e1, h1).
       if a = NULL then Inr (e1, h1)
       else rbind (make_elem (qs h1) a) (\<lambda>(p, q1).
         rbind (fifo_put q1 res p) (\<lambda>q2. materialize_loop fuel it e1 (h1\<lparr>qs := q2\<rparr>) res)))"

definition materialize :: "nat \<Rightarrow> 'e iterator \<Rightarrow> 'e \<Rightarrow> dheap \<Rightarrow> (addr \<times> 'e \<times> dheap) result" where
  "materialize fuel it e h =
     rbind (fifo_new (qs h)) (\<lambda>(res, q1).
     rbind (init_iterator it e (h\<lparr>qs := q1\<rparr>)) (\<lambda>(e1, h1).
     rbind (materialize_loop fuel it e1 h1 res) (\<lambda>(e2, h2).
     rbind (close_iterator it e2 h2) (\<lambda>(e3, h3). Inr (res, e3, h3)))))"

section \<open>Sequential scan\<close>

record relation =
  rel_attrs :: attribute_list
  rel_pk_attrs :: attribute_list
  rel_pk_index :: rl

record seq_scan_env =
  se_bt :: rl
  se_c :: "cursor option"

definition seq_scan_init :: "seq_scan_env \<Rightarrow> dheap \<Rightarrow> (seq_scan_env \<times> dheap) result" where
  "seq_scan_init e h =
     rbind (RL_NewCursor cursor_mem (se_bt e)) (\<lambda>(cur, bt).
       case cur of
         None \<Rightarrow> Inl ExitFailure
       | Some c \<Rightarrow> rbind (RL_MoveToFirst bt c) (\<lambda>(b, c1). Inr (e\<lparr>se_bt := bt, se_c := Some c1\<rparr>, h)))"

definition seq_scan_next :: "seq_scan_env \<Rightarrow> dheap \<Rightarrow> (addr \<times> seq_scan_env \<times> dheap) result" where
  "seq_scan_next e h =
     (case se_c e of
        None \<Rightarrow> Inl AssertFail
      | Some c \<Rightarrow>
          rbind (RL_IsEmpty (se_bt e) c) (\<lambda>b.
          rbind (if b then Inr True
                 else rbind (RL_CursorIsValid (se_bt e) c) (\<lambda>v. Inr (\<not> v))) (\<lambda>stop.
            if stop then Inr (NULL, e, h)
            else rbind (RL_GetRecord (se_bt e) c) (\<lambda>(res, c1).
              rbind (RL_MoveToNext (se_bt e) c1) (\<lambda>c2. Inr (res, e\<lparr>se_c := Some c2\<rparr>, h))))))"

text \<open>\<open>RL_FreeCursor\<close>: the cursor cannot be used afterwards.\<close>

definition seq_scan_close :: "seq_scan_env \<Rightarrow> dheap \<Rightarrow> (seq_scan_env \<times> dheap) result" where
  "seq_scan_close e h = Inr (e\<lparr>se_c := None\<rparr>, h)"

definition seq_scan_iterator :: "seq_scan_env iterator" where
  "seq_scan_iterator = \<lparr>it_init = seq_scan_init, it_next = seq_scan_next, it_close = seq_scan_close\<rparr>"

text \<open>An iterator object is its methods, here \<open>seq_scan_iterator\<close>, and the environment returned.\<close>

definition seq_scan :: "relation \<Rightarrow> dheap \<Rightarrow> (seq_scan_env \<times> dheap) result" where
  "seq_scan r h =
     (if dmem h < 2 then Inl ExitFailure
      else Inr (\<lparr>se_bt = rel_pk_index r, se_c = None\<rparr>, h\<lparr>dmem := dmem h - 2\<rparr>))"

section \<open>Index scan\<close>

fun index_scan_loop :: "nat \<Rightarrow> schema_t \<Rightarrow> addr \<Rightarrow> relation \<Rightarrow> attribute_list \<Rightarrow> seq_scan_env \<Rightarrow> dheap \<Rightarrow> dheap result" where
  "index_scan_loop 0 sch ind rel attrs e h = Inl NoReturn"
| "index_scan_loop (Suc fuel) sch ind rel attrs e h =
     rbind (get_next seq_scan_iterator e h) (\<lambda>(t, e1, h1).
       if t = NULL then Inr h1
       else
         rbind (get_projection h1 (rel_attrs rel) t attrs) (\<lambda>(proj, h2).
         rbind (index_lookup sch (tabs h2) ind proj) (\<lambda>l0.
         rbind (if l0 = NULL then fifo_new (qs h2) else Inr (l0, qs h2)) (\<lambda>(l, q1).
         rbind (make_elem q1 t) (\<lambda>(p, q2).
         rbind (fifo_put q2 l p) (\<lambda>q3.
         rbind (index_insert sch (tabs h2) ind proj l) (\<lambda>(old, t1).
         index_scan_loop fuel sch ind rel attrs e1 (h2\<lparr>qs := q3, tabs := t1\<rparr>))))))))"

definition index_scan :: "nat \<Rightarrow> relation \<Rightarrow> attribute_list \<Rightarrow> dheap \<Rightarrow> (addr \<times> dheap) result" where
  "index_scan fuel rel attrs h =
     rbind (get_schema (dmem h) attrs) (\<lambda>(sch, m).
      case sch of
        None \<Rightarrow> Inl NullDeref
      | Some sch \<Rightarrow>
          rbind (index_new sch (tabs h)) (\<lambda>(ind, t1).
          rbind (seq_scan rel (h\<lparr>dmem := m, tabs := t1\<rparr>)) (\<lambda>(e, h1).
          rbind (init_iterator seq_scan_iterator e h1) (\<lambda>(e1, h2).
          rbind (index_scan_loop fuel sch ind rel attrs e1 h2) (\<lambda>h3. Inr (ind, h3))))))"

section \<open>Index join\<close>

record 'e index_join_env =
  ij_outer :: 'e
  ij_outer_attrs :: attribute_list
  ij_outer_join_attrs :: attribute_list
  ij_inner_attrs :: attribute_list
  ij_inner_join_attrs :: attribute_list
  ij_ind_on_inner :: addr
  ij_ind_on_inner_sch :: "schema_t option"
  ij_current_inner :: addr
  ij_current_outer :: addr

definition index_join_init :: "'e iterator \<Rightarrow> 'e index_join_env \<Rightarrow> dheap \<Rightarrow> ('e index_join_env \<times> dheap) result" where
  "index_join_init outer e h =
     rbind (init_iterator outer (ij_outer e) h) (\<lambda>(oe, h1).
       Inr (e\<lparr>ij_outer := oe, ij_current_inner := NULL, ij_current_outer := NULL\<rparr>, h1))"

text \<open>The loop that looks for an outer tuple with partners in the inner relation.\<close>

fun index_join_loop :: "nat \<Rightarrow> 'e iterator \<Rightarrow> 'e index_join_env \<Rightarrow> dheap \<Rightarrow> ('e index_join_env \<times> dheap) result" where
  "index_join_loop 0 outer e h = Inl NoReturn"
| "index_join_loop (Suc fuel) outer e h =
     rbind (if ij_current_inner e = NULL then Inr True else fifo_empty (qs h) (ij_current_inner e)) (\<lambda>none.
       if \<not> none then Inr (e, h)
       else rbind (get_next outer (ij_outer e) h) (\<lambda>(t, oe, h1).
         let e1 = e\<lparr>ij_outer := oe, ij_current_outer := t\<rparr> in
         if t = NULL then Inr (e1, h1)
         else
           rbind (get_projection h1 (ij_outer_attrs e) t (ij_outer_join_attrs e)) (\<lambda>(proj, h2).
           rbind (case ij_ind_on_inner_sch e of
                    None \<Rightarrow> Inl NullDeref
                  | Some sch \<Rightarrow> index_lookup sch (tabs h2) (ij_ind_on_inner e) proj) (\<lambda>l.
           index_join_loop fuel outer (e1\<lparr>ij_current_inner := l\<rparr>) h2))))"

text \<open>\<open>memcpy\<close> of the first \<open>n\<close> words of \<open>src\<close>.\<close>

definition copy_words :: "tuple \<Rightarrow> tuple \<Rightarrow> nat \<Rightarrow> tuple result" where
  "copy_words dst src n =
     (if n \<le> length src \<and> n \<le> length dst then Inr (take n src @ drop n dst) else Inl OutOfBounds)"

fun copy_inner :: "attribute_list \<Rightarrow> attribute_list \<Rightarrow> attribute_list \<Rightarrow> tuple \<Rightarrow> nat \<Rightarrow> nat \<Rightarrow> tuple \<Rightarrow> tuple result" where
  "copy_inner inner_attrs join_attrs [] inner_t outer_len n new_t = Inr new_t"
| "copy_inner inner_attrs join_attrs (l # ls) inner_t outer_len n new_t =
     rbind (get_offset inner_attrs (att_id l) (att_domain l)) (\<lambda>ofs.
     rbind (get_offset join_attrs (att_id l) (att_domain l)) (\<lambda>j.
       if j < 0 then
         rbind (aget inner_t ofs) (\<lambda>x.
         rbind (aset new_t (int (outer_len + n)) x) (\<lambda>new_t1.
         copy_inner inner_attrs join_attrs ls inner_t outer_len (n + 1) new_t1))
       else copy_inner inner_attrs join_attrs ls inner_t outer_len n new_t))"

definition index_join_next :: "nat \<Rightarrow> 'e iterator \<Rightarrow> 'e index_join_env \<Rightarrow> dheap \<Rightarrow>
    (addr \<times> 'e index_join_env \<times> dheap) result" where
  "index_join_next fuel outer e h =
     rbind (index_join_loop fuel outer e h) (\<lambda>(e1, h1).
       if ij_current_outer e1 = NULL then Inr (NULL, e1, h1)
       else
         let outer_len = attribute_list_length (ij_outer_attrs e1);
             inner_len = attribute_list_length (ij_inner_attrs e1);
             join_len = attribute_list_length (ij_inner_join_attrs e1) in
         if dmem h1 = 0 then Inl NullDeref
         else
           let new_t = dfresh h1;
               buf = replicate (outer_len + inner_len - join_len + 1) None;
               h2 = h1\<lparr>dfresh := Suc (dfresh h1), dmem := dmem h1 - 1\<rparr> in
           rbind (tuple_at h2 (ij_current_outer e1)) (\<lambda>outer_t.
           rbind (copy_words buf outer_t outer_len) (\<lambda>buf1.
           rbind (fifo_get (qs h2) (ij_current_inner e1)) (\<lambda>(p, q1).
           rbind (elem_at q1 p) (\<lambda>el.
           rbind (tuple_at h2 (elem_data el)) (\<lambda>inner_t.
           rbind (copy_inner (ij_inner_attrs e1) (ij_inner_join_attrs e1) (ij_inner_attrs e1) inner_t outer_len 0 buf1)
             (\<lambda>buf2. Inr (new_t, e1, h2\<lparr>qs := q1, tups := (tups h2)(new_t \<mapsto> buf2)\<rparr>))))))))"

definition index_join_close :: "'e iterator \<Rightarrow> 'e index_join_env \<Rightarrow> dheap \<Rightarrow> ('e index_join_env \<times> dheap) result" where
  "index_join_close outer e h =
     rbind (close_iterator outer (ij_outer e) h) (\<lambda>(oe, h1). Inr (e\<lparr>ij_outer := oe\<rparr>, h1))"

definition index_join_iterator :: "nat \<Rightarrow> 'e iterator \<Rightarrow> 'e index_join_env iterator" where
  "index_join_iterator fuel outer =
     \<lparr>it_init = index_join_init outer, it_next = index_join_next fuel outer, it_close = index_join_close outer\<rparr>"

text \<open>The two fields that \<open>index_join\<close> leaves unset are set by \<open>index_join_init\<close>.\<close>

definition index_join :: "attribute_list \<Rightarrow> attribute_list \<Rightarrow> attribute_list \<Rightarrow> attribute_list \<Rightarrow> 'e \<Rightarrow> addr \<Rightarrow>
    dheap \<Rightarrow> ('e index_join_env \<times> dheap) result" where
  "index_join outer_attrs inner_attrs outer_join_attrs inner_join_attrs outer ind_on_inner h =
     rbind (check (attribute_list_length outer_join_attrs = attribute_list_length inner_join_attrs) AssertFail) (\<lambda>_.
       if dmem h = 0 then Inl ExitFailure
       else
         rbind (get_schema (dmem h - 1) inner_join_attrs) (\<lambda>(sch, m).
         if m = 0 then Inl ExitFailure
         else Inr (\<lparr>ij_outer = outer, ij_outer_attrs = outer_attrs, ij_outer_join_attrs = outer_join_attrs,
                    ij_inner_attrs = inner_attrs, ij_inner_join_attrs = inner_join_attrs,
                    ij_ind_on_inner = ind_on_inner, ij_ind_on_inner_sch = sch,
                    ij_current_inner = NULL, ij_current_outer = NULL\<rparr>, h\<lparr>dmem := m - 1\<rparr>)))"

section \<open>Loading a table\<close>

text \<open>The column of the primary key is cast to an integer.\<close>

fun index_data_loop :: "dheap \<Rightarrow> rl \<Rightarrow> cursor \<Rightarrow> int \<Rightarrow> addr list \<Rightarrow> rl result" where
  "index_data_loop h bt c ofs [] = Inr bt"
| "index_data_loop h bt c ofs (t # ts) =
     rbind (tuple_at h t) (\<lambda>xs.
     rbind (get_field xs ofs) (\<lambda>f.
     rbind (RL_PutRecord bt c (key_word (tabs h) f) t) (\<lambda>(bt1, c1). index_data_loop h bt1 c1 ofs ts)))"

definition index_data :: "dheap \<Rightarrow> nat \<Rightarrow> addr list \<Rightarrow> attribute_list \<Rightarrow> attribute_list \<Rightarrow> rl result" where
  "index_data h m data attrs primary_key =
     (case primary_key of
        [pk] \<Rightarrow>
          if att_domain pk \<noteq> Int_dom then Inl ExitFailure
          else rbind (get_offset attrs (att_id pk) (att_domain pk)) (\<lambda>ofs.
            case RL_NewRelation m of
              None \<Rightarrow> Inl AssertFail
            | Some bt \<Rightarrow> rbind (RL_NewCursor cursor_mem bt) (\<lambda>(cur, bt1).
                case cur of
                  None \<Rightarrow> if data = [] then Inr bt1 else Inl AssertFail
                | Some c \<Rightarrow> index_data_loop h bt1 c ofs data))
      | _ \<Rightarrow> Inl ExitFailure)"

end
