(* ===== verification/Db_Laws.thy ===== *)
theory Db_Laws
  imports Db_Ops
begin

text \<open>
  Correctness of the query operators: offsets and schemas of attribute lists, the contract of an
  iterator and what \<open>materialize\<close> makes of it, sequential scans as an instance of it, and index
  scans, which rest on the contracts of B+-trees, schemas and queues.
\<close>

section \<open>Offsets and schemas\<close>

lemma get_offset_loop_spec:
  "get_offset_loop as i d n =
     (let p = length (takeWhile (\<lambda>a. att_id a \<noteq> i) as) in
      if p = length as then Inr (- 1)
      else if att_domain (as ! p) = d then Inr (n + int p) else Inl ExitFailure)"
  by (induction as i d n rule: get_offset_loop.induct) (auto simp: Let_def)

lemma get_offset_spec:
  "get_offset as i d =
     (let p = length (takeWhile (\<lambda>a. att_id a \<noteq> i) as) in
      if as = [] then Inl ExitFailure
      else if p = length as then Inr (- 1)
      else if att_domain (as ! p) = d then Inr (int p) else Inl ExitFailure)"
  by (simp add: get_offset_def get_offset_loop_spec Let_def)

lemma attribute_list_length_eq [simp]: "attribute_list_length as = length as"
  by (induction as) simp_all

definition shape_aux :: "domain \<Rightarrow> shape" where
  "shape_aux d = (case d of Int_dom \<Rightarrow> Int_shape | Str_dom \<Rightarrow> Str_shape)"

fun shape_of :: "attribute_list \<Rightarrow> shape" where
  "shape_of [] = Int_shape"
| "shape_of [a] = shape_aux (att_domain a)"
| "shape_of (a # as) = Pair_shape (shape_aux (att_domain a)) (shape_of as)"

lemma get_schema_shape:
  "as \<noteq> [] \<Longrightarrow> 2 * (length as - 1) \<le> mem \<Longrightarrow>
   get_schema mem as = Inr (Some (schema_of (shape_of as)), mem - 2 * (length as - 1))"
  by (induction as rule: shape_of.induct)
    (auto simp: get_schema_aux_def shape_aux_def tuple_schema_def Let_def split: domain.splits)

lemma tuple_at_cong: "tups h' = tups h \<Longrightarrow> tuple_at h' t = tuple_at h t"
  by (simp add: tuple_at_def)

text \<open>A projection on \<open>n\<close> attributes allocates \<open>n - 1\<close> pairs of keys, and changes nothing else.\<close>

lemma get_projection_Inr:
  "get_projection h as t ps = Inr (k, h1) \<Longrightarrow>
   length ps - 1 \<le> dmem h \<and> h1 = h\<lparr>dmem := dmem h - (length ps - 1)\<rparr>"
proof (induction ps arbitrary: k h1)
  case (Cons p ps)
  show ?case
  proof (cases ps)
    case Nil
    then show ?thesis using Cons.prems by (auto simp: rbind_eq_Inr)
  next
    case (Cons q qs)
    then obtain k' h2 where h2: "get_projection h as t ps = Inr (k', h2)" "dmem h2 \<noteq> 0" "h1 = h2\<lparr>dmem := dmem h2 - 1\<rparr>"
      using Cons.prems by (auto simp: rbind_eq_Inr build_keypair_def split: if_splits)
    then show ?thesis using Cons.IH[OF h2(1)] Cons by auto
  qed
qed simp

lemma get_projection_Cons2:
  "get_projection h as t (p # q # ps) =
     rbind (get_offset as (att_id p) (att_domain p)) (\<lambda>ofs. rbind (tuple_at h t) (\<lambda>xs. rbind (get_field xs ofs) (\<lambda>c.
     rbind (get_projection h as t (q # ps)) (\<lambda>(k, h1).
       rbind (build_keypair (dmem h1) c k) (\<lambda>(kp, m). Inr (kp, h1\<lparr>dmem := m\<rparr>))))))"
  by simp

lemma get_projection_frame:
  assumes "tuple_at h' t = tuple_at h t"
  shows "get_projection h as t ps = Inr (k, h1) \<Longrightarrow> length ps - 1 \<le> dmem h' \<Longrightarrow>
    get_projection h' as t ps = Inr (k, h'\<lparr>dmem := dmem h' - (length ps - 1)\<rparr>)"
proof (induction ps arbitrary: k h1)
  case (Cons p ps)
  show ?case
  proof (cases ps)
    case Nil
    then show ?thesis using Cons.prems assms by (auto simp: rbind_eq_Inr)
  next
    case (Cons q qs)
    then obtain k' h2 where h2: "get_projection h as t ps = Inr (k', h2)"
      using Cons.prems by (auto simp: rbind_eq_Inr)
    have "length ps - 1 \<le> dmem h'" using Cons.prems(2) Cons by simp
    note IH = Cons.IH[OF h2 this]
    show ?thesis using Cons.prems h2 IH assms unfolding Cons get_projection_Cons2
      by (auto simp: rbind_eq_Inr build_keypair_def simp del: get_projection.simps split: if_splits)
  qed
qed simp

text \<open>A projection is a key of the schema of the projected attributes.\<close>

definition field_ok :: "domain \<Rightarrow> key \<Rightarrow> bool" where
  "field_ok d k \<longleftrightarrow> (case d of Int_dom \<Rightarrow> valid_int k | Str_dom \<Rightarrow> valid_str k)"

lemma get_projection_valid:
  assumes "ps \<noteq> []" and "tuple_at h t = Inr xs"
    and "\<And>p. p \<in> set ps \<Longrightarrow> \<exists>i k. get_offset as (att_id p) (att_domain p) = Inr i \<and>
      get_field xs i = Inr k \<and> field_ok (att_domain p) k"
    and "length ps - 1 \<le> dmem h"
  shows "\<exists>k h1. get_projection h as t ps = Inr (k, h1) \<and> valid_key (shape_of ps) k"
  using assms(1,3,4)
proof (induction ps rule: shape_of.induct)
  case (2 p)
  obtain i k where "get_offset as (att_id p) (att_domain p) = Inr i" "get_field xs i = Inr k"
    "field_ok (att_domain p) k" using 2(2)[of p] by auto
  then show ?case using assms(2) by (auto simp: field_ok_def shape_aux_def split: domain.splits)
next
  case (3 p q ps)
  obtain i k where k: "get_offset as (att_id p) (att_domain p) = Inr i" "get_field xs i = Inr k"
    "field_ok (att_domain p) k" using 3(3)[of p] by auto
  have "length (q # ps) - 1 \<le> dmem h" using 3(4) by simp
  then obtain k' h1 where k': "get_projection h as t (q # ps) = Inr (k', h1)" "valid_key (shape_of (q # ps)) k'"
    using 3(1)[OF _ 3(3)] by auto
  have "dmem h1 \<noteq> 0" using get_projection_Inr[OF k'(1)] 3(4) by simp
  then show ?case using k k' assms(2)
    by (auto simp: field_ok_def shape_aux_def valid_pair_def build_keypair_def split: domain.splits)
qed simp

section \<open>Iterators that leave the heap alone\<close>

locale tuple_iterator =
  fixes it :: "'e iterator" and ready :: "'e \<Rightarrow> addr list \<Rightarrow> bool" and yields :: "'e \<Rightarrow> addr list \<Rightarrow> bool"
  assumes init_law: "ready e xs \<Longrightarrow> \<exists>e'. init_iterator it e h = Inr (e', h) \<and> yields e' xs"
    and next_nil: "yields e [] \<Longrightarrow> \<exists>e'. get_next it e h = Inr (NULL, e', h)"
    and next_cons: "yields e (x # xs) \<Longrightarrow> x \<noteq> NULL \<and> (\<exists>e'. get_next it e h = Inr (x, e', h) \<and> yields e' xs)"
    and close_law: "\<exists>e'. close_iterator it e h = Inr (e', h)"
begin

lemma materialize_loop_law:
  "yields e xs \<Longrightarrow> length xs < fuel \<Longrightarrow> qheap_ok (qs h) \<Longrightarrow> queue_rep (qs h) Q ys \<Longrightarrow> length xs \<le> qmem (qs h) \<Longrightarrow>
   \<exists>e' q. materialize_loop fuel it e h Q = Inr (e', h\<lparr>qs := q\<rparr>) \<and> qheap_ok q \<and> queue_rep q Q (ys @ xs)"
proof (induction fuel arbitrary: e xs h ys)
  case 0
  then show ?case by simp
next
  case (Suc fuel)
  show ?case
  proof (cases xs)
    case Nil
    then obtain e' where "get_next it e h = Inr (NULL, e', h)" using next_nil Suc.prems(1) by blast
    then show ?thesis using Nil Suc.prems(3,4) by (intro exI[of _ e'] exI[of _ "qs h"]) simp
  next
    case (Cons x xs')
    then obtain e' where n: "get_next it e h = Inr (x, e', h)" "yields e' xs'" "x \<noteq> NULL"
      using next_cons[of e x xs' h] Suc.prems(1) by blast
    have "0 < qmem (qs h)" using Suc.prems(5) Cons by simp
    then obtain q where q: "put_data (qs h) Q x = Inr q" "qheap_ok q" "queue_rep q Q (ys @ [x])"
      "qmem (qs h) = Suc (qmem q)"
      using fifo.put_law[OF Suc.prems(3,4)] by blast
    have len: "length xs' < fuel" "length xs' \<le> qmem (qs (h\<lparr>qs := q\<rparr>))"
      using Suc.prems(2,5) Cons q(4) by simp_all
    obtain e2 q' where r: "materialize_loop fuel it e' (h\<lparr>qs := q\<rparr>) Q = Inr (e2, h\<lparr>qs := q'\<rparr>)"
      "qheap_ok q'" "queue_rep q' Q (ys @ xs)"
      using Suc.IH[OF n(2) len(1) _ _ len(2), of "ys @ [x]"] q(2,3) Cons by auto
    obtain p q1 where p: "make_elem (qs h) x = Inr (p, q1)" "fifo_put q1 Q p = Inr q"
      using q(1) by (auto simp: put_data_def rbind_eq_Inr)
    have "materialize_loop (Suc fuel) it e h Q = Inr (e2, h\<lparr>qs := q'\<rparr>)"
      using n(1,3) p r(1) by simp
    then show ?thesis using r(2,3) by blast
  qed
qed

lemma materialize_law:
  assumes "ready e xs" and "length xs < fuel" and "qheap_ok (qs h)" and "Suc (length xs) \<le> qmem (qs h)"
  shows "\<exists>Q e' q. materialize fuel it e h = Inr (Q, e', h\<lparr>qs := q\<rparr>) \<and> qheap_ok q \<and> queue_rep q Q xs"
proof -
  obtain q1 where q1: "fifo_new (qs h) = Inr (qfresh (qs h), q1)" "fifo_rep q1 (qfresh (qs h)) []"
    "qheap_ok q1" "Suc (qmem q1) = qmem (qs h)"
    using fifo_new_rep[OF assms(3)] assms(4) by auto
  then have rep: "queue_rep q1 (qfresh (qs h)) []" by (auto simp: queue_rep_def data_of_def)
  obtain e1 where e1: "init_iterator it e (h\<lparr>qs := q1\<rparr>) = Inr (e1, h\<lparr>qs := q1\<rparr>)" "yields e1 xs"
    using init_law[OF assms(1)] by blast
  have mem: "length xs \<le> qmem (qs (h\<lparr>qs := q1\<rparr>))" using q1(4) assms(4) by simp
  obtain e2 q where l: "materialize_loop fuel it e1 (h\<lparr>qs := q1\<rparr>) (qfresh (qs h)) = Inr (e2, h\<lparr>qs := q\<rparr>)"
    "qheap_ok q" "queue_rep q (qfresh (qs h)) xs"
    using materialize_loop_law[OF e1(2) assms(2) _ _ mem, of "qfresh (qs h)" "[]"] q1(3) rep by auto
  obtain e3 where "close_iterator it e2 (h\<lparr>qs := q\<rparr>) = Inr (e3, h\<lparr>qs := q\<rparr>)" using close_law by blast
  then have "materialize fuel it e h = Inr (qfresh (qs h), e3, h\<lparr>qs := q\<rparr>)"
    using q1(1) e1(1) l(1) by (simp add: materialize_def)
  then show ?thesis using l(2,3) by (intro exI conjI)
qed

end

definition scan_ready :: "seq_scan_env \<Rightarrow> addr list \<Rightarrow> bool" where
  "scan_ready e xs \<longleftrightarrow> (\<exists>a. rl_inv (se_bt e) a \<and> avail (se_bt e) \<noteq> 0 \<and> xs = map snd (rl_recs a) \<and> NULL \<notin> set xs)"

definition scan_yields :: "seq_scan_env \<Rightarrow> addr list \<Rightarrow> bool" where
  "scan_yields e xs \<longleftrightarrow> (\<exists>a c p. rl_inv (se_bt e) a \<and> se_c e = Some c \<and> rl_pos a c p \<and>
     xs = map snd (drop p (rl_recs a)) \<and> NULL \<notin> set xs)"

lemma RL_IsEmpty_inv: "rl_inv s a \<Longrightarrow> RL_IsEmpty s c = Inr (rl_recs a = [])"
  using RL_IsEmpty_correct by (simp add: rl_inv_def rl_recs_def)

interpretation scan: tuple_iterator seq_scan_iterator scan_ready scan_yields
proof unfold_locales
  fix e x xs and h :: dheap
  show "\<exists>e'. init_iterator seq_scan_iterator e h = Inr (e', h) \<and> scan_yields e' xs" if r: "scan_ready e xs"
  proof -
    obtain a where a: "rl_inv (se_bt e) a" "avail (se_bt e) \<noteq> 0" "xs = map snd (rl_recs a)" "NULL \<notin> set xs"
      using r by (auto simp: scan_ready_def)
    let ?bt = "se_bt e\<lparr>avail := avail (se_bt e) - 1\<rparr>"
    have inv: "rel_inv (se_bt e) (fst a) (snd a)" using a(1) by (simp add: rl_inv_def)
    obtain c where c: "RL_NewCursor cursor_mem (se_bt e) = Inr (Some c, ?bt)" "cur_pos (fst a) (snd a) c 0"
      using RL_NewCursor_pos[OF inv cursor_mem_ok a(2)] by blast
    have bt: "rl_inv ?bt a" using rel_inv_avail[OF inv] by (simp add: rl_inv_def)
    have "rl_pos a c 0" using c(2) by (simp add: rl_pos_def)
    from rt.to_first_law[OF bt this] obtain c1 where c1: "RL_MoveToFirst ?bt c = Inr (rl_recs a \<noteq> [], c1)" "rl_pos a c1 0"
      by blast
    let ?e = "e\<lparr>se_bt := ?bt, se_c := Some c1\<rparr>"
    have "init_iterator seq_scan_iterator e h = Inr (?e, h)"
      using c(1) c1(1) by (simp add: init_iterator_def seq_scan_iterator_def seq_scan_init_def)
    moreover have "scan_yields ?e xs"
      unfolding scan_yields_def using bt c1(2) a(3,4) by (intro exI[of _ a] exI[of _ c1] exI[of _ 0]) simp
    ultimately show ?thesis by blast
  qed
  show "\<exists>e'. get_next seq_scan_iterator e h = Inr (NULL, e', h)" if y: "scan_yields e []"
  proof -
    obtain a c p where a: "rl_inv (se_bt e) a" "se_c e = Some c" "rl_pos a c p" "[] = map snd (drop p (rl_recs a))"
      using y unfolding scan_yields_def by blast
    then have "RL_CursorIsValid (se_bt e) c = Inr False" using rt.is_valid_iff[OF a(1,3)] by simp
    then show ?thesis
      using RL_IsEmpty_inv[OF a(1), of c] a(2)
      by (auto simp: get_next_def seq_scan_iterator_def seq_scan_next_def)
  qed
  show "x \<noteq> NULL \<and> (\<exists>e'. get_next seq_scan_iterator e h = Inr (x, e', h) \<and> scan_yields e' xs)"
    if y: "scan_yields e (x # xs)"
  proof -
    obtain a c p where a: "rl_inv (se_bt e) a" "se_c e = Some c" "rl_pos a c p"
      "x # xs = map snd (drop p (rl_recs a))" "NULL \<notin> set (x # xs)"
      using y unfolding scan_yields_def by (elim exE conjE) (rule that)
    then have p: "p < length (rl_recs a)" by (cases "p < length (rl_recs a)") auto
    then have x: "x = snd (rl_recs a ! p)" "xs = map snd (drop (Suc p) (rl_recs a))"
      using a(4) by (auto simp: Cons_nth_drop_Suc[OF p, symmetric])
    have v: "RL_CursorIsValid (se_bt e) c = Inr True" "rl_recs a \<noteq> []"
      using rt.is_valid_iff[OF a(1,3)] p by auto
    obtain c1 where c1: "RL_GetRecord (se_bt e) c = Inr (x, c1)" "rl_pos a c1 p"
      using rt.get_record_law[OF a(1,3) p] x(1) by blast
    obtain c2 where c2: "RL_MoveToNext (se_bt e) c1 = Inr c2" "rl_pos a c2 (min (Suc p) (length (rl_recs a)))"
      using rt.to_next_law[OF a(1) c1(2)] by blast
    have "min (Suc p) (length (rl_recs a)) = Suc p" using p by simp
    then have "scan_yields (e\<lparr>se_c := Some c2\<rparr>) xs"
      unfolding scan_yields_def using a(1,5) c2(2) x(2)
      by (intro exI[of _ a] exI[of _ c2] exI[of _ "Suc p"]) simp
    moreover have "get_next seq_scan_iterator e h = Inr (x, e\<lparr>se_c := Some c2\<rparr>, h)"
      using RL_IsEmpty_inv[OF a(1), of c] a(2) v c1(1) c2(1)
      by (simp add: get_next_def seq_scan_iterator_def seq_scan_next_def)
    ultimately show ?thesis using a(5) by auto
  qed
  show "\<exists>e'. close_iterator seq_scan_iterator e h = Inr (e', h)"
    by (simp add: close_iterator_def seq_scan_iterator_def seq_scan_close_def)
qed

section \<open>Index scan\<close>

text \<open>
  The table of an index on a relation maps every projection \<open>k\<close> that occurs to a queue, and the
  queues \<open>E k\<close>, which share nothing, hold the tuples \<open>g k\<close>.
\<close>

definition queues_rep :: "(key \<Rightarrow> bool) \<Rightarrow> qheap \<Rightarrow> (key \<rightharpoonup> addr) \<Rightarrow> (key \<Rightarrow> addr list) \<Rightarrow> (key \<Rightarrow> addr list) \<Rightarrow> bool" where
  "queues_rep V q m E g \<longleftrightarrow>
     (\<forall>k. V k \<longrightarrow> (case m k of None \<Rightarrow> g k = [] | Some l \<Rightarrow> fifo_rep q l (E k) \<and> data_of q (E k) = g k)) \<and>
     (\<forall>k k' l l'. V k \<longrightarrow> V k' \<longrightarrow> k \<noteq> k' \<longrightarrow> m k = Some l \<longrightarrow> m k' = Some l' \<longrightarrow> l \<noteq> l' \<and> set (E k) \<inter> set (E k') = {})"

lemma fifo_rep_old:
  assumes "qheap_ok q" and "fifo_rep q l es"
  shows "l \<noteq> NULL" "l < qfresh q" "\<And>a. a \<in> set es \<Longrightarrow> a < qfresh q"
proof -
  obtain x :: fifo where x: "l \<noteq> NULL" "fifos q l = Some x" "elist (elems q) (q_head x) es"
    using assms(2) by (auto simp: fifo_rep_def)
  show "l \<noteq> NULL" by (fact x(1))
  show "l < qfresh q" using assms(1) x(2) by (auto simp: qheap_ok_def)
  show "a < qfresh q" if "a \<in> set es" for a
    using elist_dom[OF x(3) that] assms(1) by (auto simp: qheap_ok_def)
qed

lemma queues_rep_fifo: "queues_rep V q m E g \<Longrightarrow> V k \<Longrightarrow> m k = Some l \<Longrightarrow> fifo_rep q l (E k) \<and> data_of q (E k) = g k"
  by (auto simp: queues_rep_def split: option.splits)

lemma queues_rep_none: "queues_rep V q m E g \<Longrightarrow> V k \<Longrightarrow> m k = None \<Longrightarrow> g k = []"
  by (auto simp: queues_rep_def split: option.splits)

lemma queues_rep_sep:
  assumes "queues_rep V q m E g" and "V k" "V k'" "k \<noteq> k'" "m k = Some l" "m k' = Some l'"
  shows "l \<noteq> l'" "set (E k) \<inter> set (E k') = {}"
  using assms unfolding queues_rep_def by blast+

lemma queues_repI:
  assumes "\<And>k. V k \<Longrightarrow> m k = None \<Longrightarrow> g k = []"
    and "\<And>k l. V k \<Longrightarrow> m k = Some l \<Longrightarrow> fifo_rep q l (E k) \<and> data_of q (E k) = g k"
    and "\<And>k k' l l'. V k \<Longrightarrow> V k' \<Longrightarrow> k \<noteq> k' \<Longrightarrow> m k = Some l \<Longrightarrow> m k' = Some l' \<Longrightarrow> l \<noteq> l' \<and> set (E k) \<inter> set (E k') = {}"
  shows "queues_rep V q m E g"
  unfolding queues_rep_def
proof (intro conjI allI impI)
  show "case m k of None \<Rightarrow> g k = [] | Some l \<Rightarrow> fifo_rep q l (E k) \<and> data_of q (E k) = g k" if "V k" for k
    using assms(1,2)[OF that] by (cases "m k") simp_all
qed (use assms(3) in blast)+

lemma queues_rep_new:
  assumes rep: "queues_rep V q m E g" and ok: "qheap_ok q" and mem: "0 < qmem q" and k: "V k" "m k = None"
  shows "\<exists>q1. fifo_new q = Inr (qfresh q, q1) \<and> queues_rep V q1 (m(k \<mapsto> qfresh q)) (E(k := [])) g \<and>
    qheap_ok q1 \<and> Suc (qmem q1) = qmem q"
proof -
  obtain q1 where q1: "fifo_new q = Inr (qfresh q, q1)" "fifo_rep q1 (qfresh q) []" "qheap_ok q1"
    "elems q1 = elems q" "\<forall>a. a \<noteq> qfresh q \<longrightarrow> fifos q1 a = fifos q a" "Suc (qmem q1) = qmem q"
    using fifo_new_rep[OF ok mem] by (elim exE conjE) (rule that)
  have old: "l < qfresh q \<and> fifo_rep q1 l (E k') \<and> data_of q1 (E k') = g k'"
    if "V k'" "m k' = Some l" for k' l
  proof -
    have r: "fifo_rep q l (E k')" "data_of q (E k') = g k'" using queues_rep_fifo[OF rep that] by simp_all
    have l: "l < qfresh q" using fifo_rep_old(2)[OF ok r(1)] .
    then have "fifos q1 l = fifos q l" using q1(5) by simp
    then show ?thesis using fifo_rep_frame[OF r(1), of q1] r(2) q1(4) l by simp
  qed
  have "queues_rep V q1 (m(k \<mapsto> qfresh q)) (E(k := [])) g"
  proof (rule queues_repI)
    show "g k' = []" if "V k'" "(m(k \<mapsto> qfresh q)) k' = None" for k'
      using queues_rep_none[OF rep that(1)] that(2) by (simp split: if_splits)
    show "fifo_rep q1 l ((E(k := [])) k') \<and> data_of q1 ((E(k := [])) k') = g k'"
      if "V k'" "(m(k \<mapsto> qfresh q)) k' = Some l" for k' l
      using old[OF that(1), of l] that(2) q1(2) queues_rep_none[OF rep k]
      by (cases "k' = k") (simp_all add: data_of_def)
    show "l1 \<noteq> l2 \<and> set ((E(k := [])) k1) \<inter> set ((E(k := [])) k2) = {}"
      if "V k1" "V k2" "k1 \<noteq> k2" "(m(k \<mapsto> qfresh q)) k1 = Some l1" "(m(k \<mapsto> qfresh q)) k2 = Some l2" for k1 k2 l1 l2
      using that old[OF that(1), of l1] old[OF that(2), of l2] queues_rep_sep[OF rep that(1-3), of l1 l2]
      by (cases "k1 = k"; cases "k2 = k") simp_all
  qed
  then show ?thesis using q1(1,3,6) by blast
qed

lemma queues_rep_put:
  assumes rep: "queues_rep V q m E g" and ok: "qheap_ok q" and mem: "0 < qmem q" and k: "V k" "m k = Some l"
  shows "\<exists>q1. put_data q l t = Inr q1 \<and> queues_rep V q1 m (E(k := E k @ [qfresh q])) (g(k := g k @ [t])) \<and>
    qheap_ok q1 \<and> Suc (qmem q1) = qmem q"
proof -
  have r: "fifo_rep q l (E k)" "data_of q (E k) = g k" using queues_rep_fifo[OF rep k] by simp_all
  obtain q1 where q1: "put_data q l t = Inr q1" "fifo_rep q1 l (E k @ [qfresh q])"
    "data_of q1 (E k @ [qfresh q]) = data_of q (E k) @ [t]" "qheap_ok q1" "qmem q = Suc (qmem q1)"
    "\<forall>a. a \<noteq> l \<longrightarrow> fifos q1 a = fifos q a" "\<forall>a. a \<notin> set (E k) \<longrightarrow> a \<noteq> qfresh q \<longrightarrow> elems q1 a = elems q a"
    "qfresh q1 = Suc (qfresh q)"
    using put_data_rep[OF ok r(1) mem, of t] by (elim exE conjE) (rule that)
  have other: "fifo_rep q1 l' (E k') \<and> data_of q1 (E k') = g k' \<and> l' \<noteq> l \<and> qfresh q \<notin> set (E k') \<and> set (E k) \<inter> set (E k') = {}"
    if "V k'" "m k' = Some l'" "k' \<noteq> k" for k' l'
  proof -
    have r': "fifo_rep q l' (E k')" "data_of q (E k') = g k'" using queues_rep_fifo[OF rep that(1,2)] by simp_all
    have sep: "l' \<noteq> l" "set (E k) \<inter> set (E k') = {}"
      using queues_rep_sep[OF rep k(1) that(1) _ k(2) that(2)] that(3) by blast+
    have fresh: "qfresh q \<notin> set (E k')" using fifo_rep_old(3)[OF ok r'(1)] by blast
    have "elems q1 a = elems q a" if "a \<in> set (E k')" for a
      using q1(7) sep(2) fresh that by auto
    moreover have "fifos q1 l' = fifos q l'" using q1(6) sep(1) by simp
    ultimately show ?thesis using fifo_rep_frame[OF r'(1), of q1] r'(2) sep fresh by simp
  qed
  let ?E = "E(k := E k @ [qfresh q])" and ?g = "g(k := g k @ [t])"
  have "queues_rep V q1 m ?E ?g"
  proof (rule queues_repI)
    show "?g k' = []" if "V k'" "m k' = None" for k'
      using queues_rep_none[OF rep that] that(2) k(2) by (cases "k' = k") simp_all
    show "fifo_rep q1 l' (?E k') \<and> data_of q1 (?E k') = ?g k'" if "V k'" "m k' = Some l'" for k' l'
      using other[OF that] that(2) q1(2,3) r(2) k(2) by (cases "k' = k") simp_all
    show "l1 \<noteq> l2 \<and> set (?E k1) \<inter> set (?E k2) = {}"
      if "V k1" "V k2" "k1 \<noteq> k2" "m k1 = Some l1" "m k2 = Some l2" for k1 k2 l1 l2
      using that other[OF that(1,4)] other[OF that(2,5)] queues_rep_sep[OF rep that]
      by (cases "k1 = k"; cases "k2 = k") auto
  qed
  then show ?thesis using q1(1,4,5) by metis
qed

text \<open>What one round of the scan does to the queues.\<close>

lemma queues_rep_add:
  assumes rep: "queues_rep V q m E g" and ok: "qheap_ok q" and mem: "2 \<le> qmem q" and k: "V k"
  shows "\<exists>l q1 q2 E'. (if (case m k of None \<Rightarrow> NULL | Some l \<Rightarrow> l) = NULL then fifo_new q
      else Inr (case m k of None \<Rightarrow> NULL | Some l \<Rightarrow> l, q)) = Inr (l, q1) \<and>
    put_data q1 l t = Inr q2 \<and> queues_rep V q2 (m(k \<mapsto> l)) E' (g(k := g k @ [t])) \<and> qheap_ok q2 \<and> qmem q \<le> qmem q2 + 2"
proof (cases "m k")
  case None
  have "0 < qmem q" using mem by simp
  from queues_rep_new[OF rep ok this k None] obtain q1 where q1: "fifo_new q = Inr (qfresh q, q1)"
    "queues_rep V q1 (m(k \<mapsto> qfresh q)) (E(k := [])) g" "qheap_ok q1" "Suc (qmem q1) = qmem q" by blast
  have m: "0 < qmem q1" "(m(k \<mapsto> qfresh q)) k = Some (qfresh q)" using q1(4) mem by simp_all
  from queues_rep_put[OF q1(2,3) m(1) k m(2), of t] obtain q2 where q2: "put_data q1 (qfresh q) t = Inr q2"
    "queues_rep V q2 (m(k \<mapsto> qfresh q)) ((E(k := []))(k := (E(k := [])) k @ [qfresh q1])) (g(k := g k @ [t]))"
    "qheap_ok q2" "Suc (qmem q2) = qmem q1" by blast
  have "(if (case m k of None \<Rightarrow> NULL | Some l \<Rightarrow> l) = NULL then fifo_new q
    else Inr (case m k of None \<Rightarrow> NULL | Some l \<Rightarrow> l, q)) = Inr (qfresh q, q1)"
    using q1(1) None by simp
  moreover have "qmem q \<le> qmem q2 + 2" using q1(4) q2(4) by simp
  ultimately show ?thesis using q2(1-3) by (intro exI conjI)
next
  case (Some l)
  have l: "l \<noteq> NULL" using queues_rep_fifo[OF rep k Some] fifo_rep_old(1)[OF ok] by blast
  have "0 < qmem q" using mem by simp
  from queues_rep_put[OF rep ok this k Some, of t] obtain q2 where q2: "put_data q l t = Inr q2"
    "queues_rep V q2 m (E(k := E k @ [qfresh q])) (g(k := g k @ [t]))" "qheap_ok q2" "Suc (qmem q2) = qmem q" by blast
  have "m(k \<mapsto> l) = m" using Some by auto
  then have "queues_rep V q2 (m(k \<mapsto> l)) (E(k := E k @ [qfresh q])) (g(k := g k @ [t]))" using q2(2) by simp
  moreover have "(if (case m k of None \<Rightarrow> NULL | Some l \<Rightarrow> l) = NULL then fifo_new q
    else Inr (case m k of None \<Rightarrow> NULL | Some l \<Rightarrow> l, q)) = Inr (l, q)"
    using Some l by simp
  moreover have "qmem q \<le> qmem q2 + 2" using q2(4) by simp
  ultimately show ?thesis using q2(1,3) by (intro exI conjI)
qed

definition index_inv :: "shape \<Rightarrow> dheap \<Rightarrow> addr \<Rightarrow> (key \<Rightarrow> addr list) \<Rightarrow> bool" where
  "index_inv d h ind g \<longleftrightarrow> heap_ok (tabs h) \<and> qheap_ok (qs h) \<and>
     (\<exists>F m E. shape_rep d (tabs h) ind F m \<and> queues_rep (valid_key d) (qs h) m E g)"

text \<open>One round of the loop adds the tuple to the queue of its projection.\<close>

lemma index_scan_round:
  assumes inv: "index_inv d h ind g" and k: "valid_key d k" and t: "get_projection h as t ps = Inr (k, h1)" "t \<noteq> NULL"
    and "get_next seq_scan_iterator e h = Inr (t, e', h)" and sch: "sch = schema_of d" and "rel_attrs rel = as"
    and mem: "shape_cost d \<le> omem (tabs h)" "2 \<le> qmem (qs h)"
  shows "\<exists>h'. index_scan_loop (Suc fuel) sch ind rel ps e h = index_scan_loop fuel sch ind rel ps e' h' \<and>
    index_inv d h' ind (g(k := g k @ [t])) \<and> tups h' = tups h \<and>
    omem (tabs h) \<le> omem (tabs h') + shape_cost d \<and> qmem (qs h) \<le> qmem (qs h') + 2 \<and>
    dmem h' = dmem h - (length ps - 1)"
proof -
  have h1: "h1 = h\<lparr>dmem := dmem h - (length ps - 1)\<rparr>" using get_projection_Inr[OF t(1)] by simp
  have hs: "tabs h1 = tabs h" "qs h1 = qs h" by (simp_all add: h1)
  note contract = schema_of_contract[of d]
  obtain F m E where r: "heap_ok (tabs h)" "qheap_ok (qs h)" "shape_rep d (tabs h) ind F m"
    "queues_rep (valid_key d) (qs h) m E g"
    using inv unfolding index_inv_def by blast
  have look: "index_lookup sch (tabs h) ind k = Inr (case m k of None \<Rightarrow> NULL | Some l \<Rightarrow> l)"
    using index_schema.lookup_law[OF contract r(3) k] sch by simp
  obtain l q1 q2 E' where q: "(if (case m k of None \<Rightarrow> NULL | Some l \<Rightarrow> l) = NULL then fifo_new (qs h)
      else Inr (case m k of None \<Rightarrow> NULL | Some l \<Rightarrow> l, qs h)) = Inr (l, q1)"
    "put_data q1 l t = Inr q2" "queues_rep (valid_key d) q2 (m(k \<mapsto> l)) E' (g(k := g k @ [t]))" "qheap_ok q2"
    "qmem (qs h) \<le> qmem q2 + 2"
    using queues_rep_add[OF r(4,2) mem(2) k, of t] by (elim exE conjE) (rule that)
  obtain p q1' where p: "make_elem q1 t = Inr (p, q1')" "fifo_put q1' l p = Inr q2"
    using q(2) by (auto simp: put_data_def rbind_eq_Inr)
  obtain t1 F' where ins: "index_insert sch (tabs h) ind k l = Inr (case m k of None \<Rightarrow> NULL | Some v \<Rightarrow> v, t1)"
    "shape_rep d t1 ind F' (m(k \<mapsto> l))" "table_step (tabs h) F t1 F' (shape_cost d)"
    using index_schema.insert_law[OF contract r(1,3) k mem(1)] sch by blast
  let ?h = "h1\<lparr>qs := q2, tabs := t1\<rparr>"
  have "index_scan_loop (Suc fuel) sch ind rel ps e h = index_scan_loop fuel sch ind rel ps e' ?h"
    using assms(5,7) t look q(1)[folded hs(2)] p ins(1) by (simp add: hs(1))
  moreover have "index_inv d ?h ind (g(k := g k @ [t]))"
    unfolding index_inv_def using table_stepD(1)[OF ins(3)] q(3,4) ins(2) by auto
  moreover have "omem (tabs h) \<le> omem (tabs ?h) + shape_cost d" using table_stepD(6)[OF ins(3)] by simp
  ultimately show ?thesis using q(5) by (intro exI[of _ ?h] conjI) (simp_all add: h1)
qed

lemma index_scan_loop_law:
  assumes "index_inv d h ind g" and "scan_yields e xs" and "length xs < fuel"
    and "\<forall>t \<in> set xs. (\<exists>h1. get_projection h as t ps = Inr (pr t, h1)) \<and> valid_key d (pr t)"
    and "sch = schema_of d" and "rel_attrs rel = as"
    and "length xs * shape_cost d \<le> omem (tabs h)" and "2 * length xs \<le> qmem (qs h)"
    and "length xs * (length ps - 1) \<le> dmem h"
  shows "\<exists>h'. index_scan_loop fuel sch ind rel ps e h = Inr h' \<and>
    index_inv d h' ind (\<lambda>k. g k @ filter (\<lambda>t. pr t = k) xs) \<and> tups h' = tups h"
  using assms
proof (induction fuel arbitrary: e xs h g)
  case 0
  then show ?case by simp
next
  case (Suc fuel)
  show ?case
  proof (cases xs)
    case Nil
    then obtain e' where "get_next seq_scan_iterator e h = Inr (NULL, e', h)" using scan.next_nil Suc.prems(2) by blast
    then show ?thesis using Nil Suc.prems(1) by (intro exI[of _ h]) simp
  next
    case (Cons x xs')
    then obtain e' where n: "get_next seq_scan_iterator e h = Inr (x, e', h)" "scan_yields e' xs'" "x \<noteq> NULL"
      using scan.next_cons[of e x xs' h] Suc.prems(2) by blast
    obtain h0 where x: "get_projection h as x ps = Inr (pr x, h0)" "valid_key d (pr x)" using Suc.prems(4) Cons by auto
    have mem: "shape_cost d \<le> omem (tabs h)" "2 \<le> qmem (qs h)" using Suc.prems(7,8) Cons by simp_all
    obtain h1 where h1: "index_scan_loop (Suc fuel) sch ind rel ps e h = index_scan_loop fuel sch ind rel ps e' h1"
      "index_inv d h1 ind (g(pr x := g (pr x) @ [x]))" "tups h1 = tups h"
      "omem (tabs h) \<le> omem (tabs h1) + shape_cost d" "qmem (qs h) \<le> qmem (qs h1) + 2"
      "dmem h1 = dmem h - (length ps - 1)"
      using index_scan_round[where fuel = fuel, OF Suc.prems(1) x(2,1) n(3,1) Suc.prems(5,6) mem] by (elim exE conjE) (rule that)
    have room: "length xs' < fuel" "length xs' * shape_cost d \<le> omem (tabs h1)" "2 * length xs' \<le> qmem (qs h1)"
      "length xs' * (length ps - 1) \<le> dmem h1"
      using Suc.prems(3,7,8,9) h1(4-6) Cons by simp_all
    have pr: "\<forall>t \<in> set xs'. (\<exists>h2. get_projection h1 as t ps = Inr (pr t, h2)) \<and> valid_key d (pr t)"
    proof
      fix t assume t: "t \<in> set xs'"
      obtain h2 where "get_projection h as t ps = Inr (pr t, h2)" "valid_key d (pr t)" using Suc.prems(4) Cons t by auto
      moreover have "length ps - 1 \<le> length xs' * (length ps - 1)" using t by (cases xs') simp_all
      ultimately show "(\<exists>h2. get_projection h1 as t ps = Inr (pr t, h2)) \<and> valid_key d (pr t)"
        using get_projection_frame[OF tuple_at_cong[OF h1(3)] _ le_trans[OF _ room(4)]] by blast
    qed
    obtain h' where h': "index_scan_loop fuel sch ind rel ps e' h1 = Inr h'"
      "index_inv d h' ind (\<lambda>k. (g(pr x := g (pr x) @ [x])) k @ filter (\<lambda>t. pr t = k) xs')" "tups h' = tups h1"
      using Suc.IH[OF h1(2) n(2) room(1) pr Suc.prems(5,6) room(2-4)] by blast
    have "(\<lambda>k. (g(pr x := g (pr x) @ [x])) k @ filter (\<lambda>t. pr t = k) xs') = (\<lambda>k. g k @ filter (\<lambda>t. pr t = k) xs)"
      using Cons by (simp add: fun_eq_iff)
    then show ?thesis using h' h1(1,3) by auto
  qed
qed

text \<open>
  The index that \<open>index_scan\<close> builds: every projection that occurs is mapped to a queue of the
  tuples with that projection, in the order of the primary key, every other one to NULL.
\<close>

theorem index_scan_correct:
  assumes rel: "rl_inv (rel_pk_index rel) a" "avail (rel_pk_index rel) \<noteq> 0" "NULL \<notin> snd ` set (rl_recs a)"
    and attrs: "attrs \<noteq> []"
    and pr: "\<forall>t \<in> snd ` set (rl_recs a). (\<exists>h1. get_projection h (rel_attrs rel) t attrs = Inr (pr t, h1)) \<and>
      valid_key (shape_of attrs) (pr t)"
    and heap: "heap_ok (tabs h)" "qheap_ok (qs h)" "2 * length attrs + length (rl_recs a) * (length attrs - 1) \<le> dmem h"
    and mem: "Suc (length (rl_recs a)) * shape_cost (shape_of attrs) \<le> omem (tabs h)" "2 * length (rl_recs a) \<le> qmem (qs h)"
    and fuel: "length (rl_recs a) < fuel"
  shows "\<exists>ind h'. index_scan fuel rel attrs h = Inr (ind, h') \<and> tups h' = tups h \<and>
    index_inv (shape_of attrs) h' ind (\<lambda>k. filter (\<lambda>t. pr t = k) (map snd (rl_recs a)))"
proof -
  let ?d = "shape_of attrs" and ?xs = "map snd (rl_recs a)"
  note contract = schema_of_contract[of ?d]
  have "shape_cost ?d \<le> omem (tabs h)" using mem(1) by simp
  then obtain ind t1 F where new: "index_new (schema_of ?d) (tabs h) = Inr (ind, t1)" "shape_rep ?d t1 ind F Map.empty"
    "table_step (tabs h) {} t1 F (shape_cost ?d)"
    using index_schema.new_law[OF contract heap(1)] by blast
  let ?w = "length attrs - 1"
  have w: "length attrs = Suc ?w" using attrs by simp
  let ?h1 = "h\<lparr>dmem := dmem h - 2 * ?w, tabs := t1\<rparr>"
  have m2: "2 * ?w \<le> dmem h" "2 \<le> dmem ?h1" using heap(3) w by simp_all
  let ?h2 = "?h1\<lparr>dmem := dmem ?h1 - 2\<rparr>" and ?e = "\<lparr>se_bt = rel_pk_index rel, se_c = None\<rparr>"
  have scan: "seq_scan rel ?h1 = Inr (?e, ?h2)" using m2(2) by (simp add: seq_scan_def)
  have "scan_ready ?e ?xs" unfolding scan_ready_def using rel by (intro exI[of _ a]) simp
  then obtain e1 where e1: "init_iterator seq_scan_iterator ?e ?h2 = Inr (e1, ?h2)" "scan_yields e1 ?xs"
    using scan.init_law[of ?e ?xs ?h2] by blast
  have "queues_rep (valid_key ?d) (qs h) Map.empty (\<lambda>k. []) (\<lambda>k. [])" by (simp add: queues_rep_def)
  then have inv: "index_inv ?d ?h2 ind (\<lambda>k. [])"
    unfolding index_inv_def using table_stepD(1)[OF new(3)] heap(2) new(2) by auto
  have room: "length ?xs < fuel" "length ?xs * shape_cost ?d \<le> omem (tabs ?h2)" "2 * length ?xs \<le> qmem (qs ?h2)"
    "length ?xs * ?w \<le> dmem ?h2"
    using fuel mem table_stepD(6)[OF new(3)] heap(3) w by simp_all
  have pr': "\<forall>t \<in> set ?xs. (\<exists>h1. get_projection ?h2 (rel_attrs rel) t attrs = Inr (pr t, h1)) \<and> valid_key ?d (pr t)"
  proof
    fix t assume t: "t \<in> set ?xs"
    obtain h1 where "get_projection h (rel_attrs rel) t attrs = Inr (pr t, h1)" "valid_key ?d (pr t)" using pr t by auto
    moreover have "?w \<le> length ?xs * ?w" using t by (cases "rl_recs a") simp_all
    moreover have "tuple_at ?h2 t = tuple_at h t" by (rule tuple_at_cong) simp
    ultimately show "(\<exists>h1. get_projection ?h2 (rel_attrs rel) t attrs = Inr (pr t, h1)) \<and> valid_key ?d (pr t)"
      using get_projection_frame[OF _ _ le_trans[OF _ room(4)]] by blast
  qed
  obtain h' where h': "index_scan_loop fuel (schema_of ?d) ind rel attrs e1 ?h2 = Inr h'"
    "index_inv ?d h' ind (\<lambda>k. [] @ filter (\<lambda>t. pr t = k) ?xs)" "tups h' = tups ?h2"
    using index_scan_loop_law[OF inv e1(2) room(1) pr' refl refl room(2-4)] by blast
  have "index_scan fuel rel attrs h = Inr (ind, h')"
    using new(1) scan e1(1) h'(1) get_schema_shape[OF attrs m2(1)] by (simp add: index_scan_def)
  then show ?thesis using h'(2,3) by simp
qed

lemma index_inv_lookup:
  assumes "index_inv d h ind g" and "valid_key d k"
  shows "\<exists>l. index_lookup (schema_of d) (tabs h) ind k = Inr l \<and>
    (if l = NULL then g k = [] else queue_rep (qs h) l (g k))"
proof -
  obtain F m E where r: "qheap_ok (qs h)" "shape_rep d (tabs h) ind F m" "queues_rep (valid_key d) (qs h) m E g"
    using assms(1) unfolding index_inv_def by blast
  have look: "index_lookup (schema_of d) (tabs h) ind k = Inr (case m k of None \<Rightarrow> NULL | Some l \<Rightarrow> l)"
    using index_schema.lookup_law[OF schema_of_contract r(2) assms(2)] .
  show ?thesis
  proof (cases "m k")
    case None
    then show ?thesis using look queues_rep_none[OF r(3) assms(2)] by simp
  next
    case (Some l)
    have f: "fifo_rep (qs h) l (E k)" "data_of (qs h) (E k) = g k" using queues_rep_fifo[OF r(3) assms(2) Some] by simp_all
    then have "queue_rep (qs h) l (g k)" by (auto simp: queue_rep_def)
    then show ?thesis using look Some fifo_rep_old(1)[OF r(1) f(1)] by simp
  qed
qed

end
