(* ===== verification/Db_Join.thy ===== *)
theory Db_Join
  imports Db_Laws
begin

text \<open>
  Index joins: the tuple that \<open>index_join_next\<close> builds from an outer and an inner tuple, and what
  the call does to the index on the inner relation, whose queues it consumes.
\<close>

section \<open>The joined tuple\<close>

definition join_cols :: "attribute_list \<Rightarrow> attribute_list \<Rightarrow> tuple \<Rightarrow> tuple" where
  "join_cols inner_attrs join_attrs inner_t =
     map snd (filter (\<lambda>ax. att_id (fst ax) \<notin> att_id ` set join_attrs) (zip inner_attrs inner_t))"

text \<open>The schema of a join: the attributes joined on are among the inner ones, with the same domains.\<close>

definition join_attrs_ok :: "attribute_list \<Rightarrow> attribute_list \<Rightarrow> bool" where
  "join_attrs_ok inner_attrs join_attrs \<longleftrightarrow> distinct (map att_id inner_attrs) \<and> distinct join_attrs \<and>
     join_attrs \<noteq> [] \<and> set join_attrs \<subseteq> set inner_attrs"

lemma takeWhile_id:
  assumes "distinct (map f xs)" and "i < length xs"
  shows "length (takeWhile (\<lambda>x. f x \<noteq> f (xs ! i)) xs) = i"
  using assms
proof (induction xs arbitrary: i)
  case (Cons x xs)
  show ?case
  proof (cases i)
    case (Suc j)
    have "f x \<noteq> f (xs ! j)" using Cons.prems Suc by auto
    then show ?thesis using Cons Suc by simp
  qed simp
qed simp

lemma get_offset_nth:
  assumes "distinct (map att_id as)" and "i < length as"
  shows "get_offset as (att_id (as ! i)) (att_domain (as ! i)) = Inr (int i)"
  using takeWhile_id[OF assms] assms(2) by (auto simp: get_offset_spec Let_def)

lemma get_offset_absent:
  assumes "i \<notin> att_id ` set as" and "as \<noteq> []"
  shows "get_offset as i d = Inr (- 1)"
proof -
  have tw: "takeWhile (\<lambda>a. att_id a \<noteq> i) as = as" using assms(1) by (auto simp: takeWhile_eq_all_conv)
  show ?thesis unfolding get_offset_spec Let_def tw using assms(2) by simp
qed

lemma get_offset_member:
  assumes "join_attrs_ok as js" and "a \<in> set as" and "att_id a \<in> att_id ` set js"
  shows "a \<in> set js" "\<exists>j. get_offset js (att_id a) (att_domain a) = Inr (int j)"
proof -
  obtain b where b: "b \<in> set js" "att_id b = att_id a" using assms(3) by auto
  have inj: "inj_on att_id (set as)" using assms(1) by (simp add: join_attrs_ok_def distinct_map)
  have "b \<in> set as" using b(1) assms(1) by (auto simp: join_attrs_ok_def)
  then have "b = a" using inj_onD[OF inj b(2)] assms(2) by blast
  then show m: "a \<in> set js" using b(1) by simp
  then obtain j where j: "j < length js" "js ! j = a" by (auto simp: in_set_conv_nth)
  have "distinct (map att_id js)"
    using assms(1) inj by (auto simp: join_attrs_ok_def distinct_map intro: inj_on_subset)
  then show "\<exists>j. get_offset js (att_id a) (att_domain a) = Inr (int j)"
    using get_offset_nth[of js j] j by auto
qed

lemma length_join_cols:
  assumes ok: "join_attrs_ok as js" and len: "length xs = length as"
  shows "length (join_cols as js xs) + length js = length as"
proof -
  let ?in = "\<lambda>a. att_id a \<in> att_id ` set js"
  have "length (filter (\<lambda>ax. \<not> ?in (fst ax)) (zip as xs)) = length (filter (\<lambda>a. \<not> ?in a) (map fst (zip as xs)))"
    by (simp add: filter_map comp_def)
  then have "length (join_cols as js xs) = length (filter (\<lambda>a. \<not> ?in a) as)"
    using len by (simp add: join_cols_def)
  moreover have "length (filter ?in as) = length js"
  proof -
    have d: "distinct (filter ?in as)" "distinct js" "set js \<subseteq> set as"
      using ok by (simp_all add: join_attrs_ok_def distinct_map)
    have "set (filter ?in as) \<subseteq> set js" using get_offset_member(1)[OF ok] by auto
    moreover have "set js \<subseteq> set (filter ?in as)" using d(3) by auto
    ultimately have "card (set (filter ?in as)) = card (set js)" by (intro arg_cong[of _ _ card]) blast
    then show ?thesis using distinct_card[OF d(1)] distinct_card[OF d(2)] by simp
  qed
  ultimately show ?thesis using sum_length_filter_compl[of ?in as] by simp
qed

lemma copy_inner_spec:
  assumes ok: "join_attrs_ok as js" and "as = pre @ ls" and len: "length inner_t = length as"
    and "outer_len + n + length (join_cols ls js (drop (length pre) inner_t)) \<le> length new_t"
  shows "copy_inner as js ls inner_t outer_len n new_t =
    Inr (take (outer_len + n) new_t @ join_cols ls js (drop (length pre) inner_t) @
      drop (outer_len + n + length (join_cols ls js (drop (length pre) inner_t))) new_t)"
  using assms(2,4)
proof (induction ls arbitrary: pre n new_t)
  case Nil
  then show ?case by (simp add: join_cols_def)
next
  case (Cons a ls)
  let ?p = "length pre"
  have p: "?p < length as" "as ! ?p = a" using Cons.prems(1) by simp_all
  have ofs: "get_offset as (att_id a) (att_domain a) = Inr (int ?p)"
    using get_offset_nth[of as ?p] p ok by (simp add: join_attrs_ok_def)
  have dr: "drop ?p inner_t = inner_t ! ?p # drop (Suc ?p) inner_t"
    using p(1) len by (simp add: Cons_nth_drop_Suc)
  note IH = Cons.IH[of "pre @ [a]"]
  show ?case
  proof (cases "att_id a \<in> att_id ` set js")
    case True
    have "a \<in> set as" using p by (metis nth_mem)
    then obtain j where j: "get_offset js (att_id a) (att_domain a) = Inr (int j)"
      using get_offset_member(2)[OF ok _ True] by blast
    have cols: "join_cols (a # ls) js (drop ?p inner_t) = join_cols ls js (drop (Suc ?p) inner_t)"
      using True by (simp add: join_cols_def dr)
    show ?thesis using IH[of n new_t] ofs j Cons.prems unfolding cols by simp
  next
    case False
    have j: "get_offset js (att_id a) (att_domain a) = Inr (- 1)"
      using get_offset_absent[OF False] ok by (simp add: join_attrs_ok_def)
    define cs where "cs = join_cols ls js (drop (Suc ?p) inner_t)"
    have cols: "join_cols (a # ls) js (drop ?p inner_t) = inner_t ! ?p # cs"
      using False by (simp add: join_cols_def dr cs_def)
    have fits: "outer_len + n < length new_t" "outer_len + Suc n + length cs \<le> length new_t"
      using Cons.prems(2) unfolding cols by simp_all
    let ?new = "new_t[outer_len + n := inner_t ! ?p]"
    have aset: "aset new_t (int outer_len + int n) (inner_t ! ?p) = Inr ?new"
      using aset_int[OF fits(1)] by simp
    have "copy_inner as js (a # ls) inner_t outer_len n new_t = copy_inner as js ls inner_t outer_len (Suc n) ?new"
      using ofs j p(1) len aset by simp
    also have "\<dots> = Inr (take (outer_len + Suc n) ?new @ cs @ drop (outer_len + Suc n + length cs) ?new)"
      using IH[of "Suc n" ?new] Cons.prems(1) fits(2) by (simp add: cs_def)
    also have "take (outer_len + Suc n) ?new = take (outer_len + n) new_t @ [inner_t ! ?p]"
      using fits(1) by (simp add: take_Suc_conv_app_nth)
    also have "drop (outer_len + Suc n + length cs) ?new = drop (outer_len + n + length (inner_t ! ?p # cs)) new_t"
      by simp
    finally show ?thesis unfolding cols by simp
  qed
qed

section \<open>One step of the join\<close>

definition join_tuple :: "attribute_list \<Rightarrow> attribute_list \<Rightarrow> nat \<Rightarrow> tuple \<Rightarrow> tuple \<Rightarrow> tuple" where
  "join_tuple inner_attrs join_attrs outer_len outer_t inner_t =
     take outer_len outer_t @ join_cols inner_attrs join_attrs inner_t @ [None]"

lemma copy_inner_join:
  assumes ok: "join_attrs_ok as js" and len: "length inner_t = length as" "n \<le> length outer_t"
  shows "rbind (copy_words (replicate (n + length as - length js + 1) None) outer_t n)
      (copy_inner as js as inner_t n 0) = Inr (join_tuple as js n outer_t inner_t)"
proof -
  have c: "length (join_cols as js inner_t) + length js = length as" using length_join_cols[OF ok len(1)] .
  let ?buf = "take n outer_t @ replicate (length as - length js + 1) None"
  have sz: "n + length as - length js + 1 = n + (length as - length js + 1)" using c by simp
  have "copy_words (replicate (n + length as - length js + 1) None) outer_t n = Inr ?buf"
    using len(2) unfolding sz copy_words_def by (simp del: replicate_Suc)
  moreover have "copy_inner as js as inner_t n 0 ?buf =
    Inr (take n ?buf @ join_cols as js inner_t @ drop (n + length (join_cols as js inner_t)) ?buf)"
    using copy_inner_spec[OF ok _ len(1), of "[]" as n 0 ?buf] len(2) c by simp
  moreover have "take n ?buf = take n outer_t" using len(2) by simp
  moreover have "drop (n + length (join_cols as js inner_t)) ?buf = [None]"
  proof -
    have k: "length as - length js = length (join_cols as js inner_t)" using c by simp
    show ?thesis using len(2) unfolding k by (simp del: replicate_Suc) simp
  qed
  ultimately show ?thesis by (simp add: join_tuple_def)
qed

theorem index_join_next_correct:
  assumes e: "ij_current_inner e = Q" "ij_current_outer e = t" "t \<noteq> NULL" "Q \<noteq> NULL"
    and q: "qheap_ok (qs h)" "fifo_rep (qs h) Q (p # ps)" "data_of (qs h) (p # ps) = y # ys"
    and ok: "join_attrs_ok (ij_inner_attrs e) (ij_inner_join_attrs e)"
    and tup: "tuple_at h t = Inr outer_t" "tuple_at h y = Inr inner_t"
    and len: "length inner_t = length (ij_inner_attrs e)" "length (ij_outer_attrs e) \<le> length outer_t"
    and mem: "0 < dmem h" "0 < fuel"
  shows "\<exists>q'. fifo_get (qs h) Q = Inr (p, q') \<and>
    index_join_next fuel outer e h = Inr (dfresh h, e,
      h\<lparr>dfresh := Suc (dfresh h), dmem := dmem h - 1, qs := q',
        tups := (tups h)(dfresh h \<mapsto> join_tuple (ij_inner_attrs e) (ij_inner_join_attrs e)
          (length (ij_outer_attrs e)) outer_t inner_t)\<rparr>)"
proof -
  obtain n where fuel: "fuel = Suc n" using mem(2) by (cases fuel) auto
  obtain q' where q': "fifo_get (qs h) Q = Inr (p, q')" "elems q' = elems (qs h)"
    using fifo_get_rep[OF q(1,2)] by blast
  obtain x :: fifo where x: "elist (elems (qs h)) (q_head x) (p # ps)" using q(2) by (auto simp: fifo_rep_def)
  have "p \<noteq> NULL \<and> p \<in> dom (elems (qs h))" using elist_dom[OF x] by simp
  then have "elem_at q' p = Inr (the (elems (qs h) p))" using q'(2) by (auto simp: elem_at_def)
  moreover have "elem_data (the (elems (qs h) p)) = y" using q(3) by (simp add: data_of_def)
  moreover have "fifo_empty (qs h) Q = Inr False" using fifo_empty_rep[OF q(2)] by simp
  moreover have "rbind (copy_words (replicate (length (ij_outer_attrs e) + length (ij_inner_attrs e) -
      length (ij_inner_join_attrs e) + 1) None) outer_t (length (ij_outer_attrs e)))
      (copy_inner (ij_inner_attrs e) (ij_inner_join_attrs e) (ij_inner_attrs e) inner_t (length (ij_outer_attrs e)) 0)
    = Inr (join_tuple (ij_inner_attrs e) (ij_inner_join_attrs e) (length (ij_outer_attrs e)) outer_t inner_t)"
    using copy_inner_join[OF ok len] .
  moreover have "tuple_at (h\<lparr>dfresh := Suc (dfresh h), dmem := dmem h - Suc 0\<rparr>) = tuple_at h"
    by (simp add: fun_eq_iff tuple_at_def)
  ultimately show ?thesis
    using fuel e q'(1) tup mem(1) by (auto simp: index_join_next_def Let_def rbind_eq_Inr)
qed

section \<open>The join consumes the index\<close>

lemma queues_rep_get:
  assumes rep: "queues_rep V q m E g" and ok: "qheap_ok q" and k: "V k" "m k = Some l" "g k = y # ys"
  shows "\<exists>p ps q'. fifo_rep q l (p # ps) \<and> data_of q (p # ps) = y # ys \<and> fifo_get q l = Inr (p, q') \<and>
    queues_rep V q' m (E(k := ps)) (g(k := ys)) \<and> qheap_ok q'"
proof -
  have r: "fifo_rep q l (E k)" "data_of q (E k) = y # ys" using queues_rep_fifo[OF rep k(1,2)] k(3) by simp_all
  obtain p ps where E: "E k = p # ps" using r(2) by (cases "E k") (simp_all add: data_of_def)
  obtain q' where q': "fifo_get q l = Inr (p, q')" "fifo_rep q' l ps" "elems q' = elems q" "q_step q l {} q'"
    using fifo_get_rep[OF ok] r(1) E by metis
  have d: "data_of q' es = data_of q es" for es by (simp add: data_of_def q'(3))
  have ys: "data_of q ps = ys" using r(2) E by (simp add: data_of_def)
  have other: "fifo_rep q' l' (E k') \<and> data_of q' (E k') = g k'" if "V k'" "m k' = Some l'" "k' \<noteq> k" for k' l'
  proof -
    have r': "fifo_rep q l' (E k')" "data_of q (E k') = g k'" using queues_rep_fifo[OF rep that(1,2)] by simp_all
    have "l' \<noteq> l" using queues_rep_sep(1)[OF rep that(1) k(1) that(3) that(2) k(2)] .
    then have "fifos q' l' = fifos q l'" using q'(4) by (simp add: q_step_def)
    then show ?thesis using fifo_rep_frame(1)[OF r'(1), of q'] r'(2) q'(3) d by simp
  qed
  let ?E = "E(k := ps)" and ?g = "g(k := ys)"
  have "queues_rep V q' m ?E ?g"
  proof (rule queues_repI)
    show "?g k' = []" if "V k'" "m k' = None" for k'
      using queues_rep_none[OF rep that] that(2) k(2) by (cases "k' = k") simp_all
    show "fifo_rep q' l' (?E k') \<and> data_of q' (?E k') = ?g k'" if "V k'" "m k' = Some l'" for k' l'
      using other[OF that] that(2) q'(2) k(2) d ys by (cases "k' = k") simp_all
    show "l1 \<noteq> l2 \<and> set (?E k1) \<inter> set (?E k2) = {}"
      if "V k1" "V k2" "k1 \<noteq> k2" "m k1 = Some l1" "m k2 = Some l2" for k1 k2 l1 l2
      using that queues_rep_sep[OF rep that] E by (cases "k1 = k"; cases "k2 = k") auto
  qed
  moreover have "qheap_ok q'" using q'(4) by (simp add: q_step_def)
  ultimately show ?thesis using r E q'(1) by auto
qed

text \<open>
  A state of the join: the index holds the tuples \<open>g\<close>, the outer iterator is about to yield
  \<open>ts\<close>, whose projections are \<open>pr\<close>, and there is memory for the projections.
\<close>

definition proj_mem :: "'e index_join_env \<Rightarrow> nat" where
  "proj_mem e = length (ij_outer_join_attrs e) - 1"

definition join_state :: "shape \<Rightarrow> (addr \<Rightarrow> key) \<Rightarrow> seq_scan_env index_join_env \<Rightarrow> dheap \<Rightarrow> (key \<Rightarrow> addr list) \<Rightarrow> addr list \<Rightarrow> bool" where
  "join_state d pr e h g ts \<longleftrightarrow> index_inv d h (ij_ind_on_inner e) g \<and> ij_ind_on_inner_sch e = Some (schema_of d) \<and>
     scan_yields (ij_outer e) ts \<and>
     (\<forall>t \<in> set ts. (\<exists>h1. get_projection h (ij_outer_attrs e) t (ij_outer_join_attrs e) = Inr (pr t, h1)) \<and>
       valid_key d (pr t)) \<and>
     length ts * proj_mem e \<le> dmem h"

lemma join_state_proj:
  assumes "join_state d pr e h g ts" and "t \<in> set ts"
  shows "get_projection h (ij_outer_attrs e) t (ij_outer_join_attrs e) = Inr (pr t, h\<lparr>dmem := dmem h - proj_mem e\<rparr>)"
    and "valid_key d (pr t)"
proof -
  obtain h1 where "get_projection h (ij_outer_attrs e) t (ij_outer_join_attrs e) = Inr (pr t, h1)" "valid_key d (pr t)"
    using assms unfolding join_state_def by blast
  then show "get_projection h (ij_outer_attrs e) t (ij_outer_join_attrs e) = Inr (pr t, h\<lparr>dmem := dmem h - proj_mem e\<rparr>)"
    "valid_key d (pr t)" using get_projection_Inr unfolding proj_mem_def by blast+
qed

text \<open>The tuples that are left keep their projections while there is memory for them.\<close>

lemma join_state_step:
  assumes st: "join_state d pr e h g (t # ts)" and inv: "index_inv d h' (ij_ind_on_inner e) g'"
    and oe: "scan_yields oe ts" and tup: "\<And>x. x \<in> set ts \<Longrightarrow> tuple_at h' x = tuple_at h x"
    and mem: "length ts * proj_mem e \<le> dmem h'"
  shows "join_state d pr (e\<lparr>ij_outer := oe, ij_current_outer := u, ij_current_inner := l\<rparr>) h' g' ts"
proof -
  let ?e = "e\<lparr>ij_outer := oe, ij_current_outer := u, ij_current_inner := l\<rparr>"
  have "\<exists>h1. get_projection h' (ij_outer_attrs e) x (ij_outer_join_attrs e) = Inr (pr x, h1)" "valid_key d (pr x)"
    if x: "x \<in> set ts" for x
  proof -
    have x': "x \<in> set (t # ts)" using x by simp
    have "proj_mem e \<le> length ts * proj_mem e" using x by (cases ts) simp_all
    then have "length (ij_outer_join_attrs e) - 1 \<le> dmem h'" using mem unfolding proj_mem_def by (rule le_trans)
    then show "\<exists>h1. get_projection h' (ij_outer_attrs e) x (ij_outer_join_attrs e) = Inr (pr x, h1)" "valid_key d (pr x)"
      using get_projection_frame[OF tup[OF x] join_state_proj(1)[OF st x']] join_state_proj(2)[OF st x'] by blast+
  qed
  then show ?thesis using st inv oe mem unfolding join_state_def proj_mem_def by simp
qed

lemma index_join_loop_pull:
  assumes "ij_current_inner e = NULL \<or> queue_rep (qs h) (ij_current_inner e) []"
    and "get_next outer (ij_outer e) h = Inr (t, oe, h)"
  shows "t = NULL \<Longrightarrow> index_join_loop (Suc fuel) outer e h = Inr (e\<lparr>ij_outer := oe, ij_current_outer := NULL\<rparr>, h)"
    and "t \<noteq> NULL \<Longrightarrow> get_projection h (ij_outer_attrs e) t (ij_outer_join_attrs e) = Inr (k, h1) \<Longrightarrow>
      ij_ind_on_inner_sch e = Some sch \<Longrightarrow> index_lookup sch (tabs h1) (ij_ind_on_inner e) k = Inr l \<Longrightarrow>
      index_join_loop (Suc fuel) outer e h =
        index_join_loop fuel outer (e\<lparr>ij_outer := oe, ij_current_outer := t, ij_current_inner := l\<rparr>) h1"
proof -
  have "ij_current_inner e = NULL \<or> fifo_empty (qs h) (ij_current_inner e) = Inr True"
    using assms(1) fifo.empty_law by auto
  then show "t = NULL \<Longrightarrow> index_join_loop (Suc fuel) outer e h = Inr (e\<lparr>ij_outer := oe, ij_current_outer := NULL\<rparr>, h)"
    and "t \<noteq> NULL \<Longrightarrow> get_projection h (ij_outer_attrs e) t (ij_outer_join_attrs e) = Inr (k, h1) \<Longrightarrow>
      ij_ind_on_inner_sch e = Some sch \<Longrightarrow> index_lookup sch (tabs h1) (ij_ind_on_inner e) k = Inr l \<Longrightarrow>
      index_join_loop (Suc fuel) outer e h =
        index_join_loop fuel outer (e\<lparr>ij_outer := oe, ij_current_outer := t, ij_current_inner := l\<rparr>) h1"
    using assms(2) by (elim disjE; simp add: Let_def)+
qed

lemma index_inv_dmem [simp]: "index_inv d (h\<lparr>dmem := n\<rparr>) ind g \<longleftrightarrow> index_inv d h ind g"
  by (simp add: index_inv_def)

text \<open>When the partners of every remaining outer tuple are used up, the join ends.\<close>

lemma index_join_loop_drained:
  assumes "join_state d pr e h g ts" and "\<forall>t \<in> set ts. g (pr t) = []" and "length ts < fuel"
    and "ij_current_inner e = NULL \<or> queue_rep (qs h) (ij_current_inner e) []"
  shows "\<exists>e'. index_join_loop fuel seq_scan_iterator e h = Inr (e', h\<lparr>dmem := dmem h - length ts * proj_mem e\<rparr>) \<and>
    ij_current_outer e' = NULL"
  using assms
proof (induction fuel arbitrary: e h ts)
  case (Suc fuel)
  note js = Suc.prems(1)[unfolded join_state_def]
  show ?case
  proof (cases ts)
    case Nil
    then obtain oe where "get_next seq_scan_iterator (ij_outer e) h = Inr (NULL, oe, h)"
      using scan.next_nil js by blast
    then show ?thesis using index_join_loop_pull(1)[OF Suc.prems(4)] Nil by simp
  next
    case (Cons t ts')
    then obtain oe where n: "get_next seq_scan_iterator (ij_outer e) h = Inr (t, oe, h)" "scan_yields oe ts'" "t \<noteq> NULL"
      using scan.next_cons[of "ij_outer e" t ts' h] js by blast
    let ?h = "h\<lparr>dmem := dmem h - proj_mem e\<rparr>"
    have t: "get_projection h (ij_outer_attrs e) t (ij_outer_join_attrs e) = Inr (pr t, ?h)" "valid_key d (pr t)"
      using join_state_proj[OF Suc.prems(1), of t] Cons by simp_all
    have g: "g (pr t) = []" using Suc.prems(2) Cons by simp
    have inv: "index_inv d ?h (ij_ind_on_inner e) g" using js by simp
    obtain l where l: "index_lookup (schema_of d) (tabs ?h) (ij_ind_on_inner e) (pr t) = Inr l"
      "if l = NULL then g (pr t) = [] else queue_rep (qs ?h) l (g (pr t))"
      using index_inv_lookup[OF inv t(2)] by blast
    let ?e = "e\<lparr>ij_outer := oe, ij_current_outer := t, ij_current_inner := l\<rparr>"
    have "length ts * proj_mem e \<le> dmem h" using js by blast
    then have room: "length ts' * proj_mem e \<le> dmem ?h" using Cons by simp
    have "join_state d pr ?e ?h g ts'"
      by (rule join_state_step[OF Suc.prems(1)[unfolded Cons] _ n(2)]) (use inv room in \<open>simp_all add: tuple_at_def\<close>)
    moreover have "ij_current_inner ?e = NULL \<or> queue_rep (qs ?h) (ij_current_inner ?e) []"
      using l(2) g by (auto split: if_splits)
    moreover have "\<forall>t \<in> set ts'. g (pr t) = []" "length ts' < fuel" using Suc.prems(2,3) Cons by simp_all
    ultimately obtain e' where e': "index_join_loop fuel seq_scan_iterator ?e ?h
        = Inr (e', ?h\<lparr>dmem := dmem ?h - length ts' * proj_mem ?e\<rparr>)" "ij_current_outer e' = NULL"
      using Suc.IH by blast
    have "index_join_loop (Suc fuel) seq_scan_iterator e h = index_join_loop fuel seq_scan_iterator ?e ?h"
      using index_join_loop_pull(2)[OF Suc.prems(4) n(1,3) t(1) _ l(1)] js by blast
    moreover have "proj_mem ?e = proj_mem e" by (simp add: proj_mem_def)
    ultimately show ?thesis using e' Cons by simp
  qed
qed simp

lemma index_join_next_drained:
  assumes "join_state d pr e h g ts" and "\<forall>t \<in> set ts. g (pr t) = []" and "length ts < fuel"
    and "ij_current_inner e = NULL \<or> queue_rep (qs h) (ij_current_inner e) []"
  shows "\<exists>e'. index_join_next fuel seq_scan_iterator e h = Inr (NULL, e', h\<lparr>dmem := dmem h - length ts * proj_mem e\<rparr>)"
  using index_join_loop_drained[OF assms] by (auto simp: index_join_next_def)

text \<open>
  The first outer tuple with a partner is joined with it, and the partner leaves the index: the
  state after the call has one tuple less under that key.
\<close>

lemma index_join_next_first:
  assumes st: "join_state d pr e h g (t # ts)" and g: "g (pr t) = y # ys"
    and cur: "ij_current_inner e = NULL \<or> queue_rep (qs h) (ij_current_inner e) []"
    and ok: "join_attrs_ok (ij_inner_attrs e) (ij_inner_join_attrs e)"
    and tup: "tuple_at h t = Inr outer_t" "tuple_at h y = Inr inner_t"
    and len: "length inner_t = length (ij_inner_attrs e)" "length (ij_outer_attrs e) \<le> length outer_t"
    and mem: "Suc (length ts) * proj_mem e < dmem h" "2 \<le> fuel" and frame: "\<forall>t \<in> set ts. t \<noteq> dfresh h"
  shows "\<exists>e' h'. index_join_next fuel seq_scan_iterator e h = Inr (dfresh h, e', h') \<and>
    tups h' = (tups h)(dfresh h \<mapsto> join_tuple (ij_inner_attrs e) (ij_inner_join_attrs e)
      (length (ij_outer_attrs e)) outer_t inner_t) \<and> proj_mem e' = proj_mem e \<and>
    join_state d pr e' h' (g(pr t := ys)) ts \<and> queue_rep (qs h') (ij_current_inner e') ys"
proof -
  note js = st[unfolded join_state_def]
  obtain n where fuel: "fuel = Suc (Suc n)" using mem(2) by (metis Suc_le_D numeral_2_eq_2 Suc_le_mono)
  obtain F m E where r: "heap_ok (tabs h)" "qheap_ok (qs h)" "shape_rep d (tabs h) (ij_ind_on_inner e) F m"
    "queues_rep (valid_key d) (qs h) m E g"
    using js unfolding index_inv_def by blast
  let ?hp = "h\<lparr>dmem := dmem h - proj_mem e\<rparr>"
  have t: "get_projection h (ij_outer_attrs e) t (ij_outer_join_attrs e) = Inr (pr t, ?hp)" "valid_key d (pr t)"
    using join_state_proj[OF st, of t] by simp_all
  obtain oe where n: "get_next seq_scan_iterator (ij_outer e) h = Inr (t, oe, h)" "scan_yields oe ts" "t \<noteq> NULL"
    using scan.next_cons[of "ij_outer e" t ts h] js by blast
  obtain l where l: "m (pr t) = Some l" using queues_rep_none[OF r(4) t(2)] g by fastforce
  have look: "index_lookup (schema_of d) (tabs ?hp) (ij_ind_on_inner e) (pr t) = Inr l"
    using index_schema.lookup_law[OF schema_of_contract r(3) t(2)] l by simp
  obtain p ps q' where q: "fifo_rep (qs h) l (p # ps)" "data_of (qs h) (p # ps) = y # ys" "fifo_get (qs h) l = Inr (p, q')"
    "queues_rep (valid_key d) q' m (E(pr t := ps)) (g(pr t := ys))" "qheap_ok q'"
    using queues_rep_get[OF r(4,2) t(2) l g] by (elim exE conjE) (rule that)
  have l0: "l \<noteq> NULL" using fifo_rep_old(1)[OF r(2) q(1)] .
  let ?e = "e\<lparr>ij_outer := oe, ij_current_outer := t, ij_current_inner := l\<rparr>"
  have fe: "fifo_empty (qs h) l = Inr False" using fifo_empty_rep[OF q(1)] by simp
  have "index_join_loop fuel seq_scan_iterator e h = Inr (?e, ?hp)"
    using index_join_loop_pull(2)[OF cur n(1,3) t(1) _ look, of "Suc n"] js l0 fe fuel by simp
  moreover have "index_join_loop (Suc n) seq_scan_iterator ?e ?hp = Inr (?e, ?hp)" using l0 fe by simp
  ultimately have same: "index_join_next fuel seq_scan_iterator e h = index_join_next (Suc n) seq_scan_iterator ?e ?hp"
    by (simp add: index_join_next_def)
  let ?new = "join_tuple (ij_inner_attrs e) (ij_inner_join_attrs e) (length (ij_outer_attrs e)) outer_t inner_t"
  let ?h = "?hp\<lparr>dfresh := Suc (dfresh h), dmem := dmem ?hp - 1, qs := q', tups := (tups h)(dfresh h \<mapsto> ?new)\<rparr>"
  have tup0: "tuple_at ?hp t = Inr outer_t" "tuple_at ?hp y = Inr inner_t" using tup tuple_at_cong[of ?hp h] by simp_all
  have mem0: "0 < dmem ?hp" using mem(1) by simp
  have run: "index_join_next (Suc n) seq_scan_iterator ?e ?hp = Inr (dfresh h, ?e, ?h)"
    using index_join_next_correct[of ?e l t ?hp p ps y ys outer_t inner_t "Suc n" seq_scan_iterator]
      n(3) l0 r(2) q(1-3) ok tup0 len mem0 by auto
  have "index_inv d ?h (ij_ind_on_inner e) (g(pr t := ys))"
    using r(1,3) q(4,5) by (auto simp: index_inv_def)
  then have "join_state d pr ?e ?h (g(pr t := ys)) ts"
    by (rule join_state_step[OF st _ n(2)]) (use frame mem(1) in \<open>simp_all add: tuple_at_def\<close>)
  moreover have "queue_rep q' l ys"
    using queues_rep_fifo[OF q(4) t(2) l] by (auto simp: queue_rep_def)
  ultimately show ?thesis using same run by (intro exI[of _ ?e] exI[of _ ?h] conjI) (simp_all add: proj_mem_def)
qed

text \<open>
  A join whose outer relation has two tuples with the same key, and whose inner relation has one
  partner for it, yields one tuple instead of two.
\<close>

theorem index_join_drains:
  assumes "join_state d pr e h g [t1, t2]" and "pr t1 = pr t2" and "g (pr t1) = [y]"
    and "ij_current_inner e = NULL" and "join_attrs_ok (ij_inner_attrs e) (ij_inner_join_attrs e)"
    and "tuple_at h t1 = Inr outer_t" "tuple_at h y = Inr inner_t"
    and "length inner_t = length (ij_inner_attrs e)" "length (ij_outer_attrs e) \<le> length outer_t"
    and "2 * proj_mem e < dmem h" "2 \<le> fuel" and "t2 \<noteq> dfresh h"
  shows "\<exists>e' e'' h'. index_join_next fuel seq_scan_iterator e h = Inr (dfresh h, e', h') \<and>
    tups h' (dfresh h) = Some (join_tuple (ij_inner_attrs e) (ij_inner_join_attrs e)
      (length (ij_outer_attrs e)) outer_t inner_t) \<and>
    index_join_next fuel seq_scan_iterator e' h' = Inr (NULL, e'', h'\<lparr>dmem := dmem h' - proj_mem e\<rparr>)"
proof -
  have mem: "Suc (length [t2]) * proj_mem e < dmem h" using assms(10) by simp
  obtain e' h' where s: "index_join_next fuel seq_scan_iterator e h = Inr (dfresh h, e', h')"
    "tups h' = (tups h)(dfresh h \<mapsto> join_tuple (ij_inner_attrs e) (ij_inner_join_attrs e)
      (length (ij_outer_attrs e)) outer_t inner_t)" "proj_mem e' = proj_mem e"
    "join_state d pr e' h' (g(pr t1 := [])) [t2]" "queue_rep (qs h') (ij_current_inner e') []"
    using index_join_next_first[OF assms(1,3) _ assms(5-9) mem assms(11)] assms(4,12) by auto
  obtain e'' where "index_join_next fuel seq_scan_iterator e' h' = Inr (NULL, e'', h'\<lparr>dmem := dmem h' - proj_mem e\<rparr>)"
    using index_join_next_drained[where fuel = fuel, OF s(4) _ _ disjI2[OF s(5)]] assms(2,11) s(3) by auto
  then show ?thesis using s(1,2) by auto
qed

section \<open>An example\<close>

lemma join_example:
  obtains d pr e h g ot it where "join_state d pr e h g [201, 202]" "pr 201 = pr 202" "g (pr 201) = [101]"
    "ij_current_inner e = NULL" "join_attrs_ok (ij_inner_attrs e) (ij_inner_join_attrs e)"
    "tuple_at h 201 = Inr ot" "tuple_at h 101 = Inr it" "length it = length (ij_inner_attrs e)"
    "length (ij_outer_attrs e) \<le> length ot" "2 * proj_mem e < dmem h" "dfresh h = 300"
    "join_tuple (ij_inner_attrs e) (ij_inner_join_attrs e) (length (ij_outer_attrs e)) ot it =
      [Some (KInt 7), Some (KInt 5), None]"
proof -
  let ?A = "\<lparr>att_id = ''A'', att_domain = Int_dom\<rparr>" and ?B = "\<lparr>att_id = ''B'', att_domain = Int_dom\<rparr>"
  let ?kvs = "[(1 :: ckey, 101 :: nat)]" and ?okvs = "[(1 :: ckey, 201 :: nat), (2, 202)]"
  have "sorted_keys ?kvs" "length ?kvs + Suc 0 \<le> record_limit" by (simp_all add: record_limit_def)
  from table_exists[OF this] obtain s c a p where t: "rl_inv s a" "rl_recs a = ?kvs" "rl_room (Suc 0) s" .
  have "sorted_keys ?okvs" "length ?okvs + Suc 0 \<le> record_limit" by (simp_all add: record_limit_def)
  from table_exists[OF this] obtain s' c' a' p' where t': "rl_inv s' a'" "rl_recs a' = ?okvs" "rl_room (Suc 0) s'" .
  let ?rel = "\<lparr>rel_attrs = [?A, ?B], rel_pk_attrs = [?A], rel_pk_index = s\<rparr>"
  let ?tup = "[101 \<mapsto> [Some (KInt 7), Some (KInt 5)], 201 \<mapsto> [Some (KInt 7)], 202 \<mapsto> [Some (KInt 7)]]"
  let ?h = "\<lparr>tabs = \<lparr>objs = Map.empty, ofresh = 1, omem = 9, kaddr = \<lambda>_. 0\<rparr>, qs = \<lparr>fifos = Map.empty, elems = Map.empty, qfresh = 1, qmem = 9\<rparr>,
    tups = ?tup, dfresh = 300, dmem = 9\<rparr>"
  let ?pr = "\<lambda>t :: addr. KInt 7"
  have shape: "shape_of [?A] = Int_shape" by (simp add: shape_aux_def)
  have av: "avail (rel_pk_index ?rel) \<noteq> 0" using t(3) by (simp add: rl_room_def)
  have pr: "\<forall>t \<in> snd ` set (rl_recs a). (\<exists>h1. get_projection ?h (rel_attrs ?rel) t [?A] = Inr (?pr t, h1)) \<and> valid_key (shape_of [?A]) (?pr t)"
    by (simp add: t(2) get_offset_def tuple_at_def get_field_def aget_def shape_aux_def valid_int_def)
  have heap: "heap_ok (tabs ?h)" "qheap_ok (qs ?h)" "2 * length [?A] + length (rl_recs a) * (length [?A] - 1) \<le> dmem ?h" by (simp_all add: heap_ok_def qheap_ok_def)
  have mem: "Suc (length (rl_recs a)) * shape_cost (shape_of [?A]) \<le> omem (tabs ?h)" "2 * length (rl_recs a) \<le> qmem (qs ?h)"
    "length (rl_recs a) < 5" by (simp_all add: t(2) shape_aux_def)
  have rel: "rl_inv (rel_pk_index ?rel) a" "NULL \<notin> snd ` set (rl_recs a)" using t(1) by (simp_all add: t(2))
  obtain ind h1 where i: "tups h1 = ?tup"
    "index_inv (shape_of [?A]) h1 ind (\<lambda>k. filter (\<lambda>t. ?pr t = k) (map snd (rl_recs a)))"
    using index_scan_correct[OF rel(1) av rel(2) _ pr heap mem] by auto
  let ?g = "\<lambda>k. filter (\<lambda>t. ?pr t = k) (map snd (rl_recs a))"
  define h where "h = h1\<lparr>dfresh := 300, dmem := 9\<rparr>"
  have h: "tups h = ?tup" "index_inv (shape_of [?A]) h ind ?g" "dfresh h = 300" "dmem h = 9"
    using i by (simp_all add: h_def index_inv_def)
  have "scan_ready \<lparr>se_bt = s', se_c = None\<rparr> (map snd ?okvs)"
    unfolding scan_ready_def using t' by (intro exI[of _ a']) (simp add: rl_room_def)
  then obtain oe where oe: "scan_yields oe [201, 202]" using scan.init_law[of _ "map snd ?okvs" h] by auto
  define e where "e = \<lparr>ij_outer = oe, ij_outer_attrs = [?A], ij_outer_join_attrs = [?A],
    ij_inner_attrs = [?A, ?B], ij_inner_join_attrs = [?A], ij_ind_on_inner = ind,
    ij_ind_on_inner_sch = Some (schema_of (shape_of [?A])), ij_current_inner = NULL, ij_current_outer = NULL\<rparr>"
  have "\<forall>t \<in> set [201, 202]. (\<exists>h1. get_projection h [?A] t [?A] = Inr (?pr t, h1)) \<and> valid_key (shape_of [?A]) (?pr t)"
    by (simp add: h(1) get_offset_def tuple_at_def get_field_def aget_def shape_aux_def valid_int_def)
  then have js: "join_state (shape_of [?A]) ?pr e h ?g [201, 202]"
    using h(2,4) oe by (simp add: join_state_def proj_mem_def e_def)
  show thesis
  proof (rule that[OF js])
    show "join_tuple (ij_inner_attrs e) (ij_inner_join_attrs e) (length (ij_outer_attrs e)) [Some (KInt 7)] [Some (KInt 7), Some (KInt 5)] =
      [Some (KInt 7), Some (KInt 5), None]" by (simp add: join_tuple_def join_cols_def e_def)
  qed (simp_all add: h t(2) e_def join_attrs_ok_def tuple_at_def proj_mem_def)
qed

end
