(* ===== verification/Verif_Mem.thy ===== *)
theory Verif_Mem
  imports Relation_Put
begin

text \<open>
  \<open>src/verif/btrees/relation_mem.c\<close>, the version of the B+-tree that the repository verifies. It
  differs from the other \<open>relation_mem.c\<close> in the memory interface (\<open>surely_malloc\<close> exits when
  there is no memory), in the flags \<open>First\<close> and \<open>Last\<close>, which intern nodes have too, and in the
  code of most functions. Functions carry the suffix \<open>_v\<close>; entries, cursors and the representation
  of memory are those of \<open>Relation_Mem\<close>.
\<close>

section \<open>Types\<close>

record vnode =
  visLeaf :: bool
  First :: bool
  Last :: bool
  vnumKeys :: int
  vptr0 :: addr
  ventries :: "slot list"

record vrl =
  vnodes :: "addr \<rightharpoonup> vnode"
  vfresh :: addr
  vavail :: nat
  vroot :: addr
  vnumRecords :: nat
  vdepth :: int

definition MIDDLE :: int where [simp]: "MIDDLE = 8"

definition vnode_at :: "vrl \<Rightarrow> addr \<Rightarrow> vnode result" where
  "vnode_at s a = (if a = NULL then Inl NullDeref
                   else case vnodes s a of None \<Rightarrow> Inl WildPtr | Some n \<Rightarrow> Inr n)"

definition vset_node :: "vrl \<Rightarrow> addr \<Rightarrow> vnode \<Rightarrow> vrl" where
  "vset_node s a n = s\<lparr>vnodes := (vnodes s)(a \<mapsto> n)\<rparr>"

abbreviation ventry_at :: "vnode \<Rightarrow> int \<Rightarrow> entry result" where
  "ventry_at n i \<equiv> load_slot (ventries n) i"

definition entryIndex_v :: "cursor \<Rightarrow> int result" where
  "entryIndex_v c = aget (ancestorsIdx c) (level c)"

text \<open>The pointer, and the node it points to.\<close>

definition currNode_v :: "cursor \<Rightarrow> addr result" where
  "currNode_v c = aget (ancestors c) (level c)"

definition currNode_at :: "vrl \<Rightarrow> cursor \<Rightarrow> vnode result" where
  "currNode_at s c = rbind (currNode_v c) (vnode_at s)"

definition isValid_v :: "vrl \<Rightarrow> cursor \<Rightarrow> bool result" where
  "isValid_v s c =
     rbind (entryIndex_v c) (\<lambda>i. rbind (currNode_at s c) (\<lambda>n.
       if i = vnumKeys n \<and> Last n then Inr False else Inr True))"

definition isFirst_v :: "vrl \<Rightarrow> cursor \<Rightarrow> bool result" where
  "isFirst_v s c =
     rbind (entryIndex_v c) (\<lambda>i. rbind (currNode_at s c) (\<lambda>n.
       if i = 0 \<and> First n then Inr True else Inr False))"

section \<open>Memory\<close>

definition surely_malloc_v :: "vrl \<Rightarrow> (addr \<times> vrl) result" where
  "surely_malloc_v s = (if vavail s = 0 then Inl ExitFailure
     else Inr (vfresh s, s\<lparr>vfresh := Suc (vfresh s), vavail := vavail s - 1\<rparr>))"

definition createNewNode_v :: "vrl \<Rightarrow> bool \<Rightarrow> bool \<Rightarrow> bool \<Rightarrow> (addr \<times> vrl) result" where
  "createNewNode_v s lf fl ll =
     rbind (surely_malloc_v s) (\<lambda>(newNode, s1).
       Inr (newNode, vset_node s1 newNode \<lparr>visLeaf = lf, First = fl, Last = ll, vnumKeys = 0, vptr0 = NULL,
         ventries = replicate (nat FANOUT) None\<rparr>))"

text \<open>The memory for the structure \<open>Relation\<close> is not a node; the record stands for it.\<close>

definition RL_NewRelation_v :: "nat \<Rightarrow> vrl result" where
  "RL_NewRelation_v m =
     (let s0 = \<lparr>vnodes = Map.empty, vfresh = 1, vavail = m, vroot = NULL, vnumRecords = 0, vdepth = 0\<rparr> in
      rbind (createNewNode_v s0 True True True) (\<lambda>(pRootNode, s1).
      rbind (surely_malloc_v s1) (\<lambda>(pNewRelation, s2).
        Inr (s2\<lparr>vroot := pRootNode, vnumRecords := 0, vdepth := 0\<rparr>))))"

section \<open>Searching inside a node\<close>

function findChildIndex_v_loop :: "vnode \<Rightarrow> ckey \<Rightarrow> int \<Rightarrow> int result" where
  "findChildIndex_v_loop n k i =
     (if i < vnumKeys n then
        rbind (ventry_at n i) (\<lambda>e. if k < ekey e then Inr (i - 1) else findChildIndex_v_loop n k (i + 1))
      else Inr (vnumKeys n - 1))"
  by pat_completeness auto
termination
  by (relation "measure (\<lambda>(n, k, i). nat (vnumKeys n - i))") auto

definition findChildIndex_v :: "vnode \<Rightarrow> ckey \<Rightarrow> int result" where
  "findChildIndex_v n k = rbind (check (0 < vnumKeys n) AssertFail) (\<lambda>_. findChildIndex_v_loop n k 0)"

function findRecordIndex_v_loop :: "vnode \<Rightarrow> ckey \<Rightarrow> int \<Rightarrow> int result" where
  "findRecordIndex_v_loop n k i =
     (if i \<le> vnumKeys n - 1 then
        rbind (ventry_at n i) (\<lambda>e. if k \<le> ekey e then Inr i else findRecordIndex_v_loop n k (i + 1))
      else Inr (vnumKeys n))"
  by pat_completeness auto
termination
  by (relation "measure (\<lambda>(n, k, i). nat (vnumKeys n - i))") auto

definition findRecordIndex_v :: "vnode \<Rightarrow> ckey \<Rightarrow> int result" where
  "findRecordIndex_v n k =
     rbind (check (0 \<le> vnumKeys n) AssertFail) (\<lambda>_.
       if vnumKeys n = 0 then Inr 0 else findRecordIndex_v_loop n k 0)"

declare findChildIndex_v_loop.simps [simp del] findRecordIndex_v_loop.simps [simp del]

section \<open>Moving the cursor down\<close>

function moveToKey_v :: "vrl \<Rightarrow> addr \<Rightarrow> ckey \<Rightarrow> cursor \<Rightarrow> int \<Rightarrow> cursor result" where
  "moveToKey_v s node k c lvl =
     (if lvl < 0 \<or> MAX_TREE_DEPTH \<le> lvl then Inl OutOfBounds
      else rbind (aset (ancestors c) lvl node) (\<lambda>anc.
        let c1 = c\<lparr>ancestors := anc, level := lvl\<rparr> in
        rbind (vnode_at s node) (\<lambda>n.
          if visLeaf n then
            rbind (findRecordIndex_v n k) (\<lambda>i. rbind (aset (ancestorsIdx c1) lvl i) (\<lambda>idx.
              Inr (c1\<lparr>ancestorsIdx := idx\<rparr>)))
          else
            rbind (findChildIndex_v n k) (\<lambda>i. rbind (aset (ancestorsIdx c1) lvl i) (\<lambda>idx.
              rbind (if i = - 1 then Inr (vptr0 n)
                     else rbind (ventry_at n i) (\<lambda>e. Inr (eptr e))) (\<lambda>child.
                moveToKey_v s child k (c1\<lparr>ancestorsIdx := idx\<rparr>) (lvl + 1)))))))"
  by pat_completeness auto
termination
  by (relation "measure (\<lambda>(s, node, k, c, lvl). nat (MAX_TREE_DEPTH - lvl))") auto

function moveToFirst_v :: "vrl \<Rightarrow> addr \<Rightarrow> cursor \<Rightarrow> int \<Rightarrow> cursor result" where
  "moveToFirst_v s node c lvl =
     (if node = NULL \<or> lvl < 0 then Inl AssertFail
      else if MAX_TREE_DEPTH \<le> lvl then Inl OutOfBounds
      else rbind (aset (ancestors c) lvl node) (\<lambda>anc.
        let c1 = c\<lparr>ancestors := anc, level := lvl\<rparr> in
        rbind (vnode_at s node) (\<lambda>n.
          if visLeaf n then
            rbind (aset (ancestorsIdx c1) lvl 0) (\<lambda>idx. Inr (c1\<lparr>ancestorsIdx := idx\<rparr>))
          else
            rbind (aset (ancestorsIdx c1) lvl (- 1)) (\<lambda>idx.
              moveToFirst_v s (vptr0 n) (c1\<lparr>ancestorsIdx := idx\<rparr>) (lvl + 1)))))"
  by pat_completeness auto
termination
  by (relation "measure (\<lambda>(s, node, c, lvl). nat (MAX_TREE_DEPTH - lvl))") auto

function moveToLast_v :: "vrl \<Rightarrow> addr \<Rightarrow> cursor \<Rightarrow> int \<Rightarrow> cursor result" where
  "moveToLast_v s node c lvl =
     (if node = NULL \<or> lvl < 0 then Inl AssertFail
      else if MAX_TREE_DEPTH \<le> lvl then Inl OutOfBounds
      else rbind (aset (ancestors c) lvl node) (\<lambda>anc.
        let c1 = c\<lparr>ancestors := anc, level := lvl\<rparr> in
        rbind (vnode_at s node) (\<lambda>n.
          if visLeaf n then
            rbind (aset (ancestorsIdx c1) lvl (vnumKeys n)) (\<lambda>idx. Inr (c1\<lparr>ancestorsIdx := idx\<rparr>))
          else
            rbind (aset (ancestorsIdx c1) lvl (vnumKeys n - 1)) (\<lambda>idx.
              rbind (ventry_at n (vnumKeys n - 1)) (\<lambda>e.
                moveToLast_v s (eptr e) (c1\<lparr>ancestorsIdx := idx\<rparr>) (lvl + 1))))))"
  by pat_completeness auto
termination
  by (relation "measure (\<lambda>(s, node, c, lvl). nat (MAX_TREE_DEPTH - lvl))") auto

declare moveToKey_v.simps [simp del] moveToFirst_v.simps [simp del] moveToLast_v.simps [simp del]

section \<open>Cursors\<close>

text \<open>The arrays of a new cursor are not initialised above the level it stands on.\<close>

definition RL_NewCursor_v :: "cursor \<Rightarrow> vrl \<Rightarrow> (cursor \<times> vrl) result" where
  "RL_NewCursor_v c0 s =
     rbind (surely_malloc_v s) (\<lambda>(cur, s1).
     rbind (moveToFirst_v s1 (vroot s1) (c0\<lparr>level := - 1\<rparr>) 0) (\<lambda>c1. Inr (c1, s1)))"

definition RL_CursorIsValid_v :: "vrl \<Rightarrow> cursor \<Rightarrow> bool result" where
  "RL_CursorIsValid_v s c = isValid_v s c"

definition isNodeParent_v :: "vnode \<Rightarrow> ckey \<Rightarrow> bool result" where
  "isNodeParent_v n k =
     (if visLeaf n then
        if vnumKeys n = 0 then Inr True
        else
          rbind (ventry_at n 0) (\<lambda>lo. rbind (ventry_at n (vnumKeys n - 1)) (\<lambda>hi.
            if (ekey lo \<le> k \<or> First n) \<and> (k \<le> ekey hi \<or> Last n) then Inr True else Inr False))
      else
        rbind (findChildIndex_v n k) (\<lambda>idx.
          if idx = - 1 \<or> idx = vnumKeys n - 1 then Inr False else Inr True))"

function AscendToParent_v :: "vrl \<Rightarrow> cursor \<Rightarrow> ckey \<Rightarrow> cursor result" where
  "AscendToParent_v s c k =
     (if level c = 0 then Inr c
      else if level c < 0 then Inl OutOfBounds
      else rbind (currNode_at s c) (\<lambda>n. rbind (isNodeParent_v n k) (\<lambda>b.
        if b then Inr c else AscendToParent_v s (c\<lparr>level := level c - 1\<rparr>) k)))"
  by pat_completeness auto
termination
  by (relation "measure (\<lambda>(s, c, k). nat (level c))") auto

declare AscendToParent_v.simps [simp del]

definition goToKey_v :: "vrl \<Rightarrow> cursor \<Rightarrow> ckey \<Rightarrow> cursor result" where
  "goToKey_v s c k =
     rbind (AscendToParent_v s c k) (\<lambda>c1. rbind (currNode_v c1) (\<lambda>a. moveToKey_v s a k c1 (level c1)))"

section \<open>Stepping\<close>

definition lastpointer_v :: "vnode \<Rightarrow> int" where
  "lastpointer_v n = (if visLeaf n then vnumKeys n else vnumKeys n - 1)"

definition firstpointer_v :: "vnode \<Rightarrow> int" where
  "firstpointer_v n = (if visLeaf n then 0 else - 1)"

function ascend_last_v :: "vrl \<Rightarrow> cursor \<Rightarrow> cursor result" where
  "ascend_last_v s c =
     (if 0 < level c then
        rbind (entryIndex_v c) (\<lambda>i. rbind (currNode_at s c) (\<lambda>n.
          if i = lastpointer_v n then ascend_last_v s (c\<lparr>level := level c - 1\<rparr>) else Inr c))
      else Inr c)"
  by pat_completeness auto
termination
  by (relation "measure (\<lambda>(s, c). nat (level c))") auto

function ascend_first_v :: "vrl \<Rightarrow> cursor \<Rightarrow> cursor result" where
  "ascend_first_v s c =
     (if 0 < level c then
        rbind (entryIndex_v c) (\<lambda>i. rbind (currNode_at s c) (\<lambda>n.
          if i = firstpointer_v n then ascend_first_v s (c\<lparr>level := level c - 1\<rparr>) else Inr c))
      else Inr c)"
  by pat_completeness auto
termination
  by (relation "measure (\<lambda>(s, c). nat (level c))") auto

declare ascend_last_v.simps [simp del] ascend_first_v.simps [simp del]

definition moveToNext_v :: "vrl \<Rightarrow> cursor \<Rightarrow> cursor result" where
  "moveToNext_v s c =
     rbind (isValid_v s c) (\<lambda>v.
       if \<not> v then Inr c
       else rbind (ascend_last_v s c) (\<lambda>c1. rbind (entryIndex_v c1) (\<lambda>i.
         rbind (aset (ancestorsIdx c1) (level c1) (i + 1)) (\<lambda>idx.
           let c2 = c1\<lparr>ancestorsIdx := idx\<rparr> in
           rbind (currNode_at s c2) (\<lambda>n.
             if visLeaf n then Inr c2
             else rbind (entryIndex_v c2) (\<lambda>i2. rbind (ventry_at n i2) (\<lambda>e.
               moveToFirst_v s (eptr e) c2 (level c2 + 1))))))))"

definition moveToPrev_v :: "vrl \<Rightarrow> cursor \<Rightarrow> cursor result" where
  "moveToPrev_v s c =
     rbind (isFirst_v s c) (\<lambda>f.
       if f then Inr c
       else rbind (ascend_first_v s c) (\<lambda>c1. rbind (entryIndex_v c1) (\<lambda>i.
         rbind (aset (ancestorsIdx c1) (level c1) (i - 1)) (\<lambda>idx.
           let c2 = c1\<lparr>ancestorsIdx := idx\<rparr> in
           rbind (currNode_at s c2) (\<lambda>n.
             if visLeaf n then Inr c2
             else rbind (entryIndex_v c2) (\<lambda>i2. rbind (ventry_at n i2) (\<lambda>e.
               moveToLast_v s (eptr e) c2 (level c2 + 1))))))))"

definition RL_MoveToNext_v :: "vrl \<Rightarrow> cursor \<Rightarrow> cursor result" where
  "RL_MoveToNext_v s c =
     rbind (entryIndex_v c) (\<lambda>i. rbind (currNode_at s c) (\<lambda>n.
       rbind (if i = vnumKeys n then moveToNext_v s c else Inr c) (\<lambda>c1. moveToNext_v s c1)))"

definition RL_MoveToPrevious_v :: "vrl \<Rightarrow> cursor \<Rightarrow> cursor result" where
  "RL_MoveToPrevious_v s c =
     rbind (entryIndex_v c) (\<lambda>i.
       rbind (if i = 0 then moveToPrev_v s c else Inr c) (\<lambda>c1. moveToPrev_v s c1))"

definition RL_MoveToNextValid_v :: "vrl \<Rightarrow> cursor \<Rightarrow> (bool \<times> cursor) result" where
  "RL_MoveToNextValid_v s c =
     rbind (RL_MoveToNext_v s c) (\<lambda>c1. rbind (RL_CursorIsValid_v s c1) (\<lambda>b. Inr (b, c1)))"

definition RL_MoveToPreviousNotFirst_v :: "vrl \<Rightarrow> cursor \<Rightarrow> (bool \<times> cursor) result" where
  "RL_MoveToPreviousNotFirst_v s c =
     rbind (RL_MoveToPrevious_v s c) (\<lambda>c1. rbind (isFirst_v s c1) (\<lambda>f. Inr (\<not> f, c1)))"

definition RL_MoveToFirst_v :: "vrl \<Rightarrow> cursor \<Rightarrow> (bool \<times> cursor) result" where
  "RL_MoveToFirst_v s c =
     rbind (moveToFirst_v s (vroot s) (c\<lparr>level := - 1\<rparr>) 0) (\<lambda>c1.
       rbind (isValid_v s c1) (\<lambda>b. Inr (b, c1)))"

section \<open>Reading\<close>

definition RL_GetRecord_v :: "vrl \<Rightarrow> cursor \<Rightarrow> (addr \<times> cursor) result" where
  "RL_GetRecord_v s c =
     rbind (isValid_v s c) (\<lambda>v. rbind (check v AssertFail) (\<lambda>_.
       rbind (entryIndex_v c) (\<lambda>i. rbind (currNode_at s c) (\<lambda>n.
         rbind (if i = vnumKeys n then moveToNext_v s c else Inr c) (\<lambda>c1.
           rbind (currNode_at s c1) (\<lambda>n1. rbind (entryIndex_v c1) (\<lambda>i1.
             rbind (ventry_at n1 i1) (\<lambda>e. Inr (eptr e, c1)))))))))"

definition RL_GetKey_v :: "vrl \<Rightarrow> cursor \<Rightarrow> (ckey \<times> cursor) result" where
  "RL_GetKey_v s c =
     rbind (isValid_v s c) (\<lambda>v. rbind (check v AssertFail) (\<lambda>_.
       rbind (entryIndex_v c) (\<lambda>i. rbind (currNode_at s c) (\<lambda>n.
         rbind (if i = vnumKeys n then moveToNext_v s c else Inr c) (\<lambda>c1.
           rbind (currNode_at s c1) (\<lambda>n1. rbind (entryIndex_v c1) (\<lambda>i1.
             rbind (ventry_at n1 i1) (\<lambda>e. Inr (ekey e, c1)))))))))"

definition RL_MoveToKey_v :: "vrl \<Rightarrow> cursor \<Rightarrow> ckey \<Rightarrow> (bool \<times> cursor) result" where
  "RL_MoveToKey_v s c k =
     rbind (goToKey_v s c k) (\<lambda>c1. rbind (isValid_v s c1) (\<lambda>v.
       if \<not> v then Inr (False, c1)
       else rbind (RL_GetKey_v s c1) (\<lambda>(k', c2). if k' = k then Inr (True, c2) else Inr (False, c2))))"

definition RL_IsEmpty_v :: "vrl \<Rightarrow> cursor \<Rightarrow> bool result" where
  "RL_IsEmpty_v s c = rbind (vnode_at s (vroot s)) (\<lambda>n. if vnumKeys n = 0 then Inr True else Inr False)"

definition RL_NumRecords_v :: "vrl \<Rightarrow> cursor \<Rightarrow> nat" where
  "RL_NumRecords_v s c = vnumRecords s"

text \<open>As in the source, nothing is deleted.\<close>

definition RL_DeleteRecord_v :: "vrl \<Rightarrow> cursor \<Rightarrow> ckey \<Rightarrow> bool \<times> vrl \<times> cursor" where
  "RL_DeleteRecord_v s c k = (False, s, c)"

definition ASSERT_NODE_INVARIANT_v :: "vrl \<Rightarrow> addr \<Rightarrow> unit result" where
  "ASSERT_NODE_INVARIANT_v s node =
     rbind (if vroot s \<noteq> node
            then rbind (vnode_at s node) (\<lambda>n. check (FANOUT div 2 \<le> vnumKeys n) AssertFail)
            else Inr ()) (\<lambda>_.
       rbind (vnode_at s node) (\<lambda>n. check (vnumKeys n \<le> FANOUT) AssertFail))"

section \<open>Inserting\<close>

text \<open>\<open>for (; i < hi; i++)\<close> copy key and pointer of \<open>src[i]\<close> to \<open>dst[i - off]\<close>\<close>

function copy_entries :: "slot list \<Rightarrow> slot list \<Rightarrow> int \<Rightarrow> int \<Rightarrow> int \<Rightarrow> slot list result" where
  "copy_entries src dst off i hi =
     (if i < hi then
        rbind (load_slot src i) (\<lambda>e. rbind (aset dst (i - off) (Some e)) (\<lambda>d. copy_entries src d off (i + 1) hi))
      else Inr dst)"
  by pat_completeness auto
termination
  by (relation "measure (\<lambda>(src, dst, off, i, hi). nat (hi - i))") auto

text \<open>\<open>for (; i > tgt; i--)\<close> copy key and pointer of \<open>es[i - 1]\<close> to \<open>es[i]\<close>\<close>

function shift_entries :: "slot list \<Rightarrow> int \<Rightarrow> int \<Rightarrow> slot list result" where
  "shift_entries es tgt i =
     (if tgt < i then
        rbind (load_slot es (i - 1)) (\<lambda>e. rbind (aset es i (Some e)) (\<lambda>es'. shift_entries es' tgt (i - 1)))
      else Inr es)"
  by pat_completeness auto
termination
  by (relation "measure (\<lambda>(es, tgt, i). nat (i - tgt))") auto

declare copy_entries.simps [simp del] shift_entries.simps [simp del]

definition splitnode_v :: "vrl \<Rightarrow> addr \<Rightarrow> entry \<Rightarrow> bool \<Rightarrow> (vrl \<times> entry) result" where
  "splitnode_v s node e lf =
     rbind (vnode_at s node) (\<lambda>n0.
     rbind (findRecordIndex_v n0 (ekey e)) (\<lambda>tgtIdx.
     rbind (createNewNode_v s lf False (Last n0)) (\<lambda>(newNode, s1).
     rbind (check (newNode \<noteq> NULL) AssertFail) (\<lambda>_.
     rbind (vnode_at s1 node) (\<lambda>n1.
     let n = n1\<lparr>Last := False\<rparr> in
     if visLeaf n then
       rbind (copy_entries (ventries n) (replicate (nat (FANOUT + 1)) None) 0 0 tgtIdx) (\<lambda>ae1.
       rbind (aset ae1 tgtIdx (Some e)) (\<lambda>ae2.
       rbind (copy_entries (ventries n) ae2 (- 1) tgtIdx FANOUT) (\<lambda>allEntries.
       rbind (if tgtIdx < MIDDLE then copy_entries allEntries (ventries n) 0 tgtIdx MIDDLE else Inr (ventries n)) (\<lambda>es.
       let s2 = vset_node s1 node (n\<lparr>vnumKeys := MIDDLE, ventries := es\<rparr>) in
       rbind (vnode_at s2 newNode) (\<lambda>m.
       rbind (copy_entries allEntries (ventries m) MIDDLE MIDDLE (FANOUT + 1)) (\<lambda>mes.
       let s3 = vset_node s2 newNode (m\<lparr>ventries := mes, vnumKeys := FANOUT + 1 - MIDDLE\<rparr>) in
       rbind (load_slot allEntries MIDDLE) (\<lambda>up. Inr (s3, \<lparr>ekey = ekey up, eptr = newNode\<rparr>))))))))
     else
       rbind (copy_entries (ventries n) (replicate (nat (FANOUT + 1)) None) 0 0 tgtIdx) (\<lambda>ae1.
       rbind (aset ae1 tgtIdx (Some e)) (\<lambda>ae2.
       rbind (copy_entries (ventries n) ae2 (- 1) tgtIdx FANOUT) (\<lambda>allEntries.
       rbind (if tgtIdx < MIDDLE then copy_entries allEntries (ventries n) 0 tgtIdx MIDDLE else Inr (ventries n)) (\<lambda>es.
       let s2 = vset_node s1 node (n\<lparr>vnumKeys := MIDDLE, ventries := es\<rparr>) in
       rbind (vnode_at s2 newNode) (\<lambda>m.
       rbind (copy_entries allEntries (ventries m) (MIDDLE + 1) (MIDDLE + 1) (FANOUT + 1)) (\<lambda>mes.
       rbind (load_slot allEntries MIDDLE) (\<lambda>up.
       let s3 = vset_node s2 newNode (m\<lparr>ventries := mes, vnumKeys := FANOUT - MIDDLE, vptr0 := eptr up\<rparr>) in
       Inr (s3, \<lparr>ekey = ekey up, eptr = newNode\<rparr>)))))))))))))"

definition insert_slot_v :: "vrl \<Rightarrow> addr \<Rightarrow> vnode \<Rightarrow> int \<Rightarrow> entry \<Rightarrow> vrl result" where
  "insert_slot_v s a n tgtIdx e =
     rbind (shift_entries (ventries n) tgtIdx (vnumKeys n)) (\<lambda>es1. rbind (aset es1 tgtIdx (Some e)) (\<lambda>es2.
       let s1 = vset_node s a (n\<lparr>ventries := es2, vnumKeys := vnumKeys n + 1\<rparr>) in
       Inr (s1\<lparr>vnumRecords := Suc (vnumRecords s1)\<rparr>)))"

text \<open>Below level -1 the source would index \<open>ancestors\<close> out of bounds, which the first test states.\<close>

function putEntry_v :: "vrl \<Rightarrow> cursor \<Rightarrow> entry \<Rightarrow> ckey \<Rightarrow> (vrl \<times> cursor) result" where
  "putEntry_v s c e k =
     (if level c < - 1 then Inl OutOfBounds
      else if level c = - 1 then
        rbind (createNewNode_v s False True True) (\<lambda>(newRoot, s1).
        rbind (check (newRoot \<noteq> NULL) AssertFail) (\<lambda>_.
        rbind (vnode_at s1 newRoot) (\<lambda>n.
        rbind (aset (ventries n) 0 (Some e)) (\<lambda>es.
        let s2 = (vset_node s1 newRoot (n\<lparr>vptr0 := vroot s1, vnumKeys := 1, ventries := es\<rparr>))
                   \<lparr>vroot := newRoot, vdepth := vdepth s1 + 1, vnumRecords := Suc (vnumRecords s1)\<rparr> in
        rbind (aset (ancestors c) 0 newRoot) (\<lambda>anc.
        rbind (moveToKey_v s2 newRoot k (c\<lparr>ancestors := anc\<rparr>) 0) (\<lambda>c2. Inr (s2, c2)))))))
      else
        rbind (currNode_v c) (\<lambda>a. rbind (vnode_at s a) (\<lambda>n.
        if visLeaf n then
          rbind (entryIndex_v c) (\<lambda>i.
          rbind (if i < vnumKeys n then rbind (ventry_at n i) (\<lambda>x. Inr (ekey x = ekey e)) else Inr False) (\<lambda>found.
          if found then
            rbind (ventry_at n i) (\<lambda>x. rbind (aset (ventries n) i (Some (x\<lparr>eptr := eptr e\<rparr>))) (\<lambda>es.
              Inr (vset_node s a (n\<lparr>ventries := es\<rparr>), c)))
          else if vnumKeys n < FANOUT then
            rbind (insert_slot_v s a n i e) (\<lambda>s1. Inr (s1, c))
          else
            rbind (splitnode_v s a e True) (\<lambda>(s1, e1). putEntry_v s1 (c\<lparr>level := level c - 1\<rparr>) e1 k)))
        else if vnumKeys n < FANOUT then
          rbind (entryIndex_v c) (\<lambda>i.
          rbind (insert_slot_v s a n (i + 1) e) (\<lambda>s1.
          rbind (moveToKey_v s1 a k c (level c)) (\<lambda>c1. Inr (s1, c1))))
        else
          rbind (splitnode_v s a e False) (\<lambda>(s1, e1). putEntry_v s1 (c\<lparr>level := level c - 1\<rparr>) e1 k))))"
  by pat_completeness auto
termination
  by (relation "measure (\<lambda>(s, c, e, k). nat (level c + 2))") auto

declare putEntry_v.simps [simp del]

definition RL_PutRecord_v :: "vrl \<Rightarrow> cursor \<Rightarrow> ckey \<Rightarrow> addr \<Rightarrow> (vrl \<times> cursor) result" where
  "RL_PutRecord_v s c k rec =
     (let newEntry = \<lparr>ekey = k, eptr = rec\<rparr> in
      rbind (goToKey_v s c k) (\<lambda>c1.
      rbind (putEntry_v s c1 newEntry k) (\<lambda>(s2, c2).
      rbind (RL_MoveToNext_v s2 c2) (\<lambda>c3. Inr (s2, c3)))))"

end
