(* ===== verification/Verif_Read.thy ===== *)
theory Verif_Read
  imports Verif_Mem Relation_Access
begin

text \<open>
  The verified version refines the other one: \<open>vabs\<close> forgets the flags of intern nodes, and every
  operation that reads the tree gives the same result on \<open>s\<close> as the operation of
  \<open>Relation_Mem\<close> on \<open>vabs s\<close>, for some on every state, for others where the cursor is at a
  position of a well-formed tree.
\<close>

section \<open>Abstraction\<close>

definition vn_abs :: "vnode \<Rightarrow> btnode" where
  "vn_abs n = \<lparr>isLeaf = visLeaf n, FirstLeaf = visLeaf n \<and> First n, LastLeaf = visLeaf n \<and> Last n,
     numKeys = vnumKeys n, ptr0 = vptr0 n, entries = ventries n\<rparr>"

definition vabs :: "vrl \<Rightarrow> rl" where
  "vabs s = \<lparr>nodes = map_option vn_abs \<circ> vnodes s, fresh = vfresh s, avail = vavail s, root = vroot s,
     numRecords = vnumRecords s, depth = vdepth s\<rparr>"

lemma vn_abs_simps [simp]:
  "isLeaf (vn_abs n) = visLeaf n" "FirstLeaf (vn_abs n) = (visLeaf n \<and> First n)"
  "LastLeaf (vn_abs n) = (visLeaf n \<and> Last n)" "numKeys (vn_abs n) = vnumKeys n"
  "ptr0 (vn_abs n) = vptr0 n" "entries (vn_abs n) = ventries n"
  by (simp_all add: vn_abs_def)

lemma vabs_simps [simp]:
  "nodes (vabs s) = map_option vn_abs \<circ> vnodes s" "fresh (vabs s) = vfresh s" "avail (vabs s) = vavail s"
  "root (vabs s) = vroot s" "numRecords (vabs s) = vnumRecords s" "depth (vabs s) = vdepth s"
  by (simp_all add: vabs_def)

lemma vabs_set_node: "vabs (vset_node s a n) = set_node (vabs s) a (vn_abs n)"
  by (simp add: vabs_def vset_node_def set_node_def fun_eq_iff)

lemma node_at_vabs: "node_at (vabs s) a = rbind (vnode_at s a) (\<lambda>n. Inr (vn_abs n))"
  by (simp add: node_at_def vnode_at_def split: option.split)

lemma vnode_at_Inr: "vnode_at s a = Inr n \<longleftrightarrow> a \<noteq> NULL \<and> vnodes s a = Some n"
  by (auto simp: vnode_at_def split: option.splits)

lemma rbind_node_at_vabs: "rbind (node_at (vabs s) a) f = rbind (vnode_at s a) (\<lambda>n. f (vn_abs n))"
  by (simp add: node_at_vabs rbind_assoc)

lemma entryIndex_v_eq: "entryIndex_v c = entryIndex c"
  by (simp add: entryIndex_v_def entryIndex_def)

lemma currNode_v_eq: "currNode_v c = currAddr c"
  by (simp add: currNode_v_def currAddr_def)

lemma currNode_vabs: "currNode (vabs s) c = rbind (currNode_at s c) (\<lambda>n. Inr (vn_abs n))"
  by (cases "currAddr c") (simp_all add: currNode_def currNode_at_def currNode_v_eq node_at_vabs)

lemma rbind_currNode_vabs: "rbind (currNode (vabs s) c) f = rbind (currNode_at s c) (\<lambda>n. f (vn_abs n))"
  by (simp add: currNode_vabs rbind_assoc)

section \<open>Searching\<close>

lemma findRecordIndex_v_loop_eq: "findRecordIndex_v_loop n k i = findRecordIndex_loop (vn_abs n) k i"
proof (induction n k i rule: findRecordIndex_v_loop.induct)
  case (1 n k i)
  then show ?case
    by (subst findRecordIndex_v_loop.simps, subst findRecordIndex_loop.simps) (auto intro!: rbind_cong)
qed

lemma findRecordIndex_v_eq: "findRecordIndex_v n k = findRecordIndex (vn_abs n) k"
  by (simp add: findRecordIndex_v_def findRecordIndex_def findRecordIndex_v_loop_eq)

text \<open>
  The loop of the verified version, one entry ahead: it tests each key once, where the other one
  tests both ends of an interval.
\<close>

lemma findChildIndex_v_loop_eq:
  assumes "ventry_at n i = Inr e" and "ekey e \<le> k" and "i < vnumKeys n"
  shows "findChildIndex_v_loop n k (i + 1) = findChildIndex_loop (vn_abs n) k i"
  using assms
proof (induction "nat (vnumKeys n - i)" arbitrary: i e)
  case 0
  then show ?case by simp
next
  case (Suc m)
  show ?case
  proof (cases "i + 1 < vnumKeys n")
    case False
    then show ?thesis
      by (subst findChildIndex_v_loop.simps, subst findChildIndex_loop.simps) simp
  next
    case True
    show ?thesis
    proof (cases "ventry_at n (i + 1)")
      case (Inl x)
      then show ?thesis using True Suc.prems
        by (subst findChildIndex_v_loop.simps, subst findChildIndex_loop.simps) simp
    next
      case (Inr e')
      have "findChildIndex_v_loop n k (i + 1 + 1) = findChildIndex_loop (vn_abs n) k (i + 1)" if "ekey e' \<le> k"
        using Suc.hyps(1)[OF _ Inr that] Suc.hyps(2) True by simp
      then show ?thesis using True Inr Suc.prems(1,2)
        by (subst findChildIndex_v_loop.simps, subst findChildIndex_loop.simps) simp
    qed
  qed
qed

lemma findChildIndex_v_eq: "findChildIndex_v n k = findChildIndex (vn_abs n) k"
proof (cases "0 < vnumKeys n")
  case True
  show ?thesis
  proof (cases "ventry_at n 0")
    case (Inr e)
    then show ?thesis using True findChildIndex_v_loop_eq[OF Inr, of k]
      unfolding findChildIndex_v_def findChildIndex_def
      by (subst findChildIndex_v_loop.simps) simp
  qed (simp add: findChildIndex_v_def findChildIndex_def findChildIndex_v_loop.simps)
qed (simp add: findChildIndex_v_def findChildIndex_def)

lemma moveToFirst_v_eq: "moveToFirst_v s node c lvl = moveToFirst (vabs s) node c lvl"
proof (induction s node c lvl rule: moveToFirst_v.induct)
  case (1 s node c lvl)
  then show ?case
    by (subst moveToFirst_v.simps, subst moveToFirst.simps)
      (auto simp: rbind_node_at_vabs Let_def intro!: rbind_cong)
qed

lemma level_upd_last:
  fixes c :: cursor
  shows "c\<lparr>level := x, ancestors := a, ancestorsIdx := i\<rparr> = c\<lparr>ancestors := a, ancestorsIdx := i, level := x\<rparr>"
    and "c\<lparr>ancestors := a, level := x, ancestorsIdx := i\<rparr> = c\<lparr>ancestors := a, ancestorsIdx := i, level := x\<rparr>"
    and "c\<lparr>level := x, ancestors := a, level := y, ancestorsIdx := i\<rparr> = c\<lparr>ancestors := a, level := y, ancestorsIdx := i\<rparr>"
  by simp_all

lemma moveToKey_level:
  fixes c :: cursor
  shows "moveToKey s node k (c\<lparr>level := x\<rparr>) lvl = moveToKey s node k c lvl"
proof (induction s node k c lvl arbitrary: x rule: moveToKey.induct)
  case (1 s node k c lvl)
  then show ?case
    by (subst (1 2) moveToKey.simps) (auto simp: Let_def level_upd_last intro!: rbind_cong)
qed

lemma moveToKey_v_eq: "moveToKey_v s node k c lvl = moveToKey (vabs s) node k c lvl"
proof (induction "nat (MAX_TREE_DEPTH - lvl)" arbitrary: node c lvl)
  case 0
  then show ?case by (subst moveToKey_v.simps, subst moveToKey.simps) simp
next
  case (Suc m)
  then have "m = nat (MAX_TREE_DEPTH - (lvl + 1))" by simp
  note IH = Suc.hyps(1)[OF this]
  show ?case
    by (subst moveToKey_v.simps, subst moveToKey.simps)
      (auto simp: rbind_node_at_vabs Let_def findRecordIndex_v_eq findChildIndex_v_eq moveToKey_level
        level_upd_last IH intro!: rbind_cong)
qed

section \<open>Positions\<close>

text \<open>At a leaf, the flags mean the same in both versions.\<close>

lemma isValid_v_eq:
  assumes "currNode (vabs s) c = Inr n" and "isLeaf n"
  shows "isValid_v s c = isValid (vabs s) c"
proof -
  obtain m where m: "currNode_at s c = Inr m" "n = vn_abs m"
    using assms(1) by (auto simp: currNode_vabs rbind_eq_Inr)
  then show ?thesis using assms
    by (simp add: isValid_v_def isValid_def entryIndex_v_eq)
qed

lemma isFirst_v_eq:
  assumes "currNode (vabs s) c = Inr n" and "isLeaf n"
  shows "isFirst_v s c = isFirst (vabs s) c"
proof -
  obtain m where m: "currNode_at s c = Inr m" "n = vn_abs m"
    using assms(1) by (auto simp: currNode_vabs rbind_eq_Inr)
  then show ?thesis using assms
    by (simp add: isFirst_v_def isFirst_def entryIndex_v_eq)
qed

lemma cur_pos_at_leaf:
  assumes "rel_inv s h t" and "cur_pos h t c p"
  obtains n where "currNode s c = Inr n" "isLeaf n"
proof -
  note inv = rel_invD[OF assms(1)]
  obtain js li where c: "fpath h t js" "cur_at c t js li" using assms(2) unfolding cur_pos_def by blast
  obtain n a f' l' where "currNode s c = Inr n" "node_is n True f' l' 0 (leaf_at t js)"
    using leaf_node[OF inv(1,2) c] by metis
  then show thesis using that node_isD(1) by metis
qed

lemma ascend_last_v_eq: "ascend_last_v s c = ascend_last (vabs s) c"
proof (induction s c rule: ascend_last_v.induct)
  case (1 s c)
  then show ?case
    by (subst ascend_last_v.simps, subst ascend_last.simps)
      (auto simp: rbind_currNode_vabs entryIndex_v_eq lastpointer_v_def lastpointer_def intro!: rbind_cong)
qed

lemma ascend_first_v_eq: "ascend_first_v s c = ascend_first (vabs s) c"
proof (induction s c rule: ascend_first_v.induct)
  case (1 s c)
  then show ?case
    by (subst ascend_first_v.simps, subst ascend_first.simps)
      (auto simp: rbind_currNode_vabs entryIndex_v_eq firstpointer_v_def firstpointer_def intro!: rbind_cong)
qed

lemma moveToNext_v_eq:
  assumes "rel_inv (vabs s) h t" and "cur_pos h t c p"
  shows "moveToNext_v s c = moveToNext (vabs s) c"
proof -
  obtain n where "currNode (vabs s) c = Inr n" "isLeaf n" by (rule cur_pos_at_leaf[OF assms])
  then have v: "isValid_v s c = Inr (p < length (contents t))"
    using isValid_v_eq isValid_pos[OF assms] by simp
  have "vnumRecords s = length (contents t)" using rel_invD(6)[OF assms(1)] by simp
  then show ?thesis
    using v isValid_pos[OF assms]
    by (auto simp: moveToNext_v_def moveToNext_def ascend_last_v_eq entryIndex_v_eq rbind_currNode_vabs
        Let_def moveToFirst_v_eq intro!: rbind_cong)
qed

lemma moveToNext_stays:
  assumes "rel_inv s h t" and "cur_pos h t c p" and "entryIndex c = Inr i" and "currNode s c = Inr n" and "i = numKeys n"
  shows "\<exists>c'. moveToNext s c = Inr c' \<and> cur_pos h t c' p"
proof -
  note inv = rel_invD[OF assms(1)]
  obtain js li where c: "fpath h t js" "li \<le> length (leaf_at t js)" "cur_at c t js li" "cpos t js li = p"
    using assms(2) unfolding cur_pos_def by blast
  obtain n' a f' l' where n: "currNode s c = Inr n'" "entryIndex c = Inr (int li)"
    "node_is n' True f' l' 0 (leaf_at t js)"
    using leaf_node[OF inv(1,2) c(1,3)] by metis
  have li: "li = length (leaf_at t js)" using assms(3-5) n node_isD(5)[OF n(3)] by simp
  show ?thesis
  proof (cases "p < length (contents t)")
    case True
    then obtain c' js' where c': "moveToNext s c = Inr c'" "fpath h t js'" "cur_at c' t js' 0" "cpos t js' 0 = p"
      using moveToNext_skip[OF assms(1) c(1)] c(3,4) li by metis
    then show ?thesis unfolding cur_pos_def by blast
  next
    case False
    then have "nxt t js = None" using cur_pos_leaf(1)[OF inv(1) c(1,2)] c(4) by simp
    then have "moveToNext s c = Inr c" using moveToNext_end[OF inv(1,2) c(1)] c(3) li by simp
    then show ?thesis using assms(2) by blast
  qed
qed

lemma RL_MoveToNext_v_eq:
  assumes "rel_inv (vabs s) h t" and "cur_pos h t c p"
  shows "RL_MoveToNext_v s c = RL_MoveToNext (vabs s) c"
proof -
  have "rbind (if i = vnumKeys m then moveToNext_v s c else Inr c) (moveToNext_v s)
    = rbind (if i = numKeys (vn_abs m) then moveToNext (vabs s) c else Inr c) (moveToNext (vabs s))"
    if i: "entryIndex c = Inr i" and m: "currNode_at s c = Inr m" for i m
  proof (cases "i = vnumKeys m")
    case True
    have "currNode (vabs s) c = Inr (vn_abs m)" using m by (simp add: currNode_vabs)
    then obtain c' where "moveToNext (vabs s) c = Inr c'" "cur_pos h t c' p"
      using moveToNext_stays[OF assms i] True by auto
    then show ?thesis using True moveToNext_v_eq[OF assms] moveToNext_v_eq[OF assms(1)] by simp
  qed (simp add: moveToNext_v_eq[OF assms])
  then show ?thesis
    unfolding RL_MoveToNext_v_def RL_MoveToNext_def entryIndex_v_eq rbind_currNode_vabs
    by (intro rbind_cong[OF refl])
qed

lemma RL_GetKey_v_eq:
  assumes "rel_inv (vabs s) h t" and "cur_pos h t c p"
  shows "RL_GetKey_v s c = RL_GetKey (vabs s) c" "RL_GetRecord_v s c = RL_GetRecord (vabs s) c"
proof -
  obtain n where "currNode (vabs s) c = Inr n" "isLeaf n" by (rule cur_pos_at_leaf[OF assms])
  then have v: "isValid_v s c = isValid (vabs s) c" using isValid_v_eq by blast
  show "RL_GetKey_v s c = RL_GetKey (vabs s) c" "RL_GetRecord_v s c = RL_GetRecord (vabs s) c"
    unfolding RL_GetKey_v_def RL_GetKey_def RL_GetRecord_v_def RL_GetRecord_def RL_GetEntry_def v
      entryIndex_v_eq rbind_currNode_vabs moveToNext_v_eq[OF assms]
    by (auto simp: rbind_assoc rbind_currNode_vabs intro!: rbind_cong)
qed

lemma RL_MoveToFirst_v_eq:
  assumes "rel_inv (vabs s) h t" and "arrays_ok c"
  shows "RL_MoveToFirst_v s c = RL_MoveToFirst (vabs s) c"
proof -
  obtain c1 where c1: "moveToFirst (vabs s) (vroot s) (c\<lparr>level := - 1\<rparr>) 0 = Inr c1" "cur_pos h t c1 0"
    using RL_MoveToFirst_pos[OF assms] by (auto simp: RL_MoveToFirst_def rbind_eq_Inr)
  obtain n where "currNode (vabs s) c1 = Inr n" "isLeaf n" by (rule cur_pos_at_leaf[OF assms(1) c1(2)])
  then show ?thesis using c1(1) isValid_v_eq
    by (simp add: RL_MoveToFirst_v_def RL_MoveToFirst_def moveToFirst_v_eq)
qed

section \<open>Ascending\<close>

lemma isNodeParent_v_intern: "\<not> visLeaf n \<Longrightarrow> isNodeParent_v n k = isNodeParent (vn_abs n) k"
  by (simp add: isNodeParent_v_def isNodeParent_def findChildIndex_v_eq)

text \<open>
  On a leaf that is not empty, the two tests agree because its keys are sorted.
\<close>

lemma isNodeParent_v_leaf:
  assumes "visLeaf n" and "vnumKeys n \<noteq> 0" and "ventry_at n 0 = Inr lo" and "ventry_at n (vnumKeys n - 1) = Inr hi"
    and "ekey lo \<le> ekey hi"
  shows "isNodeParent_v n k = Inr ((ekey lo \<le> k \<and> k \<le> ekey hi) \<or> (ekey lo \<le> k \<and> Last n) \<or> (k \<le> ekey hi \<and> First n))"
  using assms by (auto simp: isNodeParent_v_def)

lemma sorted_keys_hd_last: "sorted_keys es \<Longrightarrow> es \<noteq> [] \<Longrightarrow> fst (hd es) \<le> fst (last es)"
  by (cases es) (auto simp: less_imp_le)

lemma AscendToParent_v_eq:
  assumes ok: "bt_ok h None None True True t" and m: "rep (nodes (vabs s)) t"
    and js: "vpath t js" and c: "cur_at c t js li"
  shows "d \<le> length js \<Longrightarrow>
    AscendToParent_v s (c\<lparr>level := int d\<rparr>) k = AscendToParent (vabs s) (c\<lparr>level := int d\<rparr>) k"
proof (induction d)
  case 0
  then show ?case by (subst AscendToParent_v.simps, subst AscendToParent.simps) simp
next
  case (Suc d)
  let ?p = "take (Suc d) js" and ?c = "c\<lparr>level := int (Suc d)\<rparr>"
  have p: "vpath t ?p" "?p \<noteq> []" using Suc.prems js vpath_take by auto
  obtain lo hi f l where ctx: "pctx None None True True t ?p = (lo, hi, f, l)" by (metis prod_cases4)
  note sub_ok = bt_ok_subtree[OF ok p(1) ctx] and sub_rep = rep_subtree[OF ok p(1) m]
  have addr: "currAddr ?c = Inr (taddr (subtree t ?p))"
    using cur_atD(1,3)[OF c js] cur_atD(4)[OF c js Suc.prems] Suc.prems
    unfolding currAddr_def arrays_ok_def by (simp add: aget_def nat_add_distrib)
  obtain n where n: "vnode_at s (taddr (subtree t ?p)) = Inr n" "node_at (vabs s) (taddr (subtree t ?p)) = Inr (vn_abs n)"
  proof -
    let ?a = "taddr (subtree t ?p)"
    have "?a \<in> set (addrs (subtree t ?p))" by simp
    from rep_addrs[OF sub_rep this] have a: "?a \<noteq> 0" "?a \<in> dom (vnodes s)" by (auto simp: dom_def)
    then obtain n where "vnodes s ?a = Some n" by blast
    then have "vnode_at s ?a = Inr n" using a(1) by (simp add: vnode_at_def)
    then show thesis using that by (simp add: node_at_vabs)
  qed
  have at: "currNode_at s ?c = Inr n" using addr n(1) by (simp add: currNode_at_def currNode_v_eq)
  have at': "currNode (vabs s) ?c = Inr (vn_abs n)" using addr n(2) by (simp add: currNode_def)
  have IH: "AscendToParent_v s (c\<lparr>level := int d\<rparr>) k = AscendToParent (vabs s) (c\<lparr>level := int d\<rparr>) k"
    using Suc by simp
  show ?case
  proof (cases "subtree t ?p")
    case (Lf a f' l' es)
    with sub_ok have es: "f' = f" "l' = l" "sorted_keys es" by (cases "h - length ?p"; simp)+
    have is': "node_is (vn_abs n) True f' l' 0 es"
      using Lf sub_rep n(2) rep_leafE[of "vabs s" a f' l' es] by auto
    have ne: "es \<noteq> []" using nkeys_subtree[OF ok p] Lf by auto
    have num: "vnumKeys n = int (length es)" "visLeaf n" using node_isD[OF is'] by simp_all
    then have entries: "ventry_at n 0 = Inr \<lparr>ekey = fst (hd es), eptr = snd (hd es)\<rparr>"
      "ventry_at n (vnumKeys n - 1) = Inr \<lparr>ekey = fst (last es), eptr = snd (last es)\<rparr>"
      using entry_at_node_is[OF is', of 0] entry_at_node_is[OF is', of "length es - 1"] ne
      by (simp_all add: hd_conv_nth last_conv_nth of_nat_diff Suc_le_eq)
    have nz: "vnumKeys n \<noteq> 0" using num(1) ne by simp
    define B where "B \<longleftrightarrow> (fst (hd es) \<le> k \<and> k \<le> fst (last es)) \<or> (fst (hd es) \<le> k \<and> Last n)
      \<or> (k \<le> fst (last es) \<and> First n)"
    have "isNodeParent_v n k = Inr B"
      using isNodeParent_v_leaf[OF num(2) nz entries, of k] sorted_keys_hd_last[OF es(3) ne] by (simp add: B_def)
    then have "AscendToParent_v s ?c k = (if B then Inr ?c else AscendToParent_v s (c\<lparr>level := int d\<rparr>) k)"
      using at by (subst AscendToParent_v.simps) simp
    moreover have "AscendToParent (vabs s) ?c k = (if B then Inr ?c else AscendToParent (vabs s) (c\<lparr>level := int d\<rparr>) k)"
      unfolding B_def using at' entries num(2) by (subst AscendToParent.simps) simp
    ultimately show ?thesis using IH by simp
  next
    case Nd: (Nd a f' l' ks cs)
    obtain n' where "node_at (vabs s) a = Inr n'" "node_is n' False f' l' (taddr (hd cs)) (node_kvs ks cs)"
      using sub_rep unfolding Nd by (rule rep_internE)
    then have "node_is (vn_abs n) False f' l' (taddr (hd cs)) (node_kvs ks cs)" using n(2) Nd by simp
    from node_isD(1)[OF this] have "\<not> visLeaf n" by simp
    then show ?thesis
      using at at' IH isNodeParent_v_intern[of n k]
      by (subst AscendToParent_v.simps, subst AscendToParent.simps) (simp cong: if_cong)
  qed
qed

lemma goToKey_v_eq:
  assumes "rel_inv (vabs s) h t" and "cur_pos h t c p"
  shows "goToKey_v s c k = goToKey (vabs s) c k"
proof -
  note inv = rel_invD[OF assms(1)]
  obtain js li where c: "fpath h t js" "cur_at c t js li" using assms(2) unfolding cur_pos_def by blast
  have vp: "vpath t js" using c(1) by (simp add: fpath_def)
  have lv: "c\<lparr>level := int (length js)\<rparr> = c" using cur_atD(2)[OF c(2) vp] by simp
  have "AscendToParent_v s c k = AscendToParent (vabs s) c k"
    using AscendToParent_v_eq[OF inv(1,2) vp c(2), of "length js" k] lv by simp
  then show ?thesis by (simp add: goToKey_v_def goToKey_def currNode_v_eq moveToKey_v_eq)
qed

lemma RL_MoveToKey_v_eq:
  assumes "rel_inv (vabs s) h t" and "cur_pos h t c p"
  shows "RL_MoveToKey_v s c k = RL_MoveToKey (vabs s) c k"
proof -
  obtain c1 where c1: "goToKey (vabs s) c k = Inr c1" "cur_pos h t c1 (rec_ix (map fst (contents t)) k)"
    using goToKey_pos[OF assms] by metis
  obtain n where "currNode (vabs s) c1 = Inr n" "isLeaf n" by (rule cur_pos_at_leaf[OF assms(1) c1(2)])
  then have "isValid_v s c1 = isValid (vabs s) c1" by (rule isValid_v_eq)
  then show ?thesis
    using c1(1) goToKey_v_eq[OF assms] RL_GetKey_v_eq(1)[OF assms(1) c1(2)]
    by (simp add: RL_MoveToKey_v_def RL_MoveToKey_def cong: if_cong)
qed

end
