(* ===== verification/Verif_Put.thy ===== *)
theory Verif_Put
  imports Verif_Read Relation_Api
begin

text \<open>
  Insertion in the verified version refines insertion in the other one, although \<open>splitnode\<close> copies
  entries in a different order and sets the flags of intern nodes. With the refinements of the
  reading operations, the verified version meets the contract \<open>ordered_table\<close>.
\<close>

section \<open>Copying entries\<close>

definition vkvs :: "vnode \<Rightarrow> kvs \<Rightarrow> bool" where
  "vkvs n es \<longleftrightarrow> vnumKeys n = int (length es) \<and> length (ventries n) = 15 \<and>
     take (length es) (ventries n) = map slot_of es"

lemma vkvs_node_is:
  "vkvs n es \<longleftrightarrow> node_is (vn_abs n) (visLeaf n) (visLeaf n \<and> First n) (visLeaf n \<and> Last n) (vptr0 n) es"
  by (auto simp: vkvs_def node_is_def)

lemma node_is_vkvs: "node_is (vn_abs n) lf f l p es \<Longrightarrow> vkvs n es"
  by (simp add: vkvs_def node_is_def)

lemma vkvs_load: "vkvs n es \<Longrightarrow> 0 \<le> j \<Longrightarrow> j < vnumKeys n \<Longrightarrow> \<exists>e. load_slot (ventries n) j = Inr e"
proof -
  assume n: "vkvs n es" and j: "0 \<le> j" "j < vnumKeys n"
  then have "nat j < length es" by (simp add: vkvs_def)
  from entry_at_node_is[OF n[unfolded vkvs_node_is] this] show ?thesis using j by auto
qed

lemma load_slot_aget: "load_slot es j = Inr e \<Longrightarrow> aget es j = Inr (Some e)"
  by (auto simp: load_slot_def rbind_eq_Inr split: option.splits)

lemma shift_entries_eq:
  "shift_right es tgt i = Inr es' \<Longrightarrow> (\<And>j. 0 \<le> j \<Longrightarrow> j < i \<Longrightarrow> \<exists>e. load_slot es j = Inr e) \<Longrightarrow>
   shift_entries es tgt i = Inr es'"
proof (induction "nat (i - tgt)" arbitrary: es i)
  case 0
  then show ?case by (subst shift_entries.simps) (simp add: shift_right.simps)
next
  case (Suc m)
  then have lt: "tgt < i" by simp
  then obtain x e1 where x: "aget es (i - 1) = Inr x" "aset es i x = Inr e1" "shift_right e1 tgt (i - 1) = Inr es'"
    using Suc.prems(1) by (subst (asm) shift_right.simps) (auto simp: rbind_eq_Inr)
  have b: "0 \<le> i - 1" using x(1) by (simp add: aget_eq_Inr)
  obtain e where e: "load_slot es (i - 1) = Inr e" using Suc.prems(2)[of "i - 1"] b by auto
  then have xe: "x = Some e" using load_slot_aget[OF e] x(1) by simp
  have e1: "e1 = es[nat i := x]" using x(2) by (simp add: aset_eq_Inr)
  have "\<exists>e. load_slot e1 j = Inr e" if "0 \<le> j" "j < i - 1" for j
  proof -
    have "aget e1 j = aget es j" using that by (simp add: e1 aget_def)
    then show ?thesis using Suc.prems(2)[of j] that by (simp add: load_slot_def)
  qed
  then have "shift_entries e1 tgt (i - 1) = Inr es'"
    using Suc.hyps(1)[OF _ x(3)] Suc.hyps(2) by auto
  then show ?case using lt e x(2) xe by (subst shift_entries.simps) simp
qed

lemma copy_entries_step:
  assumes "i < length src" and "src ! i = Some e" and "i < hi"
  shows "copy_entries src dst off (int i) (int hi) =
    rbind (aset dst (int i - off) (Some e)) (\<lambda>d. copy_entries src d off (int (Suc i)) (int hi))"
  using assms by (subst copy_entries.simps) (simp add: load_slot_def add.commute)

lemma copy_entries_prefix:
  "j \<le> i \<Longrightarrow> i \<le> length src \<Longrightarrow> i \<le> length dst \<Longrightarrow> (\<forall>x \<in> set src. x \<noteq> None) \<Longrightarrow>
   copy_entries src dst 0 (int j) (int i) = Inr (take j dst @ drop j (take i src) @ drop i dst)"
proof (induction "i - j" arbitrary: j dst)
  case 0
  then show ?case by (subst copy_entries.simps) simp
next
  case (Suc m)
  then have lt: "j < i" by simp
  then obtain e where e: "src ! j = Some e" using Suc.prems(2,4) by (metis nth_mem less_le_trans not_None_eq)
  have "copy_entries src dst 0 (int j) (int i) = copy_entries src (dst[j := Some e]) 0 (int (Suc j)) (int i)"
    using copy_entries_step[of j src e i dst 0] lt e Suc.prems by simp
  also have "\<dots> = Inr (take (Suc j) (dst[j := Some e]) @ drop (Suc j) (take i src) @ drop i (dst[j := Some e]))"
    using Suc.hyps(1)[of "Suc j" "dst[j := Some e]"] Suc.hyps(2) Suc.prems lt by simp
  also have "take (Suc j) (dst[j := Some e]) = take j dst @ [src ! j]"
    using lt Suc.prems e by (simp add: take_Suc_conv_app_nth)
  also have "drop i (dst[j := Some e]) = drop i dst" using lt by simp
  also have "(take j dst @ [src ! j]) @ drop (Suc j) (take i src) @ drop i dst = take j dst @ drop j (take i src) @ drop i dst"
    using lt Suc.prems Cons_nth_drop_Suc[of j "take i src"] by simp
  finally show ?case .
qed

lemma copy_entries_up:
  "j \<le> length src \<Longrightarrow> length dst = Suc (length src) \<Longrightarrow> (\<forall>x \<in> set src. x \<noteq> None) \<Longrightarrow>
   copy_entries src dst (- 1) (int j) (int (length src)) = Inr (take (Suc j) dst @ drop j src)"
proof (induction "length src - j" arbitrary: j dst)
  case 0
  then show ?case by (subst copy_entries.simps) simp
next
  case (Suc m)
  then have lt: "j < length src" by simp
  then obtain e where e: "src ! j = Some e" using Suc.prems(3) by (metis nth_mem not_None_eq)
  have "aset dst (int j - - 1) (Some e) = Inr (dst[Suc j := Some e])"
    using aset_int[of "Suc j" dst] lt Suc.prems(2) by (simp add: add.commute)
  then have "copy_entries src dst (- 1) (int j) (int (length src)) =
    copy_entries src (dst[Suc j := Some e]) (- 1) (int (Suc j)) (int (length src))"
    using copy_entries_step[of j src e "length src" dst "- 1"] lt e by simp
  also have "\<dots> = Inr (take (Suc (Suc j)) (dst[Suc j := Some e]) @ drop (Suc j) src)"
    using Suc.hyps(1)[of "Suc j" "dst[Suc j := Some e]"] Suc.hyps(2) Suc.prems lt by simp
  also have "take (Suc (Suc j)) (dst[Suc j := Some e]) = take (Suc j) dst @ [src ! j]"
    using lt Suc.prems(2) e by (simp add: take_Suc_conv_app_nth)
  finally show ?case using lt Suc.prems(2) by (simp add: Cons_nth_drop_Suc)
qed

text \<open>The array \<open>allEntries\<close>.\<close>

lemma all_entries_v:
  assumes len: "length es = 15" and i: "i \<le> 15"
  shows "rbind (copy_entries (map slot_of es) (replicate 16 None) 0 0 (int i)) (\<lambda>ae1.
      rbind (aset ae1 (int i) (Some e)) (\<lambda>ae2. copy_entries (map slot_of es) ae2 (- 1) (int i) 15))
    = Inr (map slot_of (ins_at i (ekey e, eptr e) es))"
proof -
  let ?src = "map slot_of es" and ?n = "replicate 16 None :: slot list"
  have some: "\<forall>x \<in> set ?src. x \<noteq> None" by (auto simp: slot_of_def)
  let ?ae1 = "take i ?src @ drop i ?n"
  have "copy_entries ?src ?n 0 0 (int i) = Inr ?ae1"
    using copy_entries_prefix[of 0 i ?src ?n] len i some by simp
  moreover have "aset ?ae1 (int i) (Some e) = Inr (?ae1[i := Some e])"
    using len i by (intro aset_int) simp
  moreover have "copy_entries ?src (?ae1[i := Some e]) (- 1) (int i) 15 = Inr (take (Suc i) (?ae1[i := Some e]) @ drop i ?src)"
    using copy_entries_up[of i ?src "?ae1[i := Some e]"] len i some by simp
  moreover have "take (Suc i) (?ae1[i := Some e]) = take i ?src @ [Some e]"
    using len i by (simp add: take_Suc_conv_app_nth nth_append)
  ultimately show ?thesis by (simp add: ins_at_def slot_of_def take_map drop_map)
qed

lemma copy_entries_eq:
  "copy_range src dst off i hi = Inr d \<Longrightarrow> (\<And>j. 0 \<le> j \<Longrightarrow> j < hi \<Longrightarrow> \<exists>e. load_slot src j = Inr e) \<Longrightarrow>
   copy_entries src dst off i hi = Inr d"
proof (induction "nat (hi - i)" arbitrary: dst i)
  case 0
  then show ?case by (subst copy_entries.simps) (simp add: copy_range.simps)
next
  case (Suc m)
  then have lt: "i < hi" by simp
  then obtain x d1 where x: "aget src i = Inr x" "aset dst (i - off) x = Inr d1" "copy_range src d1 off (i + 1) hi = Inr d"
    using Suc.prems(1) by (subst (asm) copy_range.simps) (auto simp: rbind_eq_Inr)
  have b: "0 \<le> i" using x(1) by (simp add: aget_eq_Inr)
  obtain e where e: "load_slot src i = Inr e" using Suc.prems(2)[OF b lt] by blast
  then have xe: "x = Some e" using load_slot_aget[OF e] x(1) by simp
  have "copy_entries src d1 off (i + 1) hi = Inr d"
    using Suc.hyps(1)[OF _ x(3) Suc.prems(2)] Suc.hyps(2) by simp
  then show ?case using lt e x(2) xe by (subst copy_entries.simps) simp
qed

section \<open>Splitting\<close>

definition split_lower_node :: "vnode \<Rightarrow> slot list \<Rightarrow> vnode" where
  "split_lower_node n E = n\<lparr>Last := False, vnumKeys := 8, ventries := E\<rparr>"

definition split_upper_node :: "vnode \<Rightarrow> entry \<Rightarrow> slot list \<Rightarrow> vnode" where
  "split_upper_node n up M = \<lparr>visLeaf = visLeaf n, First = False, Last = Last n,
     vnumKeys = (if visLeaf n then 8 else 7), vptr0 = (if visLeaf n then 0 else eptr up), ventries = M\<rparr>"

text \<open>Both versions split a full node into the same two nodes.\<close>

lemma splitnode_v_both:
  fixes e :: entry
  assumes a: "vnodes s a = Some n" "a \<noteq> 0" and n: "vkvs n es" and len: "length es = 15"
    and mem: "vavail s \<noteq> 0" "vfresh s \<noteq> 0" "vfresh s \<noteq> a"
  obtains E M up where
    "splitnode (vabs s) a e (visLeaf n) = Inr (split_state (vabs s) a (vn_abs (split_lower_node n E))
      (vn_abs (split_upper_node n up M)), \<lparr>ekey = ekey up, eptr = vfresh s\<rparr>)"
    "splitnode_v s a e (visLeaf n) = Inr (s\<lparr>vnodes := (vnodes s)(a \<mapsto> split_lower_node n E,
      vfresh s \<mapsto> split_upper_node n up M), vfresh := Suc (vfresh s), vavail := vavail s - 1\<rparr>,
      \<lparr>ekey = ekey up, eptr = vfresh s\<rparr>)"
    "\<exists>es1. vkvs (split_lower_node n E) es1" "\<exists>es2. vkvs (split_upper_node n up M) es2"
proof -
  let ?i = "rec_ix (map fst es) (ekey e)" and ?lf = "visLeaf n" and ?s = "vabs s"
  note nis = n[unfolded vkvs_node_is]
  define es' where "es' = ins_at ?i (ekey e, eptr e) es"
  define st :: nat where "st = (if ?lf then 8 else 9)"
  define ae where "ae = map slot_of es'"
  have i15: "?i \<le> 15" using rec_ix_le[of "map fst es"] len by simp
  have le: "length es' = 16" "length ae = 16" using len by (simp_all add: es'_def ae_def)
  obtain E where E: "(if int ?i < 8 then copy_range ae (ventries n) 0 (int ?i) 8 else Inr (ventries n)) = Inr E"
    "length E = 15" "\<And>j. j < 8 \<Longrightarrow> E ! j = ae ! j"
    using split_lower[OF nis len, of e] unfolding ae_def es'_def vn_abs_simps by blast
  have st: "1 \<le> st" "st \<le> 16" by (simp_all add: st_def)
  obtain M where M: "copy_range ae (replicate 15 None) (int st) (int st) 16 = Inr M" "length M = 15"
    "\<And>j. j < 16 - st \<Longrightarrow> M ! j = ae ! (j + st)"
    using split_upper[OF le(2) st] by blast
  define up where "up = \<lparr>ekey = fst (es' ! 8), eptr = snd (es' ! 8)\<rparr>"
  have up: "load_slot ae 8 = Inr up"
    using le by (simp add: load_slot_def aget_def ae_def slot_of_def up_def)
  have ld: "\<exists>x. load_slot ae j = Inr x" if "0 \<le> j" "j < 16" for j
    using that le by (simp add: load_slot_def aget_def ae_def slot_of_def)
  have ents: "ventries n = map slot_of es" using full_node_entries[OF nis len] by simp
  have fr: "findRecordIndex (vn_abs n) (ekey e) = Inr (int ?i)" by (rule findRecordIndex_node_is[OF nis])
  have bld: "build_all (ventries n) (Some e) (int ?i) 0 0 False (replicate 16 None) = Inr ae"
    using split_all[OF nis len, of e] by (simp add: ae_def es'_def)
  have src: "splitnode ?s a e ?lf = Inr (split_state ?s a (vn_abs (split_lower_node n E))
      (vn_abs (split_upper_node n up M)), \<lparr>ekey = ekey up, eptr = vfresh s\<rparr>)"
  proof (cases "?i < 8")
    case True
    with E(1) have cr: "copy_range ae (ventries n) 0 (int ?i) 8 = Inr E" by simp
    show ?thesis
      using a mem M(1) up fr bld cr True
      unfolding splitnode_def Let_def split_state_def split_lower_node_def split_upper_node_def st_def
      by (cases "visLeaf n"; cases "Last n")
        (simp_all add: node_at_def set_node_def createNewNode_def vn_abs_def fun_upd_twist)
  next
    case False
    with E(1) have cr: "ventries n = E" by simp
    show ?thesis
      using a mem M(1) up fr bld cr False
      unfolding splitnode_def Let_def split_state_def split_lower_node_def split_upper_node_def st_def
      by (cases "visLeaf n"; cases "Last n")
        (simp_all add: node_at_def set_node_def createNewNode_def vn_abs_def fun_upd_twist)
  qed
  obtain ae1 ae2 where ae12: "copy_entries (ventries n) (replicate 16 None) 0 0 (int ?i) = Inr ae1"
    "aset ae1 (int ?i) (Some e) = Inr ae2" "copy_entries (ventries n) ae2 (- 1) (int ?i) 15 = Inr ae"
    using all_entries_v[OF len i15, of e] unfolding ents ae_def es'_def by (auto simp: rbind_eq_Inr)
  have low: "(if int ?i < 8 then copy_entries ae (ventries n) 0 (int ?i) 8 else Inr (ventries n)) = Inr E"
    using E(1) ld copy_entries_eq[of ae "ventries n" 0 "int ?i" 8 E] by (simp split: if_splits)
  have upper: "copy_entries ae (replicate 15 None) (int st) (int st) 16 = Inr M"
    using copy_entries_eq[OF M(1)] ld by blast
  have ver: "splitnode_v s a e ?lf = Inr (s\<lparr>vnodes := (vnodes s)(a \<mapsto> split_lower_node n E,
      vfresh s \<mapsto> split_upper_node n up M), vfresh := Suc (vfresh s), vavail := vavail s - 1\<rparr>,
      \<lparr>ekey = ekey up, eptr = vfresh s\<rparr>)"
  proof (cases "?i < 8")
    case True
    then have "copy_entries ae (ventries n) 0 (int ?i) 8 = Inr E" using low by simp
    then show ?thesis
      using a mem up fr ae12 True upper
      unfolding splitnode_v_def Let_def split_lower_node_def split_upper_node_def st_def
      by (cases "visLeaf n") (simp_all add: vnode_at_def vset_node_def createNewNode_v_def surely_malloc_v_def
          findRecordIndex_v_eq fun_upd_twist)
  next
    case False
    have keep: "m\<lparr>ventries := ventries m\<rparr> = m" for m :: vnode by simp
    have E': "E = ventries (n\<lparr>Last := False, vnumKeys := 8\<rparr>)" using low False by simp
    show ?thesis
      using a mem up fr ae12 False upper
      unfolding splitnode_v_def Let_def split_lower_node_def split_upper_node_def st_def E'
      by (cases "visLeaf n") (simp_all add: vnode_at_def vset_node_def createNewNode_v_def surely_malloc_v_def
          findRecordIndex_v_eq fun_upd_twist keep)
  qed
  have "vkvs (split_lower_node n E) (take 8 es')"
    using le E(2,3) by (auto simp: vkvs_def split_lower_node_def ae_def intro!: nth_equalityI)
  moreover have "vkvs (split_upper_node n up M) (drop st es')"
    using le M(2,3) by (auto simp: vkvs_def split_upper_node_def ae_def st_def add.commute intro!: nth_equalityI)
  ultimately show thesis using that src ver by blast
qed

section \<open>Inserting\<close>

text \<open>A node the cursor may reach: its entries are initialised up to \<open>numKeys\<close>.\<close>

definition v_ready :: "vrl \<Rightarrow> addr \<Rightarrow> bool" where
  "v_ready s a \<longleftrightarrow> (\<exists>n es. vnodes s a = Some n \<and> vkvs n es)"

definition v_path :: "vrl \<Rightarrow> cursor \<Rightarrow> bool" where
  "v_path s c \<longleftrightarrow> 0 < vfresh s \<and> (\<forall>a \<in> dom (vnodes s). a < vfresh s) \<and>
     (\<forall>i. 0 \<le> i \<longrightarrow> i \<le> level c \<longrightarrow> v_ready s (ancestors c ! nat i))"

lemma insert_slot_v_sim:
  assumes "insert_slot (vabs s) a (vn_abs n) i e = Inr t'" and "vkvs n es"
  shows "\<exists>s'. insert_slot_v s a n i e = Inr s' \<and> vabs s' = t'"
proof -
  obtain es1 es2 where es: "shift_right (ventries n) i (vnumKeys n) = Inr es1" "aset es1 i (Some e) = Inr es2"
    "t' = (set_node (vabs s) a ((vn_abs n)\<lparr>entries := es2, numKeys := vnumKeys n + 1\<rparr>))
      \<lparr>numRecords := Suc (vnumRecords s)\<rparr>"
    using assms(1) by (auto simp: insert_slot_def rbind_eq_Inr Let_def set_node_def)
  have "shift_entries (ventries n) i (vnumKeys n) = Inr es1"
    using shift_entries_eq[OF es(1)] vkvs_load[OF assms(2)] by blast
  then have "insert_slot_v s a n i e = Inr ((vset_node s a (n\<lparr>ventries := es2, vnumKeys := vnumKeys n + 1\<rparr>))
    \<lparr>vnumRecords := Suc (vnumRecords s)\<rparr>)"
    using es(2) by (simp add: insert_slot_v_def vset_node_def)
  moreover have "vabs ((vset_node s a (n\<lparr>ventries := es2, vnumKeys := vnumKeys n + 1\<rparr>))
    \<lparr>vnumRecords := Suc (vnumRecords s)\<rparr>) = t'"
    unfolding es(3) by (simp add: vabs_def vset_node_def set_node_def vn_abs_def fun_eq_iff)
  ultimately show ?thesis by blast
qed

lemma createNewNode_v_sim:
  assumes "createNewNode (vabs s) lf fl ll = (p, t)" and "p \<noteq> NULL"
  shows "createNewNode_v s lf fl' ll' = Inr (vfresh s, s\<lparr>vnodes := (vnodes s)(vfresh s \<mapsto> \<lparr>visLeaf = lf, First = fl', Last = ll',
      vnumKeys = 0, vptr0 = NULL, ventries = replicate (nat FANOUT) None\<rparr>), vfresh := Suc (vfresh s), vavail := vavail s - 1\<rparr>)"
    "p = vfresh s" "vavail s \<noteq> 0"
    "t = (vabs s)\<lparr>nodes := (nodes (vabs s))(vfresh s \<mapsto> \<lparr>isLeaf = lf, FirstLeaf = fl, LastLeaf = ll, numKeys = 0, ptr0 = NULL,
      entries = replicate (nat FANOUT) None\<rparr>), fresh := Suc (vfresh s), avail := vavail s - 1\<rparr>"
  using assms by (auto simp: createNewNode_def createNewNode_v_def surely_malloc_v_def vset_node_def split: if_splits)

lemma putEntry_v_root:
  assumes put: "putEntry (vabs s) c (- 1) e k = Inr (t', c')" and lv: "level c = - 1" and f: "0 < vfresh s"
  shows "\<exists>s'. putEntry_v s c e k = Inr (s', c') \<and> vabs s' = t'"
proof -
  obtain p t1 where p: "createNewNode (vabs s) False False False = (p, t1)" by (cases "createNewNode (vabs s) False False False")
  have nn: "p \<noteq> NULL" using put p by (subst (asm) putEntry.simps) (auto simp: rbind_eq_Inr)
  note cn = createNewNode_v_sim(1)[OF p nn, of True True] createNewNode_v_sim(2-4)[OF p nn]
  obtain anc where anc: "aset (ancestors c) 0 (vfresh s) = Inr anc"
    using put p cn(2) by (subst (asm) putEntry.simps) (auto simp: rbind_eq_Inr Let_def)
  let ?n = "\<lparr>visLeaf = False, First = True, Last = True, vnumKeys = 1, vptr0 = vroot s,
    ventries = (replicate 15 None)[0 := Some e]\<rparr>"
  let ?s = "s\<lparr>vfresh := Suc (vfresh s), vavail := vavail s - 1, vnodes := (vnodes s)(vfresh s \<mapsto> ?n),
    vroot := vfresh s, vdepth := vdepth s + 1, vnumRecords := Suc (vnumRecords s)\<rparr>"
  have abs: "vabs ?s = (set_node t1 (vfresh s) \<lparr>isLeaf = False, FirstLeaf = False, LastLeaf = False, numKeys = 1,
      ptr0 = vroot s, entries = (replicate 15 None)[0 := Some e]\<rparr>)
    \<lparr>root := vfresh s, depth := vdepth s + 1, numRecords := Suc (vnumRecords s)\<rparr>"
    unfolding cn(4) by (simp add: vabs_def set_node_def vn_abs_def fun_eq_iff)
  have set0: "aset (replicate 15 None) 0 (Some e) = Inr ((replicate 15 None)[0 := Some e])" by (simp add: aset_def)
  have t1: "node_at t1 (vfresh s) = Inr \<lparr>isLeaf = False, FirstLeaf = False, LastLeaf = False, numKeys = 0, ptr0 = NULL,
      entries = replicate 15 None\<rparr>" "root t1 = vroot s" "depth t1 = vdepth s" "numRecords t1 = vnumRecords s"
    using f unfolding cn(4) by (simp_all add: node_at_def)
  have mv: "moveToKey (vabs ?s) (vfresh s) k (c\<lparr>ancestors := anc\<rparr>) 0 = Inr c'" "vabs ?s = t'"
  proof -
    have "putEntry (vabs s) c (- 1) e k =
      rbind (moveToKey (vabs ?s) (vfresh s) k (c\<lparr>ancestors := anc\<rparr>) 0) (\<lambda>c2. Inr (vabs ?s, c2))"
      unfolding abs using p nn cn(2) set0 t1 anc
      by (subst putEntry.simps) (simp add: Let_def set_node_def)
    then have "rbind (moveToKey (vabs ?s) (vfresh s) k (c\<lparr>ancestors := anc\<rparr>) 0) (\<lambda>c2. Inr (vabs ?s, c2)) = Inr (t', c')"
      using put by (simp only:)
    then obtain c2 where "moveToKey (vabs ?s) (vfresh s) k (c\<lparr>ancestors := anc\<rparr>) 0 = Inr c2" "Inr (vabs ?s, c2) = (Inr (t', c') :: (rl \<times> cursor) result)"
      by (elim rbind_InrE) (rule that)
    then show "moveToKey (vabs ?s) (vfresh s) k (c\<lparr>ancestors := anc\<rparr>) 0 = Inr c'" "vabs ?s = t'"
      by (simp_all only: sum.inject prod.inject)
  qed
  have "putEntry_v s c e k = Inr (?s, c')"
    using cn(1) lv f set0 anc mv(1)
    by (subst putEntry_v.simps)
      (simp add: Let_def vset_node_def vnode_at_def moveToKey_v_eq)
  then show ?thesis using mv(2) by blast
qed

lemma v_path_split:
  assumes "v_path s c" and "vnodes s a = Some n"
    and "\<exists>es1. vkvs n1 es1" "\<exists>es2. vkvs m1 es2" and "level c' = level c - 1" "ancestors c' = ancestors c"
  shows "v_path (s\<lparr>vnodes := (vnodes s)(a \<mapsto> n1, vfresh s \<mapsto> m1), vfresh := Suc (vfresh s), vavail := x\<rparr>) c'"
  unfolding v_path_def
proof (intro conjI allI impI ballI)
  show "0 < vfresh (s\<lparr>vnodes := (vnodes s)(a \<mapsto> n1, vfresh s \<mapsto> m1), vfresh := Suc (vfresh s), vavail := x\<rparr>)"
    by simp
  fix b assume "b \<in> dom (vnodes (s\<lparr>vnodes := (vnodes s)(a \<mapsto> n1, vfresh s \<mapsto> m1), vfresh := Suc (vfresh s), vavail := x\<rparr>))"
  then have "b \<in> dom (vnodes s) \<or> b = vfresh s" using assms(2) by (auto split: if_splits)
  then show "b < vfresh (s\<lparr>vnodes := (vnodes s)(a \<mapsto> n1, vfresh s \<mapsto> m1), vfresh := Suc (vfresh s), vavail := x\<rparr>)"
    using assms(1) unfolding v_path_def by (auto intro: less_SucI)
next
  fix i assume i: "0 \<le> i" "i \<le> level c'"
  then have "v_ready s (ancestors c ! nat i)" using assms(1,5) by (simp add: v_path_def)
  then show "v_ready (s\<lparr>vnodes := (vnodes s)(a \<mapsto> n1, vfresh s \<mapsto> m1), vfresh := Suc (vfresh s), vavail := x\<rparr>)
      (ancestors c' ! nat i)"
    using assms(3,4,6) unfolding v_ready_def by auto
qed

lemma vabs_split:
  "vabs (s\<lparr>vnodes := (vnodes s)(a \<mapsto> n1, vfresh s \<mapsto> m1), vfresh := Suc (vfresh s), vavail := vavail s - 1\<rparr>)
    = split_state (vabs s) a (vn_abs n1) (vn_abs m1)"
  by (simp add: split_state_def vabs_def fun_eq_iff)

text \<open>The branches of \<open>putEntry\<close> on a node.\<close>

lemma putEntry_leaf:
  assumes "0 \<le> lvl" and "currAddr c = Inr a" and "node_at s a = Inr n" and "isLeaf n"
  shows "putEntry s c lvl e k =
    rbind (entryIndex c) (\<lambda>i.
    rbind (if i < numKeys n then rbind (entry_at n i) (\<lambda>x. Inr (ekey x = ekey e)) else Inr False) (\<lambda>found.
      if found then
        rbind (entry_at n i) (\<lambda>x. rbind (aset (entries n) i (Some (x\<lparr>eptr := eptr e\<rparr>))) (\<lambda>es.
          Inr (set_node s a (n\<lparr>entries := es\<rparr>), c)))
      else if numKeys n < FANOUT then rbind (insert_slot s a n i e) (\<lambda>s1. Inr (s1, c))
      else rbind (splitnode s a e True) (\<lambda>(s1, e1). putEntry s1 (c\<lparr>level := level c - 1\<rparr>) (lvl - 1) e1 k)))"
  using assms by (subst putEntry.simps) simp

lemma putEntry_intern:
  assumes "0 \<le> lvl" and "currAddr c = Inr a" and "node_at s a = Inr n" and "\<not> isLeaf n"
  shows "putEntry s c lvl e k =
    (if numKeys n < FANOUT then
       rbind (aget (ancestorsIdx c) lvl) (\<lambda>i.
       rbind (insert_slot s a n (i + 1) e) (\<lambda>s1.
       rbind (moveToKey s1 a k c lvl) (\<lambda>c1. Inr (s1, c1))))
     else
       rbind (splitnode s a e False) (\<lambda>(s1, e1). putEntry s1 (c\<lparr>level := level c - 1\<rparr>) (lvl - 1) e1 k))"
  using assms by (subst putEntry.simps) simp

lemma putEntry_v_leaf:
  assumes "0 \<le> level c" and "currAddr c = Inr a" and "vnode_at s a = Inr n" and "visLeaf n"
  shows "putEntry_v s c e k =
    rbind (entryIndex c) (\<lambda>i.
    rbind (if i < vnumKeys n then rbind (ventry_at n i) (\<lambda>x. Inr (ekey x = ekey e)) else Inr False) (\<lambda>found.
      if found then
        rbind (ventry_at n i) (\<lambda>x. rbind (aset (ventries n) i (Some (x\<lparr>eptr := eptr e\<rparr>))) (\<lambda>es.
          Inr (vset_node s a (n\<lparr>ventries := es\<rparr>), c)))
      else if vnumKeys n < FANOUT then rbind (insert_slot_v s a n i e) (\<lambda>s1. Inr (s1, c))
      else rbind (splitnode_v s a e True) (\<lambda>(s1, e1). putEntry_v s1 (c\<lparr>level := level c - 1\<rparr>) e1 k)))"
  using assms by (subst putEntry_v.simps) (simp add: entryIndex_v_eq currNode_v_eq)

lemma putEntry_v_intern:
  assumes "0 \<le> level c" and "currAddr c = Inr a" and "vnode_at s a = Inr n" and "\<not> visLeaf n"
  shows "putEntry_v s c e k =
    (if vnumKeys n < FANOUT then
       rbind (entryIndex c) (\<lambda>i.
       rbind (insert_slot_v s a n (i + 1) e) (\<lambda>s1.
       rbind (moveToKey (vabs s1) a k c (level c)) (\<lambda>c1. Inr (s1, c1))))
     else
       rbind (splitnode_v s a e False) (\<lambda>(s1, e1). putEntry_v s1 (c\<lparr>level := level c - 1\<rparr>) e1 k))"
  using assms by (subst putEntry_v.simps) (simp add: entryIndex_v_eq currNode_v_eq moveToKey_v_eq)

lemma putEntry_at:
  assumes "putEntry s c lvl e k = Inr r" and "0 \<le> lvl"
  shows "\<exists>a n. currAddr c = Inr a \<and> node_at s a = Inr n"
proof (cases "currAddr c")
  case (Inl x)
  then show ?thesis using assms by (subst (asm) putEntry.simps) simp
next
  case a: (Inr a)
  show ?thesis
  proof (cases "node_at s a")
    case (Inl x)
    then show ?thesis using assms a by (subst (asm) putEntry.simps) simp
  qed (use a in blast)
qed

lemma putEntry_v_sim:
  "putEntry (vabs s) c (level c) e k = Inr (t', c') \<Longrightarrow> v_path s c \<Longrightarrow>
   \<exists>s'. putEntry_v s c e k = Inr (s', c') \<and> vabs s' = t'"
proof (induction "nat (level c + 1)" arbitrary: s c e)
  case 0
  then have "level c = - 1 \<or> level c < - 1" by auto
  then show ?case
  proof
    assume lv: "level c = - 1"
    then show ?thesis using putEntry_v_root[of s c e k t' c'] 0 by (simp add: v_path_def)
  next
    assume "level c < - 1"
    then show ?thesis using 0(2) by (subst (asm) putEntry.simps) simp
  qed
next
  case (Suc m)
  then have lv: "0 \<le> level c" by simp
  obtain a where a: "currAddr c = Inr a" and tn: "\<exists>n0. node_at (vabs s) a = Inr n0"
    using putEntry_at[OF Suc.prems(1) lv] by blast
  have av: "a = ancestors c ! nat (level c)" using a by (simp add: currAddr_def aget_eq_Inr)
  have "v_ready s a" using Suc.prems(2) lv by (simp add: v_path_def av)
  then obtain n es where n: "vnodes s a = Some n" "vkvs n es" by (auto simp: v_ready_def)
  have a0: "a \<noteq> 0" using tn by (auto simp: node_at_def split: if_splits)
  have at: "vnode_at s a = Inr n" "node_at (vabs s) a = Inr (vn_abs n)"
    using a0 n(1) by (simp_all add: vnode_at_def node_at_vabs)
  have fr: "vfresh s \<noteq> 0" "vfresh s \<noteq> a" using Suc.prems(2) n(1) by (auto simp: v_path_def)
  text \<open>The node is full.\<close>
  have full: ?case
    if sp: "rbind (splitnode (vabs s) a e (visLeaf n)) (\<lambda>(s1, e1).
        putEntry s1 (c\<lparr>level := level c - 1\<rparr>) (level c - 1) e1 k) = Inr (t', c')"
      and spv: "putEntry_v s c e k = rbind (splitnode_v s a e (visLeaf n)) (\<lambda>(s1, e1).
        putEntry_v s1 (c\<lparr>level := level c - 1\<rparr>) e1 k)"
      and big: "\<not> vnumKeys n < 15"
  proof -
    have "length es \<le> 15" using node_is_length[OF n(2)[unfolded vkvs_node_is]] .
    then have len: "length es = 15" using big n(2) by (simp add: vkvs_def)
    have mem: "vavail s \<noteq> 0"
    proof
      assume "vavail s = 0"
      then have "splitnode (vabs s) a e (visLeaf n) = Inl AssertFail"
        using splitnode_no_memory[OF _ a0 n(2)[unfolded vkvs_node_is] len, of "vabs s"] n(1) by simp
      then show False using sp by simp
    qed
    obtain E M up where split: "splitnode (vabs s) a e (visLeaf n) = Inr (split_state (vabs s) a (vn_abs (split_lower_node n E))
        (vn_abs (split_upper_node n up M)), \<lparr>ekey = ekey up, eptr = vfresh s\<rparr>)"
      "splitnode_v s a e (visLeaf n) = Inr (s\<lparr>vnodes := (vnodes s)(a \<mapsto> split_lower_node n E,
        vfresh s \<mapsto> split_upper_node n up M), vfresh := Suc (vfresh s), vavail := vavail s - 1\<rparr>,
        \<lparr>ekey = ekey up, eptr = vfresh s\<rparr>)"
      "\<exists>es1. vkvs (split_lower_node n E) es1" "\<exists>es2. vkvs (split_upper_node n up M) es2"
      by (rule splitnode_v_both[OF n(1) a0 n(2) len mem fr])
    let ?s = "s\<lparr>vnodes := (vnodes s)(a \<mapsto> split_lower_node n E,
        vfresh s \<mapsto> split_upper_node n up M), vfresh := Suc (vfresh s), vavail := vavail s - 1\<rparr>"
    let ?c = "c\<lparr>level := level c - 1\<rparr>"
    have "putEntry (vabs ?s) ?c (level ?c) \<lparr>ekey = ekey up, eptr = vfresh s\<rparr> k = Inr (t', c')"
      using sp split(1) unfolding vabs_split by simp
    moreover have "v_path ?s ?c" by (rule v_path_split[OF Suc.prems(2) n(1) split(3,4)]) simp_all
    moreover have "m = nat (level ?c + 1)" using Suc.hyps(2) by simp
    ultimately obtain s' where "putEntry_v ?s ?c \<lparr>ekey = ekey up, eptr = vfresh s\<rparr> k = Inr (s', c')" "vabs s' = t'"
      using Suc.hyps(1) by blast
    then show ?thesis using spv split(2) by simp
  qed
  show ?case
  proof (cases "visLeaf n")
    case leaf: True
    then have leaf': "isLeaf (vn_abs n)" by simp
    note run = putEntry_leaf[OF lv a at(2) leaf', unfolded vn_abs_simps, of e k]
    note run_v = putEntry_v_leaf[OF lv a at(1) leaf, of e k]
    obtain i where i: "entryIndex c = Inr i"
      using Suc.prems(1) unfolding run by (rule rbind_InrE)
    let ?f = "if i < vnumKeys n then rbind (ventry_at n i) (\<lambda>x. Inr (ekey x = ekey e)) else Inr False"
    obtain found where found: "?f = Inr found"
      using Suc.prems(1) unfolding run i rbind_Inr by (rule rbind_InrE)
    note run = run[unfolded i rbind_Inr found] and run_v = run_v[unfolded i rbind_Inr found]
    show ?thesis
    proof (cases found)
      case True
      obtain x where x: "ventry_at n i = Inr x"
        using Suc.prems(1) True unfolding run by (auto elim: rbind_InrE)
      obtain es2 where u: "aset (ventries n) i (Some (x\<lparr>eptr := eptr e\<rparr>)) = Inr es2"
        using Suc.prems(1) True x by (auto simp: run elim: rbind_InrE)
      have r: "t' = set_node (vabs s) a ((vn_abs n)\<lparr>entries := es2\<rparr>)" "c' = c"
        using Suc.prems(1) True x u by (simp_all add: run)
      have "putEntry_v s c e k = Inr (vset_node s a (n\<lparr>ventries := es2\<rparr>), c)"
        using True x u by (simp add: run_v)
      moreover have "vabs (vset_node s a (n\<lparr>ventries := es2\<rparr>)) = t'"
        unfolding r(1) vabs_set_node by (simp add: vn_abs_def)
      ultimately show ?thesis using r(2) by blast
    next
      case False
      show ?thesis
      proof (cases "vnumKeys n < 15")
        case True
        obtain t1 where t1: "insert_slot (vabs s) a (vn_abs n) i e = Inr t1"
          using Suc.prems(1) True False unfolding run by (auto elim: rbind_InrE)
        have r: "t' = t1" "c' = c" using Suc.prems(1) True False t1 by (simp_all add: run)
        obtain s' where "insert_slot_v s a n i e = Inr s'" "vabs s' = t1"
          using insert_slot_v_sim[OF t1 n(2)] by blast
        then show ?thesis using True False r by (simp add: run_v)
      next
        case big: False
        show ?thesis
        proof (rule full[OF _ _ big])
          show "rbind (splitnode (vabs s) a e (visLeaf n)) (\<lambda>(s1, e1).
              putEntry s1 (c\<lparr>level := level c - 1\<rparr>) (level c - 1) e1 k) = Inr (t', c')"
            using Suc.prems(1) big False leaf unfolding run by simp
          show "putEntry_v s c e k = rbind (splitnode_v s a e (visLeaf n)) (\<lambda>(s1, e1).
              putEntry_v s1 (c\<lparr>level := level c - 1\<rparr>) e1 k)"
            using big False leaf unfolding run_v by simp
        qed
      qed
    qed
  next
    case intern: False
    then have intern': "\<not> isLeaf (vn_abs n)" by simp
    note run = putEntry_intern[OF lv a at(2) intern', unfolded vn_abs_simps, of e k]
    note run_v = putEntry_v_intern[OF lv a at(1) intern, of e k]
    show ?thesis
    proof (cases "vnumKeys n < 15")
      case True
      then have run: "putEntry (vabs s) c (level c) e k = rbind (entryIndex c) (\<lambda>i.
          rbind (insert_slot (vabs s) a (vn_abs n) (i + 1) e) (\<lambda>s1.
          rbind (moveToKey s1 a k c (level c)) (\<lambda>c1. Inr (s1, c1))))"
        unfolding run entryIndex_def by simp
      obtain i where i: "entryIndex c = Inr i"
        using Suc.prems(1) unfolding run by (rule rbind_InrE)
      obtain t1 where t1: "insert_slot (vabs s) a (vn_abs n) (i + 1) e = Inr t1"
        using Suc.prems(1) unfolding run i rbind_Inr by (rule rbind_InrE)
      obtain c1 where c1: "moveToKey t1 a k c (level c) = Inr c1"
        using Suc.prems(1) i t1 by (auto simp: run elim: rbind_InrE)
      have r: "t' = t1" "c' = c1" using Suc.prems(1) i t1 c1 by (simp_all add: run)
      obtain s' where s': "insert_slot_v s a n (i + 1) e = Inr s'" "vabs s' = t1"
        using insert_slot_v_sim[OF t1 n(2)] by blast
      then show ?thesis using True r c1 i by (simp add: run_v)
    next
      case big: False
      show ?thesis
      proof (rule full[OF _ _ big])
        show "rbind (splitnode (vabs s) a e (visLeaf n)) (\<lambda>(s1, e1).
            putEntry s1 (c\<lparr>level := level c - 1\<rparr>) (level c - 1) e1 k) = Inr (t', c')"
          using Suc.prems(1) big intern unfolding run by simp
        show "putEntry_v s c e k = rbind (splitnode_v s a e (visLeaf n)) (\<lambda>(s1, e1).
            putEntry_v s1 (c\<lparr>level := level c - 1\<rparr>) e1 k)"
          using big intern unfolding run_v by simp
      qed
    qed
  qed
qed

section \<open>The contract\<close>

lemma rep_ready: "rep (nodes (vabs s)) t \<Longrightarrow> a \<in> set (addrs t) \<Longrightarrow> v_ready s a"
proof (induction t)
  case (Lf b f l es)
  then obtain n where "vnodes s b = Some n" "node_is (vn_abs n) True f l 0 es" by auto
  then show ?case using Lf.prems(2) node_is_vkvs[of n True f l 0 es] unfolding v_ready_def by auto
next
  case (Nd b f l ks cs)
  obtain n where n: "vnodes s b = Some n" "node_is (vn_abs n) False f l (taddr (hd cs)) (node_kvs ks cs)"
    using Nd.prems(1) by auto
  show ?case
  proof (cases "a = b")
    case True
    then show ?thesis using n(1) node_is_vkvs[OF n(2)] unfolding v_ready_def by blast
  next
    case False
    then obtain c where "c \<in> set cs" "a \<in> set (addrs c)" using Nd.prems(2) by auto
    then show ?thesis using Nd.IH Nd.prems(1) by simp
  qed
qed

lemma subtree_addrs: "vpath t js \<Longrightarrow> bt_ok h lo hi f l t \<Longrightarrow> set (addrs (subtree t js)) \<subseteq> set (addrs t)"
proof (induction t js arbitrary: h lo hi f l rule: vpath.induct)
  case (2 a f' l' ks cs j js)
  then obtain h' where h: "h = Suc h'" by (cases h) auto
  have len: "length cs = Suc (length ks)" using 2(3) h by simp
  have j: "j \<le> length ks" "j < length cs" using 2(2) len by simp_all
  have "bt_ok h' (lo_at lo ks j) (hi_at hi ks j) (f \<and> j = 0) (l \<and> j = length ks) (cs ! j)"
    using 2(3) j h by simp
  then have "set (addrs (subtree (cs ! j) js)) \<subseteq> set (addrs (cs ! j))" using 2 by simp
  moreover have "cs ! j \<in> set cs" using j by simp
  ultimately show ?case by auto
qed auto

lemma cur_pos_v_path:
  assumes "rel_inv (vabs s) h t" and "cur_pos h t c p"
  shows "v_path s c"
proof -
  note inv = rel_invD[OF assms(1)]
  obtain js li where c: "fpath h t js" "cur_at c t js li" using assms(2) unfolding cur_pos_def by blast
  have vp: "vpath t js" using c(1) by (simp add: fpath_def)
  have "v_ready s (ancestors c ! nat i)" if "0 \<le> i" "i \<le> level c" for i
  proof -
    have i: "nat i \<le> length js" using that cur_atD(2)[OF c(2) vp] by simp
    have p: "vpath t (take (nat i) js)" using vpath_take[OF vp] by simp
    have "ancestors c ! nat i = taddr (subtree t (take (nat i) js))" using cur_atD(4)[OF c(2) vp i] .
    moreover have "taddr (subtree t (take (nat i) js)) \<in> set (addrs t)"
      using subtree_addrs[OF p inv(1)] by auto
    ultimately show ?thesis using rep_ready[OF inv(2)] by simp
  qed
  moreover have "0 < vfresh s" "\<forall>a \<in> dom (vnodes s). a < vfresh s"
    using assms(1) by (auto simp: rel_inv_def)
  ultimately show ?thesis by (simp add: v_path_def)
qed

lemma RL_PutRecord_v_eq:
  assumes inv: "rel_inv (vabs s) h t" and c: "cur_pos h t c p" and h: "Suc h < 20" and av: "Suc h < vavail s"
  shows "\<exists>s' c'. RL_PutRecord_v s c k v = Inr (s', c') \<and> RL_PutRecord (vabs s) c k v = Inr (vabs s', c')"
proof -
  let ?e = "\<lparr>ekey = k, eptr = v\<rparr>"
  note i = rel_invD[OF inv]
  obtain c1 where c1: "goToKey (vabs s) c k = Inr c1" "cur_pos h t c1 (rec_ix (map fst (contents t)) k)"
    "c1 = cursor_put c 0 (anc t (spath h t k)) (spath h t k) (find_ix h t k)"
    using goToKey_pos[OF inv c] by metis
  have sp: "vpath t (spath h t k)" "length (spath h t k) = h" using spath_vpath[OF i(1)] by auto
  have cs: "cur_sub c1 0 t (spath h t k) (find_ix h t k)"
    unfolding c1(3) using sp h by (intro cur_sub_put(1)[OF cur_pos_arrays[OF c]]) simp_all
  have av': "Suc h < avail (vabs s)" using av by simp
  obtain t1 c2 h' t' where p: "putEntry (vabs s) c1 (int h) ?e k = Inr (t1, c2)" "rel_inv t1 h' t'"
    "contents t' = alist_put k v (contents t)" "cur_sub c2 0 t' (spath h' t' k) (find_ix h' t' k)"
    using putEntry_root[OF inv h av' cs] by metis
  have pos: "cur_pos h' t' c2 (rec_ix (map fst (contents t')) k)" using cur_sub_cur_pos[OF p(2,4)] .
  have lv: "level c1 = int h" using cs sp by (simp add: cur_sub_def)
  obtain s' where s': "putEntry_v s c1 ?e k = Inr (s', c2)" "vabs s' = t1"
    using putEntry_v_sim[of s c1 ?e k t1 c2] p(1) lv cur_pos_v_path[OF inv c1(2)] by auto
  obtain c3 where c3: "RL_MoveToNext t1 c2 = Inr c3" using RL_MoveToNext_pos[OF p(2) pos] by blast
  have "RL_MoveToNext_v s' c2 = Inr c3" using RL_MoveToNext_v_eq[of s' h' t' c2] p(2) pos c3 s'(2) by simp
  then have "RL_PutRecord_v s c k v = Inr (s', c3)"
    using c1(1) goToKey_v_eq[OF inv c] s'(1) by (simp add: RL_PutRecord_v_def)
  moreover have "RL_PutRecord (vabs s) c k v = Inr (vabs s', c3)"
    using c1(1) p(1) lv c3 s'(2) by (simp add: RL_PutRecord_def)
  ultimately show ?thesis by blast
qed

definition vrl_inv :: "vrl \<Rightarrow> nat \<times> bt \<Rightarrow> bool" where
  "vrl_inv s a \<longleftrightarrow> rl_inv (vabs s) a"

definition vrl_room :: "nat \<Rightarrow> vrl \<Rightarrow> bool" where
  "vrl_room n s \<longleftrightarrow> rl_room n (vabs s)"

lemma vrl_put:
  assumes "vrl_inv s a" and "rl_pos a c p" and "vrl_room (Suc n) s"
  shows "\<exists>s' c'. RL_PutRecord_v s c k v = Inr (s', c') \<and> RL_PutRecord (vabs s) c k v = Inr (vabs s', c')"
proof -
  have i: "rel_inv (vabs s) (fst a) (snd a)" and c: "cur_pos (fst a) (snd a) c p"
    using assms(1,2) by (simp_all add: vrl_inv_def rl_inv_def rl_pos_def)
  have room: "rl_room (Suc n) (vabs s)" using assms(3) by (simp add: vrl_room_def)
  then have "length (contents (snd a)) < record_limit" using rel_invD(6)[OF i] by (simp add: rl_room_def)
  then have h: "fst a \<le> 18" by (rule height_below_limit[OF i])
  then have "Suc (fst a) < 20" "Suc (fst a) < vavail s" using room by (simp_all add: rl_room_def)
  then show ?thesis using RL_PutRecord_v_eq[OF i c] by blast
qed

interpretation vt: ordered_table vrl_inv rl_recs rl_pos vrl_room RL_CursorIsValid_v RL_GetKey_v RL_GetRecord_v
  RL_MoveToNext_v RL_MoveToKey_v RL_MoveToFirst_v RL_PutRecord_v
proof unfold_locales
  fix s :: vrl and a c p n k v
  assume inv: "vrl_inv s a"
  then have ri: "rl_inv (vabs s) a" and i: "rel_inv (vabs s) (fst a) (snd a)" by (simp_all add: vrl_inv_def rl_inv_def)
  show "sorted_keys (rl_recs a)" by (rule rt.recs_sorted[OF ri])
  assume pos: "rl_pos a c p"
  then have c: "cur_pos (fst a) (snd a) c p" by (simp add: rl_pos_def)
  obtain n0 where "currNode (vabs s) c = Inr n0" "isLeaf n0" by (rule cur_pos_at_leaf[OF i c])
  then have v: "isValid_v s c = isValid (vabs s) c" by (rule isValid_v_eq)
  show "p \<le> length (rl_recs a)" by (rule rt.pos_le[OF ri pos])
  show "RL_CursorIsValid_v s c = Inr (p < length (rl_recs a))"
    using rt.is_valid_iff[OF ri pos] v by (simp add: RL_CursorIsValid_v_def RL_CursorIsValid_def)
  show "p < length (rl_recs a) \<Longrightarrow> \<exists>c'. RL_GetKey_v s c = Inr (fst (rl_recs a ! p), c') \<and> rl_pos a c' p"
    using rt.get_key_law[OF ri pos] RL_GetKey_v_eq(1)[OF i c] by simp
  show "p < length (rl_recs a) \<Longrightarrow> \<exists>c'. RL_GetRecord_v s c = Inr (snd (rl_recs a ! p), c') \<and> rl_pos a c' p"
    using rt.get_record_law[OF ri pos] RL_GetKey_v_eq(2)[OF i c] by simp
  show "\<exists>c'. RL_MoveToNext_v s c = Inr c' \<and> rl_pos a c' (min (Suc p) (length (rl_recs a)))"
    using rt.to_next_law[OF ri pos] RL_MoveToNext_v_eq[OF i c] by simp
  show "\<exists>c'. RL_MoveToKey_v s c k = Inr (k \<in> fst ` set (rl_recs a), c') \<and> rl_pos a c' (rec_ix (map fst (rl_recs a)) k)"
    using rt.to_key_law[OF ri pos] RL_MoveToKey_v_eq[OF i c] by simp
  show "\<exists>c'. RL_MoveToFirst_v s c = Inr (rl_recs a \<noteq> [], c') \<and> rl_pos a c' 0"
    using rt.to_first_law[OF ri pos] RL_MoveToFirst_v_eq[OF i cur_pos_arrays[OF c]] by simp
  assume room: "vrl_room (Suc n) s"
  obtain s' c' where p: "RL_PutRecord_v s c k v = Inr (s', c')" "RL_PutRecord (vabs s) c k v = Inr (vabs s', c')"
    using vrl_put[OF inv pos room] by blast
  have "rl_room (Suc n) (vabs s)" using room by (simp add: vrl_room_def)
  from rt.put_law[OF ri pos this, of k v] show "\<exists>s' c' a'. RL_PutRecord_v s c k v = Inr (s', c') \<and> vrl_inv s' a' \<and>
      rl_recs a' = alist_put k v (rl_recs a) \<and> rl_pos a' c' (Suc (rec_ix (map fst (rl_recs a)) k)) \<and> vrl_room n s'"
    using p by (auto simp: vrl_inv_def vrl_room_def)
next
  fix s :: vrl and a c
  assume i: "vrl_inv s a" and p: "rl_pos a c (length (rl_recs a))"
  then have "rel_inv (vabs s) (fst a) (snd a)" "cur_pos (fst a) (snd a) c (length (rl_recs a))"
    by (simp_all add: vrl_inv_def rl_inv_def rl_pos_def)
  from RL_GetKey_v_eq(1)[OF this] show "RL_GetKey_v s c = Inl AssertFail"
    using rt.get_key_invalid[of "vabs s" a c] i p by (simp add: vrl_inv_def)
qed

section \<open>A new relation\<close>

lemma RL_NewRelation_v_inv:
  assumes "RL_NewRelation_v m = Inr s"
  shows "vrl_inv s (0, Lf 1 True True [])" "vavail s = m - 2" "2 \<le> m"
  using assms
  by (auto simp: RL_NewRelation_v_def createNewNode_v_def surely_malloc_v_def vset_node_def vrl_inv_def rl_inv_def
      rel_inv_def node_is_def Let_def vn_abs_def split: if_splits)

lemma RL_NewRelation_v_cases: "RL_NewRelation_v m = Inl ExitFailure \<or> (\<exists>s. RL_NewRelation_v m = Inr s)"
  by (simp add: RL_NewRelation_v_def createNewNode_v_def surely_malloc_v_def vset_node_def Let_def)

text \<open>A new cursor stands on the first record.\<close>

lemma RL_NewCursor_v_pos:
  assumes "vrl_inv s a" and "arrays_ok c0" and "vavail s \<noteq> 0"
  shows "\<exists>c s'. RL_NewCursor_v c0 s = Inr (c, s') \<and> vrl_inv s' a \<and> rl_pos a c 0 \<and> vavail s' = vavail s - 1 \<and>
    vnumRecords s' = vnumRecords s"
proof -
  let ?s = "s\<lparr>vfresh := Suc (vfresh s), vavail := vavail s - 1\<rparr>"
  have i: "rel_inv (vabs s) (fst a) (snd a)" using assms(1) by (simp add: vrl_inv_def rl_inv_def)
  then have i': "rel_inv (vabs ?s) (fst a) (snd a)" by (auto simp: rel_inv_def intro: less_SucI)
  obtain c where "moveToFirst (vabs ?s) (vroot ?s) (c0\<lparr>level := - 1\<rparr>) 0 = Inr c" "cur_pos (fst a) (snd a) c 0"
    using RL_MoveToFirst_pos[OF i' assms(2)] by (auto simp: RL_MoveToFirst_def rbind_eq_Inr)
  then show ?thesis
    using assms(3) i' by (intro exI[of _ c] exI[of _ ?s])
      (simp add: RL_NewCursor_v_def surely_malloc_v_def moveToFirst_v_eq vrl_inv_def rl_inv_def rl_pos_def)
qed

lemma verified_example:
  obtains s c p where "vrl_inv s (0, Lf 1 True True [])" "rl_pos (0, Lf 1 True True []) c p" "vrl_room (Suc 0) s"
proof -
  have "arrays_ok \<lparr>level = 0, ancestorsIdx = replicate 20 0, ancestors = replicate 20 0\<rparr>"
    by (simp add: arrays_ok_def)
  then obtain c0 where c0: "arrays_ok c0" by blast
  obtain s0 where s0: "RL_NewRelation_v 100 = Inr s0"
    by (simp add: RL_NewRelation_v_def createNewNode_v_def surely_malloc_v_def vset_node_def Let_def)
  note n = RL_NewRelation_v_inv[OF s0]
  have "vavail s0 \<noteq> 0" using n(2) by simp
  from RL_NewCursor_v_pos[OF n(1) c0 this] obtain c s where s: "vrl_inv s (0, Lf 1 True True [])"
    "rl_pos (0, Lf 1 True True []) c 0" "vavail s = vavail s0 - 1" by blast
  have "vnumRecords s = 0" using s(1) by (simp add: vrl_inv_def rl_inv_def rel_inv_def)
  then have "vrl_room (Suc 0) s" using s(3) n(2) by (simp add: vrl_room_def rl_room_def record_limit_def)
  with s show thesis by (intro that)
qed

end
