(* ===== verification/Bst_Conc.thy ===== *)
theory Bst_Conc
  imports Prelude
begin

text \<open>
  The concurrent binary search tree \<open>concurrency/bst_conc.c\<close> with the locks of \<open>threads.c\<close>. The heap
  has tree nodes, boxes (\<open>tree_t\<close>: a node pointer and a lock) and locks; a lock is free or held by a
  thread. An operation is a state machine whose program counter \<open>pc\<close> holds its local variables, and
  whose steps end where the code acquires or releases a lock: what it does in between touches
  only memory behind the locks it holds, which the theory \<open>Bst_Inv\<close> shows. The steps of the
  threads interleave in any order.
\<close>

section \<open>Memory and locks\<close>

type_synonym tid = nat

record tree =
  t_key :: int
  t_value :: addr
  t_left :: addr
  t_right :: addr

record tree_t =
  tg_t :: addr
  tg_lock :: addr

text \<open>
  A lock is \<open>None\<close> when no thread holds it. \<open>tbs\<close> are the treeboxes, pointers to the root box.
\<close>

record cheap =
  trees :: "addr \<rightharpoonup> tree"
  tgs :: "addr \<rightharpoonup> tree_t"
  lks :: "addr \<rightharpoonup> tid option"
  tbs :: "addr \<rightharpoonup> addr"
  cfresh :: addr
  cmem :: nat

definition tree_at :: "cheap \<Rightarrow> addr \<Rightarrow> tree result" where
  "tree_at h a = (if a = NULL then Inl NullDeref else case trees h a of None \<Rightarrow> Inl WildPtr | Some n \<Rightarrow> Inr n)"

definition tg_at :: "cheap \<Rightarrow> addr \<Rightarrow> tree_t result" where
  "tg_at h a = (if a = NULL then Inl NullDeref else case tgs h a of None \<Rightarrow> Inl WildPtr | Some g \<Rightarrow> Inr g)"

definition set_tree :: "cheap \<Rightarrow> addr \<Rightarrow> tree \<Rightarrow> cheap" where
  "set_tree h a n = h\<lparr>trees := (trees h)(a \<mapsto> n)\<rparr>"

definition set_tg :: "cheap \<Rightarrow> addr \<Rightarrow> tree_t \<Rightarrow> cheap" where
  "set_tg h a g = h\<lparr>tgs := (tgs h)(a \<mapsto> g)\<rparr>"

definition surely_malloc_c :: "cheap \<Rightarrow> (addr \<times> cheap) result" where
  "surely_malloc_c h =
     (if cmem h = 0 then Inl ExitFailure
      else Inr (cfresh h, h\<lparr>cfresh := Suc (cfresh h), cmem := cmem h - 1\<rparr>))"

text \<open>
  A new lock is held by the thread that makes it. Locking waits (\<open>None\<close>) while any thread holds
  the lock. Unlocking a lock that the thread does not hold, and using one that was destroyed, is
  an error.
\<close>

definition makelock :: "cheap \<Rightarrow> tid \<Rightarrow> addr \<Rightarrow> cheap" where
  "makelock h i l = h\<lparr>lks := (lks h)(l \<mapsto> Some i)\<rparr>"

definition acquire :: "cheap \<Rightarrow> tid \<Rightarrow> addr \<Rightarrow> cheap option result" where
  "acquire h i l =
     (case lks h l of
        None \<Rightarrow> Inl WildPtr
      | Some (Some j) \<Rightarrow> Inr None
      | Some None \<Rightarrow> Inr (Some (h\<lparr>lks := (lks h)(l \<mapsto> Some i)\<rparr>)))"

definition release2 :: "cheap \<Rightarrow> tid \<Rightarrow> addr \<Rightarrow> cheap result" where
  "release2 h i l = (if lks h l = Some (Some i) then Inr (h\<lparr>lks := (lks h)(l \<mapsto> None)\<rparr>) else Inl WildPtr)"

text \<open>
  \<open>freelock2\<close> destroys a lock. Its caller must hold it: a lock that is free, held by another thread
  or destroyed already is an error, for another thread may be using what is behind it.
\<close>

definition freelock2 :: "cheap \<Rightarrow> tid \<Rightarrow> addr \<Rightarrow> cheap result" where
  "freelock2 h i l = (if lks h l = Some (Some i) then Inr (h\<lparr>lks := (lks h)(l := None)\<rparr>) else Inl WildPtr)"

text \<open>Freeing what is freed already is an error.\<close>

definition free_tg :: "cheap \<Rightarrow> addr \<Rightarrow> cheap result" where
  "free_tg h a = (if tgs h a = None then Inl WildPtr else Inr (h\<lparr>tgs := (tgs h)(a := None)\<rparr>))"

definition free_tree :: "cheap \<Rightarrow> addr \<Rightarrow> cheap result" where
  "free_tree h a = (if trees h a = None then Inl WildPtr else Inr (h\<lparr>trees := (trees h)(a := None)\<rparr>))"

section \<open>Operations\<close>

datatype cop = Insert int addr | Lookup int | Delete int

fun op_key :: "cop \<Rightarrow> int" where
  "op_key (Insert k v) = k"
| "op_key (Lookup k) = k"
| "op_key (Delete k) = k"

text \<open>
  \<open>Body\<close> is the head of the loop, with the lock \<open>l\<close> of \<open>tgt\<close> held; \<open>lookup\<close> has read \<open>p = tgt->t\<close>
  there already. \<open>Hop\<close> is about to acquire the lock of the child \<open>tgt\<close>, \<open>Rel\<close> has it and is about
  to release the old one. The next four are the places in \<open>pushdown_left\<close> where it acquires the
  lock of the right child, of the left child, and releases. \<open>Release\<close> is the last release before
  \<open>return\<close> of the value.
\<close>

datatype pc =
    Start cop
  | Body cop addr addr "addr option"
  | Hop cop addr addr
  | Rel cop addr addr addr "addr option"
  | Push int addr
  | Pushed int addr addr addr addr addr
  | Unlink int addr addr addr addr addr addr
  | PushRel int addr addr
  | Release addr addr
  | Finish addr

type_synonym cstep = "((cheap \<times> pc) option) result"

definition wait :: "cheap option result \<Rightarrow> (cheap \<Rightarrow> (cheap \<times> pc) result) \<Rightarrow> cstep" where
  "wait a f = rbind a (\<lambda>x. case x of None \<Rightarrow> Inr None | Some h \<Rightarrow> rbind (f h) (\<lambda>r. Inr (Some r)))"

text \<open>What \<open>lookup\<close> reads right after acquiring a lock.\<close>

definition read_p :: "cheap \<Rightarrow> cop \<Rightarrow> addr \<Rightarrow> (addr option) result" where
  "read_p h op tgt = (case op of Lookup k \<Rightarrow> rbind (tg_at h tgt) (\<lambda>g. Inr (Some (tg_t g))) | _ \<Rightarrow> Inr None)"

definition hop_step :: "cheap \<Rightarrow> tid \<Rightarrow> cop \<Rightarrow> addr \<Rightarrow> addr \<Rightarrow> cstep" where
  "hop_step h i op tgt l_old =
     rbind (tg_at h tgt) (\<lambda>g. let l = tg_lock g in
       wait (acquire h i l) (\<lambda>h1. rbind (read_p h1 op tgt) (\<lambda>p. Inr (h1, Rel op tgt l_old l p))))"

definition start_step :: "cheap \<Rightarrow> tid \<Rightarrow> cop \<Rightarrow> addr \<Rightarrow> cstep" where
  "start_step h i op tgt =
     rbind (tg_at h tgt) (\<lambda>g. let l = tg_lock g in
       wait (acquire h i l) (\<lambda>h1. rbind (read_p h1 op tgt) (\<lambda>p. Inr (h1, Body op tgt l p))))"

definition insert_body :: "cheap \<Rightarrow> tid \<Rightarrow> int \<Rightarrow> addr \<Rightarrow> addr \<Rightarrow> addr \<Rightarrow> (cheap \<times> pc) result" where
  "insert_body h i x value tgt l =
     rbind (tg_at h tgt) (\<lambda>g. let p = tg_t g in
       if p = NULL then
         rbind (surely_malloc_c h) (\<lambda>(p1, h1).
         rbind (surely_malloc_c h1) (\<lambda>(p2, h2).
         rbind (surely_malloc_c h2) (\<lambda>(l1, h3).
         rbind (release2 (set_tg (makelock h3 i l1) p1 \<lparr>tg_t = NULL, tg_lock = l1\<rparr>) i l1) (\<lambda>h4.
         rbind (surely_malloc_c h4) (\<lambda>(l2, h5).
         rbind (release2 (set_tg (makelock h5 i l2) p2 \<lparr>tg_t = NULL, tg_lock = l2\<rparr>) i l2) (\<lambda>h6.
         rbind (surely_malloc_c h6) (\<lambda>(p, h7).
         let h8 = set_tg h7 tgt (g\<lparr>tg_t := p\<rparr>) in
         Inr (set_tree h8 p \<lparr>t_key = x, t_value = value, t_left = p1, t_right = p2\<rparr>, Release l NULL))))))))
       else
         rbind (tree_at h p) (\<lambda>n. let y = t_key n in
           if x < y then Inr (h, Hop (Insert x value) (t_left n) l)
           else if y < x then Inr (h, Hop (Insert x value) (t_right n) l)
           else Inr (set_tree h p (n\<lparr>t_value := value\<rparr>), Release l NULL)))"

definition lookup_body :: "cheap \<Rightarrow> int \<Rightarrow> addr \<Rightarrow> addr \<Rightarrow> (cheap \<times> pc) result" where
  "lookup_body h x l p =
     (if p \<noteq> NULL then
        rbind (tree_at h p) (\<lambda>n. let y = t_key n in
          if x < y then Inr (h, Hop (Lookup x) (t_left n) l)
          else if y < x then Inr (h, Hop (Lookup x) (t_right n) l)
          else Inr (h, Release l (t_value n)))
      else Inr (h, Release l NULL))"

definition delete_body :: "cheap \<Rightarrow> int \<Rightarrow> addr \<Rightarrow> addr \<Rightarrow> (cheap \<times> pc) result" where
  "delete_body h x tgt l =
     rbind (tg_at h tgt) (\<lambda>g. let p = tg_t g in
       if p = NULL then Inr (h, Release l NULL)
       else
         rbind (tree_at h p) (\<lambda>n. let y = t_key n in
           if x < y then Inr (h, Hop (Delete x) (t_left n) l)
           else if y < x then Inr (h, Hop (Delete x) (t_right n) l)
           else Inr (h, Push x tgt)))"

definition turn_left :: "cheap \<Rightarrow> addr \<Rightarrow> addr \<Rightarrow> cheap result" where
  "turn_left h tgl tgr =
     rbind (tg_at h tgr) (\<lambda>gr. let r = tg_t gr in
     rbind (tree_at h r) (\<lambda>nr. let mid = t_left nr in
     rbind (tg_at h tgl) (\<lambda>gl. let l = tg_t gl in
     rbind (tree_at h l) (\<lambda>nl.
     let h1 = set_tree h l (nl\<lparr>t_right := mid\<rparr>) in
     rbind (tree_at h1 r) (\<lambda>nr1.
     let h2 = set_tree h1 r (nr1\<lparr>t_left := tgr\<rparr>);
         h3 = set_tg h2 tgl (gl\<lparr>tg_t := r\<rparr>) in
     rbind (tg_at h3 tgr) (\<lambda>gr3. Inr (set_tg h3 tgr (gr3\<lparr>tg_t := l\<rparr>))))))))"

text \<open>\<open>pushdown_left\<close>, from the head of its loop to its first \<open>acquire\<close>.\<close>

definition push_head :: "cheap \<Rightarrow> tid \<Rightarrow> int \<Rightarrow> addr \<Rightarrow> cstep" where
  "push_head h i x tgp =
     rbind (tg_at h tgp) (\<lambda>g. let lp = tg_lock g; p = tg_t g in
     rbind (tree_at h p) (\<lambda>n. let tgq = t_right n in
     rbind (tg_at h tgq) (\<lambda>gq. let lq = tg_lock gq in
       wait (acquire h i lq) (\<lambda>h1. Inr (h1, Pushed x tgp lp p tgq lq)))))"

definition push_body :: "cheap \<Rightarrow> tid \<Rightarrow> int \<Rightarrow> addr \<Rightarrow> addr \<Rightarrow> addr \<Rightarrow> addr \<Rightarrow> addr \<Rightarrow> cstep" where
  "push_body h i x tgp lp p tgq lq =
     rbind (tg_at h tgq) (\<lambda>gq. let q = tg_t gq in
       if q = NULL then
         rbind (tree_at h p) (\<lambda>n. let tgl = t_left n in
         rbind (tg_at h tgl) (\<lambda>gl.
           wait (acquire h i (tg_lock gl)) (\<lambda>h1. Inr (h1, Unlink x tgp lp p tgq lq tgl))))
       else
         rbind (turn_left h tgp tgq) (\<lambda>h1.
         rbind (tree_at h1 q) (\<lambda>n. Inr (Some (h1, PushRel x lp (t_left n))))))"

text \<open>The end of \<open>pushdown_left\<close>. It frees two locks, which thread \<open>i\<close> must hold.\<close>

definition push_unlink :: "cheap \<Rightarrow> tid \<Rightarrow> addr \<Rightarrow> addr \<Rightarrow> addr \<Rightarrow> addr \<Rightarrow> addr \<Rightarrow> addr \<Rightarrow> (cheap \<times> pc) result" where
  "push_unlink h i tgp lp p tgq lq tgl =
     rbind (tg_at h tgl) (\<lambda>gl.
     rbind (tg_at h tgp) (\<lambda>gp.
     rbind (free_tree (set_tg h tgp (gp\<lparr>tg_t := tg_t gl\<rparr>)) p) (\<lambda>h1.
     rbind (freelock2 h1 i lq) (\<lambda>h2.
     rbind (free_tg h2 tgq) (\<lambda>h3.
     rbind (tg_at h3 tgl) (\<lambda>gl3.
     rbind (freelock2 h3 i (tg_lock gl3)) (\<lambda>h4.
     rbind (free_tg h4 tgl) (\<lambda>h5. Inr (h5, Release lp NULL)))))))))"

definition now :: "(cheap \<times> pc) result \<Rightarrow> cstep" where
  "now r = rbind r (\<lambda>x. Inr (Some x))"

text \<open>
  A step of thread \<open>i\<close>. An operation reads \<open>root\<close>, what the treebox points to, when it starts;
  only \<open>treebox_new\<close> writes it.
\<close>

fun thread_step :: "tid \<Rightarrow> addr \<Rightarrow> cheap \<Rightarrow> pc \<Rightarrow> cstep" where
  "thread_step i root h (Start op) = start_step h i op root"
| "thread_step i root h (Body op tgt l p) =
     (case op of
        Insert x value \<Rightarrow> now (insert_body h i x value tgt l)
      | Lookup x \<Rightarrow> (case p of None \<Rightarrow> Inl Uninit | Some p \<Rightarrow> now (lookup_body h x l p))
      | Delete x \<Rightarrow> now (delete_body h x tgt l))"
| "thread_step i root h (Hop op tgt l_old) = hop_step h i op tgt l_old"
| "thread_step i root h (Rel op tgt l_old l p) = now (rbind (release2 h i l_old) (\<lambda>h1. Inr (h1, Body op tgt l p)))"
| "thread_step i root h (Push x tgp) = push_head h i x tgp"
| "thread_step i root h (Pushed x tgp lp p tgq lq) = push_body h i x tgp lp p tgq lq"
| "thread_step i root h (Unlink x tgp lp p tgq lq tgl) = now (push_unlink h i tgp lp p tgq lq tgl)"
| "thread_step i root h (PushRel x lp tgp) = now (rbind (release2 h i lp) (\<lambda>h1. Inr (h1, Push x tgp)))"
| "thread_step i root h (Release l r) = now (rbind (release2 h i l) (\<lambda>h1. Inr (h1, Finish r)))"
| "thread_step i root h (Finish r) = Inr None"

section \<open>Making and freeing a tree\<close>

definition treebox_new :: "cheap \<Rightarrow> tid \<Rightarrow> (addr \<times> cheap) result" where
  "treebox_new h i =
     rbind (surely_malloc_c h) (\<lambda>(p, h1).
     rbind (surely_malloc_c h1) (\<lambda>(newt, h2).
     rbind (surely_malloc_c h2) (\<lambda>(l, h3).
     let h4 = h3\<lparr>tbs := (tbs h3)(p \<mapsto> newt)\<rparr> in
     rbind (release2 (set_tg (makelock h4 i l) newt \<lparr>tg_t = NULL, tg_lock = l\<rparr>) i l) (\<lambda>h5. Inr (p, h5)))))"

text \<open>
  \<open>tree_free\<close> runs alone. An \<open>acquire\<close> that would wait forever does not return. The recursion
  follows the heap, on fuel.
\<close>

fun tree_free :: "nat \<Rightarrow> cheap \<Rightarrow> tid \<Rightarrow> addr \<Rightarrow> cheap result" where
  "tree_free 0 h i tgp = Inl NoReturn"
| "tree_free (Suc fuel) h i tgp =
     rbind (tg_at h tgp) (\<lambda>g0. let l = tg_lock g0 in
     rbind (acquire h i l) (\<lambda>a.
       case a of
         None \<Rightarrow> Inl NoReturn
       | Some h1 \<Rightarrow>
           rbind (tg_at h1 tgp) (\<lambda>g. let p = tg_t g in
           rbind (if p \<noteq> NULL then
                    rbind (tree_at h1 p) (\<lambda>n.
                    rbind (free_tree h1 p) (\<lambda>h2.
                    rbind (tree_free fuel h2 i (t_left n)) (\<lambda>h3.
                    tree_free fuel h3 i (t_right n))))
                  else Inr h1) (\<lambda>h4.
           rbind (freelock2 h4 i l) (\<lambda>h5. free_tg h5 tgp)))))"

definition treebox_free :: "nat \<Rightarrow> cheap \<Rightarrow> tid \<Rightarrow> addr \<Rightarrow> cheap result" where
  "treebox_free fuel h i b =
     (if b = NULL then Inl NullDeref else case tbs h b of None \<Rightarrow> Inl WildPtr
      | Some t \<Rightarrow> rbind (tree_free fuel h i t) (\<lambda>h1. Inr (h1\<lparr>tbs := (tbs h1)(b := None)\<rparr>)))"

section \<open>Interleaving\<close>

text \<open>
  A system is a heap and the program counters of the threads. A thread starts an operation when
  it has none or its last one is finished.
\<close>

type_synonym csys = "cheap \<times> (tid \<rightharpoonup> pc)"

definition idle :: "pc option \<Rightarrow> bool" where
  "idle p \<longleftrightarrow> (case p of None \<Rightarrow> True | Some (Finish r) \<Rightarrow> True | _ \<Rightarrow> False)"

text \<open>
  The label of a step is the operation that it completes, with its result, when it is the step
  at which the operation takes effect: the one that reaches \<open>Release\<close>.
\<close>

fun pc_op :: "pc \<Rightarrow> cop option" where
  "pc_op (Body op tgt l p) = Some op"
| "pc_op (Unlink x tgp lp p tgq lq tgl) = Some (Delete x)"
| "pc_op _ = None"

definition commit :: "pc \<Rightarrow> pc \<Rightarrow> (cop \<times> addr) option" where
  "commit pc pc' = (case pc' of Release l r \<Rightarrow> (case pc_op pc of None \<Rightarrow> None | Some op \<Rightarrow> Some (op, r)) | _ \<Rightarrow> None)"

inductive csys_step :: "addr \<Rightarrow> csys \<Rightarrow> (cop \<times> addr) option \<Rightarrow> csys \<Rightarrow> bool" where
  cs_start: "idle (P i) \<Longrightarrow> csys_step root (h, P) None (h, P(i \<mapsto> Start op))"
| cs_step: "P i = Some pc \<Longrightarrow> thread_step i root h pc = Inr (Some (h', pc')) \<Longrightarrow>
    csys_step root (h, P) (commit pc pc') (h', P(i \<mapsto> pc'))"

inductive csys_run :: "addr \<Rightarrow> csys \<Rightarrow> (cop \<times> addr) list \<Rightarrow> csys \<Rightarrow> bool" where
  cr_refl: "csys_run root s [] s"
| cr_step: "csys_run root s evs s' \<Longrightarrow> csys_step root s' e s'' \<Longrightarrow>
    csys_run root s (evs @ (case e of None \<Rightarrow> [] | Some x \<Rightarrow> [x])) s''"

section \<open>The sequential map\<close>

fun cspec :: "cop \<Rightarrow> (int \<rightharpoonup> addr) \<Rightarrow> addr \<times> (int \<rightharpoonup> addr)" where
  "cspec (Insert k v) m = (NULL, m(k \<mapsto> v))"
| "cspec (Lookup k) m = (case m k of None \<Rightarrow> NULL | Some v \<Rightarrow> v, m)"
| "cspec (Delete k) m = (NULL, m(k := None))"

fun seq_ok :: "(cop \<times> addr) list \<Rightarrow> (int \<rightharpoonup> addr) \<Rightarrow> (int \<rightharpoonup> addr) option" where
  "seq_ok [] m = Some m"
| "seq_ok ((op, r) # evs) m = (if fst (cspec op m) = r then seq_ok evs (snd (cspec op m)) else None)"

end
