(* ===== verification/Bst_Tree.thy ===== *)
theory Bst_Tree
  imports Bst_Conc
begin

text \<open>
  The trees that the heap of \<open>bst_conc.c\<close> represents. A tree carries the addresses of its boxes,
  locks and nodes; \<open>cpath t k\<close> are the boxes that a search for \<open>k\<close> visits. Every change of the heap
  replaces the subtree at a box.
\<close>

section \<open>Trees\<close>

datatype ct =
    CL (cbox: addr) (clock: addr)
  | CN (cbox: addr) (clock: addr) addr int addr ct ct

datatype caddr = ABox addr | ALock addr | ANode addr

fun cown :: "ct \<Rightarrow> caddr list" where
  "cown (CL b l) = [ABox b, ALock l]"
| "cown (CN b l n k v L R) = ABox b # ALock l # ANode n # cown L @ cown R"

fun ckeys :: "ct \<Rightarrow> int set" where
  "ckeys (CL b l) = {}"
| "ckeys (CN b l n k v L R) = insert k (ckeys L \<union> ckeys R)"

fun cbst :: "ct \<Rightarrow> bool" where
  "cbst (CL b l) \<longleftrightarrow> True"
| "cbst (CN b l n k v L R) \<longleftrightarrow> cbst L \<and> cbst R \<and> (\<forall>x \<in> ckeys L. x < k) \<and> (\<forall>x \<in> ckeys R. k < x)"

fun cmap :: "ct \<Rightarrow> int \<rightharpoonup> addr" where
  "cmap (CL b l) x = None"
| "cmap (CN b l n k v L R) x = (if x < k then cmap L x else if k < x then cmap R x else Some v)"

fun cpath :: "ct \<Rightarrow> int \<Rightarrow> addr list" where
  "cpath (CL b l) x = [b]"
| "cpath (CN b l n k v L R) x = b # (if x < k then cpath L x else if k < x then cpath R x else [])"

fun crep :: "cheap \<Rightarrow> ct \<Rightarrow> bool" where
  "crep h (CL b l) \<longleftrightarrow> b \<noteq> 0 \<and> tgs h b = Some \<lparr>tg_t = 0, tg_lock = l\<rparr>"
| "crep h (CN b l n k v L R) \<longleftrightarrow> b \<noteq> 0 \<and> n \<noteq> 0 \<and> tgs h b = Some \<lparr>tg_t = n, tg_lock = l\<rparr> \<and>
     trees h n = Some \<lparr>t_key = k, t_value = v, t_left = cbox L, t_right = cbox R\<rparr> \<and> crep h L \<and> crep h R"

fun csub :: "ct \<Rightarrow> addr \<Rightarrow> ct option" where
  "csub (CL b l) x = (if x = b then Some (CL b l) else None)"
| "csub (CN b l n k v L R) x = (if x = b then Some (CN b l n k v L R)
     else case csub L x of Some s \<Rightarrow> Some s | None \<Rightarrow> csub R x)"

fun crepl :: "ct \<Rightarrow> addr \<Rightarrow> ct \<Rightarrow> ct" where
  "crepl (CL b l) x s = (if x = b then s else CL b l)"
| "crepl (CN b l n k v L R) x s = (if x = b then s else CN b l n k v (crepl L x s) (crepl R x s))"

lemma cown_box [simp]: "ABox (cbox t) \<in> set (cown t)" "ALock (clock t) \<in> set (cown t)"
  by (cases t; simp)+

lemma cpath_own: "b \<in> set (cpath t k) \<Longrightarrow> ABox b \<in> set (cown t)"
  by (induction t) (auto split: if_splits)

lemma cpath_root [simp]: "cbox t \<in> set (cpath t k)"
  by (cases t) simp_all

lemma csub_own: "ABox b \<in> set (cown t) \<longleftrightarrow> csub t b \<noteq> None"
  by (induction t) (auto split: option.splits)

lemma csub_box: "csub t b = Some s \<Longrightarrow> cbox s = b"
  by (induction t) (auto split: if_splits option.splits)

lemma csub_rep: "crep h t \<Longrightarrow> csub t b = Some s \<Longrightarrow> crep h s"
  by (induction t) (auto split: if_splits option.splits)

lemma csub_cown: "csub t b = Some s \<Longrightarrow> set (cown s) \<subseteq> set (cown t)"
  by (induction t) (auto split: if_splits option.splits)

lemma csub_distinct: "csub t b = Some s \<Longrightarrow> distinct (cown t) \<Longrightarrow> distinct (cown s)"
  by (induction t) (auto split: if_splits option.splits)

lemma csub_bst: "csub t b = Some s \<Longrightarrow> cbst t \<Longrightarrow> cbst s"
  by (induction t) (auto split: if_splits option.splits)

lemma csub_keys: "csub t b = Some s \<Longrightarrow> ckeys s \<subseteq> ckeys t"
  by (induction t) (auto split: if_splits option.splits)

lemma crepl_none: "csub t b = None \<Longrightarrow> crepl t b s = t"
  by (induction t) (auto split: if_splits option.splits)

lemma crepl_box: "cbox s = b \<Longrightarrow> cbox (crepl t b s) = cbox t"
  by (cases t) auto

lemma crep_own:
  assumes "crep h t"
  shows "ABox b \<in> set (cown t) \<Longrightarrow> b \<noteq> 0 \<and> b \<in> dom (tgs h)" "ANode n \<in> set (cown t) \<Longrightarrow> n \<noteq> 0 \<and> n \<in> dom (trees h)"
  using assms by (induction t) auto

text \<open>In a tree without sharing, a box is in one subtree.\<close>

lemma csub_cases:
  assumes "csub (CN b l n k v L R) x = Some s" and "distinct (cown (CN b l n k v L R))" and "x \<noteq> b"
  obtains (left) "csub L x = Some s" "csub R x = None" | (right) "csub L x = None" "csub R x = Some s"
proof (cases "csub L x")
  case None
  then show thesis using right assms by simp
next
  case (Some y)
  then have "ABox x \<in> set (cown L)" by (simp add: csub_own)
  then have "ABox x \<notin> set (cown R)" using assms(2) by auto
  then show thesis using left Some assms by (simp add: csub_own)
qed

lemma cpath_sub: "b \<in> set (cpath t k) \<Longrightarrow> distinct (cown t) \<Longrightarrow> csub t b = Some s \<Longrightarrow> cmap t k = cmap s k"
proof (induction t)
  case (CN b' l n k' v L R)
  show ?case
  proof (cases "b = b'")
    case False
    from CN.prems(3,2) False show ?thesis
    proof (cases rule: csub_cases)
      case left
      then have "b \<notin> set (cpath R k)" using cpath_own csub_own by blast
      then show ?thesis using left CN False by (auto split: if_splits)
    next
      case right
      then have "b \<notin> set (cpath L k)" using cpath_own csub_own by blast
      then show ?thesis using right CN False by (auto split: if_splits)
    qed
  qed (use CN.prems in auto)
qed auto

lemma cmap_keys: "cmap t k \<noteq> None \<Longrightarrow> k \<in> ckeys t"
  by (induction t) (auto split: if_splits)

section \<open>Replacing a subtree\<close>

lemma cpath_crepl:
  assumes "csub t b = Some s" and "x \<in> set (cpath t k)" and "distinct (cown t)"
    and "x \<in> set (cpath s k) \<Longrightarrow> x \<in> set (cpath s' k)"
  shows "x \<in> set (cpath (crepl t b s') k)"
  using assms
proof (induction t)
  case (CN b' l n k' v L R)
  show ?case
  proof (cases "b = b'")
    case False
    from CN.prems(1,3) False show ?thesis
    proof (cases rule: csub_cases)
      case left
      then show ?thesis using CN False by (auto simp: crepl_none split: if_splits)
    next
      case right
      then show ?thesis using CN False by (auto simp: crepl_none split: if_splits)
    qed
  qed (use CN.prems in auto)
qed (auto split: if_splits)

lemma cmap_crepl:
  assumes "csub t b = Some s" and "distinct (cown t)"
  shows "cmap (crepl t b s') k = (if b \<in> set (cpath t k) then cmap s' k else cmap t k)"
  using assms
proof (induction t)
  case (CN b' l n k' v L R)
  show ?case
  proof (cases "b = b'")
    case False
    from CN.prems(1,2) False show ?thesis
    proof (cases rule: csub_cases)
      case left
      then have "b \<notin> set (cpath R k)" using cpath_own csub_own by blast
      then show ?thesis using left CN False by (simp add: crepl_none)
    next
      case right
      then have "b \<notin> set (cpath L k)" using cpath_own csub_own by blast
      then show ?thesis using right CN False by (simp add: crepl_none)
    qed
  qed simp
qed simp

lemma cmap_crepl_same:
  assumes "csub t b = Some s" and "distinct (cown t)" and "\<And>k. cmap s' k = cmap s k"
  shows "cmap (crepl t b s') = cmap t"
  using cmap_crepl[OF assms(1,2)] cpath_sub[OF _ assms(2,1)] assms(3) by (auto simp: fun_eq_iff)

lemma cmap_crepl_upd:
  assumes "csub t b = Some s" and "distinct (cown t)" and "b \<in> set (cpath t x)"
    and "\<And>k. cmap s' k = ((cmap s)(x := z)) k"
  shows "cmap (crepl t b s') = (cmap t)(x := z)"
  using cmap_crepl[OF assms(1,2)] cpath_sub[OF _ assms(2,1)] assms(3,4) by (auto simp: fun_eq_iff)

lemma cown_crepl:
  assumes "csub t b = Some s" and "distinct (cown t)"
  shows "set (cown (crepl t b s')) = (set (cown t) - set (cown s)) \<union> set (cown s')"
  using assms
proof (induction t)
  case (CN b' l n k v L R)
  show ?case
  proof (cases "b = b'")
    case False
    from CN.prems(1,2) False show ?thesis
    proof (cases rule: csub_cases)
      case left
      note own = csub_cown[OF left(1)]
      have "set (cown (crepl L b s')) = (set (cown L) - set (cown s)) \<union> set (cown s')"
        using CN.IH(1)[OF left(1)] CN.prems(2) by simp
      then show ?thesis using left False own CN.prems(2) by (auto simp: crepl_none)
    next
      case right
      note own = csub_cown[OF right(2)]
      have "set (cown (crepl R b s')) = (set (cown R) - set (cown s)) \<union> set (cown s')"
        using CN.IH(2)[OF right(2)] CN.prems(2) by simp
      then show ?thesis using right False own CN.prems(2) by (auto simp: crepl_none)
    qed
  qed (use CN.prems in auto)
qed (auto split: if_splits)

lemma distinct_crepl:
  assumes "csub t b = Some s" and "distinct (cown t)" and "distinct (cown s')"
    and "set (cown s') \<inter> (set (cown t) - set (cown s)) = {}"
  shows "distinct (cown (crepl t b s'))"
  using assms
proof (induction t)
  case (CN b' l n k v L R)
  show ?case
  proof (cases "b = b'")
    case False
    from CN.prems(1,2) False show ?thesis
    proof (cases rule: csub_cases)
      case left
      note own = csub_cown[OF left(1)]
      have dL: "distinct (cown L)" using CN.prems(2) by simp
      have "distinct (cown (crepl L b s'))"
        using CN.IH(1)[OF left(1) dL CN.prems(3)] CN.prems(4) by auto
      then show ?thesis
        using left False own CN.prems(2,4) cown_crepl[OF left(1) dL, of s'] by (auto simp: crepl_none)
    next
      case right
      note own = csub_cown[OF right(2)]
      have dR: "distinct (cown R)" using CN.prems(2) by simp
      have "distinct (cown (crepl R b s'))"
        using CN.IH(2)[OF right(2) dR CN.prems(3)] CN.prems(4) by auto
      then show ?thesis
        using right False own CN.prems(2,4) cown_crepl[OF right(2) dR, of s'] by (auto simp: crepl_none)
    qed
  qed (use CN.prems in auto)
qed (auto split: if_splits)

lemma ckeys_crepl: "csub t b = Some s \<Longrightarrow> distinct (cown t) \<Longrightarrow> ckeys (crepl t b s') \<subseteq> ckeys t \<union> ckeys s'"
proof (induction t)
  case (CN b' l n k v L R)
  show ?case
  proof (cases "b = b'")
    case False
    from CN.prems(1,2) False show ?thesis
      by (cases rule: csub_cases) (use CN False in \<open>auto simp: crepl_none\<close>)
  qed auto
qed auto

text \<open>The order is kept when the new keys are old ones or lie on the path to the subtree.\<close>

lemma cbst_crepl:
  assumes "csub t b = Some s" and "distinct (cown t)" and "cbst t" and "cbst s'"
    and "\<And>x. x \<in> ckeys s' \<Longrightarrow> x \<in> ckeys s \<or> b \<in> set (cpath t x)"
  shows "cbst (crepl t b s')"
proof -
  have "cbst (crepl t b s') \<and> (\<forall>x \<in> ckeys (crepl t b s'). x \<in> ckeys t \<or> x \<in> ckeys s')"
    using assms
  proof (induction t)
    case (CN b' l n k v L R)
    show ?case
    proof (cases "b = b'")
      case False
      from CN.prems(1,2) False show ?thesis
      proof (cases rule: csub_cases)
        case left
        have nR: "b \<notin> set (cpath R x)" for x using left(2) cpath_own csub_own by blast
        have new: "x \<in> ckeys s \<or> b \<in> set (cpath L x)" "x < k" if x: "x \<in> ckeys s'" for x
        proof -
          have "x \<in> ckeys s \<or> b \<in> set (cpath L x) \<and> x < k"
            using CN.prems(5)[OF x] False nR[of x] by (auto split: if_splits)
          then show "x \<in> ckeys s \<or> b \<in> set (cpath L x)" "x < k"
            using csub_keys[OF left(1)] CN.prems(3) by auto
        qed
        have "cbst (crepl L b s') \<and> (\<forall>x \<in> ckeys (crepl L b s'). x \<in> ckeys L \<or> x \<in> ckeys s')"
          using CN.IH(1)[OF left(1)] CN.prems(2,3,4) new(1) by simp
        then show ?thesis using left False CN.prems(3) new(2) by (auto simp: crepl_none)
      next
        case right
        have nL: "b \<notin> set (cpath L x)" for x using right(1) cpath_own csub_own by blast
        have new: "x \<in> ckeys s \<or> b \<in> set (cpath R x)" "k < x" if x: "x \<in> ckeys s'" for x
        proof -
          have "x \<in> ckeys s \<or> b \<in> set (cpath R x) \<and> k < x"
            using CN.prems(5)[OF x] False nL[of x] by (auto split: if_splits)
          then show "x \<in> ckeys s \<or> b \<in> set (cpath R x)" "k < x"
            using csub_keys[OF right(2)] CN.prems(3) by auto
        qed
        have "cbst (crepl R b s') \<and> (\<forall>x \<in> ckeys (crepl R b s'). x \<in> ckeys R \<or> x \<in> ckeys s')"
          using CN.IH(2)[OF right(2)] CN.prems(2,3,4) new(1) by simp
        then show ?thesis using right False CN.prems(3) new(2) by (auto simp: crepl_none)
      qed
    qed (use CN.prems in auto)
  qed (auto split: if_splits)
  then show ?thesis by blast
qed

fun hsame :: "cheap \<Rightarrow> cheap \<Rightarrow> caddr \<Rightarrow> bool" where
  "hsame h h' (ABox b) \<longleftrightarrow> tgs h' b = tgs h b"
| "hsame h h' (ANode n) \<longleftrightarrow> trees h' n = trees h n"
| "hsame h h' (ALock l) \<longleftrightarrow> True"

lemma crep_same: "crep h t \<Longrightarrow> (\<And>a. a \<in> set (cown t) \<Longrightarrow> hsame h h' a) \<Longrightarrow> crep h' t"
proof (induction t)
  case (CL b l)
  then show ?case using CL.prems(2)[of "ABox b"] by simp
next
  case (CN b l n k v L R)
  then show ?case using CN.prems(2)[of "ABox b"] CN.prems(2)[of "ANode n"] by simp
qed

lemma crep_crepl:
  assumes "crep h t" and "csub t b = Some s" and "distinct (cown t)" and "crep h' s'" and "cbox s' = b"
    and "\<And>a. a \<in> set (cown t) \<Longrightarrow> a \<notin> set (cown s) \<Longrightarrow> hsame h h' a"
  shows "crep h' (crepl t b s')"
  using assms
proof (induction t)
  case (CN b' l n k v L R)
  show ?case
  proof (cases "b = b'")
    case False
    note prems = CN.prems
    from prems(2,3) False show ?thesis
    proof (cases rule: csub_cases)
      case left
      note own = csub_cown[OF left(1)]
      have nin: "ABox b' \<notin> set (cown s)" "ANode n \<notin> set (cown s)" "a \<in> set (cown R) \<Longrightarrow> a \<notin> set (cown s)" for a
        using prems(3) own by auto
      have same: "a \<in> set (cown R) \<Longrightarrow> hsame h h' a" "tgs h' b' = tgs h b'" "trees h' n = trees h n" for a
        using prems(6)[of a] prems(6)[of "ABox b'"] prems(6)[of "ANode n"] nin by simp_all
      have "crep h' R" using prems(1) same(1) crep_same[of h R h'] by simp
      moreover have "crep h' (crepl L b s')"
      proof (rule CN.IH(1)[OF _ left(1) _ prems(4,5)])
        show "crep h L" "distinct (cown L)" using prems(1,3) by simp_all
        show "hsame h h' a" if "a \<in> set (cown L)" "a \<notin> set (cown s)" for a
          using prems(6)[of a] that by simp
      qed
      ultimately show ?thesis
        using left False prems(1,5) same(2,3) by (simp add: crepl_none crepl_box)
    next
      case right
      note own = csub_cown[OF right(2)]
      have nin: "ABox b' \<notin> set (cown s)" "ANode n \<notin> set (cown s)" "a \<in> set (cown L) \<Longrightarrow> a \<notin> set (cown s)" for a
        using prems(3) own by auto
      have same: "a \<in> set (cown L) \<Longrightarrow> hsame h h' a" "tgs h' b' = tgs h b'" "trees h' n = trees h n" for a
        using prems(6)[of a] prems(6)[of "ABox b'"] prems(6)[of "ANode n"] nin by simp_all
      have "crep h' L" using prems(1) same(1) crep_same[of h L h'] by simp
      moreover have "crep h' (crepl R b s')"
      proof (rule CN.IH(2)[OF _ right(2) _ prems(4,5)])
        show "crep h R" "distinct (cown R)" using prems(1,3) by simp_all
        show "hsame h h' a" if "a \<in> set (cown R)" "a \<notin> set (cown s)" for a
          using prems(6)[of a] that by simp
      qed
      ultimately show ?thesis
        using right False prems(1,5) same(2,3) by (simp add: crepl_none crepl_box)
    qed
  qed (use CN.prems in auto)
qed (auto split: if_splits)

end
