(* ===== verification/Bst_Inv.thy ===== *)
theory Bst_Inv
  imports Bst_Tree
begin

text \<open>
  The invariant of the concurrent tree: the heap represents a search tree, and every thread
  stands on the search path of its key, with the locks it needs. Each step keeps it, never
  touches memory that was freed, and either leaves the map alone or is the one step at which its
  operation takes effect.
\<close>

section \<open>The invariant\<close>

definition ginv :: "ct \<Rightarrow> cheap \<Rightarrow> bool" where
  "ginv t h \<longleftrightarrow> crep h t \<and> distinct (cown t) \<and> cbst t \<and> (\<forall>l. ALock l \<in> set (cown t) \<longrightarrow> lks h l \<noteq> None) \<and>
     0 < cfresh h \<and> (\<forall>a \<in> dom (tgs h) \<union> dom (trees h) \<union> dom (lks h). 0 < a \<and> a < cfresh h)"

definition holds :: "cheap \<Rightarrow> tid \<Rightarrow> addr \<Rightarrow> bool" where
  "holds h i l \<longleftrightarrow> lks h l = Some (Some i)"

text \<open>Thread \<open>i\<close> holds the lock of the box \<open>b\<close> on the path to \<open>k\<close>, which points to \<open>n\<close>.\<close>

definition owns_at :: "ct \<Rightarrow> cheap \<Rightarrow> tid \<Rightarrow> int \<Rightarrow> addr \<Rightarrow> addr \<Rightarrow> addr \<Rightarrow> bool" where
  "owns_at t h i k b l n \<longleftrightarrow> b \<in> set (cpath t k) \<and> tgs h b = Some \<lparr>tg_t = n, tg_lock = l\<rparr> \<and> holds h i l"

definition at_node :: "cheap \<Rightarrow> addr \<Rightarrow> tree \<Rightarrow> bool" where
  "at_node h n nd \<longleftrightarrow> n \<noteq> 0 \<and> trees h n = Some nd"

fun tinv :: "ct \<Rightarrow> cheap \<Rightarrow> tid \<Rightarrow> pc \<Rightarrow> bool" where
  "tinv t h i (Start op) \<longleftrightarrow> True"
| "tinv t h i (Body op b l p) \<longleftrightarrow>
     (\<exists>n. owns_at t h i (op_key op) b l n \<and> p = (case op of Lookup k \<Rightarrow> Some n | _ \<Rightarrow> None))"
| "tinv t h i (Hop op b lo) \<longleftrightarrow>
     (\<exists>ob n nd. owns_at t h i (op_key op) ob lo n \<and> at_node h n nd \<and>
        (op_key op < t_key nd \<and> b = t_left nd \<or> t_key nd < op_key op \<and> b = t_right nd))"
| "tinv t h i (Rel op b lo l p) \<longleftrightarrow>
     (\<exists>n. owns_at t h i (op_key op) b l n \<and> p = (case op of Lookup k \<Rightarrow> Some n | _ \<Rightarrow> None)) \<and> holds h i lo \<and> lo \<noteq> l"
| "tinv t h i (Push x b) \<longleftrightarrow> (\<exists>l n nd. owns_at t h i x b l n \<and> at_node h n nd \<and> t_key nd = x)"
| "tinv t h i (Pushed x b lp p q lq) \<longleftrightarrow>
     (\<exists>nd g. owns_at t h i x b lp p \<and> at_node h p nd \<and> t_key nd = x \<and> t_right nd = q \<and>
        tgs h q = Some g \<and> tg_lock g = lq \<and> holds h i lq)"
| "tinv t h i (Unlink x b lp p q lq gl) \<longleftrightarrow>
     (\<exists>nd g. owns_at t h i x b lp p \<and> at_node h p nd \<and> t_key nd = x \<and> t_right nd = q \<and> t_left nd = gl \<and>
        tgs h q = Some \<lparr>tg_t = 0, tg_lock = lq\<rparr> \<and> holds h i lq \<and> tgs h gl = Some g \<and> holds h i (tg_lock g))"
| "tinv t h i (PushRel x lp b) \<longleftrightarrow>
     (\<exists>l n nd. owns_at t h i x b l n \<and> at_node h n nd \<and> t_key nd = x \<and> holds h i lp \<and> lp \<noteq> l)"
| "tinv t h i (Release l r) \<longleftrightarrow> holds h i l"
| "tinv t h i (Finish r) \<longleftrightarrow> True"

text \<open>
  What a step of thread \<open>i\<close> guarantees the others: their locks, the boxes and nodes behind them,
  and the paths to these boxes stay.
\<close>

definition cframe :: "tid \<Rightarrow> ct \<Rightarrow> cheap \<Rightarrow> ct \<Rightarrow> cheap \<Rightarrow> bool" where
  "cframe i t h t' h' \<longleftrightarrow> (\<forall>j. j \<noteq> i \<longrightarrow> (\<forall>l. holds h j l \<longrightarrow> holds h' j l) \<and>
     (\<forall>b g. tgs h b = Some g \<longrightarrow> holds h j (tg_lock g) \<longrightarrow> tgs h' b = Some g \<and>
        (\<forall>k. b \<in> set (cpath t k) \<longrightarrow> b \<in> set (cpath t' k) \<and> trees h' (tg_t g) = trees h (tg_t g))))"

lemma owns_at_frame:
  "owns_at t h j k b l n \<Longrightarrow> cframe i t h t' h' \<Longrightarrow> j \<noteq> i \<Longrightarrow>
   owns_at t' h' j k b l n \<and> trees h' n = trees h n"
proof -
  assume o: "owns_at t h j k b l n" and f: "cframe i t h t' h'" "j \<noteq> i"
  have b: "b \<in> set (cpath t k)" "tgs h b = Some \<lparr>tg_t = n, tg_lock = l\<rparr>" "holds h j l"
    using o by (simp_all add: owns_at_def)
  have box: "tgs h b = Some g \<Longrightarrow> holds h j (tg_lock g) \<Longrightarrow> tgs h' b = Some g \<and>
    (\<forall>k. b \<in> set (cpath t k) \<longrightarrow> b \<in> set (cpath t' k) \<and> trees h' (tg_t g) = trees h (tg_t g))" for g
    using f unfolding cframe_def by blast
  have "holds h' j l" using f b(3) by (simp add: cframe_def)
  moreover have "tgs h' b = Some \<lparr>tg_t = n, tg_lock = l\<rparr>" "b \<in> set (cpath t' k)" "trees h' n = trees h n"
    using box[OF b(2)] b(1,3) by simp_all
  ultimately show ?thesis by (simp add: owns_at_def)
qed

lemma tinv_frame:
  assumes "tinv t h j pc" and "cframe i t h t' h'" and "j \<noteq> i"
  shows "tinv t' h' j pc"
proof -
  note own = owns_at_frame[OF _ assms(2,3)]
  have hold: "holds h' j l" if "holds h j l" for l using assms(2,3) that by (simp add: cframe_def)
  have box: "tgs h' b = Some g" if "tgs h b = Some g" "holds h j (tg_lock g)" for b g
    using assms(2,3) that by (simp add: cframe_def)
  have nd: "at_node h' n nd" if "owns_at t h j k b l n" "at_node h n nd" for k b l n nd
    using own[OF that(1)] that(2) by (simp add: at_node_def)
  show ?thesis
  proof (cases pc)
    case (Body op b l p)
    then obtain n where "owns_at t h j (op_key op) b l n" "p = (case op of Lookup k \<Rightarrow> Some n | _ \<Rightarrow> None)"
      using assms(1) by auto
    then have "owns_at t' h' j (op_key op) b l n \<and> p = (case op of Lookup k \<Rightarrow> Some n | _ \<Rightarrow> None)"
      using own by simp
    then show ?thesis unfolding Body by auto
  next
    case (Hop op b lo)
    then obtain ob n nd where "owns_at t h j (op_key op) ob lo n" "at_node h n nd"
      "op_key op < t_key nd \<and> b = t_left nd \<or> t_key nd < op_key op \<and> b = t_right nd" using assms(1) by auto
    then show ?thesis using own nd Hop by fastforce
  next
    case (Rel op b lo l p)
    then obtain n where "owns_at t h j (op_key op) b l n" "p = (case op of Lookup k \<Rightarrow> Some n | _ \<Rightarrow> None)"
      "holds h j lo" "lo \<noteq> l" using assms(1) by auto
    then have "owns_at t' h' j (op_key op) b l n \<and> p = (case op of Lookup k \<Rightarrow> Some n | _ \<Rightarrow> None) \<and> holds h' j lo \<and> lo \<noteq> l"
      using own hold by simp
    then show ?thesis unfolding Rel by auto
  next
    case (Push x b)
    then obtain l n nd' where "owns_at t h j x b l n" "at_node h n nd'" "t_key nd' = x" using assms(1) by auto
    then show ?thesis using own nd Push by fastforce
  next
    case (Pushed x b lp p q lq)
    then obtain nd' g where *: "owns_at t h j x b lp p" "at_node h p nd'" "t_key nd' = x" "t_right nd' = q"
      "tgs h q = Some g" "tg_lock g = lq" "holds h j lq" using assms(1) by auto
    then show ?thesis using own[OF *(1)] nd[OF *(1,2)] box[OF *(5)] hold Pushed by auto
  next
    case (Unlink x b lp p q lq gl)
    then obtain nd' g where *: "owns_at t h j x b lp p" "at_node h p nd'" "t_key nd' = x" "t_right nd' = q"
      "t_left nd' = gl" "tgs h q = Some \<lparr>tg_t = 0, tg_lock = lq\<rparr>" "holds h j lq" "tgs h gl = Some g" "holds h j (tg_lock g)"
      using assms(1) by auto
    then show ?thesis using own[OF *(1)] nd[OF *(1,2)] box[OF *(6)] box[OF *(8,9)] hold Unlink by auto
  next
    case (PushRel x lp b)
    then obtain l n nd' where "owns_at t h j x b l n" "at_node h n nd'" "t_key nd' = x" "holds h j lp" "lp \<noteq> l"
      using assms(1) by auto
    then show ?thesis using own nd hold PushRel by fastforce
  next
    case (Release l r)
    then show ?thesis using assms(1) hold by simp
  qed simp_all
qed

section \<open>Locking and unlocking\<close>

lemma ginvD:
  assumes "ginv t h"
  shows "crep h t" "distinct (cown t)" "cbst t" "ALock l \<in> set (cown t) \<Longrightarrow> lks h l \<noteq> None" "0 < cfresh h"
    "a \<in> dom (tgs h) \<union> dom (trees h) \<union> dom (lks h) \<Longrightarrow> 0 < a \<and> a < cfresh h"
  using assms by (auto simp: ginv_def)

lemma ginv_lock:
  assumes "ginv t h" and "lks h l \<noteq> None"
  shows "ginv t (h\<lparr>lks := (lks h)(l \<mapsto> v)\<rparr>)"
proof -
  have "crep (h\<lparr>lks := (lks h)(l \<mapsto> v)\<rparr>) t" using ginvD(1)[OF assms(1)] by (rule crep_same) (case_tac a; simp)
  then show ?thesis using assms unfolding ginv_def by auto
qed

lemma cframe_lock:
  assumes "lks h l = Some w" and "w = None \<or> w = Some i"
  shows "cframe i t h t (h\<lparr>lks := (lks h)(l \<mapsto> v)\<rparr>)"
  using assms by (auto simp: cframe_def holds_def)

lemma cframe_refl: "cframe i t h t h"
  by (simp add: cframe_def)

text \<open>The box at a place of the search path, and what it holds.\<close>

lemma owns_atD:
  assumes "ginv t h" and "owns_at t h i k b l n"
  obtains s where "csub t b = Some s" "crep h s" "cbox s = b" "clock s = l" "cmap t k = cmap s k"
    "n = 0 \<longleftrightarrow> s = CL b l"
proof -
  have b: "b \<in> set (cpath t k)" "tgs h b = Some \<lparr>tg_t = n, tg_lock = l\<rparr>" using assms(2) by (simp_all add: owns_at_def)
  have "ABox b \<in> set (cown t)" using cpath_own[OF b(1)] .
  then obtain s where s: "csub t b = Some s" by (auto simp: csub_own)
  note r = csub_rep[OF ginvD(1)[OF assms(1)] s] and bx = csub_box[OF s]
  have "clock s = l" "n = 0 \<longleftrightarrow> s = CL b l" using r bx b(2) by (cases s; auto)+
  then show thesis using that s r bx cpath_sub[OF b(1) ginvD(2)[OF assms(1)] s] by blast
qed

lemma owns_at_child:
  assumes "ginv t h" and "owns_at t h i k b l n" and "at_node h n nd"
  obtains v L R where "csub t b = Some (CN b l n (t_key nd) v L R)"
    "nd = \<lparr>t_key = t_key nd, t_value = v, t_left = cbox L, t_right = cbox R\<rparr>"
    "crep h L" "crep h R"
proof -
  have b: "tgs h b = Some \<lparr>tg_t = n, tg_lock = l\<rparr>" using assms(2) by (simp add: owns_at_def)
  obtain s where s: "csub t b = Some s" "crep h s" "cbox s = b" "n = 0 \<longleftrightarrow> s = CL b l"
    using owns_atD[OF assms(1,2)] by metis
  have "n \<noteq> 0" using assms(3) by (simp add: at_node_def)
  then obtain l' n' k' v L R where cn: "s = CN b l' n' k' v L R" using s(3,2,4) b by (cases s) auto
  then have "l' = l" "n' = n" "nd = \<lparr>t_key = k', t_value = v, t_left = cbox L, t_right = cbox R\<rparr>" "crep h L" "crep h R"
    using s(2) b assms(3) by (auto simp: at_node_def)
  then show thesis using that s(1) cn by auto
qed

lemma cpath_next:
  assumes "b \<in> set (cpath t x)" and "csub t b = Some (CN b l n k v L R)" and "distinct (cown t)"
  shows "x < k \<Longrightarrow> cbox L \<in> set (cpath t x)" "k < x \<Longrightarrow> cbox R \<in> set (cpath t x)"
  using assms
proof (induction t)
  case (CN b' l' n' k' v' L' R')
  {
    case 1
    show ?case
    proof (cases "b = b'")
      case False
      from 1(3,4) False show ?thesis
      proof (cases rule: csub_cases)
        case left
        then have "b \<notin> set (cpath R' x)" using cpath_own csub_own by blast
        then show ?thesis using left False 1 CN.IH(1) by (auto split: if_splits)
      next
        case right
        then have "b \<notin> set (cpath L' x)" using cpath_own csub_own by blast
        then show ?thesis using right False 1 CN.IH(3) by (auto split: if_splits)
      qed
    qed (use 1 in auto)
  next
    case 2
    show ?case
    proof (cases "b = b'")
      case False
      from 2(3,4) False show ?thesis
      proof (cases rule: csub_cases)
        case left
        then have "b \<notin> set (cpath R' x)" using cpath_own csub_own by blast
        then show ?thesis using left False 2 CN.IH(2) by (auto split: if_splits)
      next
        case right
        then have "b \<notin> set (cpath L' x)" using cpath_own csub_own by blast
        then show ?thesis using right False 2 CN.IH(4) by (auto split: if_splits)
      qed
    qed (use 2 in auto)
  }
qed (auto split: if_splits)

text \<open>What a step must show.\<close>

definition step_ok :: "ct \<Rightarrow> cheap \<Rightarrow> tid \<Rightarrow> pc \<Rightarrow> cheap \<Rightarrow> pc \<Rightarrow> bool" where
  "step_ok t h i pc h' pc' \<longleftrightarrow> (\<exists>t'. ginv t' h' \<and> cbox t' = cbox t \<and> tinv t' h' i pc' \<and> cframe i t h t' h' \<and>
     (case commit pc pc' of None \<Rightarrow> cmap t' = cmap t | Some (op, r) \<Rightarrow> cspec op (cmap t) = (r, cmap t')))"

definition result_ok :: "ct \<Rightarrow> cheap \<Rightarrow> tid \<Rightarrow> pc \<Rightarrow> cstep \<Rightarrow> bool" where
  "result_ok t h i pc r \<longleftrightarrow> (case r of Inl e \<Rightarrow> e = ExitFailure | Inr None \<Rightarrow> True | Inr (Some (h', pc')) \<Rightarrow> step_ok t h i pc h' pc')"

lemma result_ok_wait:
  assumes "lks h l \<noteq> None"
    and "lks h l = Some None \<Longrightarrow> \<exists>pc'. f (h\<lparr>lks := (lks h)(l \<mapsto> Some i)\<rparr>) = Inr (h\<lparr>lks := (lks h)(l \<mapsto> Some i)\<rparr>, pc') \<and>
      step_ok t h i pc (h\<lparr>lks := (lks h)(l \<mapsto> Some i)\<rparr>) pc'"
  shows "result_ok t h i pc (wait (acquire h i l) f)"
  using assms by (cases "lks h l") (auto simp: wait_def acquire_def result_ok_def split: option.splits)

lemma tg_at_rep: "crep h s \<Longrightarrow> \<exists>g. tg_at h (cbox s) = Inr g \<and> tgs h (cbox s) = Some g \<and> tg_lock g = clock s \<and>
    (tg_t g = 0 \<longleftrightarrow> s = CL (cbox s) (clock s))"
  by (cases s) (auto simp: tg_at_def)

lemma owns_lock: "ginv t h \<Longrightarrow> csub t b = Some s \<Longrightarrow> lks h (clock s) \<noteq> None"
  using csub_cown[of t b s] ginvD(4) by (meson cown_box(2) subsetD)

text \<open>Acquiring the lock of a box that is next on the path.\<close>

lemma acquire_owns:
  assumes "tgs h b = Some \<lparr>tg_t = n, tg_lock = l\<rparr>" and "b \<in> set (cpath t k)"
  shows "owns_at t (h\<lparr>lks := (lks h)(l \<mapsto> Some i)\<rparr>) i k b l n"
  using assms by (simp add: owns_at_def holds_def)

lemma owns_at_lock:
  "owns_at t h i k b l n \<Longrightarrow> lks h l' = Some None \<Longrightarrow> owns_at t (h\<lparr>lks := (lks h)(l' \<mapsto> w)\<rparr>) i k b l n"
  by (auto simp: owns_at_def holds_def)

lemma owns_at_other:
  "owns_at t h i k b l n \<Longrightarrow> l' \<noteq> l \<Longrightarrow> owns_at t (h\<lparr>lks := (lks h)(l' \<mapsto> w)\<rparr>) i k b l n"
  by (auto simp: owns_at_def holds_def)

lemma at_node_lks [simp]: "at_node (h\<lparr>lks := x\<rparr>) n nd = at_node h n nd"
  by (simp add: at_node_def)

lemma step_lock:
  assumes "ginv t h" and "lks h l = Some w" and "w = None \<or> w = Some i"
    and "tinv t (h\<lparr>lks := (lks h)(l \<mapsto> v)\<rparr>) i pc'" and "commit pc pc' = None"
  shows "step_ok t h i pc (h\<lparr>lks := (lks h)(l \<mapsto> v)\<rparr>) pc'"
  unfolding step_ok_def using assms ginv_lock[OF assms(1), of l v] cframe_lock[OF assms(2,3)]
  by (intro exI[of _ t]) simp

section \<open>Steps that change the tree\<close>

fun caddr_no :: "caddr \<Rightarrow> addr" where
  "caddr_no (ABox b) = b"
| "caddr_no (ALock l) = l"
| "caddr_no (ANode n) = n"

lemma cown_old:
  assumes "ginv t h" and "a \<in> set (cown t)"
  shows "caddr_no a < cfresh h"
proof (cases a)
  case (ABox b)
  then have "b \<in> dom (tgs h)" using crep_own(1)[OF ginvD(1)[OF assms(1)], of b] assms(2) by blast
  then show ?thesis using ginvD(6)[OF assms(1), of b] ABox by simp
next
  case (ALock l)
  then have "l \<in> dom (lks h)" using ginvD(4)[OF assms(1), of l] assms(2) by blast
  then show ?thesis using ginvD(6)[OF assms(1), of l] ALock by simp
next
  case (ANode n)
  then have "n \<in> dom (trees h)" using crep_own(2)[OF ginvD(1)[OF assms(1)], of n] assms(2) by blast
  then show ?thesis using ginvD(6)[OF assms(1), of n] ANode by simp
qed

lemma ginv_crepl:
  assumes inv: "ginv t h" and s: "csub t b = Some s"
    and s': "crep h' s'" "cbox s' = b" "distinct (cown s')" "cbst s'"
    and new: "\<And>a. a \<in> set (cown s') \<Longrightarrow> a \<in> set (cown s) \<or> cfresh h \<le> caddr_no a"
    and keys: "\<And>x. x \<in> ckeys s' \<Longrightarrow> x \<in> ckeys s \<or> b \<in> set (cpath t x)"
    and same: "\<And>a. a \<in> set (cown t) \<Longrightarrow> a \<notin> set (cown s) \<Longrightarrow> hsame h h' a"
    and locks: "\<And>l. ALock l \<in> set (cown s') \<Longrightarrow> lks h' l \<noteq> None"
      "\<And>l. ALock l \<in> set (cown t) \<Longrightarrow> ALock l \<notin> set (cown s) \<Longrightarrow> lks h' l \<noteq> None"
    and fresh: "0 < cfresh h'" "\<And>a. a \<in> dom (tgs h') \<union> dom (trees h') \<union> dom (lks h') \<Longrightarrow> 0 < a \<and> a < cfresh h'"
  shows "ginv (crepl t b s') h'"
proof -
  note d = ginvD(2)[OF inv]
  have disj: "set (cown s') \<inter> (set (cown t) - set (cown s)) = {}"
    using new cown_old[OF inv] by (meson Diff_iff disjoint_iff leD)
  have "crep h' (crepl t b s')" by (rule crep_crepl[OF ginvD(1)[OF inv] s d s'(1,2) same])
  moreover have "distinct (cown (crepl t b s'))" by (rule distinct_crepl[OF s d s'(3) disj])
  moreover have "cbst (crepl t b s')" by (rule cbst_crepl[OF s d ginvD(3)[OF inv] s'(4) keys])
  moreover have "lks h' l \<noteq> None" if "ALock l \<in> set (cown (crepl t b s'))" for l
    using that locks unfolding cown_crepl[OF s d] by blast
  ultimately show ?thesis unfolding ginv_def using fresh by blast
qed

lemma node_box_unique:
  assumes "crep h t" and "distinct (cown t)" and "ABox b \<in> set (cown t)" "ABox b' \<in> set (cown t)"
    and "tgs h b = Some g" "tgs h b' = Some g'" "tg_t g = tg_t g'" "tg_t g \<noteq> 0"
  shows "b = b'"
proof -
  have node: "ANode (tg_t g) \<in> set (cown t)"
    if "crep h t" "ABox b \<in> set (cown t)" "tgs h b = Some g" "tg_t g \<noteq> 0" for t b g
    using that by (induction t) auto
  show ?thesis
    using assms
  proof (induction t)
    case (CN c l n k v L R)
    have "tg_t g = n" if "b = c" using that CN.prems(1,5) by auto
    moreover have "tg_t g' = n" if "b' = c" using that CN.prems(1,6) by auto
    moreover have "ANode (tg_t g) \<in> set (cown L)" if "ABox b \<in> set (cown L)"
      using node[of L b g] that CN.prems by simp
    moreover have "ANode (tg_t g) \<in> set (cown R)" if "ABox b \<in> set (cown R)"
      using node[of R b g] that CN.prems by simp
    moreover have "ANode (tg_t g) \<in> set (cown L)" if "ABox b' \<in> set (cown L)"
      using node[of L b' g'] that CN.prems by simp
    moreover have "ANode (tg_t g) \<in> set (cown R)" if "ABox b' \<in> set (cown R)"
      using node[of R b' g'] that CN.prems by simp
    moreover have "b = b'" if "ABox b \<in> set (cown L)" "ABox b' \<in> set (cown L)"
      using CN.IH(1) CN.prems that by simp
    moreover have "b = b'" if "ABox b \<in> set (cown R)" "ABox b' \<in> set (cown R)"
      using CN.IH(2) CN.prems that by simp
    moreover have "ANode n \<notin> set (cown L)" "ANode n \<notin> set (cown R)" "set (cown L) \<inter> set (cown R) = {}"
      using CN.prems(2) by auto
    ultimately show ?case using CN.prems(3,4,7) by auto
  qed auto
qed

lemma cframeI:
  assumes inv: "ginv t h"
    and hold: "\<And>j l. j \<noteq> i \<Longrightarrow> holds h j l \<Longrightarrow> holds h' j l"
    and boxes: "\<And>b g. tgs h b = Some g \<Longrightarrow> \<not> holds h i (tg_lock g) \<Longrightarrow> lks h (tg_lock g) \<noteq> Some None \<Longrightarrow> tgs h' b = Some g"
    and paths: "\<And>b g k. b \<in> set (cpath t k) \<Longrightarrow> tgs h b = Some g \<Longrightarrow> \<not> holds h i (tg_lock g) \<Longrightarrow>
      lks h (tg_lock g) \<noteq> Some None \<Longrightarrow> b \<in> set (cpath t' k)"
    and nodes: "\<And>n. trees h' n \<noteq> trees h n \<Longrightarrow> n \<noteq> 0 \<and> (trees h n = None \<or>
      (\<exists>b g. ABox b \<in> set (cown t) \<and> tgs h b = Some g \<and> tg_t g = n \<and> holds h i (tg_lock g)))"
  shows "cframe i t h t' h'"
  unfolding cframe_def
proof (intro allI impI conjI)
  fix j l assume "j \<noteq> i" "holds h j l"
  then show "holds h' j l" by (rule hold)
next
  fix j b g assume j: "j \<noteq> i" "tgs h b = Some g" "holds h j (tg_lock g)"
  then have nh: "\<not> holds h i (tg_lock g)" "lks h (tg_lock g) \<noteq> Some None" by (simp_all add: holds_def)
  show "tgs h' b = Some g" using boxes j(2) nh by blast
  fix k assume p: "b \<in> set (cpath t k)"
  show "b \<in> set (cpath t' k)" using paths[OF p j(2) nh] .
  show "trees h' (tg_t g) = trees h (tg_t g)"
  proof (rule ccontr)
    assume c: "trees h' (tg_t g) \<noteq> trees h (tg_t g)"
    note n = nodes[OF c]
    have bt: "ABox b \<in> set (cown t)" using cpath_own[OF p] .
    have "tg_t g = 0 \<or> trees h (tg_t g) \<noteq> None"
      using ginvD(1)[OF inv] bt j(2) by (induction t) auto
    with n have "\<exists>b g'. ABox b \<in> set (cown t) \<and> tgs h b = Some g' \<and> tg_t g' = tg_t g \<and> holds h i (tg_lock g')"
      by auto
    then obtain b' g' where b': "ABox b' \<in> set (cown t)" "tgs h b' = Some g'" "tg_t g' = tg_t g" "holds h i (tg_lock g')"
      by (elim exE conjE) (rule that)
    have "b = b'" using node_box_unique[OF ginvD(1,2)[OF inv] bt b'(1) j(2) b'(2)] b'(3) n by simp
    then show False using b'(2,4) j(2) nh(1) by simp
  qed
qed

lemma cpath_crepl_in:
  assumes "csub t b = Some s" and "b \<in> set (cpath t k)" and "distinct (cown t)"
  shows "set (cpath s' k) \<subseteq> set (cpath (crepl t b s') k)"
  using assms
proof (induction t)
  case (CN b' l n k' v L R)
  show ?case
  proof (cases "b = b'")
    case False
    from CN.prems(1,3) False show ?thesis
    proof (cases rule: csub_cases)
      case left
      then have "b \<notin> set (cpath R k)" using cpath_own csub_own by blast
      then show ?thesis using left CN False by (auto simp: crepl_none split: if_splits)
    next
      case right
      then have "b \<notin> set (cpath L k)" using cpath_own csub_own by blast
      then show ?thesis using right CN False by (auto simp: crepl_none split: if_splits)
    qed
  qed (use CN.prems in auto)
qed (auto split: if_splits)

end
