(* ===== verification/Bst_Steps.thy ===== *)
theory Bst_Steps
  imports Bst_Inv
begin

text \<open>
  Every step of every operation keeps the invariant, for the thread that takes it and for all
  others, and so every execution is linearizable.
\<close>

section \<open>Steps that only lock or read\<close>

lemma read_p_eq:
  assumes "tgs h b = Some \<lparr>tg_t = n, tg_lock = l\<rparr>" and "b \<noteq> 0"
  shows "read_p (h\<lparr>lks := x\<rparr>) op b = Inr (case op of Lookup k \<Rightarrow> Some n | _ \<Rightarrow> None)"
  using assms by (cases op) (simp_all add: read_p_def tg_at_def)

lemma start_step_ok:
  assumes inv: "ginv t h" and root: "cbox t = root"
  shows "result_ok t h i (Start op) (start_step h i op root)"
proof -
  obtain g where g: "tg_at h root = Inr g" "tgs h root = Some g" "tg_lock g = clock t"
    using tg_at_rep[OF ginvD(1)[OF inv]] root by auto
  obtain n where gn: "g = \<lparr>tg_t = n, tg_lock = clock t\<rparr>" using g(3) by (cases g) simp
  have r0: "root \<noteq> 0" using crep_own(1)[OF ginvD(1)[OF inv], of root] cown_box(1)[of t] root by simp
  have l: "lks h (clock t) \<noteq> None" using ginvD(4)[OF inv] by simp
  have "result_ok t h i (Start op) (wait (acquire h i (clock t)) (\<lambda>h1.
      rbind (read_p h1 op root) (\<lambda>p. Inr (h1, Body op root (clock t) p))))"
  proof (rule result_ok_wait[OF l])
    assume free: "lks h (clock t) = Some None"
    let ?h = "h\<lparr>lks := (lks h)(clock t \<mapsto> Some i)\<rparr>"
    let ?p = "case op of Lookup k \<Rightarrow> Some n | _ \<Rightarrow> None"
    have "owns_at t ?h i (op_key op) root (clock t) n"
      using acquire_owns[of h root n "clock t" t "op_key op" i] g(2) gn cpath_root[of t] root by simp
    then have "tinv t ?h i (Body op root (clock t) ?p)" by auto
    then have "step_ok t h i (Start op) ?h (Body op root (clock t) ?p)"
      using step_lock[OF inv free] by (simp add: commit_def)
    moreover have "read_p ?h op root = Inr ?p" using read_p_eq[of h root n "clock t"] g(2) gn r0 by simp
    ultimately show "\<exists>pc'. rbind (read_p ?h op root) (\<lambda>p. Inr (?h, Body op root (clock t) p)) = Inr (?h, pc') \<and>
      step_ok t h i (Start op) ?h pc'" by simp
  qed
  then show ?thesis using g by (simp add: start_step_def Let_def)
qed

lemma hop_step_ok:
  assumes inv: "ginv t h" and ti: "tinv t h i (Hop op b lo)"
  shows "result_ok t h i (Hop op b lo) (hop_step h i op b lo)"
proof -
  obtain ob n nd where o: "owns_at t h i (op_key op) ob lo n" "at_node h n nd"
    "op_key op < t_key nd \<and> b = t_left nd \<or> t_key nd < op_key op \<and> b = t_right nd"
    using ti by auto
  obtain v L R where c: "csub t ob = Some (CN ob lo n (t_key nd) v L R)"
    "nd = \<lparr>t_key = t_key nd, t_value = v, t_left = cbox L, t_right = cbox R\<rparr>" "crep h L" "crep h R"
    by (rule owns_at_child[OF inv o(1,2)])
  have p: "ob \<in> set (cpath t (op_key op))" using o(1) by (simp add: owns_at_def)
  note nx = cpath_next[OF p c(1) ginvD(2)[OF inv]]
  define C where "C = (if op_key op < t_key nd then L else R)"
  have lr: "t_left nd = cbox L" "t_right nd = cbox R" by (subst c(2), simp)+
  have C: "crep h C" "cbox C = b" "b \<in> set (cpath t (op_key op))" "set (cown C) \<subseteq> set (cown t)"
    using c(3,4) lr o(3) nx csub_cown[OF c(1)]
    unfolding C_def by auto
  obtain g where g: "tg_at h b = Inr g" "tgs h b = Some g" "tg_lock g = clock C"
    using tg_at_rep[OF C(1)] C(2) by auto
  obtain n' where gn: "g = \<lparr>tg_t = n', tg_lock = clock C\<rparr>" using g(3) by (cases g) simp
  have b0: "b \<noteq> 0" using crep_own(1)[OF C(1), of b] cown_box(1)[of C] C(2) by simp
  have "ALock (clock C) \<in> set (cown t)" using C(4) cown_box(2) by blast
  then have l: "lks h (clock C) \<noteq> None" using ginvD(4)[OF inv] by blast
  have "result_ok t h i (Hop op b lo) (wait (acquire h i (clock C)) (\<lambda>h1.
      rbind (read_p h1 op b) (\<lambda>p. Inr (h1, Rel op b lo (clock C) p))))"
  proof (rule result_ok_wait[OF l])
    assume free: "lks h (clock C) = Some None"
    let ?h = "h\<lparr>lks := (lks h)(clock C \<mapsto> Some i)\<rparr>"
    let ?p = "case op of Lookup k \<Rightarrow> Some n' | _ \<Rightarrow> None"
    have "owns_at t ?h i (op_key op) b (clock C) n'"
      using acquire_owns[of h b n' "clock C" t "op_key op" i] g(2) gn C(3) by simp
    moreover have "lo \<noteq> clock C" "holds ?h i lo" using o(1) free by (auto simp: owns_at_def holds_def)
    ultimately have "tinv t ?h i (Rel op b lo (clock C) ?p)" by auto
    then have "step_ok t h i (Hop op b lo) ?h (Rel op b lo (clock C) ?p)"
      using step_lock[OF inv free] by (simp add: commit_def)
    moreover have "read_p ?h op b = Inr ?p" using read_p_eq[of h b n' "clock C"] g(2) gn b0 by simp
    ultimately show "\<exists>pc'. rbind (read_p ?h op b) (\<lambda>p. Inr (?h, Rel op b lo (clock C) p)) = Inr (?h, pc') \<and>
      step_ok t h i (Hop op b lo) ?h pc'" by simp
  qed
  then show ?thesis using g by (simp add: hop_step_def Let_def)
qed

text \<open>Releasing a lock that is held.\<close>

lemma release_ok:
  assumes inv: "ginv t h" and l: "holds h i l"
    and ti: "tinv t (h\<lparr>lks := (lks h)(l \<mapsto> None)\<rparr>) i pc'" and "commit pc pc' = None"
  shows "result_ok t h i pc (now (rbind (release2 h i l) (\<lambda>h1. Inr (h1, pc'))))"
proof -
  have "step_ok t h i pc (h\<lparr>lks := (lks h)(l \<mapsto> None)\<rparr>) pc'"
    using step_lock[OF inv _ _ ti assms(4), of "Some i"] l by (simp add: holds_def)
  then show ?thesis using l by (simp add: release2_def holds_def now_def result_ok_def)
qed

lemma rel_step_ok:
  assumes inv: "ginv t h" and ti: "tinv t h i (Rel op b lo l p)"
  shows "result_ok t h i (Rel op b lo l p) (thread_step i root h (Rel op b lo l p))"
  unfolding thread_step.simps
proof (rule release_ok[OF inv])
  show "holds h i lo" using ti by auto
  show "tinv t (h\<lparr>lks := (lks h)(lo \<mapsto> None)\<rparr>) i (Body op b l p)"
    using ti owns_at_other[of t h i "op_key op" b l _ lo None] by auto
qed (simp add: commit_def)

lemma pushrel_step_ok:
  assumes inv: "ginv t h" and ti: "tinv t h i (PushRel x lp b)"
  shows "result_ok t h i (PushRel x lp b) (thread_step i root h (PushRel x lp b))"
  unfolding thread_step.simps
proof (rule release_ok[OF inv])
  show "holds h i lp" using ti by auto
  show "tinv t (h\<lparr>lks := (lks h)(lp \<mapsto> None)\<rparr>) i (Push x b)"
    using ti owns_at_other[of t h i x b _ _ lp None] by auto
qed (simp add: commit_def)

lemma release_step_ok:
  assumes inv: "ginv t h" and ti: "tinv t h i (Release l r)"
  shows "result_ok t h i (Release l r) (thread_step i root h (Release l r))"
  unfolding thread_step.simps
proof (rule release_ok[OF inv])
  show "holds h i l" using ti by simp
qed (simp_all add: commit_def)

text \<open>Steps that change nothing.\<close>

lemma step_read:
  assumes "ginv t h" and "tinv t h i pc'"
    and "case commit pc pc' of None \<Rightarrow> True | Some (op, r) \<Rightarrow> cspec op (cmap t) = (r, cmap t)"
  shows "result_ok t h i pc (now (Inr (h, pc')))"
  unfolding result_ok_def now_def step_ok_def using assms cframe_refl[of i t h]
  by (auto intro!: exI[of _ t] split: option.splits)

lemma owns_at_None: "ginv t h \<Longrightarrow> owns_at t h i k b l 0 \<Longrightarrow> cmap t k = None"
  by (erule owns_atD, assumption) auto

lemma owns_at_node:
  assumes "ginv t h" and "owns_at t h i k b l n" and "n \<noteq> 0"
  shows "\<exists>nd. tree_at h n = Inr nd \<and> at_node h n nd"
proof -
  obtain s where s: "csub t b = Some s" "crep h s" "cbox s = b" "n = 0 \<longleftrightarrow> s = CL b l"
    using owns_atD[OF assms(1,2)] by metis
  have b: "tgs h b = Some \<lparr>tg_t = n, tg_lock = l\<rparr>" using assms(2) by (simp add: owns_at_def)
  show ?thesis using s b assms(3) by (cases s) (auto simp: tree_at_def at_node_def)
qed

lemma owns_at_tg:
  assumes "ginv t h" and "owns_at t h i k b l n"
  shows "tg_at h b = Inr \<lparr>tg_t = n, tg_lock = l\<rparr>"
proof -
  have b: "b \<in> set (cpath t k)" "tgs h b = Some \<lparr>tg_t = n, tg_lock = l\<rparr>" using assms(2) by (simp_all add: owns_at_def)
  have "b \<noteq> 0" using crep_own(1)[OF ginvD(1)[OF assms(1)] cpath_own[OF b(1)]] by simp
  then show ?thesis using b(2) by (simp add: tg_at_def)
qed

lemma owns_at_found:
  assumes "ginv t h" and "owns_at t h i k b l n" and "at_node h n nd" and "t_key nd = k"
  shows "cmap t k = Some (t_value nd)"
proof -
  obtain v L R where c: "csub t b = Some (CN b l n (t_key nd) v L R)"
    "nd = \<lparr>t_key = t_key nd, t_value = v, t_left = cbox L, t_right = cbox R\<rparr>"
    by (rule owns_at_child[OF assms(1-3)])
  have "b \<in> set (cpath t k)" using assms(2) by (simp add: owns_at_def)
  from cpath_sub[OF this ginvD(2)[OF assms(1)] c(1)] have "cmap t k = Some v" using assms(4) by simp
  moreover have "t_value nd = v" by (subst c(2)) simp
  ultimately show ?thesis by simp
qed

lemma lookup_step_ok:
  assumes inv: "ginv t h" and ti: "tinv t h i (Body (Lookup x) b l p)"
  shows "result_ok t h i (Body (Lookup x) b l p) (thread_step i root h (Body (Lookup x) b l p))"
proof -
  obtain n where o: "owns_at t h i x b l n" "p = Some n" using ti by auto
  have hl: "holds h i l" using o(1) by (simp add: owns_at_def)
  show ?thesis
  proof (cases "n = 0")
    case True
    then have "cmap t x = None" using owns_at_None[OF inv] o(1) by simp
    then have "result_ok t h i (Body (Lookup x) b l p) (now (Inr (h, Release l 0)))"
      using hl by (intro step_read[OF inv]) (simp_all add: commit_def)
    then show ?thesis using o(2) True by (simp add: lookup_body_def)
  next
    case False
    then obtain nd where nd: "tree_at h n = Inr nd" "at_node h n nd" using owns_at_node[OF inv o(1)] by blast
    have hop: "result_ok t h i (Body (Lookup x) b l p) (now (Inr (h, Hop (Lookup x) c l)))"
      if "x < t_key nd \<and> c = t_left nd \<or> t_key nd < x \<and> c = t_right nd" for c
      using o(1) nd(2) that by (intro step_read[OF inv]) (auto simp: commit_def)
    have found: "result_ok t h i (Body (Lookup x) b l p) (now (Inr (h, Release l (t_value nd))))" if "t_key nd = x"
      using hl owns_at_found[OF inv o(1) nd(2) that] by (intro step_read[OF inv]) (simp_all add: commit_def)
    show ?thesis
      using o(2) False nd(1) hop found by (auto simp: lookup_body_def Let_def)
  qed
qed

lemma delete_step_ok:
  assumes inv: "ginv t h" and ti: "tinv t h i (Body (Delete x) b l p)"
  shows "result_ok t h i (Body (Delete x) b l p) (thread_step i root h (Body (Delete x) b l p))"
proof -
  obtain n where o: "owns_at t h i x b l n" using ti by auto
  have hl: "holds h i l" using o(1) by (simp add: owns_at_def)
  show ?thesis
  proof (cases "n = 0")
    case True
    then have "cmap t x = None" using owns_at_None[OF inv] o(1) by simp
    then have "cspec (Delete x) (cmap t) = (0, cmap t)" by (auto simp: fun_eq_iff)
    then have "result_ok t h i (Body (Delete x) b l p) (now (Inr (h, Release l 0)))"
      using hl by (intro step_read[OF inv]) (simp_all add: commit_def)
    then show ?thesis using True owns_at_tg[OF inv o] by (simp add: delete_body_def)
  next
    case False
    then obtain nd where nd: "tree_at h n = Inr nd" "at_node h n nd" using owns_at_node[OF inv o(1)] by blast
    have hop: "result_ok t h i (Body (Delete x) b l p) (now (Inr (h, Hop (Delete x) c l)))"
      if "x < t_key nd \<and> c = t_left nd \<or> t_key nd < x \<and> c = t_right nd" for c
      using o(1) nd(2) that by (intro step_read[OF inv]) (auto simp: commit_def)
    have found: "result_ok t h i (Body (Delete x) b l p) (now (Inr (h, Push x b)))" if "t_key nd = x"
      using o nd(2) that by (intro step_read[OF inv]) (auto simp: commit_def)
    show ?thesis
      using False nd(1) hop found owns_at_tg[OF inv o] by (auto simp: delete_body_def Let_def)
  qed
qed

end
