(* ===== verification/Bst_Change.thy ===== *)
theory Bst_Change
  imports Bst_Steps
begin

text \<open>
  The steps of \<open>insert\<close> and \<open>pushdown_left\<close>, the ones that change the tree. Each replaces the subtree
  at the box that the thread has locked.
\<close>

section \<open>Acquiring the locks of the children\<close>

lemma owns_at_sub:
  assumes "ginv t h" and "owns_at t h i x b lp p" and "at_node h p nd" and "t_key nd = x"
  obtains v L R where "csub t b = Some (CN b lp p x v L R)"
    "nd = \<lparr>t_key = x, t_value = v, t_left = cbox L, t_right = cbox R\<rparr>" "crep h L" "crep h R"
    "b \<in> set (cpath t x)" "tgs h b = Some \<lparr>tg_t = p, tg_lock = lp\<rparr>" "holds h i lp"
    "tg_at h b = Inr \<lparr>tg_t = p, tg_lock = lp\<rparr>" "tree_at h p = Inr nd" "p \<noteq> 0"
    "ALock (clock L) \<in> set (cown t)" "ALock (clock R) \<in> set (cown t)"
proof -
  obtain v L R where c: "csub t b = Some (CN b lp p (t_key nd) v L R)"
    "nd = \<lparr>t_key = t_key nd, t_value = v, t_left = cbox L, t_right = cbox R\<rparr>" "crep h L" "crep h R"
    by (rule owns_at_child[OF assms(1-3)])
  note o = assms(2)[unfolded owns_at_def]
  have "tree_at h p = Inr nd" "p \<noteq> 0" using assms(3) by (simp_all add: at_node_def tree_at_def)
  moreover have "nd = \<lparr>t_key = x, t_value = v, t_left = cbox L, t_right = cbox R\<rparr>" using c(2) assms(4) by simp
  moreover have "ALock (clock L) \<in> set (cown t)" "ALock (clock R) \<in> set (cown t)"
    using csub_cown[OF c(1)] cown_box(2)[of L] cown_box(2)[of R] by auto
  ultimately show thesis
    using that[of v L R] c assms(4) o owns_at_tg[OF assms(1,2)] by simp
qed

lemma push_head_ok:
  assumes inv: "ginv t h" and ti: "tinv t h i (Push x b)"
  shows "result_ok t h i (Push x b) (push_head h i x b)"
proof -
  obtain lp p nd where o: "owns_at t h i x b lp p" "at_node h p nd" "t_key nd = x" using ti by auto
  obtain v L R where c: "csub t b = Some (CN b lp p x v L R)"
    "nd = \<lparr>t_key = x, t_value = v, t_left = cbox L, t_right = cbox R\<rparr>" "crep h L" "crep h R"
    "tg_at h b = Inr \<lparr>tg_t = p, tg_lock = lp\<rparr>" "tree_at h p = Inr nd" "ALock (clock R) \<in> set (cown t)"
    by (rule owns_at_sub[OF inv o])
  obtain g where g: "tg_at h (cbox R) = Inr g" "tgs h (cbox R) = Some g" "tg_lock g = clock R"
    using tg_at_rep[OF c(4)] by auto
  have "result_ok t h i (Push x b) (wait (acquire h i (clock R)) (\<lambda>h1. Inr (h1, Pushed x b lp p (cbox R) (clock R))))"
  proof (rule result_ok_wait[OF ginvD(4)[OF inv c(7)]])
    assume free: "lks h (clock R) = Some None"
    let ?h = "h\<lparr>lks := (lks h)(clock R \<mapsto> Some i)\<rparr>"
    have "tinv t ?h i (Pushed x b lp p (cbox R) (clock R))"
      unfolding tinv.simps
      by (intro exI[of _ nd] exI[of _ g]) (use owns_at_lock[OF o(1) free, of "Some i"] o(2,3) c(2) g(2,3) in \<open>simp add: holds_def\<close>)
    then show "\<exists>pc'. Inr (?h, Pushed x b lp p (cbox R) (clock R)) = (Inr (?h, pc') :: (cheap \<times> pc) result) \<and>
        step_ok t h i (Push x b) ?h pc'"
      using step_lock[OF inv free] by (simp add: commit_def)
  qed
  then show ?thesis using c(2,5,6) g by (simp add: push_head_def Let_def)
qed

lemma push_null_ok:
  assumes inv: "ginv t h" and ti: "tinv t h i (Pushed x b lp p q lq)" and "tgs h q = Some \<lparr>tg_t = 0, tg_lock = lq'\<rparr>"
  shows "result_ok t h i (Pushed x b lp p q lq) (push_body h i x b lp p q lq)"
proof -
  obtain nd where o: "owns_at t h i x b lp p" "at_node h p nd" "t_key nd = x" "t_right nd = q" "holds h i lq" "lq' = lq"
    using ti assms(3) by auto
  obtain v L R where c: "csub t b = Some (CN b lp p x v L R)"
    "nd = \<lparr>t_key = x, t_value = v, t_left = cbox L, t_right = cbox R\<rparr>" "crep h L" "crep h R"
    "tree_at h p = Inr nd" "ALock (clock L) \<in> set (cown t)"
    by (rule owns_at_sub[OF inv o(1-3)])
  have qg: "tg_at h q = Inr \<lparr>tg_t = 0, tg_lock = lq\<rparr>" using tg_at_rep[OF c(4)] c(2) o(4,6) assms(3) by auto
  obtain g where g: "tg_at h (cbox L) = Inr g" "tgs h (cbox L) = Some g" "tg_lock g = clock L"
    using tg_at_rep[OF c(3)] by auto
  have "result_ok t h i (Pushed x b lp p q lq) (wait (acquire h i (clock L)) (\<lambda>h1. Inr (h1, Unlink x b lp p q lq (cbox L))))"
  proof (rule result_ok_wait[OF ginvD(4)[OF inv c(6)]])
    assume free: "lks h (clock L) = Some None"
    let ?h = "h\<lparr>lks := (lks h)(clock L \<mapsto> Some i)\<rparr>"
    have "tinv t ?h i (Unlink x b lp p q lq (cbox L))"
      unfolding tinv.simps
      by (intro exI[of _ nd] exI[of _ g])
        (use owns_at_lock[OF o(1) free, of "Some i"] o(2-6) c(2) g(2,3) assms(3) free in \<open>auto simp: holds_def\<close>)
    then show "\<exists>pc'. Inr (?h, Unlink x b lp p q lq (cbox L)) = (Inr (?h, pc') :: (cheap \<times> pc) result) \<and>
        step_ok t h i (Pushed x b lp p q lq) ?h pc'"
      using step_lock[OF inv free] by (simp add: commit_def)
  qed
  then show ?thesis using c(2,5) g qg by (simp add: push_body_def Let_def)
qed

section \<open>Replacing the subtree at a locked box\<close>

lemma step_crepl:
  assumes inv: "ginv t h" and s: "csub t b = Some s"
    and s': "crep h' s'" "cbox s' = b" "distinct (cown s')" "cbst s'"
    and new: "\<And>a. a \<in> set (cown s') \<Longrightarrow> a \<in> set (cown s) \<or> cfresh h \<le> caddr_no a"
    and keys: "\<And>x. x \<in> ckeys s' \<Longrightarrow> x \<in> ckeys s \<or> b \<in> set (cpath t x)"
    and same: "\<And>a. a \<in> set (cown t) \<Longrightarrow> a \<notin> set (cown s) \<Longrightarrow> hsame h h' a"
    and locks: "\<And>l. ALock l \<in> set (cown s') \<Longrightarrow> lks h' l \<noteq> None"
      "\<And>l. ALock l \<in> set (cown t) \<Longrightarrow> ALock l \<notin> set (cown s) \<Longrightarrow> lks h' l \<noteq> None"
    and fresh: "0 < cfresh h'" "\<And>a. a \<in> dom (tgs h') \<union> dom (trees h') \<union> dom (lks h') \<Longrightarrow> 0 < a \<and> a < cfresh h'"
    and hold: "\<And>j l. j \<noteq> i \<Longrightarrow> holds h j l \<Longrightarrow> holds h' j l"
    and boxes: "\<And>b g. tgs h b = Some g \<Longrightarrow> \<not> holds h i (tg_lock g) \<Longrightarrow> lks h (tg_lock g) \<noteq> Some None \<Longrightarrow> tgs h' b = Some g"
    and paths: "\<And>c g k. c \<in> set (cpath s k) \<Longrightarrow> tgs h c = Some g \<Longrightarrow> \<not> holds h i (tg_lock g) \<Longrightarrow> c \<in> set (cpath s' k)"
    and nodes: "\<And>n. trees h' n \<noteq> trees h n \<Longrightarrow> n \<noteq> 0 \<and> (trees h n = None \<or>
      (\<exists>c g. ABox c \<in> set (cown t) \<and> tgs h c = Some g \<and> tg_t g = n \<and> holds h i (tg_lock g)))"
    and ti: "set (cpath s' k0) \<subseteq> set (cpath (crepl t b s') k0) \<Longrightarrow> tinv (crepl t b s') h' i pc'"
      "b \<in> set (cpath t k0)"
    and eff: "case commit pc pc' of None \<Rightarrow> cmap (crepl t b s') = cmap t
      | Some (op, r) \<Rightarrow> cspec op (cmap t) = (r, cmap (crepl t b s'))"
  shows "step_ok t h i pc h' pc'"
  unfolding step_ok_def
proof (intro exI conjI)
  note d = ginvD(2)[OF inv]
  show "ginv (crepl t b s') h'" by (rule ginv_crepl[OF inv s s' new keys same locks fresh])
  show "cbox (crepl t b s') = cbox t" by (rule crepl_box[OF s'(2)])
  show "tinv (crepl t b s') h' i pc'" by (rule ti(1)[OF cpath_crepl_in[OF s ti(2) d]])
  show "cframe i t h (crepl t b s') h'"
  proof (rule cframeI[OF inv hold boxes])
    fix c g k assume "c \<in> set (cpath t k)" "tgs h c = Some g" "\<not> holds h i (tg_lock g)"
    then show "c \<in> set (cpath (crepl t b s') k)" using cpath_crepl[OF s _ d] paths by blast
  qed (use nodes in blast)+
qed (rule eff)


text \<open>A node or box in the heap has a number below \<open>cfresh\<close>.\<close>

lemma ginv_fresh:
  assumes "ginv t h" and "cfresh h \<le> a"
  shows "tgs h a = None" "trees h a = None" "lks h a = None"
proof -
  have "a \<notin> dom (tgs h) \<union> dom (trees h) \<union> dom (lks h)" using ginvD(6)[OF assms(1), of a] assms(2) by (meson leD)
  then show "tgs h a = None" "trees h a = None" "lks h a = None" by (simp_all add: domIff)
qed

section \<open>Inserting\<close>

definition ins_heap :: "cheap \<Rightarrow> int \<Rightarrow> addr \<Rightarrow> addr \<Rightarrow> addr \<Rightarrow> cheap" where
  "ins_heap h x v b l = (let f = cfresh h in
     h\<lparr>lks := (lks h)(f + 2 \<mapsto> None, f + 3 \<mapsto> None), cfresh := f + 5, cmem := cmem h - 5,
       tgs := (tgs h)(f \<mapsto> \<lparr>tg_t = 0, tg_lock = f + 2\<rparr>, f + 1 \<mapsto> \<lparr>tg_t = 0, tg_lock = f + 3\<rparr>, b \<mapsto> \<lparr>tg_t = f + 4, tg_lock = l\<rparr>),
       trees := (trees h)(f + 4 \<mapsto> \<lparr>t_key = x, t_value = v, t_left = f, t_right = f + 1\<rparr>)\<rparr>)"

lemma insert_body_new:
  assumes "tg_at h b = Inr \<lparr>tg_t = 0, tg_lock = l\<rparr>" and "5 \<le> cmem h"
  shows "insert_body h i x v b l = Inr (ins_heap h x v b l, Release l 0)"
proof -
  obtain m where m: "cmem h = Suc (Suc (Suc (Suc (Suc m))))" using assms(2) that[of "cmem h - 5"] by simp
  show ?thesis
    using assms(1) m
    by (simp add: insert_body_def surely_malloc_c_def release2_def makelock_def set_tg_def set_tree_def ins_heap_def Let_def
        eval_nat_numeral)
qed

lemma insert_body_nomem:
  assumes "tg_at h b = Inr \<lparr>tg_t = 0, tg_lock = l\<rparr>" and "cmem h < 5"
  shows "insert_body h i x v b l = Inl ExitFailure"
proof -
  have "cmem h = 0 \<or> cmem h = 1 \<or> cmem h = 2 \<or> cmem h = 3 \<or> cmem h = 4" using assms(2) by linarith
  then show ?thesis
    using assms(1)
    by (elim disjE) (simp_all add: insert_body_def surely_malloc_c_def release2_def makelock_def set_tg_def set_tree_def)
qed

lemma insert_new_ok:
  assumes inv: "ginv t h" and o: "owns_at t h i x b l 0"
  shows "step_ok t h i (Body (Insert x v) b l q) (ins_heap h x v b l) (Release l 0)"
proof -
  let ?f = "cfresh h"
  let ?h = "ins_heap h x v b l"
  let ?s' = "CN b l (?f + 4) x v (CL ?f (?f + 2)) (CL (?f + 1) (?f + 3))"
  obtain s where s0: "csub t b = Some s" "0 = (0::addr) \<longleftrightarrow> s = CL b l" using owns_atD[OF inv o] by metis
  then have s: "csub t b = Some (CL b l)" by simp
  have b: "b \<in> set (cpath t x)" "tgs h b = Some \<lparr>tg_t = 0, tg_lock = l\<rparr>" "holds h i l" using o by (simp_all add: owns_at_def)
  have old: "b < ?f" "l < ?f" "b \<noteq> 0" "lks h l \<noteq> None"
    using ginvD(6)[OF inv, of b] ginvD(6)[OF inv, of l] b(2,3) by (auto simp: holds_def)
  note fr = ginv_fresh[OF inv]
  note sel = ins_heap_def Let_def
  have small: "a \<in> dom (tgs h) \<union> dom (trees h) \<union> dom (lks h) \<Longrightarrow> 0 < a \<and> a < ?f" for a by (rule ginvD(6)[OF inv])
  show ?thesis
  proof (rule step_crepl[OF inv s, where s' = ?s' and ?k0.0 = x])
    show "crep ?h ?s'" using old ginvD(5)[OF inv] by (simp add: sel)
    show "distinct (cown ?s')" using old by simp
    show "a \<in> set (cown (CL b l)) \<or> cfresh h \<le> caddr_no a" if "a \<in> set (cown ?s')" for a using that by auto
    show "y \<in> ckeys (CL b l) \<or> b \<in> set (cpath t y)" if "y \<in> ckeys ?s'" for y using that b(1) by simp
    show "hsame h ?h a" if "a \<in> set (cown t)" "a \<notin> set (cown (CL b l))" for a
      using cown_old[OF inv that(1)] that(2) by (cases a) (auto simp: sel)
    show "lks ?h m \<noteq> None" if "ALock m \<in> set (cown ?s')" for m using that old by (auto simp: sel)
    show "lks ?h m \<noteq> None" if "ALock m \<in> set (cown t)" for m using that ginvD(4)[OF inv that] by (auto simp: sel)
    show "0 < cfresh ?h" by (simp add: sel)
    show "0 < a \<and> a < cfresh ?h" if "a \<in> dom (tgs ?h) \<union> dom (trees ?h) \<union> dom (lks ?h)" for a
    proof -
      have "a \<in> dom (tgs h) \<union> dom (trees h) \<union> dom (lks h) \<or> a = b \<or> ?f \<le> a \<and> a < ?f + 5"
        using that by (auto simp: sel split: if_splits)
      then show ?thesis
      proof (elim disjE)
        assume "a \<in> dom (tgs h) \<union> dom (trees h) \<union> dom (lks h)"
        then show ?thesis using small[of a] by (simp add: sel)
      qed (use old ginvD(5)[OF inv] in \<open>simp_all add: sel\<close>)
    qed
    show "holds ?h j m" if "holds h j m" for j m
      using that fr(3)[of m] by (auto simp: sel holds_def)
    show "tgs ?h c = Some g" if "tgs h c = Some g" "\<not> holds h i (tg_lock g)" for c g
      using that b(2,3) fr(1)[of c] by (auto simp: sel)
    show "c \<in> set (cpath ?s' k)" if "c \<in> set (cpath (CL b l) k)" for c k using that by simp
    show "n \<noteq> 0 \<and> (trees h n = None \<or> (\<exists>c g. ABox c \<in> set (cown t) \<and> tgs h c = Some g \<and> tg_t g = n \<and> holds h i (tg_lock g)))"
      if "trees ?h n \<noteq> trees h n" for n
      using that fr(2)[of n] by (auto simp: sel split: if_splits)
    show "tinv (crepl t b ?s') ?h i (Release l 0)" using b(3) old by (simp add: sel holds_def)
    show "b \<in> set (cpath t x)" by (rule b(1))
    have "cmap (crepl t b ?s') = (cmap t)(x \<mapsto> v)"
      by (rule cmap_crepl_upd[OF s ginvD(2)[OF inv] b(1)]) simp
    then show "case commit (Body (Insert x v) b l q) (Release l 0) of None \<Rightarrow> cmap (crepl t b ?s') = cmap t
      | Some (op, r) \<Rightarrow> cspec op (cmap t) = (r, cmap (crepl t b ?s'))" by (simp add: commit_def)
  qed simp_all
qed

lemma insert_found_ok:
  assumes inv: "ginv t h" and o: "owns_at t h i x b l p" and nd: "at_node h p nd" "t_key nd = x"
  shows "step_ok t h i (Body (Insert x v) b l q) (set_tree h p (nd\<lparr>t_value := v\<rparr>)) (Release l 0)"
proof -
  let ?h = "set_tree h p (nd\<lparr>t_value := v\<rparr>)"
  obtain w L R where c: "csub t b = Some (CN b l p x w L R)"
    "nd = \<lparr>t_key = x, t_value = w, t_left = cbox L, t_right = cbox R\<rparr>" "crep h L" "crep h R"
    and b: "b \<in> set (cpath t x)" "tgs h b = Some \<lparr>tg_t = p, tg_lock = l\<rparr>" "holds h i l" "p \<noteq> 0"
    by (rule owns_at_sub[OF inv o nd])
  let ?s = "CN b l p x w L R" and ?s' = "CN b l p x v L R"
  note own = csub_cown[OF c(1)] and d = csub_distinct[OF c(1) ginvD(2)[OF inv]]
  have rep: "crep ?h A" if "crep h A" "ANode p \<notin> set (cown A)" for A
    by (rule crep_same[OF that(1)]) (use that(2) in \<open>case_tac a; auto simp: set_tree_def\<close>)
  have trp: "trees h p = Some nd" using nd(1) by (simp add: at_node_def)
  show ?thesis
  proof (rule step_crepl[OF inv c(1), where s' = ?s' and ?k0.0 = x])
    have "crep ?h L" "crep ?h R" using rep c(3,4) d by auto
    then show "crep ?h ?s'" using b c(2) crep_own(1)[OF ginvD(1)[OF inv] cpath_own[OF b(1)]] by (simp add: set_tree_def)
    show "distinct (cown ?s')" using d by simp
    show "cbst ?s'" using csub_bst[OF c(1) ginvD(3)[OF inv]] by simp
    show "a \<in> set (cown ?s) \<or> cfresh h \<le> caddr_no a" if "a \<in> set (cown ?s')" for a using that by simp
    show "y \<in> ckeys ?s \<or> b \<in> set (cpath t y)" if "y \<in> ckeys ?s'" for y using that by simp
    show "hsame h ?h a" if "a \<in> set (cown t)" "a \<notin> set (cown ?s)" for a
      by (cases a) (use that in \<open>auto simp: set_tree_def\<close>)
    show "lks ?h m \<noteq> None" if "ALock m \<in> set (cown ?s')" for m
      using ginvD(4)[OF inv, of m] own that by (auto simp: set_tree_def)
    show "lks ?h m \<noteq> None" if "ALock m \<in> set (cown t)" for m using ginvD(4)[OF inv that] by (simp add: set_tree_def)
    show "0 < cfresh ?h" using ginvD(5)[OF inv] by (simp add: set_tree_def)
    show "0 < a \<and> a < cfresh ?h" if "a \<in> dom (tgs ?h) \<union> dom (trees ?h) \<union> dom (lks ?h)" for a
      using that ginvD(6)[OF inv, of a] trp by (auto simp: set_tree_def split: if_splits)
    show "holds ?h j m" if "holds h j m" for j m using that by (simp add: set_tree_def holds_def)
    show "tgs ?h e = Some g" if "tgs h e = Some g" for e g using that by (simp add: set_tree_def)
    show "e \<in> set (cpath ?s' k)" if "e \<in> set (cpath ?s k)" for e k using that by simp
    show "n \<noteq> 0 \<and> (trees h n = None \<or> (\<exists>e g. ABox e \<in> set (cown t) \<and> tgs h e = Some g \<and> tg_t g = n \<and> holds h i (tg_lock g)))"
      if "trees ?h n \<noteq> trees h n" for n
    proof -
      have "n = p" using that by (simp add: set_tree_def split: if_splits)
      then show ?thesis using b cpath_own[OF b(1)] by (intro conjI disjI2 exI[of _ b] exI[of _ "\<lparr>tg_t = p, tg_lock = l\<rparr>"]) simp_all
    qed
    show "tinv (crepl t b ?s') ?h i (Release l 0)" using b(3) by (simp add: set_tree_def holds_def)
    show "b \<in> set (cpath t x)" by (rule b(1))
    have "cmap (crepl t b ?s') = (cmap t)(x \<mapsto> v)"
      by (rule cmap_crepl_upd[OF c(1) ginvD(2)[OF inv] b(1)]) simp
    then show "case commit (Body (Insert x v) b l q) (Release l 0) of None \<Rightarrow> cmap (crepl t b ?s') = cmap t
      | Some (op, r) \<Rightarrow> cspec op (cmap t) = (r, cmap (crepl t b ?s'))" by (simp add: commit_def)
  qed simp_all
qed

lemma result_ok_now: "step_ok t h i pc h' pc' \<Longrightarrow> result_ok t h i pc (now (Inr (h', pc')))"
  by (simp add: result_ok_def now_def)

lemma insert_step_ok:
  assumes inv: "ginv t h" and ti: "tinv t h i (Body (Insert x v) b l q)"
  shows "result_ok t h i (Body (Insert x v) b l q) (thread_step i root h (Body (Insert x v) b l q))"
proof -
  obtain n where o: "owns_at t h i x b l n" and q: "q = None" using ti by auto
  note tg = owns_at_tg[OF inv o]
  show ?thesis
  proof (cases "n = 0")
    case True
    show ?thesis
    proof (cases "5 \<le> cmem h")
      case True
      then show ?thesis
        using insert_body_new[of h b l i x v] tg \<open>n = 0\<close> result_ok_now[OF insert_new_ok[OF inv, of i x b l v q]] o by simp
    next
      case False
      then show ?thesis using insert_body_nomem[of h b l i x v] tg \<open>n = 0\<close> by (simp add: now_def result_ok_def)
    qed
  next
    case False
    then obtain nd where nd: "tree_at h n = Inr nd" "at_node h n nd" using owns_at_node[OF inv o] by blast
    have hop: "result_ok t h i (Body (Insert x v) b l q) (now (Inr (h, Hop (Insert x v) c l)))"
      if "x < t_key nd \<and> c = t_left nd \<or> t_key nd < x \<and> c = t_right nd" for c
      using o nd(2) that by (intro step_read[OF inv]) (auto simp: commit_def)
    have found: "result_ok t h i (Body (Insert x v) b l q) (now (Inr (set_tree h n (nd\<lparr>t_value := v\<rparr>), Release l 0)))" if "t_key nd = x"
      by (rule result_ok_now[OF insert_found_ok[OF inv o nd(2) that]])
    show ?thesis
      using False nd(1) hop found tg by (auto simp: insert_body_def Let_def)
  qed
qed

end
