(* ===== verification/Bst_Rotate.thy ===== *)
theory Bst_Rotate
  imports Bst_Change
begin

text \<open>The rotation of \<open>turn_left\<close> and the removal of a node without a right child.\<close>

section \<open>Rotating\<close>

definition turn_heap :: "cheap \<Rightarrow> addr \<Rightarrow> addr \<Rightarrow> addr \<Rightarrow> addr \<Rightarrow> addr \<Rightarrow> addr \<Rightarrow> tree \<Rightarrow> tree \<Rightarrow> cheap" where
  "turn_heap h b lp p q lq r np nr =
     h\<lparr>trees := (trees h)(p \<mapsto> np\<lparr>t_right := t_left nr\<rparr>, r \<mapsto> nr\<lparr>t_left := q\<rparr>),
       tgs := (tgs h)(b \<mapsto> \<lparr>tg_t = r, tg_lock = lp\<rparr>, q \<mapsto> \<lparr>tg_t = p, tg_lock = lq\<rparr>)\<rparr>"

lemma push_body_turn:
  assumes "tg_at h b = Inr \<lparr>tg_t = p, tg_lock = lp\<rparr>" "tg_at h q = Inr \<lparr>tg_t = r, tg_lock = lq\<rparr>"
    "tree_at h p = Inr np" "tree_at h r = Inr nr" "b \<noteq> q" "p \<noteq> r" "r \<noteq> 0"
  shows "push_body h i x b lp p q lq = Inr (Some (turn_heap h b lp p q lq r np nr, PushRel x lp q))"
proof -
  have nz: "q \<noteq> 0" "r \<noteq> 0" "tgs h q = Some \<lparr>tg_t = r, tg_lock = lq\<rparr>" "trees h r = Some nr"
    using assms by (auto simp: tg_at_def tree_at_def split: if_splits option.splits)
  have "tree_at (set_tree h p (np\<lparr>t_right := t_left nr\<rparr>)) r = Inr nr"
    using assms(6) nz by (simp add: tree_at_def set_tree_def)
  moreover have "tg_at (set_tg (set_tree (set_tree h p n1) r n2) b g) q = Inr \<lparr>tg_t = r, tg_lock = lq\<rparr>" for n1 n2 g
    using assms(5) nz by (simp add: tg_at_def set_tree_def set_tg_def)
  ultimately have "turn_left h b q = Inr (turn_heap h b lp p q lq r np nr)"
    using assms(1-4) by (simp add: turn_left_def turn_heap_def set_tree_def set_tg_def Let_def)
  then show ?thesis using assms(2,7) nz(2) by (simp add: push_body_def turn_heap_def tree_at_def)
qed

lemma turn_ok:
  assumes inv: "ginv t h" and o: "owns_at t h i x b lp p" and nd: "at_node h p nd" "t_key nd = x"
    and c: "csub t b = Some (CN b lp p x v L (CN q lq r y w A1 A2))"
    and hq: "holds h i lq" and nr: "trees h r = Some nr"
  shows "step_ok t h i (Pushed x b lp p q lq) (turn_heap h b lp p q lq r nd nr) (PushRel x lp q)"
proof -
  let ?h = "turn_heap h b lp p q lq r nd nr"
  let ?s = "CN b lp p x v L (CN q lq r y w A1 A2)" and ?s' = "CN b lp r y w (CN q lq p x v L A1) A2"
  note own = csub_cown[OF c] and d = csub_distinct[OF c ginvD(2)[OF inv]] and bst = csub_bst[OF c ginvD(3)[OF inv]]
  note rep = csub_rep[OF ginvD(1)[OF inv] c]
  have b: "b \<in> set (cpath t x)" "tgs h b = Some \<lparr>tg_t = p, tg_lock = lp\<rparr>" "holds h i lp" "p \<noteq> 0"
    using o nd(1) by (simp_all add: owns_at_def at_node_def)
  have ndv: "nd = \<lparr>t_key = x, t_value = v, t_left = cbox L, t_right = q\<rparr>" "trees h p = Some nd"
    using nd(1) rep by (simp_all add: at_node_def)
  have nrv: "nr = \<lparr>t_key = y, t_value = w, t_left = cbox A1, t_right = cbox A2\<rparr>" using rep nr by simp
  have q: "tgs h q = Some \<lparr>tg_t = r, tg_lock = lq\<rparr>" "q \<noteq> 0" "r \<noteq> 0" "b \<noteq> 0" "ABox q \<in> set (cown t)" "ABox b \<in> set (cown t)"
    using rep own by auto
  have xy: "x < y" "cbst L" "cbst A1" "cbst A2" using bst by auto
  have ne: "b \<noteq> q" "p \<noteq> r" "lp \<noteq> lq" using d by auto
  have sub: "crep ?h A" if "crep h A" "ABox b \<notin> set (cown A)" "ABox q \<notin> set (cown A)" "ANode p \<notin> set (cown A)" "ANode r \<notin> set (cown A)" for A
  proof (rule crep_same[OF that(1)])
    fix a assume "a \<in> set (cown A)"
    then have "a \<noteq> ABox b" "a \<noteq> ABox q" "a \<noteq> ANode p" "a \<noteq> ANode r" using that by auto
    then show "hsame h ?h a" by (cases a) (simp_all add: turn_heap_def)
  qed
  have reps: "crep ?h L" "crep ?h A1" "crep ?h A2" using sub rep d by auto
  show ?thesis
  proof (rule step_crepl[OF inv c, where s' = ?s' and ?k0.0 = x])
    show "crep ?h ?s'" using reps b q ne ndv(1) nrv by (simp add: turn_heap_def)
    show "distinct (cown ?s')" using d by auto
    show "cbst ?s'" using bst by fastforce
    show "a \<in> set (cown ?s) \<or> cfresh h \<le> caddr_no a" if "a \<in> set (cown ?s')" for a using that by auto
    show "z \<in> ckeys ?s \<or> b \<in> set (cpath t z)" if "z \<in> ckeys ?s'" for z using that by auto
    show "hsame h ?h a" if "a \<in> set (cown t)" "a \<notin> set (cown ?s)" for a
      by (cases a) (use that in \<open>auto simp: turn_heap_def\<close>)
    show "lks ?h m \<noteq> None" if "ALock m \<in> set (cown ?s')" for m
    proof -
      have "ALock m \<in> set (cown t)" using that own by auto
      then show ?thesis using ginvD(4)[OF inv] by (simp add: turn_heap_def)
    qed
    show "lks ?h m \<noteq> None" if "ALock m \<in> set (cown t)" for m using ginvD(4)[OF inv that] by (simp add: turn_heap_def)
    show "0 < cfresh ?h" using ginvD(5)[OF inv] by (simp add: turn_heap_def)
    show "0 < a \<and> a < cfresh ?h" if "a \<in> dom (tgs ?h) \<union> dom (trees ?h) \<union> dom (lks ?h)" for a
    proof -
      have "a \<in> dom (tgs h) \<union> dom (trees h) \<union> dom (lks h)"
        using that b(2) q(1) ndv(2) nr by (auto simp: turn_heap_def split: if_splits)
      from ginvD(6)[OF inv this] show ?thesis by (simp add: turn_heap_def)
    qed
    show "holds ?h j m" if "holds h j m" for j m using that by (simp add: turn_heap_def holds_def)
    show "tgs ?h e = Some g" if "tgs h e = Some g" "\<not> holds h i (tg_lock g)" for e g
    proof -
      have "e \<noteq> b" "e \<noteq> q" using that b(2,3) q(1) hq by auto
      then show ?thesis using that(1) by (simp add: turn_heap_def)
    qed
    show "e \<in> set (cpath ?s' k)" if "e \<in> set (cpath ?s k)" "tgs h e = Some g" "\<not> holds h i (tg_lock g)" for e g k
    proof -
      have "e \<noteq> b" "e \<noteq> q" using that b(2,3) q(1) hq by auto
      then show ?thesis using that(1) xy(1) by (auto split: if_splits)
    qed
    show "n \<noteq> 0 \<and> (trees h n = None \<or> (\<exists>e g. ABox e \<in> set (cown t) \<and> tgs h e = Some g \<and> tg_t g = n \<and> holds h i (tg_lock g)))"
      if "trees ?h n \<noteq> trees h n" for n
    proof -
      have "n = p \<or> n = r" using that by (auto simp: turn_heap_def split: if_splits)
      then show ?thesis
      proof
        assume "n = p"
        then show ?thesis using b q(6) by (intro conjI disjI2 exI[of _ b] exI[of _ "\<lparr>tg_t = p, tg_lock = lp\<rparr>"]) simp_all
      next
        assume "n = r"
        then show ?thesis using q hq by (intro conjI disjI2 exI[of _ q] exI[of _ "\<lparr>tg_t = r, tg_lock = lq\<rparr>"]) simp_all
      qed
    qed
    show "tinv (crepl t b ?s') ?h i (PushRel x lp q)"
      if "set (cpath ?s' x) \<subseteq> set (cpath (crepl t b ?s') x)"
    proof -
      have "q \<in> set (cpath (crepl t b ?s') x)" using that xy(1) by auto
      then have "owns_at (crepl t b ?s') ?h i x q lq p" using hq by (simp add: owns_at_def turn_heap_def holds_def)
      moreover have "at_node ?h p (nd\<lparr>t_right := t_left nr\<rparr>)" using b(4) ne(2) by (simp add: at_node_def turn_heap_def)
      moreover have "holds ?h i lp" using b(3) by (simp add: holds_def turn_heap_def)
      ultimately show ?thesis
        unfolding tinv.simps using ne(3) nd(2)
        by (intro exI[of _ lq] exI[of _ p] exI[of _ "nd\<lparr>t_right := t_left nr\<rparr>"]) simp
    qed
    show "b \<in> set (cpath t x)" by (rule b(1))
    have "cmap (crepl t b ?s') = cmap t"
      by (rule cmap_crepl_same[OF c ginvD(2)[OF inv]]) (use xy(1) in auto)
    then show "case commit (Pushed x b lp p q lq) (PushRel x lp q) of None \<Rightarrow> cmap (crepl t b ?s') = cmap t
      | Some (op, r) \<Rightarrow> cspec op (cmap t) = (r, cmap (crepl t b ?s'))" by (simp add: commit_def)
  qed simp_all
qed

lemma pushed_step_ok:
  assumes inv: "ginv t h" and ti: "tinv t h i (Pushed x b lp p q lq)"
  shows "result_ok t h i (Pushed x b lp p q lq) (push_body h i x b lp p q lq)"
proof -
  obtain nd g where o: "owns_at t h i x b lp p" "at_node h p nd" "t_key nd = x" "t_right nd = q"
    "tgs h q = Some g" "tg_lock g = lq" "holds h i lq" using ti by auto
  obtain v L R where c: "csub t b = Some (CN b lp p x v L R)"
    "nd = \<lparr>t_key = x, t_value = v, t_left = cbox L, t_right = cbox R\<rparr>" "crep h R"
    "tg_at h b = Inr \<lparr>tg_t = p, tg_lock = lp\<rparr>" "tree_at h p = Inr nd" "p \<noteq> 0"
    by (rule owns_at_sub[OF inv o(1-3)])
  have cq: "cbox R = q" using c(2) o(4) by simp
  show ?thesis
  proof (cases R)
    case (CL q' l')
    then have "tgs h q = Some \<lparr>tg_t = 0, tg_lock = l'\<rparr>" using c(3) cq by simp
    then show ?thesis by (rule push_null_ok[OF inv ti])
  next
    case (CN q' l' r y w A1 A2)
    then have R: "R = CN q lq r y w A1 A2" using cq c(3) o(5,6) by auto
    then obtain nr where nr: "trees h r = Some nr" "tree_at h r = Inr nr" "tg_at h q = Inr \<lparr>tg_t = r, tg_lock = lq\<rparr>" "r \<noteq> 0"
      using c(3) by (auto simp: tree_at_def tg_at_def)
    have "b \<noteq> q" "p \<noteq> r" using csub_distinct[OF c(1) ginvD(2)[OF inv]] R by auto
    then have "push_body h i x b lp p q lq = Inr (Some (turn_heap h b lp p q lq r nd nr, PushRel x lp q))"
      using push_body_turn[OF c(4) nr(3) c(5) nr(2)] nr(4) by simp
    moreover have "step_ok t h i (Pushed x b lp p q lq) (turn_heap h b lp p q lq r nd nr) (PushRel x lp q)"
      using turn_ok[OF inv o(1-3) c(1)[unfolded R] o(7) nr(1)] .
    ultimately show ?thesis by (simp add: result_ok_def)
  qed
qed

end
