(* ===== verification/Bst_Lin.thy ===== *)
theory Bst_Lin
  imports Bst_Rotate
begin

text \<open>
  The last step of \<open>pushdown_left\<close>, and the theorem on executions: whatever the interleaving, the
  operations behave as if each ran alone at the step that its label records.
\<close>

section \<open>Removing a node\<close>

fun rebox :: "ct \<Rightarrow> addr \<Rightarrow> addr \<Rightarrow> ct" where
  "rebox (CL b' l') b l = CL b l"
| "rebox (CN b' l' n k v A B) b l = CN b l n k v A B"

fun root_node :: "ct \<Rightarrow> addr" where
  "root_node (CL b l) = 0"
| "root_node (CN b l n k v A B) = n"

lemma rebox_facts [simp]: "cbox (rebox A b l) = b" "ckeys (rebox A b l) = ckeys A" "cmap (rebox A b l) = cmap A"
  "cbst (rebox A b l) = cbst A"
  by (cases A; auto simp: fun_eq_iff)+

lemma cown_rebox: "set (cown (rebox A b l)) = insert (ABox b) (insert (ALock l) (set (cown A) - {ABox (cbox A), ALock (clock A)}))
    \<or> \<not> distinct (cown A)"
  by (cases A) auto

lemma distinct_rebox:
  "distinct (cown A) \<Longrightarrow> ABox b \<notin> set (cown A) \<Longrightarrow> ALock l \<notin> set (cown A) \<Longrightarrow> distinct (cown (rebox A b l))"
  by (cases A) auto

lemma cpath_rebox: "c \<in> set (cpath A k) \<Longrightarrow> c \<noteq> cbox A \<Longrightarrow> c \<in> set (cpath (rebox A b l) k)"
  by (cases A) auto

definition unlink_heap :: "cheap \<Rightarrow> addr \<Rightarrow> addr \<Rightarrow> addr \<Rightarrow> addr \<Rightarrow> addr \<Rightarrow> addr \<Rightarrow> tree_t \<Rightarrow> cheap" where
  "unlink_heap h b lp p q lq c g =
     h\<lparr>tgs := ((tgs h)(b \<mapsto> \<lparr>tg_t = tg_t g, tg_lock = lp\<rparr>, q := None, c := None)),
       trees := (trees h)(p := None), lks := (lks h)(lq := None, tg_lock g := None)\<rparr>"

lemma push_unlink_eq:
  assumes "tg_at h c = Inr g" "tg_at h b = Inr \<lparr>tg_t = p', tg_lock = lp\<rparr>" "b \<noteq> c" "q \<noteq> c" "lq \<noteq> tg_lock g"
    "holds h i lq" "holds h i (tg_lock g)" "trees h p \<noteq> None" "tgs h q \<noteq> None"
  shows "push_unlink h i b lp p q lq c = Inr (unlink_heap h b lp p q lq c g, Release lp 0)"
  using assms
  by (auto simp: push_unlink_def unlink_heap_def holds_def set_tg_def free_tree_def free_tg_def freelock2_def tg_at_def Let_def
      split: if_splits option.splits)

lemma unlink_ok:
  assumes inv: "ginv t h" and o: "owns_at t h i x b lp p" and nd: "at_node h p nd" "t_key nd = x"
    and c: "csub t b = Some (CN b lp p x v L (CL q lq))"
    and hold: "holds h i lq" "tgs h (cbox L) = Some g" "holds h i (tg_lock g)"
  shows "step_ok t h i (Unlink x b lp p q lq (cbox L)) (unlink_heap h b lp p q lq (cbox L) g) (Release lp 0)"
proof -
  let ?h = "unlink_heap h b lp p q lq (cbox L) g"
  let ?s = "CN b lp p x v L (CL q lq)" and ?s' = "rebox L b lp"
  note own = csub_cown[OF c] and d = csub_distinct[OF c ginvD(2)[OF inv]] and bst = csub_bst[OF c ginvD(3)[OF inv]]
  note rep = csub_rep[OF ginvD(1)[OF inv] c]
  have b: "b \<in> set (cpath t x)" "tgs h b = Some \<lparr>tg_t = p, tg_lock = lp\<rparr>" "holds h i lp" "p \<noteq> 0" "b \<noteq> 0"
    using o nd(1) rep by (simp_all add: owns_at_def at_node_def)
  have g: "g = \<lparr>tg_t = root_node L, tg_lock = clock L\<rparr>" using rep hold(2) by (cases L) auto
  have q: "tgs h q = Some \<lparr>tg_t = 0, tg_lock = lq\<rparr>" using rep by simp
  have dL: "distinct (cown L)" "ABox b \<notin> set (cown L)" "ALock lp \<notin> set (cown L)" "ABox q \<notin> set (cown L)" "ALock lq \<notin> set (cown L)"
    "ANode p \<notin> set (cown L)" "b \<noteq> q" "lp \<noteq> lq" using d by auto
  have ow: "set (cown ?s') = insert (ABox b) (insert (ALock lp) (set (cown L) - {ABox (cbox L), ALock (clock L)}))"
    using cown_rebox[of L b lp] dL(1) by blast
  have ne: "b \<noteq> cbox L" "q \<noteq> cbox L" "lp \<noteq> clock L" "lq \<noteq> clock L"
    using dL(2-5) cown_box[of L] by auto
  have sub: "crep ?h A" if "crep h A" "set (cown A) \<subseteq> set (cown L) - {ABox (cbox L), ALock (clock L)}" for A
  proof (rule crep_same[OF that(1)])
    fix a assume "a \<in> set (cown A)"
    then have "a \<noteq> ABox b" "a \<noteq> ABox q" "a \<noteq> ANode p" "a \<noteq> ABox (cbox L)" using that dL by auto
    then show "hsame h ?h a" by (cases a) (simp_all add: unlink_heap_def)
  qed
  have rep': "crep ?h ?s'"
  proof (cases L)
    case (CL b' l')
    then show ?thesis using ne b(5) dL(7) by (simp add: unlink_heap_def g)
  next
    case (CN b' l' n' k' v' A B)
    have "crep h A" "crep h B" using rep CN by simp_all
    moreover have "set (cown A) \<subseteq> set (cown L) - {ABox (cbox L), ALock (clock L)}"
      "set (cown B) \<subseteq> set (cown L) - {ABox (cbox L), ALock (clock L)}" using CN dL(1) by auto
    ultimately have "crep ?h A" "crep ?h B" using sub by blast+
    moreover have "trees ?h n' = trees h n'" using dL(6) CN by (simp add: unlink_heap_def)
    ultimately show ?thesis using rep CN ne b(5) dL(7) by (auto simp: unlink_heap_def g)
  qed
  have kept: "lks ?h m \<noteq> None" if "ALock m \<in> set (cown t)" "m \<noteq> lq" "m \<noteq> clock L" for m
    using ginvD(4)[OF inv that(1)] that(2,3) by (simp add: unlink_heap_def g)
  show ?thesis
  proof (rule step_crepl[OF inv c, where s' = ?s' and ?k0.0 = x])
    show "crep ?h ?s'" by (rule rep')
    show "distinct (cown ?s')" by (rule distinct_rebox[OF dL(1-3)])
    show "cbst ?s'" using bst by simp
    show "a \<in> set (cown ?s) \<or> cfresh h \<le> caddr_no a" if "a \<in> set (cown ?s')" for a using that ow by auto
    show "z \<in> ckeys ?s \<or> b \<in> set (cpath t z)" if "z \<in> ckeys ?s'" for z using that by auto
    show "hsame h ?h a" if "a \<in> set (cown t)" "a \<notin> set (cown ?s)" for a
    proof -
      have "a \<noteq> ABox b" "a \<noteq> ABox q" "a \<noteq> ANode p" "a \<noteq> ABox (cbox L)" using that(2) cown_box(1)[of L] by auto
      then show ?thesis by (cases a) (simp_all add: unlink_heap_def)
    qed
    show "lks ?h m \<noteq> None" if "ALock m \<in> set (cown ?s')" for m
    proof -
      have "m \<noteq> lq" "m \<noteq> clock L" "ALock m \<in> set (cown t)" using that ow dL(5,8) ne(3) own by auto
      then show ?thesis using kept by blast
    qed
    show "lks ?h m \<noteq> None" if "ALock m \<in> set (cown t)" "ALock m \<notin> set (cown ?s)" for m
    proof -
      have "m \<noteq> lq" "m \<noteq> clock L" using that(2) cown_box(2)[of L] by auto
      then show ?thesis using kept that(1) by blast
    qed
    show "0 < cfresh ?h" using ginvD(5)[OF inv] by (simp add: unlink_heap_def)
    show "0 < a \<and> a < cfresh ?h" if "a \<in> dom (tgs ?h) \<union> dom (trees ?h) \<union> dom (lks ?h)" for a
    proof -
      have "a \<in> dom (tgs h) \<union> dom (trees h) \<union> dom (lks h)"
        using that b(2) by (auto simp: unlink_heap_def split: if_splits)
      from ginvD(6)[OF inv this] show ?thesis by (simp add: unlink_heap_def)
    qed
    show "holds ?h j m" if "j \<noteq> i" "holds h j m" for j m
      using that hold(1,3) by (auto simp: unlink_heap_def holds_def)
    show "tgs ?h e = Some g'" if "tgs h e = Some g'" "\<not> holds h i (tg_lock g')" for e g'
    proof -
      have "e \<noteq> b" "e \<noteq> q" "e \<noteq> cbox L" using that b(2,3) q hold by auto
      then show ?thesis using that(1) by (simp add: unlink_heap_def)
    qed
    show "e \<in> set (cpath ?s' k)" if "e \<in> set (cpath ?s k)" "tgs h e = Some g'" "\<not> holds h i (tg_lock g')" for e g' k
    proof -
      have "e \<noteq> b" "e \<noteq> q" "e \<noteq> cbox L" using that b(2,3) q hold by auto
      then show ?thesis using that(1) cpath_rebox[of e L k b lp] by (auto split: if_splits)
    qed
    show "n \<noteq> 0 \<and> (trees h n = None \<or> (\<exists>e g. ABox e \<in> set (cown t) \<and> tgs h e = Some g \<and> tg_t g = n \<and> holds h i (tg_lock g)))"
      if "trees ?h n \<noteq> trees h n" for n
    proof -
      have "n = p" using that by (simp add: unlink_heap_def split: if_splits)
      then show ?thesis using b cpath_own[OF b(1)] by (intro conjI disjI2 exI[of _ b] exI[of _ "\<lparr>tg_t = p, tg_lock = lp\<rparr>"]) simp_all
    qed
    show "tinv (crepl t b ?s') ?h i (Release lp 0)"
      using b(3) dL(8) ne(3) by (simp add: holds_def unlink_heap_def g)
    show "b \<in> set (cpath t x)" by (rule b(1))
    have "cmap (crepl t b ?s') = (cmap t)(x := None)"
    proof (rule cmap_crepl_upd[OF c ginvD(2)[OF inv] b(1)])
      fix k
      have "cmap L k = None" if "x \<le> k" using cmap_keys[of L k] bst that by fastforce
      then show "cmap ?s' k = ((cmap ?s)(x := None)) k" by auto
    qed
    then show "case commit (Unlink x b lp p q lq (cbox L)) (Release lp 0) of None \<Rightarrow> cmap (crepl t b ?s') = cmap t
      | Some (op, r) \<Rightarrow> cspec op (cmap t) = (r, cmap (crepl t b ?s'))" by (simp add: commit_def)
  qed simp_all
qed

lemma unlink_step_ok:
  assumes inv: "ginv t h" and ti: "tinv t h i (Unlink x b lp p q lq c)"
  shows "result_ok t h i (Unlink x b lp p q lq c) (thread_step i root h (Unlink x b lp p q lq c))"
proof -
  obtain nd g where o: "owns_at t h i x b lp p" "at_node h p nd" "t_key nd = x" "t_right nd = q" "t_left nd = c"
    "tgs h q = Some \<lparr>tg_t = 0, tg_lock = lq\<rparr>" "holds h i lq" "tgs h c = Some g" "holds h i (tg_lock g)" using ti by auto
  obtain v L R where s: "csub t b = Some (CN b lp p x v L R)"
    "nd = \<lparr>t_key = x, t_value = v, t_left = cbox L, t_right = cbox R\<rparr>" "crep h L" "crep h R"
    "tg_at h b = Inr \<lparr>tg_t = p, tg_lock = lp\<rparr>"
    by (rule owns_at_sub[OF inv o(1-3)])
  have eq: "cbox L = c" "cbox R = q" using s(2) o(4,5) by simp_all
  have R: "R = CL q lq" using s(4) o(6) eq(2) by (cases R) auto
  have d: "distinct (cown (CN b lp p x v L R))" by (rule csub_distinct[OF s(1) ginvD(2)[OF inv]])
  have ne: "b \<noteq> c" "q \<noteq> c" "lq \<noteq> tg_lock g" "tg_at h c = Inr g"
    using d R eq(1) tg_at_rep[OF s(3)] o(8) cown_box[of L] by auto
  have "push_unlink h i b lp p q lq c = Inr (unlink_heap h b lp p q lq c g, Release lp 0)"
    by (rule push_unlink_eq[OF ne(4) s(5) ne(1-3) o(7,9)])
      (use o(2,6) in \<open>simp_all add: at_node_def\<close>)
  moreover have "step_ok t h i (Unlink x b lp p q lq c) (unlink_heap h b lp p q lq c g) (Release lp 0)"
    using unlink_ok[OF inv o(1-3) s(1)[unfolded R] o(7)] o(8,9) eq(1) by simp
  ultimately show ?thesis by (simp add: now_def result_ok_def)
qed

section \<open>Every step\<close>

theorem thread_step_ok:
  assumes inv: "ginv t h" and root: "cbox t = root" and ti: "tinv t h i pc"
  shows "result_ok t h i pc (thread_step i root h pc)"
proof (cases pc)
  case (Start op)
  then show ?thesis using start_step_ok[OF inv root] by simp
next
  case (Body op b l p)
  then show ?thesis
    using ti insert_step_ok[OF inv] lookup_step_ok[OF inv] delete_step_ok[OF inv] by (cases op) metis+
next
  case (Hop op b lo)
  then show ?thesis using hop_step_ok[OF inv] ti by simp
next
  case (Rel op b lo l p)
  then show ?thesis using rel_step_ok[OF inv] ti by blast
next
  case (Push x b)
  then show ?thesis using push_head_ok[OF inv] ti by simp
next
  case (Pushed x b lp p q lq)
  then show ?thesis using pushed_step_ok[OF inv] ti by simp
next
  case (Unlink x b lp p q lq c)
  then show ?thesis using unlink_step_ok[OF inv] ti by blast
next
  case (PushRel x lp b)
  then show ?thesis using pushrel_step_ok[OF inv] ti by blast
next
  case (Release l r)
  then show ?thesis using release_step_ok[OF inv] ti by blast
next
  case (Finish r)
  then show ?thesis by (simp add: result_ok_def)
qed

section \<open>Executions\<close>

definition sinv :: "addr \<Rightarrow> ct \<Rightarrow> csys \<Rightarrow> bool" where
  "sinv root t s \<longleftrightarrow> ginv t (fst s) \<and> cbox t = root \<and> (\<forall>i pc. snd s i = Some pc \<longrightarrow> tinv t (fst s) i pc)"

lemma seq_ok_append: "seq_ok (evs @ evs') m = (case seq_ok evs m of None \<Rightarrow> None | Some m' \<Rightarrow> seq_ok evs' m')"
  by (induction evs m rule: seq_ok.induct) (auto split: option.splits)

inductive_cases csys_stepE: "csys_step root (h, P) e s'"

lemma csys_step_inv:
  assumes "csys_step root s e s'" and "sinv root t s"
  shows "\<exists>t'. sinv root t' s' \<and> (case e of None \<Rightarrow> cmap t' = cmap t | Some (op, r) \<Rightarrow> cspec op (cmap t) = (r, cmap t'))"
  using assms
proof (induction rule: csys_step.induct)
  case (cs_start P i root h op)
  then show ?case by (intro exI[of _ t]) (auto simp: sinv_def)
next
  case (cs_step P i pc root h h' pc')
  have inv: "ginv t h" "cbox t = root" and ti: "P j = Some q \<Longrightarrow> tinv t h j q" for j q
    using cs_step.prems by (auto simp: sinv_def)
  have "step_ok t h i pc h' pc'"
    using thread_step_ok[OF inv ti[OF cs_step.hyps(1)]] cs_step.hyps(2) by (simp add: result_ok_def)
  then obtain t' where t': "ginv t' h'" "cbox t' = cbox t" "tinv t' h' i pc'" "cframe i t h t' h'"
    "case commit pc pc' of None \<Rightarrow> cmap t' = cmap t | Some (op, r) \<Rightarrow> cspec op (cmap t) = (r, cmap t')"
    unfolding step_ok_def by (elim exE conjE) (rule that)
  have "tinv t' h' j q" if "(P(i \<mapsto> pc')) j = Some q" for j q
  proof (cases "j = i")
    case True
    then show ?thesis using that t'(3) by simp
  next
    case False
    then show ?thesis using that ti[of j q] tinv_frame[OF _ t'(4) False] by simp
  qed
  then have "sinv root t' (h', P(i \<mapsto> pc'))" using t'(1,2) inv(2) by (simp add: sinv_def)
  then show ?case using t'(5) by blast
qed

lemma csys_run_inv:
  assumes "csys_run root s evs s'" and "sinv root t s"
  shows "\<exists>t'. sinv root t' s' \<and> seq_ok evs (cmap t) = Some (cmap t')"
  using assms
proof (induction rule: csys_run.induct)
  case (cr_refl root s)
  then show ?case by auto
next
  case (cr_step root s evs s' e s'')
  then obtain t1 where t1: "sinv root t1 s'" "seq_ok evs (cmap t) = Some (cmap t1)" by blast
  obtain t2 where "sinv root t2 s''" "case e of None \<Rightarrow> cmap t2 = cmap t1 | Some (op, r) \<Rightarrow> cspec op (cmap t1) = (r, cmap t2)"
    using csys_step_inv[OF cr_step.hyps(2) t1(1)] by blast
  then show ?case using t1(2)
    by (intro exI[of _ t2], cases e) (auto simp: seq_ok_append prod_eq_iff)
qed

text \<open>A new treebox.\<close>

definition cheap_ok :: "cheap \<Rightarrow> bool" where
  "cheap_ok h \<longleftrightarrow> 0 < cfresh h \<and> (\<forall>a \<in> dom (tgs h) \<union> dom (trees h) \<union> dom (lks h). 0 < a \<and> a < cfresh h)"

lemma treebox_new_inv:
  assumes "cheap_ok h" and "treebox_new h i = Inr (b, h')"
  shows "b \<noteq> 0 \<and> (\<exists>root l. tbs h' b = Some root \<and> sinv root (CL root l) (h', \<lambda>_. None))"
proof -
  have m: "3 \<le> cmem h"
  proof (rule ccontr)
    assume "\<not> 3 \<le> cmem h"
    then have "cmem h = 0 \<or> cmem h = 1 \<or> cmem h = 2" by linarith
    then show False using assms(2) by (elim disjE) (simp_all add: treebox_new_def surely_malloc_c_def)
  qed
  then obtain n where n: "cmem h = Suc (Suc (Suc n))" using that[of "cmem h - 3"] by simp
  let ?f = "cfresh h"
  have h': "b = ?f" "h' = h\<lparr>lks := (lks h)(?f + 2 \<mapsto> None), tbs := (tbs h)(?f \<mapsto> ?f + 1), cfresh := ?f + 3, cmem := n,
      tgs := (tgs h)(?f + 1 \<mapsto> \<lparr>tg_t = 0, tg_lock = ?f + 2\<rparr>)\<rparr>"
    using assms(2) n
    by (auto simp: treebox_new_def surely_malloc_c_def release2_def makelock_def set_tg_def Let_def eval_nat_numeral)
  have "0 < a \<and> a < ?f + 3" if "a \<in> dom (tgs h') \<union> dom (trees h') \<union> dom (lks h')" for a
  proof -
    have "a \<in> dom (tgs h) \<union> dom (trees h) \<union> dom (lks h) \<or> a = ?f + 1 \<or> a = ?f + 2"
      using that by (auto simp: h'(2) split: if_splits)
    then show ?thesis
    proof (elim disjE)
      assume "a \<in> dom (tgs h) \<union> dom (trees h) \<union> dom (lks h)"
      then have "0 < a \<and> a < ?f" using assms(1) by (simp only: cheap_ok_def)
      then show ?thesis by simp
    qed simp_all
  qed
  then have "ginv (CL (?f + 1) (?f + 2)) h'" by (simp add: ginv_def h'(2))
  moreover have "b \<noteq> 0" using assms(1) h'(1) by (simp add: cheap_ok_def)
  ultimately show ?thesis using h' by (intro conjI exI[of _ "?f + 1"] exI[of _ "?f + 2"]) (simp_all add: sinv_def)
qed

text \<open>Two rules that build executions.\<close>

lemma run_start:
  assumes "csys_run root s evs (h, P)" and "idle (P i)"
  shows "csys_run root s evs (h, P(i \<mapsto> Start op))"
  using cr_step[OF assms(1) cs_start[where P = P and i = i, OF assms(2)], of op] by simp

lemma run_step:
  assumes "csys_run root s evs (h, P)" and "P i = Some pc" and "thread_step i root h pc = Inr (Some (h', pc'))"
  shows "csys_run root s (evs @ (case commit pc pc' of None \<Rightarrow> [] | Some x \<Rightarrow> [x])) (h', P(i \<mapsto> pc'))"
  by (rule cr_step[OF assms(1) cs_step[where P = P and i = i, OF assms(2,3)]])

end
