(* ===== verification/Bst_Progress.thy ===== *)
theory Bst_Progress
  imports Bst_Lin
begin

text \<open>
  The concurrent tree does not deadlock: a thread that waits stands right above the box it waits
  for, so the lowest of the waiting threads waits for one that can go on. The proof needs to know
  which locks a thread holds, from its program counter.
\<close>

section \<open>The locks that a thread holds\<close>

definition lock_of :: "cheap \<Rightarrow> addr \<Rightarrow> addr option" where
  "lock_of h b = map_option tg_lock (tgs h b)"

fun locked :: "cheap \<Rightarrow> pc \<Rightarrow> addr \<Rightarrow> bool" where
  "locked h (Start op) m \<longleftrightarrow> False"
| "locked h (Body op b l p) m \<longleftrightarrow> m = l"
| "locked h (Hop op b lo) m \<longleftrightarrow> m = lo"
| "locked h (Rel op b lo l p) m \<longleftrightarrow> m = lo \<or> m = l"
| "locked h (Push x b) m \<longleftrightarrow> lock_of h b = Some m"
| "locked h (Pushed x b lp p q lq) m \<longleftrightarrow> m = lp \<or> m = lq"
| "locked h (Unlink x b lp p q lq c) m \<longleftrightarrow> m = lp \<or> m = lq \<or> lock_of h c = Some m"
| "locked h (PushRel x lp b) m \<longleftrightarrow> m = lp \<or> lock_of h b = Some m"
| "locked h (Release l r) m \<longleftrightarrow> m = l"
| "locked h (Finish r) m \<longleftrightarrow> False"

lemma wait_Some:
  assumes "wait (acquire h i l) f = Inr (Some (h', pc'))"
  shows "lks h l = Some None \<and> f (h\<lparr>lks := (lks h)(l \<mapsto> Some i)\<rparr>) = Inr (h', pc')"
  using assms by (auto simp: wait_def acquire_def elim!: rbind_InrE split: option.splits)

lemma now_Some: "now r = Inr (Some x) \<longleftrightarrow> r = Inr x"
  by (auto simp: now_def elim!: rbind_InrE)

lemma release_Some:
  assumes "now (rbind (release2 h i l) (\<lambda>h1. Inr (h1, pc1))) = Inr (Some (h', pc'))"
  shows "h' = h\<lparr>lks := (lks h)(l \<mapsto> None)\<rparr> \<and> pc' = pc1"
  using assms by (auto simp: now_Some release2_def elim!: rbind_InrE split: if_splits)

lemma tg_at_Inr: "tg_at h b = Inr g \<longleftrightarrow> b \<noteq> 0 \<and> tgs h b = Some g"
  by (auto simp: tg_at_def split: option.splits)

definition keeps :: "tid \<Rightarrow> cheap \<Rightarrow> cheap \<Rightarrow> bool" where
  "keeps i h h' \<longleftrightarrow> (\<forall>j m. j \<noteq> i \<longrightarrow> holds h' j m \<longrightarrow> holds h j m)"

lemma insert_body_held:
  assumes "insert_body h i x v b l = Inr (h', pc')"
  shows "(\<forall>j m. holds h' j m \<longrightarrow> holds h j m) \<and> (pc' = Release l 0 \<or> (\<exists>c. pc' = Hop (Insert x v) c l))"
  using assms
  by (auto simp: insert_body_def Let_def surely_malloc_c_def release2_def makelock_def set_tg_def set_tree_def holds_def
      elim!: rbind_InrE split: if_splits)

lemma body_held:
  assumes "thread_step i root h (Body op b l p) = Inr (Some (h', pc'))"
  shows "(\<forall>j m. holds h' j m \<longrightarrow> holds h j m) \<and>
    ((\<exists>r. pc' = Release l r) \<or> (\<exists>c. pc' = Hop op c l) \<or> (\<exists>x. pc' = Push x b \<and> (lock_of h b = Some l \<longrightarrow> lock_of h' b = Some l)))"
proof (cases op)
  case (Insert x v)
  then show ?thesis using assms insert_body_held[of h i x v b l h' pc'] by (auto simp: now_Some)
next
  case (Lookup x)
  then show ?thesis using assms
    by (auto simp: now_Some lookup_body_def Let_def elim!: rbind_InrE split: if_splits option.splits)
next
  case (Delete x)
  then have "h' = h \<and> (pc' = Release l 0 \<or> (\<exists>c. pc' = Hop op c l) \<or> pc' = Push x b)"
    using assms by (auto simp: now_Some delete_body_def Let_def elim!: rbind_InrE split: if_splits)
  then show ?thesis by blast
qed

lemma turn_left_lks: "turn_left h a b = Inr h' \<Longrightarrow> lks h' = lks h"
  by (auto simp: turn_left_def Let_def set_tree_def set_tg_def elim!: rbind_InrE)

lemma push_unlink_held:
  assumes "push_unlink h i b lp p q lq c = Inr (h', pc')" and "tgs h c = Some g"
  shows "lks h' = (lks h)(lq := None, tg_lock g := None) \<and> pc' = Release lp 0"
  using assms
  by (auto simp: push_unlink_def Let_def set_tg_def free_tree_def free_tg_def freelock2_def tg_at_Inr
      elim!: rbind_InrE split: if_splits)

lemma held_step:
  assumes step: "thread_step i root h pc = Inr (Some (h', pc'))"
    and ti: "tinv t h i pc" and ti': "tinv t' h' i pc'"
    and held: "\<And>m. holds h i m \<Longrightarrow> locked h pc m"
  shows "keeps i h h' \<and> (\<forall>m. holds h' i m \<longrightarrow> locked h' pc' m)"
proof (cases pc)
  case (Start op)
  then show ?thesis using step held
    by (auto simp: start_step_def Let_def keeps_def holds_def elim!: rbind_InrE dest!: wait_Some split: if_splits)
next
  case (Body op b l p)
  obtain n where "owns_at t h i (op_key op) b l n" using ti Body by auto
  then have "lock_of h b = Some l" by (simp add: owns_at_def lock_of_def)
  moreover note b = body_held[OF step[unfolded Body]]
  moreover have "m = l" if "holds h' i m" for m using b held[of m] that Body by simp
  ultimately show ?thesis by (auto simp: keeps_def)
next
  case (Hop op b lo)
  then show ?thesis using step held
    by (auto simp: hop_step_def Let_def keeps_def holds_def elim!: rbind_InrE dest!: wait_Some split: if_splits)
next
  case (Rel op b lo l p)
  then show ?thesis using step held
    by (auto simp: keeps_def holds_def dest!: release_Some split: if_splits) blast
next
  case (Push x b)
  then show ?thesis using step held
    by (auto simp: push_head_def Let_def keeps_def holds_def lock_of_def tg_at_Inr elim!: rbind_InrE dest!: wait_Some split: if_splits)
next
  case (Pushed x b lp p q lq)
  obtain gq where gq: "tg_at h q = Inr gq" using step Pushed by (auto simp: push_body_def elim: rbind_InrE)
  show ?thesis
  proof (cases "tg_t gq = 0")
    case True
    then show ?thesis using step held gq Pushed
      by (auto simp: push_body_def Let_def keeps_def holds_def lock_of_def tg_at_Inr elim!: rbind_InrE dest!: wait_Some split: if_splits)
  next
    case False
    then obtain h1 n where h1: "turn_left h b q = Inr h1" "tree_at h1 (tg_t gq) = Inr n" "h' = h1" "pc' = PushRel x lp (t_left n)"
      using step gq Pushed by (auto simp: push_body_def Let_def elim!: rbind_InrE)
    have same: "holds h' j m \<longleftrightarrow> holds h j m" for j m using turn_left_lks[OF h1(1)] h1(3) by (simp add: holds_def)
    obtain l r nd where o: "owns_at t' h' i x (t_left n) l r" "lp \<noteq> l" using ti' h1(4) by auto
    have l: "lock_of h' (t_left n) = Some l" "holds h i l" using o(1) same by (simp_all add: owns_at_def lock_of_def)
    then have "l = lq" using held[OF l(2)] o(2) Pushed by simp
    then show ?thesis using held same l(1) Pushed h1(4) by (auto simp: keeps_def)
  qed
next
  case (Unlink x b lp p q lq c)
  obtain g where g: "tgs h c = Some g" using ti Unlink by auto
  then show ?thesis using step held push_unlink_held[of h i b lp p q lq c h' pc' g] Unlink
    by (auto simp: now_Some keeps_def holds_def lock_of_def split: if_splits)
next
  case (PushRel x lp b)
  then show ?thesis using step held
    by (auto simp: keeps_def holds_def lock_of_def dest!: release_Some split: if_splits) blast
next
  case (Release l r)
  then show ?thesis using step held
    by (auto simp: keeps_def holds_def dest!: release_Some split: if_splits)
next
  case (Finish r)
  then show ?thesis using step by simp
qed


lemma locked_frame:
  assumes "tinv t h j pc" and "cframe i t h t' h'" and "j \<noteq> i" and "locked h pc m"
  shows "locked h' pc m"
proof -
  have keep: "lock_of h' b = Some m" if "lock_of h b = Some m" "tgs h b = Some g" "holds h j (tg_lock g)" for b g
    using assms(2,3) that by (auto simp: cframe_def lock_of_def)
  show ?thesis
    using assms(1,4) keep by (cases pc) (auto simp: owns_at_def)
qed

section \<open>Executions\<close>

definition held_ok :: "csys \<Rightarrow> bool" where
  "held_ok s \<longleftrightarrow> (\<forall>i m. holds (fst s) i m \<longrightarrow> (\<exists>pc. snd s i = Some pc \<and> locked (fst s) pc m))"

lemma csys_step_held:
  assumes "csys_step root s e s'" and "sinv root t s" and "held_ok s"
  shows "held_ok s'"
  using assms
proof (induction rule: csys_step.induct)
  case (cs_start P i root h op)
  have free: "\<not> holds h i m" for m
  proof
    assume "holds h i m"
    then obtain pc where "P i = Some pc" "locked h pc m" using cs_start.prems(2) by (auto simp: held_ok_def)
    then show False using cs_start.hyps by (cases pc) (simp_all add: idle_def)
  qed
  then show ?case using cs_start.prems(2) by (auto simp: held_ok_def)
next
  case (cs_step P i pc root h h' pc')
  have inv: "ginv t h" "cbox t = root" and ti: "P j = Some q \<Longrightarrow> tinv t h j q" for j q
    using cs_step.prems by (auto simp: sinv_def)
  have "step_ok t h i pc h' pc'"
    using thread_step_ok[OF inv ti[OF cs_step.hyps(1)]] cs_step.hyps(2) by (simp add: result_ok_def)
  then obtain t' where t': "tinv t' h' i pc'" "cframe i t h t' h'"
    unfolding step_ok_def by (elim exE conjE) (rule that)
  have "locked h pc m" if "holds h i m" for m
  proof -
    have "\<exists>q. P i = Some q \<and> locked h q m" using cs_step.prems(2)[unfolded held_ok_def fst_conv snd_conv] that by blast
    then show ?thesis using cs_step.hyps(1) by simp
  qed
  note st = held_step[OF cs_step.hyps(2) ti[OF cs_step.hyps(1)] t'(1) this]
  show ?case
    unfolding held_ok_def fst_conv snd_conv
  proof (intro allI impI)
    fix j m assume h: "holds h' j m"
    show "\<exists>q. (P(i \<mapsto> pc')) j = Some q \<and> locked h' q m"
    proof (cases "j = i")
      case True
      then show ?thesis using st h by auto
    next
      case False
      then have "holds h j m" using st h by (simp add: keeps_def)
      then obtain q where q: "P j = Some q" "locked h q m" using cs_step.prems(2) by (auto simp: held_ok_def)
      then show ?thesis using locked_frame[OF ti[OF q(1)] t'(2) False q(2)] False by auto
    qed
  qed
qed

lemma csys_run_held:
  assumes "csys_run root s evs s'" and "sinv root t s" and "held_ok s"
  shows "\<exists>t'. sinv root t' s' \<and> held_ok s'"
  using assms
proof (induction rule: csys_run.induct)
  case (cr_step root s evs s' e s'')
  then obtain t1 where t1: "sinv root t1 s'" "held_ok s'" by blast
  then show ?case using csys_step_inv[OF cr_step.hyps(2) t1(1)] csys_step_held[OF cr_step.hyps(2) t1] by blast
qed auto

section \<open>Waiting\<close>

definition child_of :: "ct \<Rightarrow> addr \<Rightarrow> ct \<Rightarrow> bool" where
  "child_of t b C \<longleftrightarrow> (\<exists>l n k v L R. csub t b = Some (CN b l n k v L R) \<and> (C = L \<or> C = R))"

lemma csub_self: "csub t (cbox t) = Some t"
  by (cases t) auto

lemma csub_trans:
  assumes "csub t b = Some s" and "csub s c = Some u" and "distinct (cown t)"
  shows "csub t c = Some u"
  using assms
proof (induction t)
  case (CN b' l n k v L R)
  show ?case
  proof (cases "b = b'")
    case True
    then show ?thesis using CN.prems by simp
  next
    case False
    from CN.prems(1,3) False show ?thesis
    proof (cases rule: csub_cases)
      case left
      have "csub L c = Some u" using CN.IH(1)[OF left(1) CN.prems(2)] CN.prems(3) by simp
      moreover have "ABox c \<in> set (cown L)" using calculation by (simp add: csub_own)
      ultimately show ?thesis using CN.prems(3) by auto
    next
      case right
      have u: "csub R c = Some u" using CN.IH(2)[OF right(2) CN.prems(2)] CN.prems(3) by simp
      then have "ABox c \<in> set (cown R)" by (simp add: csub_own)
      then have "ABox c \<notin> set (cown L)" "c \<noteq> b'" using CN.prems(3) by auto
      then show ?thesis using u by (simp add: csub_own)
    qed
  qed
qed (auto split: if_splits)

lemma child_of_sub:
  assumes "child_of t b C" and "distinct (cown t)"
  shows "csub t (cbox C) = Some C" "\<exists>s. csub t b = Some s \<and> size C < size s"
proof -
  obtain l n k v L R where c: "csub t b = Some (CN b l n k v L R)" "C = L \<or> C = R"
    using assms(1) by (auto simp: child_of_def)
  note d = csub_distinct[OF c(1) assms(2)]
  have in_sub: "csub (CN b l n k v L R) (cbox C) = Some C"
  proof (cases "C = L")
    case True
    have "ABox (cbox L) \<in> set (cown L)" by simp
    then have "cbox L \<noteq> b" using d by auto
    then show ?thesis using True csub_self[of L] by simp
  next
    case False
    then have R: "C = R" using c(2) by simp
    have "ABox (cbox R) \<in> set (cown R)" by simp
    then have "cbox R \<noteq> b" "ABox (cbox R) \<notin> set (cown L)" using d by auto
    then show ?thesis using R csub_self[of R] by (simp add: csub_own)
  qed
  show "csub t (cbox C) = Some C" by (rule csub_trans[OF c(1) in_sub assms(2)])
  show "\<exists>s. csub t b = Some s \<and> size C < size s" using c by auto
qed


lemma csub_size: "csub t b = Some s \<Longrightarrow> size s \<le> size t"
proof (induction t)
  case (CN b' l n k v L R)
  show ?case
  proof (cases "b = b'")
    case False
    then have "csub L b = Some s \<or> csub R b = Some s" using CN.prems by (cases "csub L b") simp_all
    then have "size s \<le> size L \<or> size s \<le> size R" using CN.IH by blast
    then show ?thesis by (elim disjE) simp_all
  qed (use CN.prems in simp)
qed (auto split: if_splits)

lemma child_not_root:
  assumes "child_of t b C" and "distinct (cown t)"
  shows "cbox C \<noteq> cbox t"
proof
  assume e: "cbox C = cbox t"
  have "csub t (cbox t) = Some C" using child_of_sub(1)[OF assms] unfolding e .
  then have C: "C = t" unfolding csub_self by (rule option.inject[THEN iffD1, symmetric])
  obtain s where s: "csub t b = Some s" "size C < size s" using child_of_sub(2)[OF assms] by blast
  have "size s \<le> size t" by (rule csub_size[OF s(1)])
  with s(2) show False unfolding C by (rule leD[THEN notE, rotated])
qed

lemma child_cases:
  assumes "child_of (CN b0 l n k v L R) b C" and "distinct (cown (CN b0 l n k v L R))"
  shows "b = b0 \<and> (C = L \<or> C = R) \<or> child_of L b C \<or> child_of R b C"
proof (cases "b = b0")
  case True
  then show ?thesis using assms(1) by (auto simp: child_of_def)
next
  case False
  obtain l' n' k' v' L' R' where c: "csub (CN b0 l n k v L R) b = Some (CN b l' n' k' v' L' R')" "C = L' \<or> C = R'"
    using assms(1) unfolding child_of_def by (elim exE conjE) (rule that)
  show ?thesis
    using c(1) assms(2) False by (cases rule: csub_cases) (use c(2) in \<open>auto simp: child_of_def\<close>)
qed

lemma child_in: "child_of t b C \<Longrightarrow> distinct (cown t) \<Longrightarrow> ABox (cbox C) \<in> set (cown t)"
  using child_of_sub(1)[of t b C] by (simp add: csub_own)

lemma parent_unique:
  assumes "child_of t b C" "child_of t b' C'" "cbox C = cbox C'" "distinct (cown t)"
  shows "b = b'"
  using assms
proof (induction t)
  case (CL b0 l)
  then show ?case by (auto simp: child_of_def split: if_splits)
next
  case (CN b0 l n k v L R)
  have d: "distinct (cown L)" "distinct (cown R)" "a \<in> set (cown L) \<Longrightarrow> a \<notin> set (cown R)" for a
    using CN.prems(4) by auto
  have inL: "ABox (cbox D) \<in> set (cown L) \<and> cbox D \<noteq> cbox L" if "child_of L e D" for e D
    using child_in[OF that d(1)] child_not_root[OF that d(1)] by simp
  have inR: "ABox (cbox D) \<in> set (cown R) \<and> cbox D \<noteq> cbox R" if "child_of R e D" for e D
    using child_in[OF that d(2)] child_not_root[OF that d(2)] by simp
  have roots: "ABox (cbox L) \<in> set (cown L)" "ABox (cbox R) \<in> set (cown R)" by simp_all
  note c = child_cases[OF CN.prems(1,4)] and c' = child_cases[OF CN.prems(2,4)]
  from c show ?case
  proof (elim disjE)
    assume t: "b = b0 \<and> (C = L \<or> C = R)"
    have False if "child_of L b' C'"
      using inL[OF that] t CN.prems(3) roots d(3)[of "ABox (cbox C')"] by (elim conjE disjE) simp_all
    moreover have False if "child_of R b' C'"
      using inR[OF that] t CN.prems(3) roots d(3)[of "ABox (cbox C')"] by (elim conjE disjE) simp_all
    ultimately show ?thesis using c' t by blast
  next
    assume t: "child_of L b C"
    from c' show ?thesis
    proof (elim disjE)
      assume "child_of L b' C'"
      then show ?thesis using CN.IH(1)[OF t _ CN.prems(3) d(1)] by simp
    qed (use inL[OF t] inR[of b' C'] roots d(3)[of "ABox (cbox C')"] CN.prems(3) in auto)
  next
    assume t: "child_of R b C"
    from c' show ?thesis
    proof (elim disjE)
      assume "child_of R b' C'"
      then show ?thesis using CN.IH(2)[OF t _ CN.prems(3) d(2)] by simp
    qed (use inR[OF t] inL[of b' C'] roots d(3)[of "ABox (cbox C')"] CN.prems(3) in auto)
  qed
qed

lemma clock_unique:
  assumes "csub t b = Some s" "csub t b' = Some s'" "clock s = clock s'" "distinct (cown t)"
  shows "s = s'"
  using assms
proof (induction t)
  case (CL b0 l)
  then show ?case by (auto split: if_splits)
next
  case (CN b0 l n k v L R)
  have out: "clock u \<noteq> l" if "csub L e = Some u \<or> csub R e = Some u" for e u
  proof -
    have "ALock (clock u) \<in> set (cown L) \<union> set (cown R)"
      using that csub_cown[of L e u] csub_cown[of R e u] cown_box(2)[of u] by blast
    then show ?thesis using CN.prems(4) by auto
  qed
  have apart: False if "csub L e = Some u" "csub R e' = Some u'" "clock u = clock u'" for e e' u u'
  proof -
    have "ALock (clock u) \<in> set (cown L)" "ALock (clock u) \<in> set (cown R)"
      using csub_cown[OF that(1)] csub_cown[OF that(2)] cown_box(2)[of u] cown_box(2)[of u'] that(3) by auto
    then show False using CN.prems(4) by auto
  qed
  have d: "distinct (cown L)" "distinct (cown R)" using CN.prems(4) by auto
  show ?case
  proof (cases "b = b0"; cases "b' = b0")
    assume "b = b0" "b' = b0"
    then show ?thesis using CN.prems(1,2) by (metis csub.simps(2) option.inject)
  next
    assume e: "b = b0" "b' \<noteq> b0"
    from CN.prems(2,4) e(2) show ?thesis by (cases rule: csub_cases) (use e(1) CN.prems(1,3) out[of b' s'] in auto)
  next
    assume e: "b \<noteq> b0" "b' = b0"
    from CN.prems(1,4) e(1) show ?thesis by (cases rule: csub_cases) (use e(2) CN.prems(2,3) out[of b s] in auto)
  next
    assume e: "b \<noteq> b0" "b' \<noteq> b0"
    from CN.prems(1,4) e(1) show ?thesis
    proof (cases rule: csub_cases)
      case left
      from CN.prems(2,4) e(2) show ?thesis
        by (cases rule: csub_cases) (use left CN.IH(1)[OF left(1) _ CN.prems(3) d(1)] apart CN.prems(3) in blast)+
    next
      case right
      from CN.prems(2,4) e(2) show ?thesis
        by (cases rule: csub_cases) (use right CN.IH(2)[OF right(2) _ CN.prems(3) d(2)] apart[OF _ right(2)] CN.prems(3) in \<open>metis\<close>)+
    qed
  qed
qed

section \<open>No deadlock\<close>

lemma wait_None: "wait (acquire h i l) f = Inr None \<Longrightarrow> \<exists>j. holds h j l"
  by (auto simp: wait_def acquire_def holds_def elim!: rbind_InrE split: option.splits)

text \<open>
  A waiting thread that has started: it stands at the box \<open>b\<close>, whose lock it holds, and waits for the
  child \<open>C\<close> of it. It holds no other lock than that of \<open>b\<close> and of another child of \<open>b\<close>.
\<close>

definition waits_at :: "ct \<Rightarrow> cheap \<Rightarrow> tid \<Rightarrow> pc \<Rightarrow> addr \<Rightarrow> ct \<Rightarrow> bool" where
  "waits_at t h i pc b C \<longleftrightarrow> child_of t b C \<and> (\<exists>j. holds h j (clock C)) \<and> \<not> locked h pc (clock C) \<and>
     (\<exists>s. csub t b = Some s \<and> holds h i (clock s) \<and>
       (\<forall>m. locked h pc m \<longrightarrow> m = clock s \<or> (\<exists>D. child_of t b D \<and> m = clock D)))"

lemma waits_atI:
  assumes "csub t b = Some (CN b l n k v L R)" "distinct (cown t)" "C = L \<or> C = R" "holds h i l" "holds h j (clock C)"
    "\<And>m. locked h pc m \<Longrightarrow> m = l \<or> C = L \<and> m = clock R"
  shows "waits_at t h i pc b C"
proof -
  note d = csub_distinct[OF assms(1,2)]
  have "ALock l \<notin> set (cown L)" "ALock l \<notin> set (cown R)" "a \<in> set (cown L) \<Longrightarrow> a \<notin> set (cown R)" for a
    using d by auto
  then have "l \<noteq> clock L" "l \<noteq> clock R" "clock L \<noteq> clock R" by (metis cown_box(2))+
  then have "\<not> locked h pc (clock C)" using assms(3,6) by metis
  moreover have "child_of t b L" "child_of t b R" using assms(1) by (auto simp: child_of_def)
  ultimately show ?thesis using assms unfolding waits_at_def by (metis ct.sel(4))
qed

lemma blocked_cases:
  assumes inv: "ginv t h" and root: "cbox t = root" and ti: "tinv t h i pc"
    and "thread_step i root h pc = Inr None" and "\<not> idle (Some pc)"
  shows "(\<exists>op j. pc = Start op \<and> holds h j (clock t)) \<or> (\<exists>b C. waits_at t h i pc b C)"
proof (cases pc)
  case (Start op)
  obtain g where g: "tg_at h root = Inr g" "tg_lock g = clock t"
    using tg_at_rep[OF ginvD(1)[OF inv]] root by auto
  then have "\<exists>j. holds h j (clock t)"
    using assms(4) Start wait_None[of h i "clock t"] by (auto simp: start_step_def Let_def)
  then show ?thesis using Start by blast
next
  case (Body op b l p)
  then show ?thesis using assms(4) by (auto simp: now_def elim!: rbind_InrE split: cop.splits option.splits)
next
  case (Hop op b lo)
  obtain ob n nd where o: "owns_at t h i (op_key op) ob lo n" "at_node h n nd"
    "op_key op < t_key nd \<and> b = t_left nd \<or> t_key nd < op_key op \<and> b = t_right nd"
    using ti Hop by auto
  obtain v L R where c: "csub t ob = Some (CN ob lo n (t_key nd) v L R)"
    "nd = \<lparr>t_key = t_key nd, t_value = v, t_left = cbox L, t_right = cbox R\<rparr>" "crep h L" "crep h R"
    by (rule owns_at_child[OF inv o(1,2)])
  have lr: "t_left nd = cbox L" "t_right nd = cbox R" by (subst c(2), simp)+
  obtain C where C: "C = L \<or> C = R" "cbox C = b" "crep h C" using o(3) lr c(3,4) by auto
  obtain g where g: "tg_at h b = Inr g" "tg_lock g = clock C" using tg_at_rep[OF C(3)] C(2) by auto
  obtain j where "holds h j (clock C)"
    using assms(4) Hop g wait_None[of h i "clock C"] by (auto simp: hop_step_def Let_def)
  then have "waits_at t h i pc ob C"
    using o(1) Hop by (intro waits_atI[OF c(1) ginvD(2)[OF inv] C(1)]) (auto simp: owns_at_def)
  then show ?thesis by blast
next
  case (Push x b)
  obtain lp p nd where o: "owns_at t h i x b lp p" "at_node h p nd" "t_key nd = x" using ti Push by auto
  obtain v L R where c: "csub t b = Some (CN b lp p x v L R)"
    "nd = \<lparr>t_key = x, t_value = v, t_left = cbox L, t_right = cbox R\<rparr>" "crep h R"
    "tg_at h b = Inr \<lparr>tg_t = p, tg_lock = lp\<rparr>" "tree_at h p = Inr nd"
    by (rule owns_at_sub[OF inv o])
  obtain g where g: "tg_at h (cbox R) = Inr g" "tg_lock g = clock R" using tg_at_rep[OF c(3)] by auto
  obtain j where "holds h j (clock R)"
    using assms(4) Push g c(2,4,5) wait_None[of h i "clock R"] by (auto simp: push_head_def Let_def)
  then have "waits_at t h i pc b R"
    using o(1) Push by (intro waits_atI[OF c(1) ginvD(2)[OF inv]]) (auto simp: owns_at_def lock_of_def)
  then show ?thesis by blast
next
  case (Pushed x b lp p q lq)
  obtain nd g where o: "owns_at t h i x b lp p" "at_node h p nd" "t_key nd = x" "t_right nd = q"
    "tgs h q = Some g" "tg_lock g = lq" using ti Pushed by auto
  obtain v L R where c: "csub t b = Some (CN b lp p x v L R)"
    "nd = \<lparr>t_key = x, t_value = v, t_left = cbox L, t_right = cbox R\<rparr>" "crep h L" "crep h R" "tree_at h p = Inr nd"
    by (rule owns_at_sub[OF inv o(1-3)])
  obtain gq where gq: "tg_at h q = Inr gq" "tg_lock gq = clock R" "gq = g"
    using tg_at_rep[OF c(4)] c(2) o(4,5) by auto
  obtain gl where gl: "tg_at h (cbox L) = Inr gl" "tg_lock gl = clock L" using tg_at_rep[OF c(3)] by auto
  have "tg_t gq = 0" using assms(4) Pushed gq(1) by (auto simp: push_body_def Let_def elim!: rbind_InrE split: if_splits)
  then obtain j where "holds h j (clock L)"
    using assms(4) Pushed gq(1) gl c(2,5) wait_None[of h i "clock L"] by (auto simp: push_body_def Let_def)
  then have "waits_at t h i pc b L"
    using o(1,6) gq Pushed by (intro waits_atI[OF c(1) ginvD(2)[OF inv]]) (auto simp: owns_at_def)
  then show ?thesis by blast
next
  case (Finish r)
  then show ?thesis using assms(5) by (simp add: idle_def)
qed (use assms(4) in \<open>auto simp: now_def elim!: rbind_InrE\<close>)

definition blocked :: "addr \<Rightarrow> csys \<Rightarrow> tid \<Rightarrow> bool" where
  "blocked root s i \<longleftrightarrow> (\<exists>pc. snd s i = Some pc \<and> \<not> idle (Some pc) \<and> thread_step i root (fst s) pc = Inr None)"

definition can_go :: "addr \<Rightarrow> csys \<Rightarrow> tid \<Rightarrow> bool" where
  "can_go root s i \<longleftrightarrow> (\<exists>pc. snd s i = Some pc \<and> \<not> idle (Some pc) \<and> thread_step i root (fst s) pc \<noteq> Inr None)"

lemma lock_holder:
  assumes "held_ok s" and "holds (fst s) j m"
  shows "\<exists>pc. snd s j = Some pc \<and> locked (fst s) pc m \<and> \<not> idle (Some pc) \<and> (\<forall>op. pc \<noteq> Start op)"
proof -
  obtain pc where "snd s j = Some pc" "locked (fst s) pc m" using assms unfolding held_ok_def by blast
  then show ?thesis by (cases pc) (simp_all add: idle_def)
qed

lemma waiter_progress:
  assumes inv: "sinv root t s" "held_ok s"
  shows "snd s i = Some pc \<Longrightarrow> waits_at t (fst s) i pc b C \<Longrightarrow> csub t b = Some u \<Longrightarrow> \<exists>j. can_go root s j"
proof (induction "size u" arbitrary: i pc b C u rule: less_induct)
  case less
  have g: "ginv t (fst s)" "cbox t = root" and ti: "snd s k = Some q \<Longrightarrow> tinv t (fst s) k q" for k q
    using inv(1) by (auto simp: sinv_def)
  note d = ginvD(2)[OF g(1)]
  have w: "child_of t b C" "\<not> locked (fst s) pc (clock C)" "holds (fst s) i (clock u)"
    and ex: "\<exists>j. holds (fst s) j (clock C)" using less.prems(2,3) unfolding waits_at_def by auto
  from ex obtain j where j: "holds (fst s) j (clock C)" by blast
  obtain q where q: "snd s j = Some q" "locked (fst s) q (clock C)" "\<not> idle (Some q)" "\<And>op. q \<noteq> Start op"
    using lock_holder[OF inv(2) j] by blast
  show ?case
  proof (cases "thread_step j root (fst s) q = Inr None")
    case False
    then show ?thesis using q unfolding can_go_def by blast
  next
    case True
    then obtain b' C' where w': "waits_at t (fst s) j q b' C'" using blocked_cases[OF g ti[OF q(1)] True q(3)] q(4) by blast
    then obtain u' where u': "csub t b' = Some u'" "holds (fst s) j (clock u')"
      "clock C = clock u' \<or> (\<exists>D. child_of t b' D \<and> clock C = clock D)"
      using q(2) unfolding waits_at_def by blast
    note cs = child_of_sub[OF w(1) d]
    from u'(3) show ?thesis
    proof
      assume "clock C = clock u'"
      then have "C = u'" by (rule clock_unique[OF cs(1) u'(1) _ d])
      then have "size u' < size u" using cs(2) less.prems(3) by auto
      from less.hyps[OF this q(1) w' u'(1)] show ?thesis .
    next
      assume "\<exists>D. child_of t b' D \<and> clock C = clock D"
      then obtain D where D: "child_of t b' D" "clock C = clock D" by blast
      have "C = D" by (rule clock_unique[OF cs(1) child_of_sub(1)[OF D(1) d] D(2) d])
      then have "b = b'" using parent_unique[OF w(1) D(1) _ d] by simp
      then have "clock u = clock u'" using less.prems(3) u'(1) by simp
      then have "i = j" using w(3) u'(2) by (simp add: holds_def)
      then have "pc = q" using q(1) less.prems(1) by simp
      then show ?thesis using w(2) q(2) by simp
    qed
  qed
qed

lemma no_deadlock:
  assumes inv: "sinv root t s" "held_ok s" and pc: "snd s i = Some pc" "\<not> idle (Some pc)"
  shows "\<exists>j. can_go root s j"
proof (cases "thread_step i root (fst s) pc = Inr None")
  case False
  then show ?thesis using pc unfolding can_go_def by blast
next
  case True
  have g: "ginv t (fst s)" "cbox t = root" and ti: "snd s k = Some q \<Longrightarrow> tinv t (fst s) k q" for k q
    using inv(1) by (auto simp: sinv_def)
  have go: "\<exists>j. can_go root s j" if q: "snd s k = Some q" and w: "waits_at t (fst s) k q b C" for k q b C
  proof -
    obtain u where u: "csub t b = Some u" using w unfolding waits_at_def by blast
    show ?thesis by (rule waiter_progress[OF inv q w u])
  qed
  from blocked_cases[OF g ti[OF pc(1)] True pc(2)] show ?thesis
  proof (elim disjE exE conjE)
    fix op j assume "holds (fst s) j (clock t)"
    then obtain q where q: "snd s j = Some q" "\<not> idle (Some q)" "\<And>op. q \<noteq> Start op"
      using lock_holder[OF inv(2)] by blast
    show ?thesis
    proof (cases "thread_step j root (fst s) q = Inr None")
      case False
      then show ?thesis using q unfolding can_go_def by blast
    next
      case True
      then obtain b C where "waits_at t (fst s) j q b C" using blocked_cases[OF g ti[OF q(1)] True q(2)] q(3) by blast
      then show ?thesis using go[OF q(1)] by blast
    qed
  next
    fix b C assume "waits_at t (fst s) i pc b C"
    then show ?thesis by (rule go[OF pc(1)])
  qed
qed

end
