(* ===== verification/Bst_Free.thy ===== *)
theory Bst_Free
  imports Bst_Progress
begin

text \<open>\<open>tree_free\<close>, run when no lock is held, frees exactly the boxes, nodes and locks of the tree.\<close>

definition tree_freed :: "cheap \<Rightarrow> ct \<Rightarrow> cheap \<Rightarrow> bool" where
  "tree_freed h t h' \<longleftrightarrow> (\<forall>b. tgs h' b = (if ABox b \<in> set (cown t) then None else tgs h b)) \<and>
     (\<forall>n. trees h' n = (if ANode n \<in> set (cown t) then None else trees h n)) \<and>
     (\<forall>l. lks h' l = (if ALock l \<in> set (cown t) then None else lks h l)) \<and> tbs h' = tbs h"

lemma tree_freed_same: "tree_freed h t h' \<Longrightarrow> a \<notin> set (cown t) \<Longrightarrow> hsame h h' a"
  by (cases a) (auto simp: tree_freed_def)

lemma tree_free_ok:
  assumes "crep h t" and "distinct (cown t)" and "\<And>l. ALock l \<in> set (cown t) \<Longrightarrow> lks h l = Some None"
    and "size t < fuel"
  shows "\<exists>h'. tree_free fuel h i (cbox t) = Inr h' \<and> tree_freed h t h'"
  using assms
proof (induction t arbitrary: h fuel)
  case (CL b l)
  then obtain f where f: "fuel = Suc f" by (cases fuel) auto
  have "lks h l = Some None" using CL.prems(3) by simp
  then show ?case using CL.prems(1) f
    by (auto simp: tg_at_def acquire_def freelock2_def free_tg_def tree_freed_def Let_def)
next
  case (CN b l n k v L R)
  obtain f where f: "fuel = Suc f" "size L < f" "size R < f" using CN.prems(4) by (cases fuel) auto
  have l: "lks h l = Some None" using CN.prems(3) by simp
  have h: "tgs h b = Some \<lparr>tg_t = n, tg_lock = l\<rparr>" "b \<noteq> 0" "n \<noteq> 0"
    "trees h n = Some \<lparr>t_key = k, t_value = v, t_left = cbox L, t_right = cbox R\<rparr>" "crep h L" "crep h R"
    using CN.prems(1) by simp_all
  have dj: "distinct (cown L)" "distinct (cown R)" "a \<in> set (cown L) \<Longrightarrow> a \<notin> set (cown R)"
    "ABox b \<notin> set (cown L)" "ABox b \<notin> set (cown R)" "ALock l \<notin> set (cown L)" "ALock l \<notin> set (cown R)"
    "ANode n \<notin> set (cown L)" "ANode n \<notin> set (cown R)" for a
    using CN.prems(2) by auto
  let ?h1 = "h\<lparr>lks := (lks h)(l \<mapsto> Some i), trees := (trees h)(n := None)\<rparr>"
  have same: "hsame h ?h1 a" if "a \<noteq> ANode n" for a using that by (cases a) simp_all
  have locks: "lks ?h1 m = Some None" if "ALock m \<in> set (cown L) \<union> set (cown R)" for m
    using CN.prems(3)[of m] that dj(6,7) by auto
  have "crep ?h1 L" using crep_same[OF h(5) same] dj(8) by metis
  then obtain h2 where h2: "tree_free f ?h1 i (cbox L) = Inr h2" "tree_freed ?h1 L h2"
    using CN.IH(1)[OF _ dj(1) locks f(2)] by blast
  have same2: "hsame h h2 a" if "a \<in> set (cown R)" for a
  proof -
    have "hsame h ?h1 a" "hsame ?h1 h2 a" using same[of a] tree_freed_same[OF h2(2), of a] dj(3)[of a] dj(9) that by auto
    then show ?thesis by (cases a) simp_all
  qed
  have "crep h2 R" by (rule crep_same[OF h(6) same2])
  moreover have "lks h2 m = Some None" if "ALock m \<in> set (cown R)" for m
  proof -
    have "ALock m \<notin> set (cown L)" using dj(3) that by blast
    then show ?thesis using h2(2) locks[of m] that by (simp add: tree_freed_def)
  qed
  ultimately obtain h3 where h3: "tree_free f h2 i (cbox R) = Inr h3" "tree_freed h2 R h3"
    using CN.IH(2)[OF _ dj(2) _ f(3)] by blast
  have l3: "lks h3 l = Some (Some i)" using h2(2) h3(2) dj(6,7) by (simp add: tree_freed_def)
  have b: "tgs h3 b \<noteq> None" using h2(2) h3(2) dj(4,5) h(1) by (simp add: tree_freed_def)
  let ?h4 = "h3\<lparr>lks := (lks h3)(l := None), tgs := (tgs h3)(b := None)\<rparr>"
  have "tree_free fuel h i b = Inr ?h4"
    using f(1) h(1-4) l l3 b h2(1) h3(1) by (simp add: tg_at_def tree_at_def acquire_def freelock2_def free_tree_def free_tg_def Let_def)
  moreover have "tree_freed h (CN b l n k v L R) ?h4"
    using h2(2) h3(2) unfolding tree_freed_def by auto
  ultimately show ?case by simp
qed

section \<open>After an execution\<close>

lemma wait_tbs:
  assumes "wait (acquire h i l) f = Inr (Some (h', pc'))" and "\<And>h1. f h1 = Inr (h', pc') \<Longrightarrow> tbs h' = tbs h1"
  shows "tbs h' = tbs h"
  using wait_Some[OF assms(1)] assms(2)[of "h\<lparr>lks := (lks h)(l \<mapsto> Some i)\<rparr>"] by simp

lemma turn_left_tbs: "turn_left h a b = Inr h' \<Longrightarrow> tbs h' = tbs h"
  by (auto simp: turn_left_def Let_def set_tree_def set_tg_def elim!: rbind_InrE)

lemma insert_body_tbs: "insert_body h i x v b l = Inr (h', pc') \<Longrightarrow> tbs h' = tbs h"
  by (auto simp: insert_body_def Let_def surely_malloc_c_def release2_def makelock_def set_tg_def set_tree_def
      elim!: rbind_InrE split: if_splits)

lemma push_unlink_tbs: "push_unlink h i b lp p q lq c = Inr (h', pc') \<Longrightarrow> tbs h' = tbs h"
  by (auto simp: push_unlink_def Let_def set_tg_def free_tree_def free_tg_def freelock2_def elim!: rbind_InrE split: if_splits)

lemma thread_step_tbs:
  assumes "thread_step i root h pc = Inr (Some (h', pc'))"
  shows "tbs h' = tbs h"
proof (cases pc)
  case (Start op)
  then show ?thesis using assms
    by (auto simp: start_step_def Let_def elim!: rbind_InrE wait_tbs)
next
  case (Body op b l p)
  then show ?thesis using assms insert_body_tbs
    by (cases op) (auto simp: now_Some lookup_body_def delete_body_def Let_def elim!: rbind_InrE split: if_splits option.splits)
next
  case (Hop op b lo)
  then show ?thesis using assms by (auto simp: hop_step_def Let_def elim!: rbind_InrE wait_tbs)
next
  case (Push x b)
  then show ?thesis using assms by (auto simp: push_head_def Let_def elim!: rbind_InrE wait_tbs)
next
  case (Pushed x b lp p q lq)
  then show ?thesis using assms turn_left_tbs
    by (auto simp: push_body_def Let_def elim!: rbind_InrE wait_tbs split: if_splits)
next
  case (Unlink x b lp p q lq c)
  then show ?thesis using assms push_unlink_tbs by (auto simp: now_Some)
qed (use assms in \<open>auto dest!: release_Some\<close>)

lemma csys_run_tbs: "csys_run root s evs s' \<Longrightarrow> tbs (fst s') = tbs (fst s)"
proof (induction rule: csys_run.induct)
  case (cr_step root s evs s' e s'')
  have "tbs (fst s'') = tbs (fst s')"
    using cr_step.hyps(2) by (induction rule: csys_step.induct) (auto dest: thread_step_tbs)
  then show ?case using cr_step.IH by simp
qed simp

text \<open>When no thread is at work, all locks of the tree are free and \<open>treebox_free\<close> returns.\<close>

lemma treebox_free_ok:
  assumes "sinv root t s" and "held_ok s" and "\<And>i. idle (snd s i)" and "tbs (fst s) b = Some root" and "b \<noteq> 0"
  shows "\<exists>h1. treebox_free (Suc (size t)) (fst s) i b = Inr (h1\<lparr>tbs := (tbs h1)(b := None)\<rparr>) \<and> tree_freed (fst s) t h1"
proof -
  have g: "ginv t (fst s)" "cbox t = root" using assms(1) by (simp_all add: sinv_def)
  have "lks (fst s) l = Some None" if own: "ALock l \<in> set (cown t)" for l
  proof (rule ccontr)
    assume "lks (fst s) l \<noteq> Some None"
    then obtain j where "holds (fst s) j l" using ginvD(4)[OF g(1) own] by (auto simp: holds_def)
    then show False using lock_holder[OF assms(2)] assms(3) by metis
  qed
  then obtain h1 where "tree_free (Suc (size t)) (fst s) i root = Inr h1" "tree_freed (fst s) t h1"
    using tree_free_ok[OF ginvD(1,2)[OF g(1)], of "Suc (size t)" i] g(2) by auto
  then show ?thesis using assms(4,5) by (intro exI[of _ h1]) (simp add: treebox_free_def del: tree_free.simps)
qed

section \<open>An example\<close>

text \<open>One thread inserts a key, another one looks it up.\<close>

lemma bst_example:
  obtains h h' b root s pc where "cheap_ok h" "treebox_new h 0 = Inr (b, h')" "tbs h' b = Some root"
    "\<And>j m. \<not> holds h' j m" "csys_run root (h', \<lambda>_. None) [(Insert 1 7, 0), (Lookup 1, 7)] s"
    "snd s 1 = Some pc" "\<not> idle (Some pc)"
proof -
  let ?h = "\<lparr>trees = Map.empty, tgs = Map.empty, lks = Map.empty, tbs = Map.empty, cfresh = 1, cmem = 9\<rparr>"
  define h' where "h' = \<lparr>trees = Map.empty, tgs = [2 \<mapsto> \<lparr>tg_t = 0, tg_lock = 3\<rparr>], lks = [3 \<mapsto> None], tbs = [1 \<mapsto> 2],
    cfresh = 4, cmem = 6\<rparr>"
  have h': "treebox_new ?h 0 = Inr (1, h')" "tbs h' = [1 \<mapsto> 2]" "lks h' = [3 \<mapsto> None]"
    "tgs h' = [2 \<mapsto> \<lparr>tg_t = 0, tg_lock = 3\<rparr>]" "cfresh h' = 4" "cmem h' = 6" "trees h' = Map.empty"
    by (simp_all add: h'_def treebox_new_def surely_malloc_c_def makelock_def set_tg_def release2_def Let_def eval_nat_numeral)
  have ok: "cheap_ok ?h" "\<And>j m. \<not> holds h' j m" by (simp_all add: cheap_ok_def h'(3) holds_def)
  let ?s0 = "(h', \<lambda>_. None) :: csys"
  let ?h1 = "h'\<lparr>lks := (lks h')(3 \<mapsto> Some 0)\<rparr>"
  let ?h2 = "ins_heap ?h1 1 7 2 3"
  let ?h3 = "?h2\<lparr>lks := (lks ?h2)(3 \<mapsto> None)\<rparr>"
  let ?h4 = "?h3\<lparr>lks := (lks ?h3)(3 \<mapsto> Some 1)\<rparr>"
  have a: "thread_step 0 2 h' (Start (Insert 1 7)) = Inr (Some (?h1, Body (Insert 1 7) 2 3 None))"
    by (simp add: start_step_def tg_at_def h' acquire_def wait_def read_p_def)
  have b: "thread_step 0 2 ?h1 (Body (Insert 1 7) 2 3 None) = Inr (Some (?h2, Release 3 0))"
    using insert_body_new[of ?h1 2 3 0 1 7] by (simp add: tg_at_def h' now_def)
  have c: "thread_step 0 2 ?h2 (Release 3 0) = Inr (Some (?h3, Finish 0))"
    by (simp add: release2_def now_def ins_heap_def Let_def h')
  have d: "thread_step 1 2 ?h3 (Start (Lookup 1)) = Inr (Some (?h4, Body (Lookup 1) 2 3 (Some 8)))"
    by (simp add: start_step_def tg_at_def h' acquire_def wait_def read_p_def ins_heap_def Let_def)
  have e: "thread_step 1 2 ?h4 (Body (Lookup 1) 2 3 (Some 8)) = Inr (Some (?h4, Release 3 7))"
    by (simp add: lookup_body_def tree_at_def now_def ins_heap_def Let_def h')
  have 0: "csys_run 2 ?s0 [] (h', \<lambda>_. None)" by (rule cr_refl)
  have 1: "csys_run 2 ?s0 [] (h', (\<lambda>_. None)(0 \<mapsto> Start (Insert 1 7)))"
    by (rule run_start[OF 0]) (simp add: idle_def)
  have 2: "csys_run 2 ?s0 [] (?h1, (\<lambda>_. None)(0 \<mapsto> Body (Insert 1 7) 2 3 None))"
    using run_step[OF 1 _ a] by (simp add: commit_def)
  have 3: "csys_run 2 ?s0 [(Insert 1 7, 0)] (?h2, (\<lambda>_. None)(0 \<mapsto> Release 3 0))"
    using run_step[OF 2 _ b] by (simp add: commit_def)
  have 4: "csys_run 2 ?s0 [(Insert 1 7, 0)] (?h3, (\<lambda>_. None)(0 \<mapsto> Finish 0))"
    using run_step[OF 3 _ c] by (simp add: commit_def)
  have 5: "csys_run 2 ?s0 [(Insert 1 7, 0)] (?h3, (\<lambda>_. None)(0 \<mapsto> Finish 0, 1 \<mapsto> Start (Lookup 1)))"
    by (rule run_start[OF 4]) (simp add: idle_def)
  have 6: "csys_run 2 ?s0 [(Insert 1 7, 0)] (?h4, (\<lambda>_. None)(0 \<mapsto> Finish 0, 1 \<mapsto> Body (Lookup 1) 2 3 (Some 8)))"
    using run_step[OF 5 _ d] by (simp add: commit_def)
  have 7: "csys_run 2 ?s0 [(Insert 1 7, 0), (Lookup 1, 7)] (?h4, (\<lambda>_. None)(0 \<mapsto> Finish 0, 1 \<mapsto> Release 3 7))"
    using run_step[OF 6 _ e] by (simp add: commit_def)
  have "snd (?h4, (\<lambda>_. None)(0 \<mapsto> Finish 0, 1 \<mapsto> Release 3 7)) 1 = Some (Release 3 7)" "\<not> idle (Some (Release 3 7))"
    "tbs h' 1 = Some 2" by (simp_all add: idle_def h'(2))
  with that[OF ok(1) h'(1) _ ok(2) 7] show thesis by simp
qed

end
