(* ===== verification/Seq_Scan.thy ===== *)
theory Seq_Scan
  imports Tuple_Index
begin

text \<open>
  The sequential scan over index objects, \<open>db_seq_scan.c\<close>. An index object holds its method table
  and its data; the scan calls the methods, and they are parameters of the model: \<open>sets\<close> gives the
  \<open>UnordSetMtable\<close> and \<open>inds\<close> the \<open>UnordIndexMtable\<close> at an address. A method takes a \<open>void *\<close>, an
  address, and the heap. A field of an environment that was never set is \<open>None\<close>.
\<close>

record seq_env =
  sq_index_obj :: addr
  sq_cursor :: "addr option"
  sq_index_type :: "string option"

text \<open>\<open>StringlistIndexObj\<close> and \<open>HashtableIndexObj\<close>, as far as the scan reads them.\<close>

record index_rec =
  ir_mtable :: addr
  ir_index_data :: addr

record 'w sheap =
  senvs :: "addr \<rightharpoonup> seq_env"
  iobjs :: "addr \<rightharpoonup> addr"
  irecs :: "addr \<rightharpoonup> index_rec"
  sfresh :: addr
  smem :: nat
  world :: 'w

record 'w unord_mtable =
  um_move_to_next :: "addr \<Rightarrow> 'w sheap \<Rightarrow> 'w sheap result"
  um_move_to_first :: "addr \<Rightarrow> 'w sheap \<Rightarrow> 'w sheap result"
  um_get_cursor :: "addr \<Rightarrow> 'w sheap \<Rightarrow> (addr \<times> 'w sheap) result"
  um_get_pair :: "addr \<Rightarrow> 'w sheap \<Rightarrow> (addr \<times> 'w sheap) result"
  um_free_cursor :: "addr \<Rightarrow> 'w sheap \<Rightarrow> 'w sheap result"

type_synonym 'w mtables = "addr \<Rightarrow> 'w unord_mtable option"

definition deref :: "(addr \<rightharpoonup> 'a) \<Rightarrow> addr \<Rightarrow> 'a result" where
  "deref m a = (if a = NULL then Inl NullDeref else case m a of None \<Rightarrow> Inl WildPtr | Some x \<Rightarrow> Inr x)"

definition init_opt :: "'a option \<Rightarrow> 'a result" where
  "init_opt x = (case x of None \<Rightarrow> Inl Uninit | Some y \<Rightarrow> Inr y)"

text \<open>The choice between the method tables; \<open>None\<close> when the type is neither.\<close>

definition scan_methods :: "'w mtables \<Rightarrow> 'w mtables \<Rightarrow> string \<Rightarrow> addr \<Rightarrow> 'w sheap \<Rightarrow> ('w unord_mtable \<times> addr) option result" where
  "scan_methods sets inds index_type idx h =
     (if index_type = ''stringlist'' \<or> index_type = ''inthash'' then
        rbind (deref (iobjs h) idx) (\<lambda>obj.
        rbind (deref (irecs h) obj) (\<lambda>r.
        rbind (deref (if index_type = ''stringlist'' then sets else inds) (ir_mtable r)) (\<lambda>mt.
        Inr (Some (mt, ir_index_data r)))))
      else Inr None)"

definition oseq_scan_init :: "'w mtables \<Rightarrow> 'w mtables \<Rightarrow> addr \<Rightarrow> 'w sheap \<Rightarrow> 'w sheap result" where
  "oseq_scan_init sets inds env h =
     rbind (deref (senvs h) env) (\<lambda>e.
     rbind (init_opt (sq_index_type e)) (\<lambda>ty.
     rbind (scan_methods sets inds ty (sq_index_obj e) h) (\<lambda>m.
       case m of
         None \<Rightarrow> Inr h
       | Some (mt, data) \<Rightarrow>
           rbind (um_get_cursor mt data h) (\<lambda>(c, h1).
           rbind (deref (senvs h1) env) (\<lambda>e1.
           let h2 = h1\<lparr>senvs := (senvs h1)(env \<mapsto> e1\<lparr>sq_cursor := Some c\<rparr>)\<rparr> in
           if c = NULL then Inl ExitFailure else um_move_to_first mt c h2)))))"

definition oseq_scan_next :: "'w mtables \<Rightarrow> 'w mtables \<Rightarrow> addr \<Rightarrow> 'w sheap \<Rightarrow> (addr \<times> 'w sheap) result" where
  "oseq_scan_next sets inds env h =
     rbind (deref (senvs h) env) (\<lambda>e.
     rbind (init_opt (sq_index_type e)) (\<lambda>ty.
     rbind (init_opt (sq_cursor e)) (\<lambda>cursor.
     rbind (scan_methods sets inds ty (sq_index_obj e) h) (\<lambda>m.
       case m of
         None \<Rightarrow> Inr (NULL, h)
       | Some (mt, data) \<Rightarrow>
           rbind (um_get_pair mt env h) (\<lambda>(pair, h1).
           rbind (um_move_to_next mt cursor h1) (\<lambda>h2. Inr (pair, h2)))))))"

definition oseq_scan_close :: "'w mtables \<Rightarrow> 'w mtables \<Rightarrow> addr \<Rightarrow> 'w sheap \<Rightarrow> 'w sheap result" where
  "oseq_scan_close sets inds env h =
     rbind (deref (senvs h) env) (\<lambda>e.
     rbind (init_opt (sq_index_type e)) (\<lambda>ty.
     rbind (init_opt (sq_cursor e)) (\<lambda>cursor.
     rbind (scan_methods sets inds ty (sq_index_obj e) h) (\<lambda>m.
       case m of None \<Rightarrow> Inr h | Some (mt, data) \<Rightarrow> um_free_cursor mt cursor h))))"

text \<open>
  An iterator is the pair of its methods and its environment; the methods are the three
  functions above, so the address of the environment stands for it. Two objects are allocated.
\<close>

definition oseq_scan :: "addr \<Rightarrow> 'w sheap \<Rightarrow> (addr \<times> 'w sheap) result" where
  "oseq_scan index_obj h =
     (if smem h < 2 then Inl ExitFailure
      else let env = Suc (sfresh h) in
        Inr (env, h\<lparr>sfresh := sfresh h + 2, smem := smem h - 2,
          senvs := (senvs h)(env \<mapsto> \<lparr>sq_index_obj = index_obj, sq_cursor = None, sq_index_type = None\<rparr>)\<rparr>))"

text \<open>
  \<open>seq_scan\<close> leaves \<open>index_type\<close> unset, so every method of the iterator that it returns reads a
  field that was never written.
\<close>

lemma oseq_scan_unset:
  assumes "oseq_scan index_obj h = Inr (env, h')"
  shows "oseq_scan_init sets inds env h' = Inl Uninit" "oseq_scan_next sets inds env h' = Inl Uninit"
    "oseq_scan_close sets inds env h' = Inl Uninit"
  using assms
  by (auto simp: oseq_scan_def Let_def oseq_scan_init_def oseq_scan_next_def oseq_scan_close_def deref_def init_opt_def
      split: if_splits)

text \<open>
  Once a caller sets the type, a scan moves a cursor over the data: \<open>init\<close> puts a new one on the
  first position, and \<open>next\<close> advances it. The pair, however, is read through the environment.
\<close>

lemma oseq_scan_init_eq:
  assumes "deref (senvs h) env = Inr e" "sq_index_type e = Some ty"
    "scan_methods sets inds ty (sq_index_obj e) h = Inr (Some (mt, data))"
    "um_get_cursor mt data h = Inr (c, h1)" "c \<noteq> NULL" "senvs h1 env = Some e" "env \<noteq> NULL"
  shows "oseq_scan_init sets inds env h =
    um_move_to_first mt c (h1\<lparr>senvs := (senvs h1)(env \<mapsto> e\<lparr>sq_cursor := Some c\<rparr>)\<rparr>)"
  using assms by (simp add: oseq_scan_init_def init_opt_def deref_def Let_def)

lemma oseq_scan_next_eq:
  assumes "deref (senvs h) env = Inr e" "sq_index_type e = Some ty" "sq_cursor e = Some c"
    "scan_methods sets inds ty (sq_index_obj e) h = Inr (Some (mt, data))"
  shows "oseq_scan_next sets inds env h =
    rbind (um_get_pair mt env h) (\<lambda>(pair, h1). rbind (um_move_to_next mt c h1) (\<lambda>h2. Inr (pair, h2)))"
  using assms by (simp add: oseq_scan_next_def init_opt_def)

end
