(* ===== verification/Str_Index.thy ===== *)
theory Str_Index
  imports Kv_Store
begin

text \<open>
  The index on strings of \<open>index_string.c\<close>: a trie whose nodes are indexes on integers, with
  8-byte slices of the keys as their keys and pointers to border nodes as their values. The file
  is written against an interface of integer indexes that no file of the repository provides (the
  one in \<open>index_int.h\<close> has other arguments), so its operations are a parameter: a record
  \<open>'w int_index\<close> of functions on a state \<open>'w\<close>, in which indexes and cursors are pointers.
  \<open>BN_CompareSuffix\<close>, which is declared but has no body, is a parameter as well. A key is the
  bytes its pointer reaches, and a length; freeing a key has no effect in the model.
\<close>

section \<open>The interface of integer indexes\<close>

record 'w int_index =
  ix_empty :: "'w \<Rightarrow> (addr \<times> 'w) result"
  ix_make_cursor :: "ckey \<Rightarrow> addr \<Rightarrow> 'w \<Rightarrow> (addr \<times> 'w) result"
  ix_first_cursor :: "addr \<Rightarrow> 'w \<Rightarrow> (addr \<times> 'w) result"
  ix_next_cursor :: "addr \<Rightarrow> addr \<Rightarrow> 'w \<Rightarrow> (addr \<times> 'w) result"
  ix_get_key :: "addr \<Rightarrow> addr \<Rightarrow> 'w \<Rightarrow> ((bool \<times> ckey option) \<times> 'w) result"
  ix_get_value :: "addr \<Rightarrow> addr \<Rightarrow> 'w \<Rightarrow> ((bool \<times> addr option) \<times> 'w) result"
  ix_put :: "ckey \<Rightarrow> addr \<Rightarrow> addr \<Rightarrow> addr \<Rightarrow> 'w \<Rightarrow> (unit \<times> 'w) result"
  ix_free_cursor :: "addr \<Rightarrow> 'w \<Rightarrow> (unit \<times> 'w) result"
  ix_free :: "addr \<Rightarrow> 'w \<Rightarrow> (unit \<times> 'w) result"

text \<open>The getters return a flag and what they wrote; \<open>None\<close> is memory never written.\<close>

definition written :: "'a option \<Rightarrow> 'a result" where
  "written x = (case x of None \<Rightarrow> Inl Uninit | Some y \<Rightarrow> Inr y)"

section \<open>State\<close>

record sborder =
  prefixFlags :: "64 word"
  sprefixLinks :: "addr list"
  ssuffixLink :: addr
  skeySuffix :: "byte list option"
  skeySuffixLength :: nat

record 'w trie_heap =
  bds :: "addr \<rightharpoonup> sborder"
  bd_fresh :: addr
  bd_mem :: nat
  bd_world :: 'w

record skey =
  sk_content :: "byte list"
  sk_len :: nat

record cslice =
  cs_node :: "addr option"
  cs_node_cursor :: "addr option"
  cs_bnode_cursor :: "nat option"

record scursor =
  sc_capacity :: nat
  sc_size :: nat
  sc_content :: "cslice list"

definition on_world :: "('w \<Rightarrow> ('a \<times> 'w) result) \<Rightarrow> 'w trie_heap \<Rightarrow> ('a \<times> 'w trie_heap) result" where
  "on_world f st = rbind (f (bd_world st)) (\<lambda>(x, w). Inr (x, st\<lparr>bd_world := w\<rparr>))"

definition surely_malloc_s :: "'w trie_heap \<Rightarrow> 'w trie_heap result" where
  "surely_malloc_s st = (if bd_mem st = 0 then Inl ExitFailure else Inr (st\<lparr>bd_mem := bd_mem st - 1\<rparr>))"

definition border_at :: "'w trie_heap \<Rightarrow> addr \<Rightarrow> sborder result" where
  "border_at st a = (if a = NULL then Inl NullDeref
                     else case bds st a of None \<Rightarrow> Inl WildPtr | Some bn \<Rightarrow> Inr bn)"

definition set_border :: "'w trie_heap \<Rightarrow> addr \<Rightarrow> sborder \<Rightarrow> 'w trie_heap" where
  "set_border st a bn = st\<lparr>bds := (bds st)(a \<mapsto> bn)\<rparr>"

section \<open>Cursors\<close>

definition empty_slice :: cslice where
  "empty_slice = \<lparr>cs_node = None, cs_node_cursor = None, cs_bnode_cursor = None\<rparr>"

text \<open>The loop of \<open>push_cursor\<close> that copies the slices into a new block; it leaves out \<open>node\<close>.\<close>

fun copy_slices :: "cslice list \<Rightarrow> nat \<Rightarrow> nat \<Rightarrow> cslice list \<Rightarrow> cslice list result" where
  "copy_slices old i 0 new = Inr new"
| "copy_slices old i (Suc n) new =
     rbind (aget old (int i)) (\<lambda>s.
     rbind (aset new (int i) (s\<lparr>cs_node := None\<rparr>)) (\<lambda>new1. copy_slices old (Suc i) n new1))"

definition push_cursor :: "addr \<Rightarrow> addr \<Rightarrow> nat \<Rightarrow> scursor \<Rightarrow> 'w trie_heap \<Rightarrow> (scursor \<times> 'w trie_heap) result" where
  "push_cursor node node_cursor bnode_cursor cursor st =
     rbind (if sc_capacity cursor = 0 then
              rbind (surely_malloc_s st) (\<lambda>st1. Inr (cursor\<lparr>sc_content := [empty_slice]\<rparr>, st1))
            else if sc_capacity cursor \<le> sc_size cursor then
              let cap = sc_capacity cursor * 2 in
              rbind (surely_malloc_s st) (\<lambda>st1.
              rbind (copy_slices (sc_content cursor) 0 (sc_size cursor) (replicate cap empty_slice)) (\<lambda>new.
                Inr (cursor\<lparr>sc_capacity := cap, sc_content := new\<rparr>, st1)))
            else Inr (cursor, st)) (\<lambda>(cur1, st1).
     rbind (aset (sc_content cur1) (int (sc_size cur1))
              \<lparr>cs_node = Some node, cs_node_cursor = Some node_cursor, cs_bnode_cursor = Some bnode_cursor\<rparr>) (\<lambda>new.
       Inr (cur1\<lparr>sc_size := Suc (sc_size cur1), sc_content := new\<rparr>, st1)))"

definition pop_cursor :: "'w int_index \<Rightarrow> scursor \<Rightarrow> 'w trie_heap \<Rightarrow> (scursor \<times> 'w trie_heap) result" where
  "pop_cursor ops cursor st =
     (if sc_size cursor \<noteq> 0 then
        let cur1 = cursor\<lparr>sc_size := sc_size cursor - 1\<rparr> in
        rbind (aget (sc_content cur1) (int (sc_size cur1))) (\<lambda>s.
        rbind (written (cs_node_cursor s)) (\<lambda>c.
        rbind (on_world (ix_free_cursor ops c) st) (\<lambda>(_, st1). Inr (cur1, st1))))
      else Inr (cursor, st))"

text \<open>The pointer that \<open>top_cursor\<close> returns is an index into the block; \<open>None\<close> is NULL.\<close>

definition top_cursor :: "scursor \<Rightarrow> nat option" where
  "top_cursor cursor = (if sc_size cursor \<noteq> 0 then Some (sc_size cursor - 1) else None)"

text \<open>
  \<open>new_cursor\<close> allocates \<open>sizeof(SCursor)\<close> bytes, the size of a pointer, and writes three words.
\<close>

definition sizeof_ptr :: nat where [simp]: "sizeof_ptr = 8"
definition sizeof_cursor :: nat where [simp]: "sizeof_cursor = 24"

definition new_cursor :: "'w trie_heap \<Rightarrow> (scursor \<times> 'w trie_heap) result" where
  "new_cursor st =
     rbind (surely_malloc_s st) (\<lambda>st1.
     rbind (check (sizeof_cursor \<le> sizeof_ptr) OutOfBounds) (\<lambda>_.
       Inr (\<lparr>sc_capacity = 0, sc_size = 0, sc_content = []\<rparr>, st1)))"

section \<open>Strings and keys\<close>

fun slice_loop_s :: "byte list \<Rightarrow> nat \<Rightarrow> nat \<Rightarrow> nat \<Rightarrow> 64 word \<Rightarrow> 64 word result" where
  "slice_loop_s str len i 0 res = Inr res"
| "slice_loop_s str len i (Suc n) res =
     (if i < len then rbind (aget str (int i)) (\<lambda>c. slice_loop_s str len (Suc i) n (add_byte res c))
      else slice_loop_s str len (Suc i) n (push_bit 8 res))"

definition UTIL_GetNextKeySlice_s :: "byte list \<Rightarrow> nat \<Rightarrow> ckey result" where
  "UTIL_GetNextKeySlice_s str len = slice_loop_s str len 0 keyslice_length 0"

fun str_equal_loop_s :: "byte list \<Rightarrow> byte list \<Rightarrow> nat \<Rightarrow> nat \<Rightarrow> bool result" where
  "str_equal_loop_s a b i 0 = Inr True"
| "str_equal_loop_s a b i (Suc n) =
     rbind (aget a (int i)) (\<lambda>x. rbind (aget b (int i)) (\<lambda>y.
       if x \<noteq> y then Inr False else str_equal_loop_s a b (Suc i) n))"

definition UTIL_StrEqual_s :: "byte list \<Rightarrow> nat \<Rightarrow> byte list \<Rightarrow> nat \<Rightarrow> bool result" where
  "UTIL_StrEqual_s a lenA b lenB = (if lenA \<noteq> lenB then Inr False else str_equal_loop_s a b 0 lenA)"

text \<open>
  A copy of \<open>len\<close> bytes. The size passed to \<open>surely_malloc\<close> is an \<open>unsigned int\<close>, so a copy
  of \<open>2 ^ 32\<close> bytes or more does not fit the block.
\<close>

definition copy_str :: "byte list \<Rightarrow> nat \<Rightarrow> 'w trie_heap \<Rightarrow> (byte list \<times> 'w trie_heap) result" where
  "copy_str str len st =
     rbind (surely_malloc_s st) (\<lambda>st1.
     rbind (check (len < 2 ^ 32) OutOfBounds) (\<lambda>_.
     rbind (copy_loop str 0 len) (\<lambda>s. Inr (s, st1))))"

definition new_key :: "byte list \<Rightarrow> nat \<Rightarrow> 'w trie_heap \<Rightarrow> (skey \<times> 'w trie_heap) result" where
  "new_key str len st =
     rbind (copy_str str len st) (\<lambda>(newStr, st1).
     rbind (surely_malloc_s st1) (\<lambda>st2. Inr (\<lparr>sk_content = newStr, sk_len = len\<rparr>, st2)))"

definition move_key :: "byte list \<Rightarrow> nat \<Rightarrow> 'w trie_heap \<Rightarrow> (skey \<times> 'w trie_heap) result" where
  "move_key str len st = rbind (surely_malloc_s st) (\<lambda>st1. Inr (\<lparr>sk_content = str, sk_len = len\<rparr>, st1))"

section \<open>Border nodes\<close>

definition MAX_BN_SIZE_s :: nat where [simp]: "MAX_BN_SIZE_s = 8"

text \<open>\<open>1 << index\<close> is a shift of an \<open>int\<close>.\<close>

definition flag_bit :: "nat \<Rightarrow> 64 word result" where
  "flag_bit i = rbind (check (i < 31) IntOverflow) (\<lambda>_. Inr (push_bit i 1))"

definition setFlag :: "64 word \<Rightarrow> nat \<Rightarrow> 64 word result" where
  "setFlag flags i = rbind (flag_bit i) (\<lambda>b. Inr (or flags b))"

definition clearFlag :: "64 word \<Rightarrow> nat \<Rightarrow> 64 word result" where
  "clearFlag flags i = rbind (flag_bit i) (\<lambda>b. Inr (and flags (not b)))"

definition readFlag :: "64 word \<Rightarrow> nat \<Rightarrow> bool result" where
  "readFlag flags i = rbind (flag_bit i) (\<lambda>b. Inr (and flags b \<noteq> 0))"

definition BN_NewBorderNode_s :: "'w trie_heap \<Rightarrow> (addr \<times> 'w trie_heap) result" where
  "BN_NewBorderNode_s st =
     rbind (surely_malloc_s st) (\<lambda>st1.
       Inr (bd_fresh st1, (set_border st1 (bd_fresh st1)
         \<lparr>prefixFlags = 0, sprefixLinks = replicate (MAX_BN_SIZE_s + 1) NULL, ssuffixLink = NULL,
          skeySuffix = None, skeySuffixLength = 0\<rparr>)\<lparr>bd_fresh := Suc (bd_fresh st1)\<rparr>))"

definition BN_SetPrefixValue_s :: "sborder \<Rightarrow> nat \<Rightarrow> addr \<Rightarrow> sborder result" where
  "BN_SetPrefixValue_s bn i val =
     rbind (setFlag (prefixFlags bn) i) (\<lambda>f.
     rbind (aset (sprefixLinks bn) (int i) val) (\<lambda>ls. Inr (bn\<lparr>prefixFlags := f, sprefixLinks := ls\<rparr>)))"

definition BN_GetPrefixValue_s :: "sborder \<Rightarrow> nat \<Rightarrow> (bool \<times> addr) result" where
  "BN_GetPrefixValue_s bn i =
     rbind (aget (sprefixLinks bn) (int i)) (\<lambda>val. rbind (readFlag (prefixFlags bn) i) (\<lambda>b. Inr (b, val)))"

definition BN_SetSuffixValue_s :: "sborder \<Rightarrow> byte list \<Rightarrow> nat \<Rightarrow> addr \<Rightarrow> 'w trie_heap \<Rightarrow>
    (sborder \<times> 'w trie_heap) result" where
  "BN_SetSuffixValue_s bn suffix len val st =
     rbind (copy_str suffix len st) (\<lambda>(s, st1).
       Inr (bn\<lparr>ssuffixLink := val, skeySuffix := Some s, skeySuffixLength := len\<rparr>, st1))"

definition BN_TestSuffix_s :: "sborder \<Rightarrow> skey \<Rightarrow> bool result" where
  "BN_TestSuffix_s bn key =
     (case skeySuffix bn of
        Some s \<Rightarrow> UTIL_StrEqual_s (drop keyslice_length (sk_content key)) (size_minus (sk_len key) keyslice_length)
                    s (skeySuffixLength bn)
      | None \<Rightarrow> Inr False)"

definition BN_GetSuffixValue_s :: "sborder \<Rightarrow> byte list \<Rightarrow> nat \<Rightarrow> addr result" where
  "BN_GetSuffixValue_s bn suf len =
     (case skeySuffix bn of
        None \<Rightarrow> Inr NULL
      | Some s \<Rightarrow> rbind (UTIL_StrEqual_s suf len s (skeySuffixLength bn)) (\<lambda>b.
          Inr (if b then ssuffixLink bn else NULL)))"

text \<open>The key and the value are returned when there is a suffix.\<close>

definition BN_ExportSuffixValue_s :: "sborder \<Rightarrow> 'w trie_heap \<Rightarrow> ((skey \<times> addr) option \<times> sborder \<times> 'w trie_heap) result" where
  "BN_ExportSuffixValue_s bn st =
     (case skeySuffix bn of
        Some s \<Rightarrow> rbind (move_key s (skeySuffixLength bn) st) (\<lambda>(key, st1).
          Inr (Some (key, ssuffixLink bn),
               bn\<lparr>ssuffixLink := NULL, skeySuffix := None, skeySuffixLength := 0\<rparr>, st1))
      | None \<Rightarrow> Inr (None, bn, st))"

definition BN_HasSuffix_s :: "sborder \<Rightarrow> bool" where
  "BN_HasSuffix_s bn = (skeySuffix bn \<noteq> None)"

definition BN_SetLink_s :: "sborder \<Rightarrow> addr \<Rightarrow> sborder" where
  "BN_SetLink_s bn val = bn\<lparr>ssuffixLink := val, skeySuffix := None, skeySuffixLength := 0\<rparr>"

definition BN_GetLink_s :: "sborder \<Rightarrow> addr option" where
  "BN_GetLink_s bn = (if skeySuffix bn \<noteq> None \<or> ssuffixLink bn = NULL then None else Some (ssuffixLink bn))"

definition BN_SetValue_s :: "sborder \<Rightarrow> skey \<Rightarrow> addr \<Rightarrow> 'w trie_heap \<Rightarrow> (sborder \<times> 'w trie_heap) result" where
  "BN_SetValue_s bn key val st =
     (if keyslice_length < sk_len key then
        BN_SetSuffixValue_s bn (drop keyslice_length (sk_content key)) (sk_len key - keyslice_length) val st
      else rbind (BN_SetPrefixValue_s bn (sk_len key) val) (\<lambda>bn1. Inr (bn1, st)))"

definition BN_FreeBorderNode_s :: "addr \<Rightarrow> 'w trie_heap \<Rightarrow> 'w trie_heap result" where
  "BN_FreeBorderNode_s b st =
     (if b = NULL then Inr st
      else rbind (border_at st b) (\<lambda>bn. Inr (st\<lparr>bds := (bds st)(b := None)\<rparr>)))"

text \<open>\<open>bordernode_next_cursor\<close>: the loop over the flags from \<open>i\<close> on.\<close>

fun next_flag :: "64 word \<Rightarrow> nat \<Rightarrow> nat \<Rightarrow> nat option result" where
  "next_flag flags i 0 = Inr None"
| "next_flag flags i (Suc n) = rbind (readFlag flags i) (\<lambda>b. if b then Inr (Some i) else next_flag flags (Suc i) n)"

definition bordernode_next_cursor :: "nat \<Rightarrow> sborder \<Rightarrow> nat result" where
  "bordernode_next_cursor bnode_cursor bn =
     rbind (next_flag (prefixFlags bn) bnode_cursor (keyslice_length + 1 - bnode_cursor)) (\<lambda>r.
       case r of
         Some i \<Rightarrow> Inr i
       | None \<Rightarrow> Inr (if bnode_cursor \<le> keyslice_length + 1 \<and> (skeySuffix bn \<noteq> None \<or> ssuffixLink bn \<noteq> NULL)
                     then keyslice_length + 1 else keyslice_length + 2))"

definition bordernode_length_to_cursor :: "nat \<Rightarrow> nat" where
  "bordernode_length_to_cursor len = (if len \<le> keyslice_length then len else keyslice_length + 1)"

section \<open>Operations\<close>

text \<open>
  \<open>Sempty\<close> returns a block of the size of a pointer with unwritten content, so a trie that it
  makes has no root: \<open>None\<close>.
\<close>

definition Sempty :: "'w trie_heap \<Rightarrow> (addr option \<times> 'w trie_heap) result" where
  "Sempty st = rbind (surely_malloc_s st) (\<lambda>st1. Inr (None, st1))"

text \<open>What a test \<open>success && keyslice == obtained_keyslice\<close> finds.\<close>

definition key_found :: "ckey \<Rightarrow> bool \<times> ckey option \<Rightarrow> bool result" where
  "key_found k r = (if fst r then rbind (written (snd r)) (\<lambda>k'. Inr (k = k')) else Inr False)"

definition border_of :: "addr option \<Rightarrow> 'w trie_heap \<Rightarrow> (addr \<times> sborder) result" where
  "border_of r st = rbind (written r) (\<lambda>b. rbind (border_at st b) (\<lambda>bn. Inr (b, bn)))"

function make_cursor :: "'w int_index \<Rightarrow> (sborder \<Rightarrow> skey \<Rightarrow> int) \<Rightarrow> skey \<Rightarrow> addr \<Rightarrow> scursor \<Rightarrow> 'w trie_heap \<Rightarrow>
    (scursor \<times> 'w trie_heap) result" where
  "make_cursor ops cmp key index cursor st =
     rbind (UTIL_GetNextKeySlice_s (sk_content key) (sk_len key)) (\<lambda>keyslice.
     rbind (on_world (ix_make_cursor ops keyslice index) st) (\<lambda>(node_cursor, st1).
     rbind (on_world (ix_get_key ops node_cursor index) st1) (\<lambda>(r, st2).
     rbind (key_found keyslice r) (\<lambda>found.
       if found then
         if sk_len key \<le> keyslice_length then push_cursor index node_cursor (sk_len key) cursor st2
         else
           rbind (on_world (ix_get_value ops node_cursor index) st2) (\<lambda>(rv, st3).
           rbind (border_of (snd rv) st3) (\<lambda>(b, bnode).
             if BN_HasSuffix_s bnode then
               push_cursor index node_cursor (keyslice_length + (if cmp bnode key \<noteq> 0 then 1 else 2)) cursor st3
             else
               (case BN_GetLink_s bnode of
                  Some subindex \<Rightarrow>
                    rbind (push_cursor index node_cursor (keyslice_length + 1) cursor st3) (\<lambda>(cur1, st4).
                    rbind (new_key (drop keyslice_length (sk_content key)) (sk_len key - keyslice_length) st4)
                      (\<lambda>(subkey, st5). make_cursor ops cmp subkey subindex cur1 st5))
                | None \<Rightarrow> push_cursor index node_cursor (keyslice_length + 2) cursor st3)))
       else rbind (on_world (ix_free_cursor ops node_cursor) st2) (\<lambda>(_, st3). Inr (cursor, st3))))))"
  by pat_completeness auto

termination
  by (relation "measure (\<lambda>(ops, cmp, key, _). sk_len key)") (auto simp: new_key_def rbind_eq_Inr)

text \<open>\<open>Smake_cursor\<close> gives \<open>make_cursor\<close> a second cursor and returns the first one.\<close>

definition Smake_cursor :: "'w int_index \<Rightarrow> (sborder \<Rightarrow> skey \<Rightarrow> int) \<Rightarrow> skey \<Rightarrow> addr \<Rightarrow> 'w trie_heap \<Rightarrow>
    (scursor \<times> 'w trie_heap) result" where
  "Smake_cursor ops cmp key trie_root st =
     rbind (new_cursor st) (\<lambda>(cursor, st1).
     rbind (new_cursor st1) (\<lambda>(c2, st2).
     rbind (make_cursor ops cmp key trie_root c2 st2) (\<lambda>(c3, st3). Inr (cursor, st3))))"

text \<open>The fuel bounds the depth of the trie.\<close>

fun strict_first_cursor :: "nat \<Rightarrow> 'w int_index \<Rightarrow> addr \<Rightarrow> scursor \<Rightarrow> 'w trie_heap \<Rightarrow>
    (bool \<times> scursor \<times> 'w trie_heap) result" where
  "strict_first_cursor 0 ops index cursor st = Inl NoReturn"
| "strict_first_cursor (Suc fuel) ops index cursor st =
     rbind (on_world (ix_first_cursor ops index) st) (\<lambda>(node_cursor, st1).
     rbind (on_world (ix_get_value ops node_cursor index) st1) (\<lambda>(rv, st2).
       let fail = \<lambda>st. rbind (on_world (ix_free_cursor ops node_cursor) st) (\<lambda>(_, st'). Inr (False, cursor, st')) in
       if fst rv then
         rbind (border_of (snd rv) st2) (\<lambda>(b, bnode).
         rbind (bordernode_next_cursor 1 bnode) (\<lambda>bnode_cursor.
           if bnode_cursor \<le> keyslice_length then
             rbind (push_cursor index node_cursor bnode_cursor cursor st2) (\<lambda>(cur1, st3). Inr (True, cur1, st3))
           else if bnode_cursor = keyslice_length + 1 then
             rbind (push_cursor index node_cursor bnode_cursor cursor st2) (\<lambda>(cur1, st3).
               if BN_HasSuffix_s bnode then Inr (True, cur1, st3)
               else
                 rbind (written (BN_GetLink_s bnode)) (\<lambda>subindex.
                 rbind (strict_first_cursor fuel ops subindex cur1 st3) (\<lambda>(ok, cur2, st4).
                   if ok then Inr (True, cur2, st4)
                   else rbind (pop_cursor ops cur2 st4) (\<lambda>(cur3, st5). Inr (False, cur3, st5)))))
           else fail st2))
       else fail st2))"

text \<open>
  \<open>normalize_cursor\<close> swaps the arguments of its two calls of \<open>Iget_value\<close>, and after the second
  one reads the link from the border node it has left.
\<close>

definition normalize_cursor :: "nat \<Rightarrow> 'w int_index \<Rightarrow> scursor \<Rightarrow> 'w trie_heap \<Rightarrow>
    (bool \<times> scursor \<times> 'w trie_heap) result" where
  "normalize_cursor fuel ops cursor st =
     (case top_cursor cursor of
        Some t \<Rightarrow>
          rbind (aget (sc_content cursor) (int t)) (\<lambda>cs.
          rbind (written (cs_node cs)) (\<lambda>node.
          rbind (written (cs_node_cursor cs)) (\<lambda>node_cursor.
          rbind (on_world (ix_get_value ops node node_cursor) st) (\<lambda>(rv, st1).
          rbind (border_of (snd rv) st1) (\<lambda>(b, bnode).
          rbind (written (cs_bnode_cursor cs)) (\<lambda>bc.
          rbind (bordernode_next_cursor bc bnode) (\<lambda>next_bc.
            let upd = \<lambda>cs'. cursor\<lparr>sc_content := (sc_content cursor)[t := cs']\<rparr> in
            if next_bc \<le> keyslice_length then Inr (True, upd (cs\<lparr>cs_bnode_cursor := Some next_bc\<rparr>), st1)
            else if next_bc = keyslice_length + 1 then
              let cur1 = upd (cs\<lparr>cs_bnode_cursor := Some (keyslice_length + 1)\<rparr>) in
              if BN_HasSuffix_s bnode then Inr (True, cur1, st1)
              else rbind (written (BN_GetLink_s bnode)) (\<lambda>subindex.
                   rbind (strict_first_cursor fuel ops subindex cur1 st1) (\<lambda>(ok, cur2, st2). Inr (True, cur2, st2)))
            else
              rbind (on_world (ix_next_cursor ops node_cursor node) st1) (\<lambda>(next_cursor, st2).
              rbind (on_world (ix_get_value ops node_cursor next_cursor) st2) (\<lambda>(rv2, st3).
                if fst rv2 then
                  rbind (on_world (ix_free ops node_cursor) st3) (\<lambda>(_, st4).
                  rbind (border_of (snd rv2) st4) (\<lambda>(b2, next_bnode).
                  rbind (bordernode_next_cursor 1 next_bnode) (\<lambda>bc2.
                    let cur1 = upd (cs\<lparr>cs_node_cursor := Some next_cursor, cs_bnode_cursor := Some bc2\<rparr>) in
                    if next_bc = keyslice_length + 1 \<and> \<not> BN_HasSuffix_s next_bnode then
                      rbind (written (BN_GetLink_s bnode)) (\<lambda>subindex.
                      rbind (strict_first_cursor fuel ops subindex cur1 st4) (\<lambda>(ok, cur2, st5). Inr (True, cur2, st5)))
                    else Inr (True, cur1, st4))))
                else rbind (on_world (ix_free_cursor ops next_cursor) st3) (\<lambda>(_, st4). Inr (False, cursor, st4)))))))))))
      | None \<Rightarrow> rbind (pop_cursor ops cursor st) (\<lambda>(cur1, st1). Inr (False, cur1, st1)))"

definition Sget_value :: "scursor \<Rightarrow> addr \<Rightarrow> bool" where
  "Sget_value cursor index = True"

text \<open>A new border node with the value of one key.\<close>

definition border_with :: "byte list \<Rightarrow> nat \<Rightarrow> addr \<Rightarrow> addr \<Rightarrow> 'w trie_heap \<Rightarrow> 'w trie_heap result" where
  "border_with str len v b st =
     rbind (new_key str len st) (\<lambda>(k, st1).
     rbind (border_at st1 b) (\<lambda>bn.
     rbind (BN_SetValue_s bn k v st1) (\<lambda>(bn1, st2). Inr (set_border st2 b bn1))))"

text \<open>\<open>temp_cursor = Ifirst_cursor(index); Iput(...); Ifree_cursor(temp_cursor)\<close>\<close>

definition put_first :: "'w int_index \<Rightarrow> ckey \<Rightarrow> addr \<Rightarrow> addr \<Rightarrow> 'w trie_heap \<Rightarrow> 'w trie_heap result" where
  "put_first ops k b index st =
     rbind (on_world (ix_first_cursor ops index) st) (\<lambda>(c, st1).
     rbind (on_world (ix_put ops k b c index) st1) (\<lambda>(_, st2).
     rbind (on_world (ix_free_cursor ops c) st2) (\<lambda>(_, st3). Inr st3)))"

function create_pair :: "'w int_index \<Rightarrow> byte list \<Rightarrow> nat \<Rightarrow> byte list \<Rightarrow> nat \<Rightarrow> addr \<Rightarrow> addr \<Rightarrow> 'w trie_heap \<Rightarrow>
    (addr \<times> 'w trie_heap) result" where
  "create_pair ops key1 len1 key2 len2 v1 v2 st =
     rbind (UTIL_GetNextKeySlice_s key1 len1) (\<lambda>keyslice1.
     rbind (UTIL_GetNextKeySlice_s key2 len2) (\<lambda>keyslice2.
       if keyslice1 = keyslice2 then
         if len1 \<le> keyslice_length \<or> len2 \<le> keyslice_length then
           rbind (BN_NewBorderNode_s st) (\<lambda>(b, st1).
           rbind (border_with key1 len1 v1 b st1) (\<lambda>st2.
           rbind (border_with key2 len2 v2 b st2) (\<lambda>st3.
           rbind (on_world (ix_empty ops) st3) (\<lambda>(index, st4).
           rbind (put_first ops keyslice1 b index st4) (\<lambda>st5. Inr (index, st5))))))
         else
           rbind (BN_NewBorderNode_s st) (\<lambda>(b, st1).
           rbind (create_pair ops (drop keyslice_length key1) (len1 - keyslice_length)
                    (drop keyslice_length key2) (len2 - keyslice_length) v1 v2 st1) (\<lambda>(sub, st2).
           rbind (border_at st2 b) (\<lambda>bn.
           rbind (on_world (ix_empty ops) (set_border st2 b (BN_SetLink_s bn sub))) (\<lambda>(index, st3).
           rbind (put_first ops keyslice1 b index st3) (\<lambda>st4. Inr (index, st4))))))
       else
         rbind (BN_NewBorderNode_s st) (\<lambda>(b1, st1).
         rbind (border_with key1 len1 v1 b1 st1) (\<lambda>st2.
         rbind (BN_NewBorderNode_s st2) (\<lambda>(b2, st3).
         rbind (border_with key2 len2 v2 b2 st3) (\<lambda>st4.
         rbind (on_world (ix_empty ops) st4) (\<lambda>(index, st5).
         rbind (put_first ops keyslice2 b2 index st5) (\<lambda>st6.
         rbind (put_first ops keyslice1 b1 index st6) (\<lambda>st7. Inr (index, st7))))))))))"
  by pat_completeness auto

termination
  by (relation "measure (\<lambda>(ops, key1, len1, _). len1)") auto

function put :: "'w int_index \<Rightarrow> byte list \<Rightarrow> nat \<Rightarrow> addr \<Rightarrow> addr \<Rightarrow> 'w trie_heap \<Rightarrow> 'w trie_heap result" where
  "put ops key len v index st =
     rbind (UTIL_GetNextKeySlice_s key len) (\<lambda>keyslice.
     rbind (on_world (ix_make_cursor ops keyslice index) st) (\<lambda>(node_cursor, st1).
     rbind (on_world (ix_get_key ops node_cursor index) st1) (\<lambda>(r, st2).
     rbind (key_found keyslice r) (\<lambda>found.
       if found then
         rbind (on_world (ix_get_value ops node_cursor index) st2) (\<lambda>(rv, st3).
         rbind (on_world (ix_free_cursor ops node_cursor) st3) (\<lambda>(_, st4).
         rbind (border_of (snd rv) st4) (\<lambda>(b, bnode).
           if len \<le> keyslice_length then
             rbind (BN_SetPrefixValue_s bnode len v) (\<lambda>bn1. Inr (set_border st4 b bn1))
           else if BN_HasSuffix_s bnode then
             rbind (new_key key len st4) (\<lambda>(k, st5).
             rbind (BN_TestSuffix_s bnode k) (\<lambda>same.
               if same then
                 rbind (BN_SetSuffixValue_s bnode (drop keyslice_length key) (len - keyslice_length) v st5)
                   (\<lambda>(bn1, st6). Inr (set_border st6 b bn1))
               else
                 rbind (BN_ExportSuffixValue_s bnode st5) (\<lambda>(kv2, bn1, st6).
                 rbind (written kv2) (\<lambda>(k2, v2).
                 rbind (create_pair ops (drop keyslice_length key) (len - keyslice_length)
                          (sk_content k2) (sk_len k2) v v2 (set_border st6 b bn1)) (\<lambda>(subindex, st7).
                 rbind (border_at st7 b) (\<lambda>bn2. Inr (set_border st7 b (BN_SetLink_s bn2 subindex))))))))
           else
             (case BN_GetLink_s bnode of
                Some subindex \<Rightarrow> put ops (drop keyslice_length key) (len - keyslice_length) v subindex st4
              | None \<Rightarrow>
                  rbind (BN_SetSuffixValue_s bnode (drop keyslice_length key) (len - keyslice_length) v st4)
                    (\<lambda>(bn1, st5). Inr (set_border st5 b bn1))))))
       else
         rbind (BN_NewBorderNode_s st2) (\<lambda>(b, st3).
         rbind (border_with key len v b st3) (\<lambda>st4.
         rbind (on_world (ix_put ops keyslice b node_cursor index) st4) (\<lambda>(_, st5).
         rbind (on_world (ix_free_cursor ops node_cursor) st5) (\<lambda>(_, st6). Inr st6))))))))"
  by pat_completeness auto

termination
  by (relation "measure (\<lambda>(ops, key, len, _). len)") auto

declare make_cursor.simps [simp del] create_pair.simps [simp del] put.simps [simp del]

end
