(* ===== verification/Str_Border.thy ===== *)
theory Str_Border
  imports Str_Index
begin

text \<open>
  Key slices and border nodes of \<open>index_string.c\<close>: a slice and a length determine the first eight
  bytes of a key, and a border node is its values for the keys that end in the slice, at most one
  suffix with its value, and at most one link.
\<close>

section \<open>Slices\<close>

definition key_slice :: "byte list \<Rightarrow> ckey" where
  "key_slice y = bytes_val (take 8 y @ replicate (8 - length y) 0)"

lemma slice_loop_s_foldl:
  "len \<le> length str \<Longrightarrow> slice_loop_s str len i n res =
     Inr (foldl add_byte res (take n (drop i (take len str) @ replicate (n - (len - i)) 0)))"
proof (induction n arbitrary: i res)
  case (Suc n)
  show ?case
  proof (cases "i < len")
    case True
    then have "drop i (take len str) = str ! i # drop (Suc i) (take len str)"
      using Suc.prems by (simp add: Cons_nth_drop_Suc[symmetric])
    then show ?thesis using Suc True by (simp add: Suc_diff_Suc)
  next
    case False
    then show ?thesis using Suc by (simp add: add_byte_0)
  qed
qed simp

lemma GetNextKeySlice_s:
  assumes "len \<le> length str"
  shows "UTIL_GetNextKeySlice_s str len = Inr (key_slice (take len str))"
  using slice_loop_s_foldl[OF assms, of 0 8 0] assms
  by (simp add: UTIL_GetNextKeySlice_s_def key_slice_def bytes_val_def min_absorb1)

text \<open>It agrees with the function of \<open>util.c\<close>, which asks for at most eight bytes.\<close>

lemma GetNextKeySlice_s_util:
  "len \<le> 8 \<Longrightarrow> len \<le> length str \<Longrightarrow> UTIL_GetNextKeySlice_s str len = UTIL_GetNextKeySlice str len"
  by (simp add: GetNextKeySlice_s GetNextKeySlice_val key_slice_def min_absorb1 min_absorb2)

lemma bytes_val_8_inj:
  assumes "length bs = 8" "length cs = 8" "bytes_val bs = bytes_val cs"
  shows "bs = cs"
  using bytes_val_inj[OF assms(1,2)] assms(3) by simp

lemma key_slice_inj:
  assumes "key_slice y = key_slice z" and "min 8 (length y) = min 8 (length z)"
  shows "take 8 y = take 8 z"
proof -
  have "take 8 y @ replicate (8 - length y) 0 = take 8 z @ replicate (8 - length z) 0"
    by (rule bytes_val_8_inj) (use assms in \<open>simp_all add: key_slice_def\<close>)
  moreover have "length (take 8 y) = length (take 8 z)" using assms(2) by (simp add: min.commute)
  ultimately show ?thesis by (metis append_eq_append_conv)
qed

lemma key_slice_short:
  assumes "length y \<le> 8" shows "key_slice y = key_slice z \<and> length y = length z \<longleftrightarrow> y = z"
  using key_slice_inj[of y z] assms by auto

lemma key_slice_long:
  assumes "8 < length y" "8 < length z"
  shows "key_slice y = key_slice z \<and> drop 8 y = drop 8 z \<longleftrightarrow> y = z"
proof
  assume a: "key_slice y = key_slice z \<and> drop 8 y = drop 8 z"
  have "take 8 y = take 8 z" by (rule key_slice_inj) (use a assms in simp_all)
  with a show "y = z" by (metis append_take_drop_id)
qed simp

lemma str_equal_loop_s_eq: "str_equal_loop_s a b i n = str_equal_loop a b i n"
  by (induction n arbitrary: i) (simp_all cong: if_cong)

lemma StrEqual_s:
  "lenA \<le> length a \<Longrightarrow> lenB \<le> length b \<Longrightarrow> UTIL_StrEqual_s a lenA b lenB = Inr (take lenA a = take lenB b)"
  using StrEqual_correct[of lenA a lenB b] unfolding UTIL_StrEqual_s_def UTIL_StrEqual_def str_equal_loop_s_eq by simp

lemma copy_loop_take: "i + n \<le> length str \<Longrightarrow> copy_loop str i n = Inr (take n (drop i str))"
  by (induction n arbitrary: i) (simp_all add: Cons_nth_drop_Suc[symmetric])

section \<open>Border nodes\<close>

definition pfx :: "sborder \<Rightarrow> nat \<Rightarrow> addr option" where
  "pfx bn n = (if n \<le> 8 \<and> bit (prefixFlags bn) n then Some (sprefixLinks bn ! n) else None)"

definition sfx :: "sborder \<Rightarrow> (byte list \<times> addr) option" where
  "sfx bn = map_option (\<lambda>s. (s, ssuffixLink bn)) (skeySuffix bn)"

definition border_ok :: "sborder \<Rightarrow> bool" where
  "border_ok bn \<longleftrightarrow> length (sprefixLinks bn) = 9 \<and>
     (\<forall>s. skeySuffix bn = Some s \<longrightarrow> skeySuffixLength bn = length s \<and> s \<noteq> [] \<and> length s < 2 ^ 32)"

definition empty_border :: sborder where
  "empty_border = \<lparr>prefixFlags = 0, sprefixLinks = replicate 9 NULL, ssuffixLink = NULL,
     skeySuffix = None, skeySuffixLength = 0\<rparr>"

lemma empty_border_ok:
  "border_ok empty_border" "pfx empty_border = Map.empty" "sfx empty_border = None" "BN_GetLink_s empty_border = None"
  by (simp_all add: border_ok_def pfx_def sfx_def BN_GetLink_s_def empty_border_def fun_eq_iff)

lemma has_suffix: "BN_HasSuffix_s bn \<longleftrightarrow> sfx bn \<noteq> None"
  by (simp add: BN_HasSuffix_s_def sfx_def)

lemma link_suffix: "BN_GetLink_s bn = Some l \<Longrightarrow> sfx bn = None \<and> l \<noteq> NULL"
  by (auto simp: BN_GetLink_s_def sfx_def split: if_splits)

lemma bit_flag: "n < 64 \<Longrightarrow> bit (or f (2 ^ i) :: 64 word) n \<longleftrightarrow> bit f n \<or> n = i"
  by (auto simp: bit_or_iff bit_exp_iff)

lemma SetPrefix:
  assumes "border_ok bn" and "n \<le> 8"
  shows "\<exists>bn'. BN_SetPrefixValue_s bn n v = Inr bn' \<and> border_ok bn' \<and> pfx bn' = (pfx bn)(n \<mapsto> v) \<and>
    sfx bn' = sfx bn \<and> BN_GetLink_s bn' = BN_GetLink_s bn"
  using assms by (auto simp: BN_SetPrefixValue_s_def setFlag_def flag_bit_def border_ok_def pfx_def sfx_def
      BN_GetLink_s_def fun_eq_iff bit_flag nth_list_update)

lemma readFlag_pfx: "n \<le> 8 \<Longrightarrow> readFlag (prefixFlags bn) n = Inr (pfx bn n \<noteq> None)"
  by (simp add: readFlag_def flag_bit_def pfx_def and_exp_eq_0_iff_not_bit)

lemma GetPrefix:
  assumes "border_ok bn" and "n \<le> 8"
  shows "BN_GetPrefixValue_s bn n = Inr (pfx bn n \<noteq> None, sprefixLinks bn ! n)"
    "pfx bn n = Some v \<Longrightarrow> sprefixLinks bn ! n = v"
  using assms by (auto simp: BN_GetPrefixValue_s_def readFlag_pfx border_ok_def) (simp add: pfx_def split: if_splits)

lemma SetLink:
  assumes "border_ok bn" and "l \<noteq> NULL"
  shows "border_ok (BN_SetLink_s bn l)" "pfx (BN_SetLink_s bn l) = pfx bn" "sfx (BN_SetLink_s bn l) = None"
    "BN_GetLink_s (BN_SetLink_s bn l) = Some l"
  using assms by (simp_all add: border_ok_def pfx_def sfx_def BN_GetLink_s_def BN_SetLink_s_def fun_eq_iff)

text \<open>What setting the value of a key does: a long key drops the link or the suffix that was there.\<close>

definition border_put :: "sborder \<Rightarrow> byte list \<Rightarrow> addr \<Rightarrow> sborder \<Rightarrow> bool" where
  "border_put bn y v bn' \<longleftrightarrow> border_ok bn' \<and>
     (if length y \<le> 8 then pfx bn' = (pfx bn)(length y \<mapsto> v) \<and> sfx bn' = sfx bn \<and> BN_GetLink_s bn' = BN_GetLink_s bn
      else pfx bn' = pfx bn \<and> sfx bn' = Some (drop 8 y, v) \<and> BN_GetLink_s bn' = None)"

lemma bit_next_flag:
  "i + n \<le> 9 \<Longrightarrow> \<exists>r. next_flag (prefixFlags bn) i n = Inr r \<and>
     (case r of None \<Rightarrow> \<forall>j. i \<le> j \<longrightarrow> j < i + n \<longrightarrow> pfx bn j = None
      | Some j \<Rightarrow> i \<le> j \<and> j < i + n \<and> pfx bn j \<noteq> None \<and> (\<forall>j'. i \<le> j' \<longrightarrow> j' < j \<longrightarrow> pfx bn j' = None))"
proof (induction n arbitrary: i)
  case (Suc n)
  have b: "readFlag (prefixFlags bn) i = Inr (pfx bn i \<noteq> None)" using Suc.prems by (intro readFlag_pfx) simp
  show ?case
  proof (cases "pfx bn i = None")
    case True
    from Suc.IH[of "Suc i"] Suc.prems obtain r where r: "next_flag (prefixFlags bn) (Suc i) n = Inr r"
      "case r of None \<Rightarrow> \<forall>j. Suc i \<le> j \<longrightarrow> j < Suc i + n \<longrightarrow> pfx bn j = None
       | Some j \<Rightarrow> Suc i \<le> j \<and> j < Suc i + n \<and> pfx bn j \<noteq> None \<and> (\<forall>j'. Suc i \<le> j' \<longrightarrow> j' < j \<longrightarrow> pfx bn j' = None)" by auto
    have split: "i \<le> j \<longleftrightarrow> j = i \<or> Suc i \<le> j" for j by auto
    show ?thesis using r b True by (cases r) (auto simp: split)
  next
    case False
    then show ?thesis using b by simp
  qed
qed simp

end
