(* ===== verification/Str_Trie.thy ===== *)
theory Str_Trie
  imports Str_Border "HOL-Library.Sublist"
begin

text \<open>
  The contract of the integer indexes that the trie uses, the map from strings to values that a
  trie represents, and the invariant of a trie: its nodes and border nodes form a tree, described
  by the node and the border node at the end of each path of slices.
\<close>

section \<open>The contract of integer indexes\<close>

text \<open>
  \<open>irep w I C\<close>: in the state \<open>w\<close> the indexes are \<open>I\<close>, sorted lists of keys with values, and the
  cursors are \<open>C\<close>, each on a position of an index. \<open>iroom n w\<close>: \<open>n\<close> more operations fit into the
  memory.
\<close>

type_synonym indexes = "addr \<rightharpoonup> (ckey \<times> addr) list"
type_synonym icursors = "addr \<rightharpoonup> addr \<times> nat"

locale int_indexes =
  fixes ops :: "'w int_index" and irep :: "'w \<Rightarrow> indexes \<Rightarrow> icursors \<Rightarrow> bool" and iroom :: "nat \<Rightarrow> 'w \<Rightarrow> bool"
  assumes index_sorted: "irep w I C \<Longrightarrow> I i = Some m \<Longrightarrow> i \<noteq> NULL \<and> sorted_keys m"
    and room_less: "iroom (Suc n) w \<Longrightarrow> iroom n w"
    and empty_law: "irep w I C \<Longrightarrow> iroom (Suc n) w \<Longrightarrow>
      \<exists>i w'. ix_empty ops w = Inr (i, w') \<and> i \<noteq> NULL \<and> I i = None \<and> irep w' (I(i \<mapsto> [])) C \<and> iroom n w'"
    and make_law: "irep w I C \<Longrightarrow> iroom (Suc n) w \<Longrightarrow> I i = Some m \<Longrightarrow>
      \<exists>c w'. ix_make_cursor ops k i w = Inr (c, w') \<and> C c = None \<and>
        irep w' I (C(c \<mapsto> (i, rec_ix (map fst m) k))) \<and> iroom n w'"
    and first_law: "irep w I C \<Longrightarrow> iroom (Suc n) w \<Longrightarrow> I i = Some m \<Longrightarrow>
      \<exists>c w'. ix_first_cursor ops i w = Inr (c, w') \<and> C c = None \<and> irep w' I (C(c \<mapsto> (i, 0))) \<and> iroom n w'"
    and key_law: "irep w I C \<Longrightarrow> iroom n w \<Longrightarrow> C c = Some (i, p) \<Longrightarrow> I i = Some m \<Longrightarrow>
      \<exists>r w'. ix_get_key ops c i w = Inr ((p < length m, r), w') \<and> (p < length m \<longrightarrow> r = Some (fst (m ! p))) \<and>
        irep w' I C \<and> iroom n w'"
    and value_law: "irep w I C \<Longrightarrow> iroom n w \<Longrightarrow> C c = Some (i, p) \<Longrightarrow> I i = Some m \<Longrightarrow> p < length m \<Longrightarrow>
      \<exists>b w'. ix_get_value ops c i w = Inr ((b, Some (snd (m ! p))), w') \<and> irep w' I C \<and> iroom n w'"
    and put_law: "irep w I C \<Longrightarrow> iroom (Suc n) w \<Longrightarrow> C c = Some (i, p) \<Longrightarrow> I i = Some m \<Longrightarrow>
      \<exists>w' C' p'. ix_put ops k v c i w = Inr ((), w') \<and> irep w' (I(i \<mapsto> alist_put k v m)) C' \<and>
        C' c = Some (i, p') \<and> iroom n w'"
    and free_law: "irep w I C \<Longrightarrow> iroom n w \<Longrightarrow> C c = Some x \<Longrightarrow>
      \<exists>w'. ix_free_cursor ops c w = Inr ((), w') \<and> irep w' I (C(c := None)) \<and> iroom n w'"

section \<open>The map that a trie represents\<close>

text \<open>The value of a key at a border node: \<open>sub\<close> is the map of the trie behind the link.\<close>

definition border_get :: "sborder \<Rightarrow> (addr \<Rightarrow> byte list \<Rightarrow> addr option) \<Rightarrow> byte list \<Rightarrow> addr option" where
  "border_get bn sub y =
     (if length y \<le> 8 then pfx bn (length y)
      else case sfx bn of
        Some (s, v) \<Rightarrow> if s = drop 8 y then Some v else None
      | None \<Rightarrow> (case BN_GetLink_s bn of Some l \<Rightarrow> sub l (drop 8 y) | None \<Rightarrow> None))"

lemma border_get_cong [fundef_cong]:
  assumes "bn = bn'" "y = y'" "\<And>l. 8 < length y' \<Longrightarrow> BN_GetLink_s bn' = Some l \<Longrightarrow> sub l (drop 8 y') = sub' l (drop 8 y')"
  shows "border_get bn sub y = border_get bn' sub' y'"
  using assms by (auto simp: border_get_def split: option.splits)

function trie_get :: "indexes \<Rightarrow> (addr \<rightharpoonup> sborder) \<Rightarrow> addr \<Rightarrow> byte list \<Rightarrow> addr option" where
  "trie_get I B i y =
     (case I i of
        None \<Rightarrow> None
      | Some m \<Rightarrow> (case map_of m (key_slice y) of
          None \<Rightarrow> None
        | Some b \<Rightarrow> (case B b of None \<Rightarrow> None | Some bn \<Rightarrow> border_get bn (\<lambda>l y'. trie_get I B l y') y)))"
  by pat_completeness auto

termination
  by (relation "measure (\<lambda>(I, B, i, y). length y)") auto

declare trie_get.simps [simp del]

lemma border_put_get:
  assumes put: "border_put bn z v bn'" and slice: "key_slice y = key_slice z"
    and long: "8 < length z \<Longrightarrow> BN_GetLink_s bn = None \<and> (\<forall>s w. sfx bn = Some (s, w) \<longrightarrow> s = drop 8 z)"
  shows "border_get bn' sub y = (if y = z then Some v else border_get bn sub y)"
proof (cases "length z \<le> 8")
  case True
  then have "length y = length z \<longleftrightarrow> y = z" using key_slice_short[OF True, of y] slice by auto
  then show ?thesis using put True by (auto simp: border_put_def border_get_def split: option.splits)
next
  case False
  then have "8 < length y \<Longrightarrow> drop 8 z = drop 8 y \<longleftrightarrow> y = z" using key_slice_long[of y z] slice by auto
  then show ?thesis using put False long
    by (auto simp: border_put_def border_get_def split: option.splits)
qed

section \<open>The shape of a trie\<close>

text \<open>
  \<open>N\<close> gives the trie node at the end of a path of slices, \<open>X\<close> the border node. Both are injective,
  so no node is shared. \<open>P\<close> has the paths whose border node does not link to its node yet.
\<close>

type_synonym paths = "ckey list \<rightharpoonup> addr"

definition node_ok :: "indexes \<Rightarrow> paths \<Rightarrow> ckey list \<Rightarrow> addr \<Rightarrow> bool" where
  "node_ok I X q i \<longleftrightarrow> i \<noteq> NULL \<and> (\<exists>m. I i = Some m \<and> (\<forall>k. map_of m k = X (q @ [k])))"

definition linked_ok :: "(addr \<rightharpoonup> sborder) \<Rightarrow> paths \<Rightarrow> ckey list set \<Rightarrow> ckey list \<Rightarrow> addr \<Rightarrow> bool" where
  "linked_ok B N P q b \<longleftrightarrow> b \<noteq> NULL \<and> q \<noteq> [] \<and> N (butlast q) \<noteq> None \<and>
     (\<exists>bn. B b = Some bn \<and> border_ok bn \<and> BN_GetLink_s bn = (if q \<in> P then None else N q))"

definition str_inv :: "indexes \<Rightarrow> (addr \<rightharpoonup> sborder) \<Rightarrow> paths \<Rightarrow> paths \<Rightarrow> ckey list set \<Rightarrow> bool" where
  "str_inv I B N X P \<longleftrightarrow> (\<forall>q r i. N q = Some i \<longrightarrow> N r = Some i \<longrightarrow> q = r) \<and>
     (\<forall>q r b. X q = Some b \<longrightarrow> X r = Some b \<longrightarrow> q = r) \<and>
     (\<forall>q i. N q = Some i \<longrightarrow> node_ok I X q i) \<and> (\<forall>q b. X q = Some b \<longrightarrow> linked_ok B N P q b) \<and>
     (\<forall>q. q \<noteq> [] \<longrightarrow> N q \<noteq> None \<longrightarrow> q \<notin> P \<longrightarrow> X q \<noteq> None)"

lemma str_invI:
  assumes "\<And>q r i. N q = Some i \<Longrightarrow> N r = Some i \<Longrightarrow> q = r" and "\<And>q r b. X q = Some b \<Longrightarrow> X r = Some b \<Longrightarrow> q = r"
    and "\<And>q i. N q = Some i \<Longrightarrow> node_ok I X q i" and "\<And>q b. X q = Some b \<Longrightarrow> linked_ok B N P q b"
    and "\<And>q. q \<noteq> [] \<Longrightarrow> N q \<noteq> None \<Longrightarrow> q \<notin> P \<Longrightarrow> X q \<noteq> None"
  shows "str_inv I B N X P"
  using assms unfolding str_inv_def by blast

lemma str_invD:
  assumes "str_inv I B N X P"
  shows "N q = Some i \<Longrightarrow> N r = Some i \<Longrightarrow> q = r" "X q = Some b \<Longrightarrow> X r = Some b \<Longrightarrow> q = r"
    "N q = Some i \<Longrightarrow> node_ok I X q i" "X q = Some b \<Longrightarrow> linked_ok B N P q b"
    "q \<noteq> [] \<Longrightarrow> N q \<noteq> None \<Longrightarrow> q \<notin> P \<Longrightarrow> X q \<noteq> None"
  using assms unfolding str_inv_def by blast+

text \<open>There is nothing below a path without a node.\<close>

lemma str_inv_below:
  assumes inv: "str_inv I B N X {}" and none: "N r = None" and "strict_prefix r q"
  shows "N q = None \<and> X q = None"
proof -
  have child: "X (q @ [k]) = None" if "N q = None" for q k
  proof (cases "X (q @ [k])")
    case (Some c)
    then show ?thesis using str_invD(4)[OF inv Some] that by (simp add: linked_ok_def)
  qed
  have "N (r @ z @ [k]) = None \<and> X (r @ z @ [k]) = None" for z k
  proof (induction z arbitrary: k rule: rev_induct)
    case Nil
    then show ?case using child[OF none] str_invD(5)[OF inv, of "r @ [k]"] by (cases "N (r @ [k])") auto
  next
    case (snoc k' z)
    have "X ((r @ z @ [k']) @ [k]) = None" using child snoc by blast
    then show ?case using str_invD(5)[OF inv, of "r @ z @ [k', k]"] by (cases "N (r @ z @ [k', k])") auto
  qed
  moreover obtain w where "q = r @ w" "w \<noteq> []" using assms(3) by (auto simp: strict_prefix_def prefix_def)
  ultimately show ?thesis by (cases w rule: rev_cases) simp_all
qed

lemma str_inv_fresh:
  assumes inv: "str_inv I B N X P"
  shows "I i = None \<Longrightarrow> i \<notin> ran N" "B b = None \<Longrightarrow> b \<notin> ran X"
proof -
  show "i \<notin> ran N" if "I i = None"
  proof
    assume "i \<in> ran N"
    then obtain q where "N q = Some i" by (auto simp: ran_def)
    from str_invD(3)[OF inv this] that show False by (simp add: node_ok_def)
  qed
  show "b \<notin> ran X" if "B b = None"
  proof
    assume "b \<in> ran X"
    then obtain q where "X q = Some b" by (auto simp: ran_def)
    from str_invD(4)[OF inv this] that show False by (simp add: linked_ok_def)
  qed
qed

lemma trie_get_node:
  assumes "str_inv I B N X P" and "N q = Some i"
  shows "trie_get I B i y = (case X (q @ [key_slice y]) of
      None \<Rightarrow> None | Some b \<Rightarrow> border_get (the (B b)) (trie_get I B) y)"
proof -
  obtain m where m: "I i = Some m" "map_of m (key_slice y) = X (q @ [key_slice y])"
    using str_invD(3)[OF assms] unfolding node_ok_def by blast
  show ?thesis
  proof (cases "X (q @ [key_slice y])")
    case None
    then show ?thesis using m by (subst trie_get.simps) simp
  next
    case (Some b)
    then obtain bn where "B b = Some bn" using str_invD(4)[OF assms(1)] unfolding linked_ok_def by blast
    then show ?thesis using m Some by (subst trie_get.simps) simp
  qed
qed

text \<open>A part of the trie that a change does not touch represents the same map.\<close>

lemma trie_get_frame:
  assumes inv: "str_inv I B N X P" and inv': "str_inv I' B' N' X' P'"
    and "N q = Some i" and "N' q = Some i"
    and X: "\<And>r. strict_prefix q r \<Longrightarrow> X' r = X r \<and> (\<forall>b. X r = Some b \<longrightarrow> B' b = B b)"
    and N: "\<And>r. strict_prefix q r \<Longrightarrow> N' r = N r"
  shows "trie_get I' B' i y = trie_get I B i y"
  using assms(3-)
proof (induction y arbitrary: q i rule: measure_induct_rule[where f = length])
  case (less y)
  let ?r = "q @ [key_slice y]"
  note a = trie_get_node[OF inv less.prems(1), of y] trie_get_node[OF inv' less.prems(2), of y]
  have pre: "strict_prefix q ?r" "\<And>s. strict_prefix ?r s \<Longrightarrow> strict_prefix q s"
    by (auto simp: strict_prefix_def prefix_def)
  note xr = less.prems(3)[OF pre(1)] and nr = less.prems(4)[OF pre(1)]
  show ?case
  proof (cases "X ?r")
    case None
    then show ?thesis using a xr by simp
  next
    case (Some b)
    obtain bn where bn: "B b = Some bn" "BN_GetLink_s bn = (if ?r \<in> P then None else N ?r)"
      using str_invD(4)[OF inv Some] unfolding linked_ok_def by blast
    have same: "X' ?r = Some b" "B' b = Some bn" using xr Some bn(1) by simp_all
    have "border_get bn (trie_get I' B') y = border_get bn (trie_get I B) y"
    proof (rule border_get_cong[OF refl refl])
      fix l assume l: "8 < length y" "BN_GetLink_s bn = Some l"
      then have n: "N ?r = Some l" "N' ?r = Some l" using bn(2) nr by (simp_all split: if_splits)
      have "length (drop 8 y) < length y" using l(1) by simp
      from less.IH[OF this n] less.prems(3,4) pre(2)
      show "trie_get I' B' l (drop 8 y) = trie_get I B l (drop 8 y)" by blast
    qed
    then show ?thesis using a Some same bn(1) by simp
  qed
qed

text \<open>The same for the keys that start with one slice.\<close>

lemma trie_get_branch:
  assumes inv: "str_inv I B N X P" and inv': "str_inv I' B' N' X' P'" and i: "N q = Some i" "N' q = Some i"
    and same: "\<And>r. prefix (q @ [key_slice y]) r \<Longrightarrow> X' r = X r \<and> (\<forall>b. X r = Some b \<longrightarrow> B' b = B b) \<and> N' r = N r"
  shows "trie_get I' B' i y = trie_get I B i y"
proof -
  let ?r = "q @ [key_slice y]"
  have r: "X' ?r = X ?r" "\<And>b. X ?r = Some b \<Longrightarrow> B' b = B b" "N' ?r = N ?r" using same[of ?r] by simp_all
  note a = trie_get_node[OF inv i(1), of y] trie_get_node[OF inv' i(2), of y]
  show ?thesis
  proof (cases "X ?r")
    case None
    then show ?thesis using a r(1) by simp
  next
    case (Some b)
    obtain bn where bn: "B b = Some bn" "BN_GetLink_s bn = (if ?r \<in> P then None else N ?r)"
      using str_invD(4)[OF inv Some] unfolding linked_ok_def by blast
    have "border_get bn (trie_get I' B') y = border_get bn (trie_get I B) y"
    proof (rule border_get_cong[OF refl refl])
      fix l assume "BN_GetLink_s bn = Some l"
      then have n: "N ?r = Some l" "N' ?r = Some l" using bn(2) r(3) by (simp_all split: if_splits)
      show "trie_get I' B' l (drop 8 y) = trie_get I B l (drop 8 y)"
        by (rule trie_get_frame[OF inv inv' n]) (use same in \<open>auto simp: strict_prefix_def\<close>)
    qed
    then show ?thesis using a Some r bn(1) by simp
  qed
qed

section \<open>Changes of the shape\<close>

lemma str_inv_pend:
  assumes inv: "str_inv I B N X P" and "N q = None"
  shows "str_inv I B N X (insert q P)"
proof (rule str_invI)
  show "linked_ok B N (insert q P) r b" if "X r = Some b" for r b
    using str_invD(4)[OF inv that] assms(2) by (cases "r = q") (auto simp: linked_ok_def split: if_splits)
qed (use str_invD[OF inv] in blast)+

lemma str_inv_repend:
  assumes "str_inv I B N X (P - {q})" and "N q = None"
  shows "str_inv I B N X P"
proof (cases "q \<in> P")
  case True
  then have "insert q (P - {q}) = P" by blast
  then show ?thesis using str_inv_pend[OF assms] by simp
next
  case False
  then have "P - {q} = P" by blast
  then show ?thesis using assms(1) by simp
qed

lemma str_inv_heap:
  assumes "str_inv I B N X P" and "\<And>b. b \<in> ran X \<Longrightarrow> B' b = B b" and "\<And>i. i \<in> ran N \<Longrightarrow> I' i = I i"
  shows "str_inv I' B' N X P"
proof (rule str_invI)
  note d = str_invD[OF assms(1)]
  show "node_ok I' X q i" if "N q = Some i" for q i
  proof -
    have "I' i = I i" using assms(3) that by (auto simp: ran_def)
    then show ?thesis using d(3)[OF that] by (simp add: node_ok_def)
  qed
  show "linked_ok B' N P q b" if "X q = Some b" for q b
  proof -
    have "B' b = B b" using assms(2) that by (auto simp: ran_def)
    then show ?thesis using d(4)[OF that] by (simp add: linked_ok_def)
  qed
qed (use str_invD[OF assms(1)] in blast)+

lemma str_inv_set_border:
  assumes inv: "str_inv I B N X P" and q: "X q = Some b" and bn: "border_ok bn"
    and link: "BN_GetLink_s bn = N q"
  shows "str_inv I (B(b \<mapsto> bn)) N X (P - {q})"
proof (rule str_invI)
  note d = str_invD[OF inv]
  show "linked_ok (B(b \<mapsto> bn)) N (P - {q}) r b'" if r: "X r = Some b'" for r b'
  proof (cases "r = q")
    case True
    then show ?thesis using d(4)[OF q] bn link r q unfolding linked_ok_def by auto
  next
    case False
    then have "b' \<noteq> b" using d(2)[OF r] q by blast
    then show ?thesis using d(4)[OF r] False unfolding linked_ok_def by simp
  qed
  show "X r \<noteq> None" if "r \<noteq> []" "N r \<noteq> None" "r \<notin> P - {q}" for r
    using that d(5)[OF that(1,2)] q by (cases "r = q") auto
qed (use str_invD[OF inv] in blast)+

lemma str_inv_add_border:
  assumes inv: "str_inv I B N X P" and q: "N q = Some i" "I i = Some m" and k: "X (q @ [k]) = None"
    and b: "b \<notin> ran X" "b \<noteq> NULL" "B b = Some bn" "border_ok bn" "BN_GetLink_s bn = N (q @ [k])"
  shows "str_inv (I(i \<mapsto> alist_put k b m)) B N (X(q @ [k] \<mapsto> b)) (P - {q @ [k]})"
proof (rule str_invI)
  note d = str_invD[OF inv]
  let ?X = "X(q @ [k] \<mapsto> b)"
  show "node_ok (I(i \<mapsto> alist_put k b m)) ?X r j" if r: "N r = Some j" for r j
  proof (cases "r = q")
    case True
    then have "j = i" using r q(1) by simp
    then show ?thesis using d(3)[OF q(1)] q(2) True by (auto simp: node_ok_def map_of_alist_put)
  next
    case False
    then have "j \<noteq> i" using d(1)[OF r] q(1) by blast
    then show ?thesis using d(3)[OF r] False by (simp add: node_ok_def)
  qed
  show "linked_ok B N (P - {q @ [k]}) r b'" if r: "?X r = Some b'" for r b'
  proof (cases "r = q @ [k]")
    case True
    then show ?thesis using r b q(1) by (auto simp: linked_ok_def)
  next
    case False
    then show ?thesis using r d(4)[of r b'] by (simp add: linked_ok_def)
  qed
  have fresh: "X r \<noteq> Some b" for r using b(1) by (auto simp: ran_def)
  show "r = s" if "?X r = Some b'" "?X s = Some b'" for r s b'
    using that fresh d(2)[of r b' s] by (auto split: if_splits)
  show "?X r \<noteq> None" if "r \<noteq> []" "N r \<noteq> None" "r \<notin> P - {q @ [k]}" for r
    using that d(5)[of r] by (cases "r = q @ [k]") simp_all
qed (use str_invD[OF inv] in blast)+

lemma str_inv_add_node:
  assumes inv: "str_inv I B N X P" and q: "N q = None" "X q = None \<or> q \<in> P" "\<And>k. X (q @ [k]) = None"
    and i: "i \<notin> ran N" "i \<noteq> NULL" "I i = Some []"
  shows "str_inv I B (N(q \<mapsto> i)) X (insert q P)"
proof (rule str_invI)
  note d = str_invD[OF inv]
  let ?N = "N(q \<mapsto> i)"
  show "node_ok I X r j" if r: "?N r = Some j" for r j
    using r d(3)[of r j] i q(3) by (cases "r = q") (auto simp: node_ok_def)
  show "linked_ok B ?N (insert q P) r b" if r: "X r = Some b" for r b
    using d(4)[OF r] q(1,2) r by (cases "r = q") (auto simp: linked_ok_def)
  have fresh: "N r \<noteq> Some i" for r using i(1) by (auto simp: ran_def)
  show "r = s" if "?N r = Some j" "?N s = Some j" for r s j
    using that fresh d(1)[of r j s] by (auto split: if_splits)
  show "X r \<noteq> None" if "r \<noteq> []" "?N r \<noteq> None" "r \<notin> insert q P" for r
    using that d(5)[of r] by simp
qed (use str_invD[OF inv] in blast)+

end
