(* ===== verification/Str_Steps.thy ===== *)
theory Str_Steps
  imports Str_Trie
begin

text \<open>
  What the steps of \<open>put\<close> and \<open>create_pair\<close> do to the heap of a trie, under the contract of integer
  indexes. One number bounds the allocations and the index operations that are still possible.
\<close>

definition trie_state :: "('w \<Rightarrow> indexes \<Rightarrow> icursors \<Rightarrow> bool) \<Rightarrow> (nat \<Rightarrow> 'w \<Rightarrow> bool) \<Rightarrow> 'w trie_heap \<Rightarrow> indexes \<Rightarrow>
    icursors \<Rightarrow> nat \<Rightarrow> bool" where
  "trie_state irep iroom st I C n \<longleftrightarrow> irep (bd_world st) I C \<and> iroom n (bd_world st) \<and> n \<le> bd_mem st \<and>
     (\<forall>b \<in> dom (bds st). b < bd_fresh st) \<and> 0 < bd_fresh st"

lemma bds_set_border [simp]: "bds (set_border st b bn) = (bds st)(b \<mapsto> bn)"
  by (simp add: set_border_def)

lemma border_at_Some: "b \<noteq> NULL \<Longrightarrow> bds st b = Some bn \<Longrightarrow> border_at st b = Inr bn"
  by (simp add: border_at_def)

context int_indexes
begin

abbreviation ts where "ts \<equiv> trie_state irep iroom"

lemma ts_less: "ts st I C n \<Longrightarrow> m \<le> n \<Longrightarrow> ts st I C m"
proof (induction n)
  case (Suc n)
  then show ?case using room_less unfolding trie_state_def by (cases "m = Suc n") auto
qed simp

lemma ts_border: "ts st I C n \<Longrightarrow> bds st b \<noteq> None \<Longrightarrow> ts (set_border st b bn) I C n"
  by (auto simp: trie_state_def set_border_def dom_def)

lemma malloc_ok:
  assumes "ts st I C (Suc n)"
  shows "\<exists>st'. surely_malloc_s st = Inr st' \<and> ts st' I C n \<and> bds st' = bds st"
  using assms room_less unfolding trie_state_def surely_malloc_s_def by auto

lemma copy_str_ok:
  assumes "ts st I C (Suc n)" and "len \<le> length str" and "len < 2 ^ 32"
  shows "\<exists>st'. copy_str str len st = Inr (take len str, st') \<and> ts st' I C n \<and> bds st' = bds st"
proof -
  obtain st' where "surely_malloc_s st = Inr st'" "ts st' I C n" "bds st' = bds st" using malloc_ok[OF assms(1)] by blast
  moreover have "copy_loop str 0 len = Inr (take len str)" using copy_loop_take[of 0 len str] assms(2) by simp
  ultimately show ?thesis using assms(3) by (simp add: copy_str_def)
qed

lemma new_key_ok:
  assumes "ts st I C (Suc (Suc n))" and "len \<le> length str" and "len < 2 ^ 32"
  shows "\<exists>st'. new_key str len st = Inr (\<lparr>sk_content = take len str, sk_len = len\<rparr>, st') \<and> ts st' I C n \<and> bds st' = bds st"
proof -
  obtain st1 where st1: "copy_str str len st = Inr (take len str, st1)" "ts st1 I C (Suc n)" "bds st1 = bds st"
    using copy_str_ok[OF assms] by blast
  then show ?thesis using malloc_ok[OF st1(2)] by (auto simp: new_key_def)
qed

lemma new_border_ok:
  assumes "ts st I C (Suc n)"
  shows "\<exists>b st'. BN_NewBorderNode_s st = Inr (b, st') \<and> b \<noteq> NULL \<and> bds st b = None \<and>
    bds st' = (bds st)(b \<mapsto> empty_border) \<and> ts st' I C n"
proof -
  obtain st1 where st1: "surely_malloc_s st = Inr st1" "ts st1 I C n" "bds st1 = bds st"
    using malloc_ok[OF assms] by blast
  have "bd_fresh st1 \<noteq> NULL" "bds st1 (bd_fresh st1) = None" using st1(2) by (auto simp: trie_state_def)
  moreover have "ts ((set_border st1 (bd_fresh st1) empty_border)\<lparr>bd_fresh := Suc (bd_fresh st1)\<rparr>) I C n"
    using st1(2) by (auto simp: trie_state_def set_border_def less_Suc_eq)
  ultimately show ?thesis using st1(1,3)
    by (simp add: BN_NewBorderNode_s_def empty_border_def numeral_eq_Suc)
qed

lemma set_value_ok:
  assumes st: "ts st I C (Suc n)" and bn: "border_ok bn" and key: "sk_len key \<le> length (sk_content key)" "sk_len key < 2 ^ 32"
  shows "\<exists>bn' st'. BN_SetValue_s bn key v st = Inr (bn', st') \<and> border_put bn (take (sk_len key) (sk_content key)) v bn' \<and>
    bds st' = bds st \<and> ts st' I C n"
proof (cases "8 < sk_len key")
  case True
  let ?s = "drop 8 (sk_content key)" and ?n = "sk_len key - 8"
  have le: "?n \<le> length ?s" "?n < 2 ^ 32" using key by simp_all
  obtain st' where st': "copy_str ?s ?n st = Inr (take ?n ?s, st')" "ts st' I C n" "bds st' = bds st"
    using copy_str_ok[OF st le] by blast
  have d: "take ?n ?s = drop 8 (take (sk_len key) (sk_content key))" by (simp add: drop_take)
  let ?bn = "bn\<lparr>ssuffixLink := v, skeySuffix := Some (take ?n ?s), skeySuffixLength := ?n\<rparr>"
  have "border_put bn (take (sk_len key) (sk_content key)) v ?bn"
    using bn key True by (simp add: border_put_def border_ok_def pfx_def sfx_def BN_GetLink_s_def fun_eq_iff d)
  then show ?thesis using st' True by (simp add: BN_SetValue_s_def BN_SetSuffixValue_s_def)
next
  case False
  then obtain bn' where "BN_SetPrefixValue_s bn (sk_len key) v = Inr bn'" "border_ok bn'"
    "pfx bn' = (pfx bn)(sk_len key \<mapsto> v)" "sfx bn' = sfx bn" "BN_GetLink_s bn' = BN_GetLink_s bn"
    using SetPrefix[OF bn, of "sk_len key" v] by auto
  then show ?thesis using False key ts_less[OF st, of n] by (simp add: BN_SetValue_s_def border_put_def)
qed

lemma border_with_ok:
  assumes st: "ts st I C (Suc (Suc (Suc n)))" and b: "b \<noteq> NULL" "bds st b = Some bn" "border_ok bn"
    and str: "len \<le> length str" "len < 2 ^ 32"
  shows "\<exists>bn' st'. border_with str len v b st = Inr st' \<and> border_put bn (take len str) v bn' \<and>
    bds st' = (bds st)(b \<mapsto> bn') \<and> ts st' I C n"
proof -
  obtain st1 where st1: "new_key str len st = Inr (\<lparr>sk_content = take len str, sk_len = len\<rparr>, st1)" "ts st1 I C (Suc n)"
    "bds st1 = bds st" using new_key_ok[OF st str] by blast
  obtain bn' st2 where st2: "BN_SetValue_s bn \<lparr>sk_content = take len str, sk_len = len\<rparr> v st1 = Inr (bn', st2)"
    "border_put bn (take len str) v bn'" "bds st2 = bds st1" "ts st2 I C n"
    using set_value_ok[OF st1(2) b(3), of "\<lparr>sk_content = take len str, sk_len = len\<rparr>" v] str by auto
  have "border_at st1 b = Inr bn" using b st1(3) by (simp add: border_at_Some)
  then have "border_with str len v b st = Inr (set_border st2 b bn')" using st1(1) st2(1) by (simp add: border_with_def)
  moreover have "ts (set_border st2 b bn') I C n" using ts_border[OF st2(4)] b(2) st1(3) st2(3) by simp
  ultimately show ?thesis using st1(3) st2(2,3) by auto
qed

section \<open>Index operations\<close>

lemma on_world_ts:
  assumes "f (bd_world st) = Inr (x, w')" and "ts st I C n" and "irep w' I' C'" and "iroom m w'" and "m \<le> n"
  shows "\<exists>st'. on_world f st = Inr (x, st') \<and> ts st' I' C' m \<and> bds st' = bds st"
  using assms by (auto simp: on_world_def trie_state_def)

lemma new_index_ok:
  assumes "ts st I C (Suc n)"
  shows "\<exists>i st'. on_world (ix_empty ops) st = Inr (i, st') \<and> i \<noteq> NULL \<and> I i = None \<and> ts st' (I(i \<mapsto> [])) C n \<and>
    bds st' = bds st"
proof -
  obtain i w' where "ix_empty ops (bd_world st) = Inr (i, w')" "i \<noteq> NULL" "I i = None" "irep w' (I(i \<mapsto> [])) C" "iroom n w'"
    using empty_law[of "bd_world st" I C n] assms by (auto simp: trie_state_def)
  then show ?thesis using on_world_ts[of "ix_empty ops", OF _ assms] by fastforce
qed

lemma put_first_ok:
  assumes st: "ts st I C (Suc (Suc n))" and i: "I i = Some m"
  shows "\<exists>st' C'. put_first ops k b i st = Inr st' \<and> ts st' (I(i \<mapsto> alist_put k b m)) C' n \<and> bds st' = bds st"
proof -
  obtain c w1 where "ix_first_cursor ops i (bd_world st) = Inr (c, w1)" "irep w1 I (C(c \<mapsto> (i, 0)))" "iroom (Suc n) w1"
    using first_law[of "bd_world st" I C "Suc n" i m] st i by (auto simp: trie_state_def)
  from on_world_ts[of "ix_first_cursor ops i", OF this(1) st this(2,3)] obtain st1 where
    st1: "on_world (ix_first_cursor ops i) st = Inr (c, st1)" "ts st1 I (C(c \<mapsto> (i, 0))) (Suc n)" "bds st1 = bds st" by auto
  obtain w2 C2 p where "ix_put ops k b c i (bd_world st1) = Inr ((), w2)" "irep w2 (I(i \<mapsto> alist_put k b m)) C2"
    "C2 c = Some (i, p)" "iroom n w2"
    using put_law[of "bd_world st1" I "C(c \<mapsto> (i, 0))" n c i 0 m k b] st1(2) i by (auto simp: trie_state_def)
  from on_world_ts[of "ix_put ops k b c i", OF this(1) st1(2) this(2,4)] this(3) obtain st2 where
    st2: "on_world (ix_put ops k b c i) st1 = Inr ((), st2)" "ts st2 (I(i \<mapsto> alist_put k b m)) C2 n" "bds st2 = bds st1"
    "C2 c = Some (i, p)" by auto
  obtain w3 where "ix_free_cursor ops c (bd_world st2) = Inr ((), w3)" "irep w3 (I(i \<mapsto> alist_put k b m)) (C2(c := None))"
    "iroom n w3"
    using free_law[of "bd_world st2" "I(i \<mapsto> alist_put k b m)" C2 n c "(i, p)"] st2(2,4) by (auto simp: trie_state_def)
  from on_world_ts[of "ix_free_cursor ops c", OF this(1) st2(2) this(2,3)] obtain st3 where
    "on_world (ix_free_cursor ops c) st2 = Inr ((), st3)" "ts st3 (I(i \<mapsto> alist_put k b m)) (C2(c := None)) n" "bds st3 = bds st2"
    by auto
  then show ?thesis using st1(1,3) st2(1,3) by (auto simp: put_first_def)
qed

text \<open>The search that \<open>put\<close> and \<open>make_cursor\<close> start with.\<close>

lemma seek_ok:
  assumes st: "ts st I C (Suc n)" and i: "I i = Some m"
  shows "\<exists>c st1 r st2. on_world (ix_make_cursor ops k i) st = Inr (c, st1) \<and>
    on_world (ix_get_key ops c i) st1 = Inr (r, st2) \<and> key_found k r = Inr (map_of m k \<noteq> None) \<and> C c = None \<and>
    ts st2 I (C(c \<mapsto> (i, rec_ix (map fst m) k))) n \<and> bds st2 = bds st"
proof -
  let ?p = "rec_ix (map fst m) k"
  obtain c w1 where c: "ix_make_cursor ops k i (bd_world st) = Inr (c, w1)" "C c = None" "irep w1 I (C(c \<mapsto> (i, ?p)))" "iroom n w1"
    using make_law[of "bd_world st" I C n i m k] st i by (auto simp: trie_state_def)
  from on_world_ts[of "ix_make_cursor ops k i", OF c(1) st c(3,4)] obtain st1 where
    st1: "on_world (ix_make_cursor ops k i) st = Inr (c, st1)" "ts st1 I (C(c \<mapsto> (i, ?p))) n" "bds st1 = bds st" by auto
  obtain r w2 where r: "ix_get_key ops c i (bd_world st1) = Inr ((?p < length m, r), w2)"
    "?p < length m \<longrightarrow> r = Some (fst (m ! ?p))" "irep w2 I (C(c \<mapsto> (i, ?p)))" "iroom n w2"
    using key_law[of "bd_world st1" I "C(c \<mapsto> (i, ?p))" n c i ?p m] st1(2) i by (auto simp: trie_state_def)
  from on_world_ts[of "ix_get_key ops c i", OF r(1) st1(2) r(3,4)] obtain st2 where
    st2: "on_world (ix_get_key ops c i) st1 = Inr ((?p < length m, r), st2)" "ts st2 I (C(c \<mapsto> (i, ?p))) n" "bds st2 = bds st1"
    by auto
  have "sorted_keys m" using index_sorted st i by (auto simp: trie_state_def)
  from rec_ix_mem[OF this, of k] have "key_found k (?p < length m, r) = Inr (map_of m k \<noteq> None)"
    using r(2) by (auto simp: key_found_def written_def map_of_eq_None_iff)
  then show ?thesis using st1 st2 c(2) by auto
qed

lemma free_ok:
  assumes "ts st I C n" and "C c = Some x"
  shows "\<exists>st'. on_world (ix_free_cursor ops c) st = Inr ((), st') \<and> ts st' I (C(c := None)) n \<and> bds st' = bds st"
proof -
  obtain w' where "ix_free_cursor ops c (bd_world st) = Inr ((), w')" "irep w' I (C(c := None))" "iroom n w'"
    using free_law[of "bd_world st" I C n c x] assms by (auto simp: trie_state_def)
  from on_world_ts[of "ix_free_cursor ops c", OF this(1) assms(1) this(2,3)] show ?thesis by auto
qed

lemma value_ok:
  assumes st: "ts st I C n" and c: "C c = Some (i, rec_ix (map fst m) k)" and i: "I i = Some m" and b: "map_of m k = Some b"
  shows "\<exists>x st'. on_world (ix_get_value ops c i) st = Inr ((x, Some b), st') \<and> ts st' I C n \<and> bds st' = bds st"
proof -
  let ?p = "rec_ix (map fst m) k"
  have sorted: "sorted_keys m" using index_sorted st i by (auto simp: trie_state_def)
  have k: "k \<in> fst ` set m" using b by (metis map_of_eq_None_iff option.distinct(1))
  have p: "?p < length m" "snd (m ! ?p) = b" using rec_ix_mem[OF sorted] rec_ix_map_of[OF sorted k] k b by auto
  obtain x w' where "ix_get_value ops c i (bd_world st) = Inr ((x, Some b), w')" "irep w' I C" "iroom n w'"
    using value_law[of "bd_world st" I C n c i ?p m] st c i p by (auto simp: trie_state_def)
  from on_world_ts[of "ix_get_value ops c i", OF this(1) st this(2,3)] show ?thesis by auto
qed

end

end
