(* ===== verification/Str_Pair.thy ===== *)
theory Str_Pair
  imports Str_Steps
begin

text \<open>
  \<open>create_pair\<close> builds a trie that holds two keys, at a path where there was none.
\<close>

definition no_trie :: "paths \<Rightarrow> paths \<Rightarrow> ckey list set \<Rightarrow> ckey list \<Rightarrow> bool" where
  "no_trie N X P p \<longleftrightarrow> p \<in> P \<and> N p = None \<and> (\<forall>q. strict_prefix p q \<longrightarrow> N q = None \<and> X q = None \<and> q \<notin> P)"

lemma strict_prefix_snoc: "strict_prefix p (p @ [k])" "strict_prefix (p @ [k]) q \<Longrightarrow> strict_prefix p q"
  by (auto simp: strict_prefix_def prefix_def)

lemma no_trieD:
  assumes "no_trie N X P p"
  shows "N p = None" "N (p @ [k]) = None" "X (p @ [k]) = None" "no_trie N X (insert (p @ [k]) P) (p @ [k])"
    "p @ [k] \<notin> P" "p \<in> P"
proof -
  show "N p = None" "N (p @ [k]) = None" "X (p @ [k]) = None" "p @ [k] \<notin> P" "p \<in> P"
    using assms strict_prefix_snoc(1)[of p k] unfolding no_trie_def by blast+
  then show "no_trie N X (insert (p @ [k]) P) (p @ [k])"
    using assms strict_prefix_snoc(2)[of p k] unfolding no_trie_def by (auto simp: strict_prefix_def)
qed

definition two_keys :: "byte list \<Rightarrow> addr \<Rightarrow> byte list \<Rightarrow> addr \<Rightarrow> byte list \<Rightarrow> addr option" where
  "two_keys y1 v1 y2 v2 y = (if y = y1 then Some v1 else if y = y2 then Some v2 else None)"

text \<open>What has changed when a trie was added at the path \<open>p\<close>.\<close>

definition added_at :: "ckey list \<Rightarrow> (addr \<rightharpoonup> sborder) \<Rightarrow> paths \<Rightarrow> paths \<Rightarrow> (addr \<rightharpoonup> sborder) \<Rightarrow> paths \<Rightarrow> paths \<Rightarrow> bool" where
  "added_at p B N X B' N' X' \<longleftrightarrow> (\<forall>q. \<not> prefix p q \<longrightarrow> N' q = N q) \<and> (\<forall>q. \<not> strict_prefix p q \<longrightarrow> X' q = X q) \<and>
     (\<forall>b \<in> dom B. B' b = B b) \<and> (\<forall>q b. X' q = Some b \<longrightarrow> X q = Some b \<or> B b = None)"

lemma added_atD:
  assumes "added_at p B N X B' N' X'"
  shows "\<not> prefix p q \<Longrightarrow> N' q = N q" "\<not> strict_prefix p q \<Longrightarrow> X' q = X q" "B b = Some bn \<Longrightarrow> B' b = Some bn"
    "X' q = Some b \<Longrightarrow> X q = Some b \<or> B b = None"
  using assms unfolding added_at_def by (force simp: dom_def)+

lemma not_prefix_snoc: "\<not> strict_prefix p q \<Longrightarrow> q \<noteq> p @ [k]"
  using strict_prefix_snoc(1)[of p k] by blast

lemma border_get_empty: "border_get empty_border sub y = None"
  by (simp add: border_get_def empty_border_ok)

context int_indexes
begin

text \<open>A new node with one border node.\<close>

lemma node_with_border:
  assumes st: "ts st I C (Suc (Suc (Suc n)))" and inv: "str_inv I (bds st) N X P" and p: "p \<in> P" "N p = None" "\<And>k. X (p @ [k]) = None"
    and b: "b \<notin> ran X" "b \<noteq> NULL" "bds st b = Some bn" "border_ok bn" "BN_GetLink_s bn = N (p @ [k])"
  shows "\<exists>i st1 st2 C'. on_world (ix_empty ops) st = Inr (i, st1) \<and> put_first ops k b i st1 = Inr st2 \<and>
    ts st2 (I(i \<mapsto> [(k, b)])) C' n \<and> bds st2 = bds st \<and>
    str_inv (I(i \<mapsto> [(k, b)])) (bds st) (N(p \<mapsto> i)) (X(p @ [k] \<mapsto> b)) (P - {p @ [k]})"
proof -
  obtain i st1 where i: "on_world (ix_empty ops) st = Inr (i, st1)" "i \<noteq> NULL" "I i = None" "ts st1 (I(i \<mapsto> [])) C (Suc (Suc n))"
    "bds st1 = bds st" using new_index_ok[OF st] by blast
  obtain st2 C' where s2: "put_first ops k b i st1 = Inr st2" "ts st2 ((I(i \<mapsto> []))(i \<mapsto> alist_put k b [])) C' n" "bds st2 = bds st1"
    using put_first_ok[OF i(4) fun_upd_same, of k b] by (elim exE conjE) (rule that)
  have fresh: "i \<notin> ran N" by (rule str_inv_fresh(1)[OF inv i(3)])
  have "str_inv (I(i \<mapsto> [])) (bds st) N X P" by (rule str_inv_heap[OF inv]) (use fresh in auto)
  from str_inv_add_node[OF this p(2) disjI2[OF p(1)] p(3) fresh i(2)] have
    t: "str_inv (I(i \<mapsto> [])) (bds st) (N(p \<mapsto> i)) X P" using p(1) by (simp add: insert_absorb)
  have "BN_GetLink_s bn = (N(p \<mapsto> i)) (p @ [k])" using b(5) by simp
  from str_inv_add_border[OF t fun_upd_same fun_upd_same p(3) b(1-4) this]
  have "str_inv ((I(i \<mapsto> []))(i \<mapsto> alist_put k b [])) (bds st) (N(p \<mapsto> i)) (X(p @ [k] \<mapsto> b)) (P - {p @ [k]})" .
  then have "str_inv (I(i \<mapsto> [(k, b)])) (bds st) (N(p \<mapsto> i)) (X(p @ [k] \<mapsto> b)) (P - {p @ [k]})"
    by (simp only: alist_put.simps fun_upd_upd)
  then show ?thesis using i(1,5) s2
    by (intro exI[of _ i] exI[of _ st1] exI[of _ st2] exI[of _ C'] conjI) auto
qed

lemma pair_get:
  assumes inv: "str_inv I B N X P" and "N p = Some i" and X: "\<And>k. X (p @ [k]) = (if k = key_slice y1 then Some b1
      else if k = key_slice y2 then Some b2 else None)"
    and one: "key_slice y = key_slice y1 \<Longrightarrow> border_get (the (B b1)) (trie_get I B) y = two_keys y1 v1 y2 v2 y"
    and two: "key_slice y \<noteq> key_slice y1 \<Longrightarrow> key_slice y = key_slice y2 \<Longrightarrow>
      border_get (the (B b2)) (trie_get I B) y = two_keys y1 v1 y2 v2 y"
  shows "trie_get I B i y = two_keys y1 v1 y2 v2 y"
proof -
  note a = trie_get_node[OF assms(1,2), of y]
  consider "key_slice y = key_slice y1" | "key_slice y \<noteq> key_slice y1" "key_slice y = key_slice y2"
    | "key_slice y \<noteq> key_slice y1" "key_slice y \<noteq> key_slice y2" by blast
  then show ?thesis
  proof cases
    case 3
    then have "two_keys y1 v1 y2 v2 y = None" by (auto simp: two_keys_def)
    then show ?thesis using a 3 by (simp add: X)
  qed (use a one two in \<open>simp_all add: X\<close>)
qed

text \<open>The three cases of \<open>create_pair\<close>.\<close>

definition pair_made :: "ckey list \<Rightarrow> 'w trie_heap \<Rightarrow> paths \<Rightarrow> paths \<Rightarrow> ckey list set \<Rightarrow> (byte list \<Rightarrow> addr option) \<Rightarrow>
    nat \<Rightarrow> addr \<Rightarrow> 'w trie_heap \<Rightarrow> bool" where
  "pair_made p st N X P g n i st' \<longleftrightarrow> (\<exists>I' C' N' X'. ts st' I' C' n \<and> str_inv I' (bds st') N' X' P \<and> N' p = Some i \<and>
     added_at p (bds st) N X (bds st') N' X' \<and> (\<forall>y. trie_get I' (bds st') i y = g y))"

lemma create_short:
  assumes st: "ts st I C (n + 13)" and inv: "str_inv I (bds st) N X P" and p: "no_trie N X P p"
    and len: "len1 \<le> length key1" "len1 < 2 ^ 32" "len2 \<le> length key2" "len2 < 2 ^ 32"
    and y: "take len1 key1 \<noteq> take len2 key2" "key_slice (take len1 key1) = key_slice (take len2 key2)" "len1 \<le> 8 \<or> len2 \<le> 8"
  shows "\<exists>i st'. create_pair ops key1 len1 key2 len2 v1 v2 st = Inr (i, st') \<and>
    pair_made p st N X P (two_keys (take len1 key1) v1 (take len2 key2) v2) n i st'"
proof -
  let ?y1 = "take len1 key1" and ?y2 = "take len2 key2"
  let ?k = "key_slice ?y1"
  note pD = no_trieD[OF p]
  have s0: "ts st I C (Suc (n + 12))" by (rule ts_less[OF st]) simp
  obtain b st1 where b: "BN_NewBorderNode_s st = Inr (b, st1)" "b \<noteq> NULL" "bds st b = None"
    "bds st1 = (bds st)(b \<mapsto> empty_border)" "ts st1 I C (n + 12)" using new_border_ok[OF s0] by blast
  have s1: "ts st1 I C (Suc (Suc (Suc (n + 9))))" by (rule ts_less[OF b(5)]) simp
  obtain bn1 st2 where b1: "border_with key1 len1 v1 b st1 = Inr st2" "border_put empty_border ?y1 v1 bn1"
    "bds st2 = (bds st1)(b \<mapsto> bn1)" "ts st2 I C (n + 9)"
    using border_with_ok[OF s1 b(2) _ empty_border_ok(1) len(1,2), of v1] b(4) by auto
  have s2: "ts st2 I C (Suc (Suc (Suc (n + 6))))" by (rule ts_less[OF b1(4)]) simp
  have "border_ok bn1" using b1(2) by (simp add: border_put_def)
  then obtain bn2 st3 where b2: "border_with key2 len2 v2 b st2 = Inr st3" "border_put bn1 ?y2 v2 bn2"
    "bds st3 = (bds st2)(b \<mapsto> bn2)" "ts st3 I C (n + 6)"
    using border_with_ok[OF s2 b(2) _ _ len(3,4), of bn1 v2] b1(3) by auto
  have B: "bds st3 = (bds st)(b \<mapsto> bn2)" using b(4) b1(3) b2(3) by simp
  have fresh: "b \<notin> ran X" by (rule str_inv_fresh(2)[OF inv b(3)])
  have inv3: "str_inv I (bds st3) N X P" by (rule str_inv_heap[OF inv]) (use fresh B in auto)
  have bn2: "border_ok bn2" "BN_GetLink_s bn2 = N (p @ [?k])"
    using b1(2) b2(2) pD(2) by (auto simp: border_put_def empty_border_ok split: if_splits)
  have s3: "ts st3 I C (Suc (Suc (Suc n)))" by (rule ts_less[OF b2(4)]) simp
  obtain i st4 st5 C' where f: "on_world (ix_empty ops) st3 = Inr (i, st4)" "put_first ops ?k b i st4 = Inr st5"
    "ts st5 (I(i \<mapsto> [(?k, b)])) C' n" "bds st5 = bds st3"
    "str_inv (I(i \<mapsto> [(?k, b)])) (bds st3) (N(p \<mapsto> i)) (X(p @ [?k] \<mapsto> b)) (P - {p @ [?k]})"
    using node_with_border[OF s3 inv3 pD(6) pD(1,3) fresh b(2) _ bn2] B by auto
  let ?I = "I(i \<mapsto> [(?k, b)])" and ?N = "N(p \<mapsto> i)" and ?X = "X(p @ [?k] \<mapsto> b)"
  have "str_inv ?I (bds st5) ?N ?X P"
    using str_inv_repend[OF f(5)] f(4) pD(2) by simp
  moreover have "added_at p (bds st) N X (bds st5) ?N ?X"
    using not_prefix_snoc[of p] b(3) f(4) B by (auto simp: added_at_def)
  moreover have "trie_get ?I (bds st5) i y = two_keys ?y1 v1 ?y2 v2 y" for y
  proof (rule pair_get[OF calculation(1)])
    show "?X (p @ [k]) = (if k = ?k then Some b else if k = key_slice ?y2 then Some b else None)" for k
      using y(2) pD(3) by simp
    define sub where "sub = trie_get ?I (bds st5)"
    have eq: "the (bds st5 b) = bn2" using f(4) B by simp
    have sfx1: "len1 \<le> 8 \<Longrightarrow> BN_GetLink_s bn1 = None \<and> (\<forall>s w. sfx bn1 = Some (s, w) \<longrightarrow> s = drop 8 ?y2)"
      using b1(2) len(1) by (simp add: border_put_def empty_border_ok)
    assume yk: "key_slice y = ?k"
    have "border_get bn2 sub y = (if y = ?y2 then Some v2 else border_get bn1 sub y)"
      by (rule border_put_get[OF b2(2)]) (use yk y(2,3) sfx1 in auto)
    also have "border_get bn1 sub y = (if y = ?y1 then Some v1 else border_get empty_border sub y)"
      by (rule border_put_get[OF b1(2) yk]) (simp add: empty_border_ok)
    finally show "border_get (the (bds st5 b)) (trie_get ?I (bds st5)) y = two_keys ?y1 v1 ?y2 v2 y"
      using y(1) unfolding eq sub_def[symmetric] two_keys_def border_get_empty by auto
  qed (use y(2) in simp_all)
  ultimately have "pair_made p st N X P (two_keys ?y1 v1 ?y2 v2) n i st5"
    unfolding pair_made_def using f(3) by (intro exI[of _ ?I] exI[of _ C'] exI[of _ ?N] exI[of _ ?X]) auto
  moreover have "create_pair ops key1 len1 key2 len2 v1 v2 st = Inr (i, st5)"
    using y(2,3) len b(1) b1(1) b2(1) f(1,2) by (subst create_pair.simps) (simp add: GetNextKeySlice_s)
  ultimately show ?thesis by blast
qed

lemma create_differ:
  assumes st: "ts st I C (n + 13)" and inv: "str_inv I (bds st) N X P" and p: "no_trie N X P p"
    and len: "len1 \<le> length key1" "len1 < 2 ^ 32" "len2 \<le> length key2" "len2 < 2 ^ 32"
    and y: "key_slice (take len1 key1) \<noteq> key_slice (take len2 key2)"
  shows "\<exists>i st'. create_pair ops key1 len1 key2 len2 v1 v2 st = Inr (i, st') \<and>
    pair_made p st N X P (two_keys (take len1 key1) v1 (take len2 key2) v2) n i st'"
proof -
  let ?y1 = "take len1 key1" and ?y2 = "take len2 key2"
  let ?k1 = "key_slice ?y1" and ?k2 = "key_slice ?y2"
  note pD = no_trieD[OF p]
  have s0: "ts st I C (Suc (n + 12))" by (rule ts_less[OF st]) simp
  obtain b1 st1 where b1: "BN_NewBorderNode_s st = Inr (b1, st1)" "b1 \<noteq> NULL" "bds st b1 = None"
    "bds st1 = (bds st)(b1 \<mapsto> empty_border)" "ts st1 I C (n + 12)" using new_border_ok[OF s0] by blast
  have s1: "ts st1 I C (Suc (Suc (Suc (n + 9))))" by (rule ts_less[OF b1(5)]) simp
  obtain bn1 st2 where w1: "border_with key1 len1 v1 b1 st1 = Inr st2" "border_put empty_border ?y1 v1 bn1"
    "bds st2 = (bds st1)(b1 \<mapsto> bn1)" "ts st2 I C (n + 9)"
    using border_with_ok[OF s1 b1(2) _ empty_border_ok(1) len(1,2), of v1] b1(4) by auto
  have s2: "ts st2 I C (Suc (n + 8))" by (rule ts_less[OF w1(4)]) simp
  obtain b2 st3 where b2: "BN_NewBorderNode_s st2 = Inr (b2, st3)" "b2 \<noteq> NULL" "bds st2 b2 = None"
    "bds st3 = (bds st2)(b2 \<mapsto> empty_border)" "ts st3 I C (n + 8)" using new_border_ok[OF s2] by blast
  have s3: "ts st3 I C (Suc (Suc (Suc (n + 5))))" by (rule ts_less[OF b2(5)]) simp
  obtain bn2 st4 where w2: "border_with key2 len2 v2 b2 st3 = Inr st4" "border_put empty_border ?y2 v2 bn2"
    "bds st4 = (bds st3)(b2 \<mapsto> bn2)" "ts st4 I C (n + 5)"
    using border_with_ok[OF s3 b2(2) _ empty_border_ok(1) len(3,4), of v2] b2(4) by auto
  have ne: "b2 \<noteq> b1" "bds st b2 = None" using b2(3) w1(3) b1(4) by (auto split: if_splits)
  have B: "bds st4 = (bds st)(b1 \<mapsto> bn1, b2 \<mapsto> bn2)" using b1(4) w1(3) b2(4) w2(3) by simp
  have fresh: "b1 \<notin> ran X" "b2 \<notin> ran X" using str_inv_fresh(2)[OF inv] b1(3) ne(2) by blast+
  have inv4: "str_inv I (bds st4) N X P" by (rule str_inv_heap[OF inv]) (use fresh B in auto)
  have bn: "border_ok bn1" "BN_GetLink_s bn1 = None" "border_ok bn2" "BN_GetLink_s bn2 = N (p @ [?k2])"
    using w1(2) w2(2) pD(2) by (auto simp: border_put_def empty_border_ok split: if_splits)
  have s4: "ts st4 I C (Suc (Suc (Suc (n + 2))))" by (rule ts_less[OF w2(4)]) simp
  let ?I2 = "\<lambda>i. I(i \<mapsto> [(?k2, b2)])"
  obtain i st5 st6 C' where f: "on_world (ix_empty ops) st4 = Inr (i, st5)" "put_first ops ?k2 b2 i st5 = Inr st6"
    "ts st6 (?I2 i) C' (n + 2)" "bds st6 = bds st4"
    "str_inv (?I2 i) (bds st4) (N(p \<mapsto> i)) (X(p @ [?k2] \<mapsto> b2)) (P - {p @ [?k2]})"
    using node_with_border[OF s4 inv4 pD(6) pD(1,3) fresh(2) b2(2) _ bn(3,4)] B by auto
  have s6: "ts st6 (?I2 i) C' (Suc (Suc n))" by (rule ts_less[OF f(3)]) simp
  obtain st7 C7 where g: "put_first ops ?k1 b1 i st6 = Inr st7" "ts st7 ((?I2 i)(i \<mapsto> alist_put ?k1 b1 [(?k2, b2)])) C7 n"
    "bds st7 = bds st6" using put_first_ok[OF s6 fun_upd_same, of ?k1 b1] by (elim exE conjE) (rule that)
  let ?I = "(?I2 i)(i \<mapsto> alist_put ?k1 b1 [(?k2, b2)])" and ?N = "N(p \<mapsto> i)"
    and ?X = "X(p @ [?k2] \<mapsto> b2, p @ [?k1] \<mapsto> b1)"
  have i6: "str_inv (?I2 i) (bds st4) ?N (X(p @ [?k2] \<mapsto> b2)) P"
    using str_inv_repend[OF f(5)] pD(2) by simp
  have "(X(p @ [?k2] \<mapsto> b2)) (p @ [?k1]) = None" using y pD(3) by simp
  moreover have "b1 \<notin> ran (X(p @ [?k2] \<mapsto> b2))" using fresh(1) ne(1) pD(3) by (auto simp: ran_def)
  moreover have "bds st4 b1 = Some bn1" "BN_GetLink_s bn1 = ?N (p @ [?k1])" using B ne(1) bn(2) pD(2) by simp_all
  ultimately have "str_inv ?I (bds st4) ?N ?X (P - {p @ [?k1]})"
    using str_inv_add_border[OF i6 fun_upd_same fun_upd_same _ _ b1(2) _ bn(1)] by blast
  then have inv7: "str_inv ?I (bds st7) ?N ?X P" using str_inv_repend[of ?I "bds st4" ?N ?X P "p @ [?k1]"] pD(2) f(4) g(3) by simp
  moreover have "added_at p (bds st) N X (bds st7) ?N ?X"
    using not_prefix_snoc[of p] b1(3) ne f(4) g(3) B by (auto simp: added_at_def)
  moreover have "trie_get ?I (bds st7) i z = two_keys ?y1 v1 ?y2 v2 z" for z
  proof (rule pair_get[OF inv7])
    show "?X (p @ [k]) = (if k = ?k1 then Some b1 else if k = ?k2 then Some b2 else None)" for k
      using y pD(3) by simp
    define sub where "sub = trie_get ?I (bds st7)"
    have eq: "the (bds st7 b1) = bn1" "the (bds st7 b2) = bn2" using f(4) g(3) B ne(1) by simp_all
    have e1: "border_get bn1 sub z = (if z = ?y1 then Some v1 else border_get empty_border sub z)" if "key_slice z = ?k1"
      by (rule border_put_get[OF w1(2) that]) (simp add: empty_border_ok)
    have e2: "border_get bn2 sub z = (if z = ?y2 then Some v2 else border_get empty_border sub z)" if "key_slice z = ?k2"
      by (rule border_put_get[OF w2(2) that]) (simp add: empty_border_ok)
    show "border_get (the (bds st7 b1)) (trie_get ?I (bds st7)) z = two_keys ?y1 v1 ?y2 v2 z" if "key_slice z = ?k1"
      using e1[OF that] that y unfolding eq sub_def[symmetric] two_keys_def border_get_empty by auto
    show "border_get (the (bds st7 b2)) (trie_get ?I (bds st7)) z = two_keys ?y1 v1 ?y2 v2 z"
      if "key_slice z \<noteq> ?k1" "key_slice z = ?k2"
      using e2[OF that(2)] that unfolding eq sub_def[symmetric] two_keys_def border_get_empty by auto
  qed simp
  ultimately have "pair_made p st N X P (two_keys ?y1 v1 ?y2 v2) n i st7"
    unfolding pair_made_def using g(2) by (intro exI[of _ ?I] exI[of _ C7] exI[of _ ?N] exI[of _ ?X]) simp
  moreover have "create_pair ops key1 len1 key2 len2 v1 v2 st = Inr (i, st7)"
    using y len b1(1) w1(1) b2(1) w2(1) f(1,2) g(1) by (subst create_pair.simps) (simp add: GetNextKeySlice_s)
  ultimately show ?thesis by blast
qed

lemma create_long:
  assumes st: "ts st I C (Suc m)" and nm: "n + 3 \<le> m'" and inv: "str_inv I (bds st) N X P" and p: "no_trie N X P p"
    and len: "len1 \<le> length key1" "len2 \<le> length key2"
    and y: "key_slice (take len1 key1) = key_slice (take len2 key2)" "8 < len1" "8 < len2"
    and rec: "\<And>st1. ts st1 I C m \<Longrightarrow> str_inv I (bds st1) N X (insert (p @ [key_slice (take len1 key1)]) P) \<Longrightarrow>
      \<exists>i st2. create_pair ops (drop 8 key1) (len1 - 8) (drop 8 key2) (len2 - 8) v1 v2 st1 = Inr (i, st2) \<and>
        pair_made (p @ [key_slice (take len1 key1)]) st1 N X (insert (p @ [key_slice (take len1 key1)]) P)
          (two_keys (drop 8 (take len1 key1)) v1 (drop 8 (take len2 key2)) v2) m' i st2"
  shows "\<exists>i st'. create_pair ops key1 len1 key2 len2 v1 v2 st = Inr (i, st') \<and>
    pair_made p st N X P (two_keys (take len1 key1) v1 (take len2 key2) v2) n i st'"
proof -
  let ?y1 = "take len1 key1" and ?y2 = "take len2 key2"
  let ?k = "key_slice ?y1"
  let ?r = "p @ [?k]"
  note pD = no_trieD[OF p]
  obtain b st1 where b: "BN_NewBorderNode_s st = Inr (b, st1)" "b \<noteq> NULL" "bds st b = None"
    "bds st1 = (bds st)(b \<mapsto> empty_border)" "ts st1 I C m" using new_border_ok[OF st] by blast
  have fresh: "b \<notin> ran X" by (rule str_inv_fresh(2)[OF inv b(3)])
  have "str_inv I (bds st1) N X P" by (rule str_inv_heap[OF inv]) (use fresh b(4) in auto)
  from rec[OF b(5) str_inv_pend[OF this pD(2)]] obtain sub st2 I2 C2 N2 X2 where
    r: "create_pair ops (drop 8 key1) (len1 - 8) (drop 8 key2) (len2 - 8) v1 v2 st1 = Inr (sub, st2)"
    "ts st2 I2 C2 m'" "str_inv I2 (bds st2) N2 X2 (insert ?r P)" "N2 ?r = Some sub" "added_at ?r (bds st1) N X (bds st2) N2 X2"
    "\<And>z. trie_get I2 (bds st2) sub z = two_keys (drop 8 ?y1) v1 (drop 8 ?y2) v2 z"
    unfolding pair_made_def by (elim exE conjE) (rule that; blast)
  note a = added_atD[OF r(5)]
  have sub: "sub \<noteq> NULL" using str_invD(3)[OF r(3,4)] by (simp add: node_ok_def)
  have "X2 q \<noteq> Some b" for q using a(4)[of q b] b(4) fresh by (auto simp: ran_def)
  then have b2: "bds st2 b = Some empty_border" "b \<notin> ran X2" using a(3) b(4) by (auto simp: ran_def)
  let ?bn = "BN_SetLink_s empty_border sub"
  note bn = SetLink[OF empty_border_ok(1) sub]
  let ?st3 = "set_border st2 b ?bn"
  have s3: "ts ?st3 I2 C2 (Suc (Suc (Suc n)))"
    by (rule ts_less[OF ts_border[OF r(2)]]) (use b2(1) nm in simp_all)
  have inv3: "str_inv I2 (bds ?st3) N2 X2 (insert ?r P)" by (rule str_inv_heap[OF r(3)]) (use b2(2) in auto)
  have np: "\<not> prefix ?r p" by (auto simp: prefix_def)
  then have p2: "N2 p = None" using a(1) pD(1) by simp
  have x2: "X2 (p @ [k]) = None" for k
  proof -
    have "\<not> strict_prefix ?r (p @ [k])" by (auto simp: strict_prefix_def prefix_def)
    then show ?thesis using a(2) pD(3) by simp
  qed
  have b3: "bds ?st3 b = Some ?bn" and link: "BN_GetLink_s ?bn = N2 ?r" using bn(4) r(4) by simp_all
  obtain i st4 st5 C' where f: "on_world (ix_empty ops) ?st3 = Inr (i, st4)" "put_first ops ?k b i st4 = Inr st5"
    "ts st5 (I2(i \<mapsto> [(?k, b)])) C' n" "bds st5 = bds ?st3"
    "str_inv (I2(i \<mapsto> [(?k, b)])) (bds ?st3) (N2(p \<mapsto> i)) (X2(?r \<mapsto> b)) (insert ?r P - {?r})"
    using node_with_border[OF s3 inv3 insertI2[OF pD(6)] p2 x2 b2(2) b(2) b3 bn(1) link] by (elim exE conjE) (rule that)
  let ?I = "I2(i \<mapsto> [(?k, b)])" and ?N = "N2(p \<mapsto> i)" and ?X = "X2(?r \<mapsto> b)"
  have "insert ?r P - {?r} = P" using pD(5) by auto
  then have inv5: "str_inv ?I (bds st5) ?N ?X P" using f(4,5) by simp
  moreover have "added_at p (bds st) N X (bds st5) ?N ?X"
    unfolding added_at_def
  proof (intro conjI allI impI ballI)
    fix q
    show "\<not> prefix p q \<Longrightarrow> ?N q = N q" using a(1)[of q] by (auto dest: append_prefixD)
    show "\<not> strict_prefix p q \<Longrightarrow> ?X q = X q" using a(2)[of q] strict_prefix_snoc[of p ?k] by auto
  next
    fix c assume "c \<in> dom (bds st)"
    then show "bds st5 c = bds st c" using a(3)[of c] b(3,4) f(4) by auto
  next
    fix q c assume x: "?X q = Some c"
    have "X2 q = Some c \<Longrightarrow> c \<noteq> b" using b2(2) by (auto simp: ran_def)
    then show "X q = Some c \<or> bds st c = None" using x a(4)[of q c] b(3,4) by (cases "q = ?r") auto
  qed
  moreover have "trie_get ?I (bds st5) i z = two_keys ?y1 v1 ?y2 v2 z" for z
  proof (rule pair_get[OF inv5, where ?b1.0 = b and ?b2.0 = b])
    show "?X (p @ [k]) = (if k = ?k then Some b else if k = key_slice ?y2 then Some b else None)" for k
      using y(1) x2 by simp
    assume zk: "key_slice z = ?k"
    have fr: "trie_get ?I (bds st5) sub z' = trie_get I2 (bds st2) sub z'" for z'
    proof (rule trie_get_frame[OF r(3) inv5 r(4)])
      show "?N ?r = Some sub" using r(4) by simp
      fix q assume q: "strict_prefix ?r q"
      then have "q \<noteq> p" "q \<noteq> ?r" using np by (auto simp: strict_prefix_def)
      moreover have "c \<noteq> b" if "X2 q = Some c" for c using b2(2) that by (auto simp: ran_def)
      ultimately show "?X q = X2 q \<and> (\<forall>c. X2 q = Some c \<longrightarrow> bds st5 c = bds st2 c)" "?N q = N2 q" using f(4) by auto
    qed
    define get where "get = trie_get ?I (bds st5)"
    have eq: "the (bds st5 b) = ?bn" using f(4) by simp
    have "border_get ?bn get z = (if length z \<le> 8 then None else get sub (drop 8 z))"
      using bn by (simp add: border_get_def empty_border_ok)
    also have "\<dots> = two_keys ?y1 v1 ?y2 v2 z"
    proof (cases "length z \<le> 8")
      case True
      then have "z \<noteq> ?y1" "z \<noteq> ?y2" using y(2,3) len by auto
      then show ?thesis using True by (simp add: two_keys_def)
    next
      case False
      then have "drop 8 z = drop 8 ?y1 \<longleftrightarrow> z = ?y1" "drop 8 z = drop 8 ?y2 \<longleftrightarrow> z = ?y2"
        using key_slice_long[of z ?y1] key_slice_long[of z ?y2] zk y len by simp_all
      then show ?thesis using False unfolding get_def fr r(6) by (simp add: two_keys_def)
    qed
    finally show "border_get (the (bds st5 b)) (trie_get ?I (bds st5)) z = two_keys ?y1 v1 ?y2 v2 z"
      unfolding eq get_def .
  qed (use y(1) in simp_all)
  ultimately have "pair_made p st N X P (two_keys ?y1 v1 ?y2 v2) n i st5"
    unfolding pair_made_def using f(3) by (intro exI[of _ ?I] exI[of _ C'] exI[of _ ?N] exI[of _ ?X]) simp
  moreover have "create_pair ops key1 len1 key2 len2 v1 v2 st = Inr (i, st5)"
    using y len b(1,2) b2(1) r(1) f(1,2) by (subst create_pair.simps) (simp add: GetNextKeySlice_s border_at_Some)
  ultimately show ?thesis by blast
qed

lemma create_pair_ok:
  assumes "ts st I C (n + len1 + 13)" and "str_inv I (bds st) N X P" and "no_trie N X P p"
    and "len1 \<le> length key1" "len1 < 2 ^ 32" "len2 \<le> length key2" "len2 < 2 ^ 32" and "take len1 key1 \<noteq> take len2 key2"
  shows "\<exists>i st'. create_pair ops key1 len1 key2 len2 v1 v2 st = Inr (i, st') \<and>
    pair_made p st N X P (two_keys (take len1 key1) v1 (take len2 key2) v2) n i st'"
  using assms
proof (induction len1 arbitrary: key1 key2 len2 p P st n rule: less_induct)
  case (less len1)
  let ?k = "key_slice (take len1 key1)"
  have st: "ts st I C (n + 13)" by (rule ts_less[OF less.prems(1)]) simp
  consider "?k \<noteq> key_slice (take len2 key2)" | "?k = key_slice (take len2 key2)" "len1 \<le> 8 \<or> len2 \<le> 8"
    | "?k = key_slice (take len2 key2)" "8 < len1" "8 < len2" by linarith
  then show ?case
  proof cases
    case 1
    then show ?thesis using create_differ[OF st less.prems(2-7)] by blast
  next
    case 2
    then show ?thesis using create_short[OF st less.prems(2-8)] by blast
  next
    case 3
    have s: "ts st I C (Suc (n + 3 + (len1 - 8) + 13))" by (rule ts_less[OF less.prems(1)]) (use 3 in simp)
    show ?thesis
    proof (rule create_long[OF s order_refl less.prems(2,3,4,6) 3])
      fix st1 assume st1: "ts st1 I C (n + 3 + (len1 - 8) + 13)" and inv: "str_inv I (bds st1) N X (insert (p @ [?k]) P)"
      have d: "take (len1 - 8) (drop 8 key1) = drop 8 (take len1 key1)" "take (len2 - 8) (drop 8 key2) = drop 8 (take len2 key2)"
        by (simp_all add: drop_take)
      have "drop 8 (take len1 key1) \<noteq> drop 8 (take len2 key2)"
        using key_slice_long[of "take len1 key1" "take len2 key2"] 3 less.prems(4,6,8) by auto
      then show "\<exists>i st2. create_pair ops (drop 8 key1) (len1 - 8) (drop 8 key2) (len2 - 8) v1 v2 st1 = Inr (i, st2) \<and>
        pair_made (p @ [?k]) st1 N X (insert (p @ [?k]) P)
          (two_keys (drop 8 (take len1 key1)) v1 (drop 8 (take len2 key2)) v2) (n + 3) i st2"
        using less.IH[OF _ st1 inv no_trieD(4)[OF less.prems(3)], of "drop 8 key1" "len2 - 8" "drop 8 key2"] 3 less.prems(4-7)
        unfolding d by simp
    qed
  qed
qed

end

end
