(* ===== verification/Str_Put.thy ===== *)
theory Str_Put
  imports Str_Pair
begin

text \<open>
  \<open>put\<close> refines the update of a map: the trie keeps its shape, and the string that was put is
  mapped to the value, every other one as before.
\<close>

text \<open>What an operation below the path \<open>p\<close> leaves alone.\<close>

definition changed_at :: "ckey list \<Rightarrow> (addr \<rightharpoonup> sborder) \<Rightarrow> paths \<Rightarrow> paths \<Rightarrow> (addr \<rightharpoonup> sborder) \<Rightarrow> paths \<Rightarrow> paths \<Rightarrow> bool" where
  "changed_at p B N X B' N' X' \<longleftrightarrow> (\<forall>q. \<not> strict_prefix p q \<longrightarrow> N' q = N q) \<and>
     (\<forall>q. \<not> strict_prefix p q \<longrightarrow> X' q = X q \<and> (\<forall>b. X q = Some b \<longrightarrow> B' b = B b))"

lemma changed_atD:
  assumes "changed_at p B N X B' N' X'" and "\<not> strict_prefix p q"
  shows "N' q = N q" "X' q = X q" "X q = Some b \<Longrightarrow> B' b = B b"
  using assms unfolding changed_at_def by auto

lemma changed_at_child:
  assumes "changed_at (p @ [k]) B N X B' N' X'"
  shows "changed_at p B N X B' N' X'"
  using assms strict_prefix_snoc(2)[of p k] unfolding changed_at_def by blast

text \<open>The keys of other slices.\<close>

lemma other_slice:
  assumes "str_inv I B N X P" and "str_inv I' B' N' X' P'" and "N p = Some i" and "N' p = Some i" and k: "key_slice y \<noteq> k"
    and same: "\<And>q. \<not> prefix (p @ [k]) q \<Longrightarrow> X' q = X q \<and> (\<forall>b. X q = Some b \<longrightarrow> B' b = B b) \<and> N' q = N q"
  shows "trie_get I' B' i y = trie_get I B i y"
proof (rule trie_get_branch[OF assms(1-4)])
  fix r assume "prefix (p @ [key_slice y]) r"
  then have "\<not> prefix (p @ [k]) r" using k by (auto simp: prefix_def)
  then show "X' r = X r \<and> (\<forall>b. X r = Some b \<longrightarrow> B' b = B b) \<and> N' r = N r" by (rule same)
qed

text \<open>A border node is changed in place.\<close>

lemma put_in_border:
  assumes inv: "str_inv I B N X {}" and p: "N p = Some i" "X (p @ [key_slice y]) = Some b" "B b = Some bn"
    and put: "border_put bn y v bn'"
    and long: "8 < length y \<Longrightarrow> BN_GetLink_s bn = None \<and> (\<forall>s w. sfx bn = Some (s, w) \<longrightarrow> s = drop 8 y)"
  shows "str_inv I (B(b \<mapsto> bn')) N X {}" "changed_at p B N X (B(b \<mapsto> bn')) N X"
    "trie_get I (B(b \<mapsto> bn')) i z = (if z = y then Some v else trie_get I B i z)"
proof -
  let ?r = "p @ [key_slice y]" and ?B = "B(b \<mapsto> bn')"
  have link: "BN_GetLink_s bn = N ?r" using str_invD(4)[OF inv p(2)] p(3) by (auto simp: linked_ok_def)
  have bn': "border_ok bn'" "BN_GetLink_s bn' = N ?r" using put long link by (auto simp: border_put_def split: if_splits)
  have other: "X q = Some c \<Longrightarrow> q \<noteq> ?r \<Longrightarrow> c \<noteq> b" for q c using str_invD(2)[OF inv p(2)] by blast
  show inv': "str_inv I ?B N X {}" using str_inv_set_border[OF inv p(2) bn'] by simp
  show "changed_at p B N X ?B N X" using other not_prefix_snoc[of p] by (auto simp: changed_at_def)
  show "trie_get I ?B i z = (if z = y then Some v else trie_get I B i z)"
  proof (cases "key_slice z = key_slice y")
    case False
    have "trie_get I ?B i z = trie_get I B i z"
      by (rule other_slice[OF inv inv' p(1) p(1) False]) (use other in auto)
    then show ?thesis using False by auto
  next
    case True
    define get where "get = trie_get I ?B"
    have "trie_get I ?B i z = border_get bn' get z"
      using trie_get_node[OF inv' p(1), of z] p(2) True by (simp add: get_def)
    also have "\<dots> = (if z = y then Some v else border_get bn get z)" by (rule border_put_get[OF put True long])
    also have "border_get bn get z = border_get bn (trie_get I B) z"
    proof (rule border_get_cong[OF refl refl])
      fix l assume "BN_GetLink_s bn = Some l"
      then have l: "N ?r = Some l" using link by simp
      show "get l (drop 8 z) = trie_get I B l (drop 8 z)"
        unfolding get_def by (rule trie_get_frame[OF inv inv' l l]) (use other in \<open>auto simp: strict_prefix_def\<close>)
    qed
    also have "border_get bn (trie_get I B) z = trie_get I B i z"
      using trie_get_node[OF inv p(1), of z] p(2,3) True by simp
    finally show ?thesis .
  qed
qed

text \<open>A new border node for a slice that was not there.\<close>

lemma new_slice:
  assumes inv: "str_inv I B N X {}" and p: "N p = Some i" "I i = Some m" and k: "X (p @ [key_slice y]) = None"
    and b: "B b = None" "b \<noteq> NULL" and put: "border_put empty_border y v bn"
  shows "str_inv (I(i \<mapsto> alist_put (key_slice y) b m)) (B(b \<mapsto> bn)) N (X(p @ [key_slice y] \<mapsto> b)) {}"
    "changed_at p B N X (B(b \<mapsto> bn)) N (X(p @ [key_slice y] \<mapsto> b))"
    "trie_get (I(i \<mapsto> alist_put (key_slice y) b m)) (B(b \<mapsto> bn)) i z = (if z = y then Some v else trie_get I B i z)"
proof -
  let ?k = "key_slice y"
  let ?r = "p @ [?k]" and ?I = "I(i \<mapsto> alist_put ?k b m)" and ?B = "B(b \<mapsto> bn)"
  have fresh: "b \<notin> ran X" by (rule str_inv_fresh(2)[OF inv b(1)])
  have inv1: "str_inv I ?B N X {}" by (rule str_inv_heap[OF inv]) (use fresh in auto)
  have none: "N ?r = None" using str_invD(5)[OF inv, of ?r] k by (cases "N ?r") auto
  have bn: "border_ok bn" "BN_GetLink_s bn = N ?r" using put none by (auto simp: border_put_def empty_border_ok split: if_splits)
  show inv': "str_inv ?I ?B N (X(?r \<mapsto> b)) {}"
    using str_inv_add_border[OF inv1 p k fresh b(2) _ bn] by simp
  show "changed_at p B N X ?B N (X(?r \<mapsto> b))"
    using not_prefix_snoc[of p] fresh by (auto simp: changed_at_def ran_def)
  show "trie_get ?I ?B i z = (if z = y then Some v else trie_get I B i z)"
  proof (cases "key_slice z = ?k")
    case False
    have "trie_get ?I ?B i z = trie_get I B i z"
      by (rule other_slice[OF inv inv' p(1) p(1) False]) (use fresh in \<open>auto simp: ran_def\<close>)
    then show ?thesis using False by auto
  next
    case True
    define get where "get = trie_get ?I ?B"
    have "trie_get ?I ?B i z = border_get bn get z"
      using trie_get_node[OF inv' p(1), of z] True by (simp add: get_def)
    also have "\<dots> = (if z = y then Some v else border_get empty_border get z)"
      by (rule border_put_get[OF put True]) (simp add: empty_border_ok)
    also have "border_get empty_border get z = trie_get I B i z"
      using trie_get_node[OF inv p(1), of z] True k by (simp add: border_get_empty)
    finally show ?thesis .
  qed
qed

text \<open>Going down a link: only the keys behind it may change.\<close>

lemma changed_at_refl: "changed_at p B N X B N X"
  by (simp add: changed_at_def)

lemma below_get:
  assumes inv: "str_inv I B N X {}" and inv': "str_inv I' B' N' X' P'" and p: "N p = Some i"
    and b: "X (p @ [k]) = Some b" "B b = Some bn" "BN_GetLink_s bn = Some l"
    and ch: "changed_at (p @ [k]) B N X B' N' X'"
  shows "N' p = Some i" "trie_get I' B' i z =
    (if key_slice z = k \<and> 8 < length z then trie_get I' B' l (drop 8 z) else trie_get I B i z)"
proof -
  let ?r = "p @ [k]"
  note c = changed_atD[OF ch]
  have np: "\<not> strict_prefix ?r p" "\<not> strict_prefix ?r ?r" by (auto simp: strict_prefix_def prefix_def)
  show p': "N' p = Some i" using c(1)[OF np(1)] p by simp
  have b': "X' ?r = Some b" "B' b = Some bn" using c(2,3)[OF np(2)] b(1,2) by simp_all
  have same: "X' q = X q \<and> (\<forall>d. X q = Some d \<longrightarrow> B' d = B d) \<and> N' q = N q" if "\<not> prefix ?r q" for q
  proof -
    have "\<not> strict_prefix ?r q" using that by (auto simp: strict_prefix_def)
    from c[OF this] show ?thesis by blast
  qed
  show "trie_get I' B' i z = (if key_slice z = k \<and> 8 < length z then trie_get I' B' l (drop 8 z) else trie_get I B i z)"
  proof (cases "key_slice z = k")
    case False
    have "trie_get I' B' i z = trie_get I B i z"
      by (rule other_slice[OF inv inv' p p' False]) (use same in blast)
    then show ?thesis using False by auto
  next
    case True
    then show ?thesis
      using trie_get_node[OF inv' p', of z] trie_get_node[OF inv p, of z] b b' link_suffix[OF b(3)]
      by (simp add: border_get_def)
  qed
qed

context int_indexes
begin

definition put_made :: "ckey list \<Rightarrow> 'w trie_heap \<Rightarrow> indexes \<Rightarrow> paths \<Rightarrow> paths \<Rightarrow> nat \<Rightarrow> addr \<Rightarrow> byte list \<Rightarrow> addr \<Rightarrow>
    'w trie_heap \<Rightarrow> bool" where
  "put_made p st I N X n i y v st' \<longleftrightarrow> (\<exists>I' C' N' X'. ts st' I' C' n \<and> str_inv I' (bds st') N' X' {} \<and> N' p = Some i \<and>
     changed_at p (bds st) N X (bds st') N' X' \<and>
     (\<forall>z. trie_get I' (bds st') i z = (if z = y then Some v else trie_get I (bds st) i z)))"

lemma put_madeI:
  assumes "ts st' I' C' n" and "str_inv I' (bds st') N' X' {}" and "N' p = Some i"
    and "changed_at p (bds st) N X (bds st') N' X'"
    and "\<And>z. trie_get I' (bds st') i z = (if z = y then Some v else trie_get I (bds st) i z)"
  shows "put_made p st I N X n i y v st'"
  using assms unfolding put_made_def by blast

lemma put_made_frame: "bds st1 = bds st \<Longrightarrow> put_made p st1 I N X n i y v st' \<Longrightarrow> put_made p st I N X n i y v st'"
  by (simp only: put_made_def)

text \<open>The slice is not in the index.\<close>

lemma put_new_slice:
  assumes st: "ts st I C (Suc (Suc (Suc (Suc (Suc n)))))" and inv: "str_inv I (bds st) N X {}" and p: "N p = Some i" "I i = Some m"
    and c: "C c = Some (i, pos)" and len: "len \<le> length key" "len < 2 ^ 32" and k: "X (p @ [key_slice (take len key)]) = None"
  shows "\<exists>b st1 st2 st3 st4. BN_NewBorderNode_s st = Inr (b, st1) \<and> border_with key len v b st1 = Inr st2 \<and>
    on_world (ix_put ops (key_slice (take len key)) b c i) st2 = Inr ((), st3) \<and>
    on_world (ix_free_cursor ops c) st3 = Inr ((), st4) \<and> put_made p st I N X n i (take len key) v st4"
proof -
  let ?y = "take len key"
  let ?k = "key_slice ?y"
  let ?I = "\<lambda>b. I(i \<mapsto> alist_put ?k b m)"
  obtain b st1 where b: "BN_NewBorderNode_s st = Inr (b, st1)" "b \<noteq> NULL" "bds st b = None"
    "bds st1 = (bds st)(b \<mapsto> empty_border)" "ts st1 I C (Suc (Suc (Suc (Suc n))))" using new_border_ok[OF st] by blast
  obtain bn st2 where w: "border_with key len v b st1 = Inr st2" "border_put empty_border ?y v bn"
    "bds st2 = (bds st1)(b \<mapsto> bn)" "ts st2 I C (Suc n)"
    using border_with_ok[OF b(5,2) _ empty_border_ok(1) len, of v] b(4) by auto
  obtain w' C' p' where "ix_put ops ?k b c i (bd_world st2) = Inr ((), w')" "irep w' (?I b) C'"
    "C' c = Some (i, p')" "iroom n w'"
    using put_law[of "bd_world st2" I C n c i pos m ?k b] w(4) c p(2) by (auto simp: trie_state_def)
  from on_world_ts[of "ix_put ops ?k b c i", OF this(1) w(4) this(2,4)] this(3) obtain st3 where
    s3: "on_world (ix_put ops ?k b c i) st2 = Inr ((), st3)" "ts st3 (?I b) C' n" "bds st3 = bds st2" "C' c = Some (i, p')" by auto
  obtain st4 where s4: "on_world (ix_free_cursor ops c) st3 = Inr ((), st4)" "ts st4 (?I b) (C'(c := None)) n" "bds st4 = bds st3"
    using free_ok[OF s3(2,4)] by blast
  have B: "bds st4 = (bds st)(b \<mapsto> bn)" using b(4) w(3) s3(3) s4(3) by simp
  note g = new_slice[OF inv p k b(3,2) w(2)]
  have "put_made p st I N X n i ?y v st4" by (rule put_madeI[OF s4(2)]) (use g p(1) B in simp_all)
  then show ?thesis using b(1) w(1) s3(1) s4(1) by blast
qed

text \<open>A suffix that differs becomes a trie of the two keys.\<close>

lemma put_split_suffix:
  assumes st: "ts st I C (n + (len - 8) + 14)" and inv: "str_inv I (bds st) N X {}" and p: "N p = Some i"
    and len: "len \<le> length key" "len < 2 ^ 32" "8 < len"
    and b: "X (p @ [key_slice (take len key)]) = Some b" "bds st b = Some bn" "border_ok bn" "skeySuffix bn = Some s"
      "s \<noteq> drop 8 (take len key)"
  shows "\<exists>v2 bn1 st1 sub st2 bn2. BN_ExportSuffixValue_s bn st = Inr (Some (\<lparr>sk_content = s, sk_len = length s\<rparr>, v2), bn1, st1) \<and>
    create_pair ops (drop 8 key) (len - 8) s (length s) v v2 (set_border st1 b bn1) = Inr (sub, st2) \<and>
    border_at st2 b = Inr bn2 \<and> put_made p st I N X n i (take len key) v (set_border st2 b (BN_SetLink_s bn2 sub))"
proof -
  let ?y = "take len key"
  let ?k = "key_slice ?y"
  let ?r = "p @ [?k]"
  let ?bn1 = "bn\<lparr>ssuffixLink := NULL, skeySuffix := None, skeySuffixLength := 0\<rparr>" and ?v2 = "ssuffixLink bn"
  have s0: "ts st I C (Suc (n + (len - 8) + 13))" by (rule ts_less[OF st]) simp
  obtain st1 where st1: "surely_malloc_s st = Inr st1" "ts st1 I C (n + (len - 8) + 13)" "bds st1 = bds st"
    using malloc_ok[OF s0] by blast
  have sl: "skeySuffixLength bn = length s" "length s < 2 ^ 32" using b(3,4) by (simp_all add: border_ok_def)
  have ex: "BN_ExportSuffixValue_s bn st = Inr (Some (\<lparr>sk_content = s, sk_len = length s\<rparr>, ?v2), ?bn1, st1)"
    using b(4) st1(1) sl by (simp add: BN_ExportSuffixValue_s_def move_key_def)
  have link: "BN_GetLink_s bn = N ?r" using str_invD(4)[OF inv b(1)] b(2) by (auto simp: linked_ok_def)
  have none: "N ?r = None" using link b(4) by (simp add: BN_GetLink_s_def)
  have bn1: "border_ok ?bn1" "pfx ?bn1 = pfx bn" "BN_GetLink_s ?bn1 = N ?r"
    using b(3) none by (simp_all add: border_ok_def pfx_def BN_GetLink_s_def fun_eq_iff)
  have b0: "b \<noteq> NULL" using str_invD(4)[OF inv b(1)] by (simp add: linked_ok_def)
  let ?st1 = "set_border st1 b ?bn1"
  have s1: "ts ?st1 I C (n + (len - 8) + 13)" using ts_border[OF st1(2)] b(2) st1(3) by simp
  have "str_inv I (bds ?st1) N X {}" using str_inv_set_border[OF inv b(1) bn1(1,3)] st1(3) by simp
  from str_inv_pend[OF this none] have inv1: "str_inv I (bds ?st1) N X {?r}" .
  have below: "N q = None \<and> X q = None" if "strict_prefix ?r q" for q
    by (rule str_inv_below[OF inv none that])
  have nt: "no_trie N X {?r} ?r" using none below by (auto simp: no_trie_def strict_prefix_def)
  have l: "len - 8 \<le> length (drop 8 key)" "len - 8 < 2 ^ 32" "length s \<le> length s" using len by simp_all
  have d: "take (len - 8) (drop 8 key) = drop 8 ?y" "take (length s) s = s" by (simp_all add: drop_take)
  have "take (len - 8) (drop 8 key) \<noteq> take (length s) s" using b(5) unfolding d by simp
  from create_pair_ok[OF s1 inv1 nt l(1,2,3) sl(2) this, of v ?v2] obtain sub st2 I2 C2 N2 X2 where
    c: "create_pair ops (drop 8 key) (len - 8) s (length s) v ?v2 ?st1 = Inr (sub, st2)"
    "ts st2 I2 C2 n" "str_inv I2 (bds st2) N2 X2 {?r}" "N2 ?r = Some sub" "added_at ?r (bds ?st1) N X (bds st2) N2 X2"
    "\<And>z. trie_get I2 (bds st2) sub z = two_keys (drop 8 ?y) v s ?v2 z"
    unfolding pair_made_def d by (elim exE conjE) (rule that; blast)
  note a = added_atD[OF c(5)]
  have b2: "bds st2 b = Some ?bn1" using a(3)[of b ?bn1] by simp
  have xr: "X2 ?r = Some b" using a(2)[of ?r] b(1) by simp
  have sub: "sub \<noteq> NULL" using str_invD(3)[OF c(3,4)] by (simp add: node_ok_def)
  let ?bn2 = "BN_SetLink_s ?bn1 sub"
  note bn2 = SetLink[OF bn1(1) sub]
  let ?st3 = "set_border st2 b ?bn2"
  have inv3: "str_inv I2 (bds ?st3) N2 X2 {}" using str_inv_set_border[OF c(3) xr bn2(1)] bn2(4) c(4) by simp
  have s3: "ts ?st3 I2 C2 n" using ts_border[OF c(2)] b2 by simp
  have np: "\<not> prefix ?r p" by (auto simp: prefix_def)
  then have p2: "N2 p = Some i" using a(1) p by simp
  have other: "X q = Some c \<Longrightarrow> q \<noteq> ?r \<Longrightarrow> c \<noteq> b" "X2 q = Some c \<Longrightarrow> q \<noteq> ?r \<Longrightarrow> c \<noteq> b" for q c
    using str_invD(2)[OF inv b(1)] str_invD(2)[OF c(3) xr] by blast+
  have same: "X2 q = X q \<and> (\<forall>c. X q = Some c \<longrightarrow> bds ?st3 c = bds st c) \<and> N2 q = N q" if "\<not> prefix ?r q" for q
  proof -
    have q: "\<not> strict_prefix ?r q" "q \<noteq> ?r" using that by (auto simp: strict_prefix_def)
    have "bds ?st3 c = bds st c" if xc: "X q = Some c" for c
    proof -
      have "c \<noteq> b" by (rule other(1)[OF xc q(2)])
      moreover obtain bn where "bds st c = Some bn" using str_invD(4)[OF inv xc] by (auto simp: linked_ok_def)
      ultimately show ?thesis using a(3)[of c bn] st1(3) by simp
    qed
    then show ?thesis using a(1)[OF that] a(2)[OF q(1)] by simp
  qed
  have "changed_at p (bds st) N X (bds ?st3) N2 X2"
    unfolding changed_at_def
  proof (intro conjI allI impI)
    fix q assume "\<not> strict_prefix p q"
    then have q: "\<not> prefix ?r q" by (auto simp: strict_prefix_def prefix_def)
    show "N2 q = N q" "X2 q = X q" "X q = Some c \<Longrightarrow> bds ?st3 c = bds st c" for c using same[OF q] by simp_all
  qed
  moreover have "trie_get I2 (bds ?st3) i z = (if z = ?y then Some v else trie_get I (bds st) i z)" for z
  proof (cases "key_slice z = ?k")
    case False
    have "trie_get I2 (bds ?st3) i z = trie_get I (bds st) i z"
      by (rule other_slice[OF inv inv3 p p2 False]) (use same in blast)
    then show ?thesis using False by auto
  next
    case True
    have fr: "trie_get I2 (bds ?st3) sub z' = trie_get I2 (bds st2) sub z'" for z'
      by (rule trie_get_frame[OF c(3) inv3 c(4,4)]) (use other(2) in \<open>auto simp: strict_prefix_def\<close>)
    define get old where "get = trie_get I2 (bds ?st3)" and "old = trie_get I (bds st)"
    have sfx: "sfx bn = Some (s, ?v2)" using b(4) by (simp add: sfx_def)
    have "get i z = border_get ?bn2 get z"
      using trie_get_node[OF inv3 p2, of z] True xr by (simp add: get_def)
    also have "\<dots> = (if length z \<le> 8 then pfx bn (length z) else get sub (drop 8 z))"
      using bn2 bn1(2) by (simp add: border_get_def)
    also have "\<dots> = (if z = ?y then Some v else border_get bn old z)"
    proof (cases "length z \<le> 8")
      case short: True
      then have "z \<noteq> ?y" using len by auto
      then show ?thesis using short by (simp add: border_get_def)
    next
      case False
      then have "drop 8 z = drop 8 ?y \<longleftrightarrow> z = ?y" using key_slice_long[of z ?y] True len by simp
      then show ?thesis using False b(5) sfx unfolding get_def fr c(6) by (auto simp: two_keys_def border_get_def)
    qed
    also have "border_get bn old z = old i z"
      using trie_get_node[OF inv p, of z] True b(1,2) by (simp add: old_def)
    finally show ?thesis unfolding get_def old_def .
  qed
  ultimately have "put_made p st I N X n i ?y v ?st3" by (intro put_madeI[OF s3 inv3 p2])
  then show ?thesis using ex c(1) b2 b0 by (auto simp: border_at_Some)
qed

text \<open>The suffix is set, or set again.\<close>

lemma put_suffix:
  assumes st: "ts st I C (Suc n)" and inv: "str_inv I (bds st) N X {}" and p: "N p = Some i"
    and len: "len \<le> length key" "len < 2 ^ 32" "8 < len"
    and b: "X (p @ [key_slice (take len key)]) = Some b" "bds st b = Some bn" "border_ok bn" "BN_GetLink_s bn = None"
      "\<forall>s. skeySuffix bn = Some s \<longrightarrow> s = drop 8 (take len key)"
  shows "\<exists>bn1 st1. BN_SetSuffixValue_s bn (drop 8 key) (len - 8) v st = Inr (bn1, st1) \<and>
    put_made p st I N X n i (take len key) v (set_border st1 b bn1)"
proof -
  let ?key = "\<lparr>sk_content = key, sk_len = len\<rparr>"
  obtain bn1 st1 where w: "BN_SetValue_s bn ?key v st = Inr (bn1, st1)" "border_put bn (take len key) v bn1"
    "bds st1 = bds st" "ts st1 I C n" using set_value_ok[OF st b(3), of ?key v] len by auto
  have "BN_GetLink_s bn = None \<and> (\<forall>s w. sfx bn = Some (s, w) \<longrightarrow> s = drop 8 (take len key))"
    using b(4,5) by (simp add: sfx_def)
  note q = put_in_border[OF inv p b(1,2) w(2) this]
  have "put_made p st I N X n i (take len key) v (set_border st1 b bn1)"
    by (rule put_madeI[OF ts_border[OF w(4)]]) (use q p w(3) b(2) in simp_all)
  then show ?thesis using w(1) len(3) by (auto simp: BN_SetValue_s_def)
qed

lemma put_prefix:
  assumes st: "ts st I C n" and inv: "str_inv I (bds st) N X {}" and p: "N p = Some i"
    and len: "len \<le> length key" "len \<le> 8"
    and b: "X (p @ [key_slice (take len key)]) = Some b" "bds st b = Some bn" "border_ok bn"
  shows "\<exists>bn1. BN_SetPrefixValue_s bn len v = Inr bn1 \<and> put_made p st I N X n i (take len key) v (set_border st b bn1)"
proof -
  obtain bn1 where bn1: "BN_SetPrefixValue_s bn len v = Inr bn1" "border_ok bn1" "pfx bn1 = (pfx bn)(len \<mapsto> v)"
    "sfx bn1 = sfx bn" "BN_GetLink_s bn1 = BN_GetLink_s bn" using SetPrefix[OF b(3) len(2)] by blast
  then have "border_put bn (take len key) v bn1" using len by (simp add: border_put_def)
  note q = put_in_border[OF inv p b(1,2) this]
  have "put_made p st I N X n i (take len key) v (set_border st b bn1)"
    by (rule put_madeI[OF ts_border[OF st]]) (use q p b(2) len in simp_all)
  then show ?thesis using bn1(1) by blast
qed

lemma put_below:
  assumes inv: "str_inv I (bds st) N X {}" and p: "N p = Some i" and y: "8 < length y"
    and b: "X (p @ [key_slice y]) = Some b" "bds st b = Some bn" "BN_GetLink_s bn = Some l"
    and below: "put_made (p @ [key_slice y]) st I N X n l (drop 8 y) v st'"
  shows "put_made p st I N X n i y v st'"
proof -
  obtain I' C' N' X' where m: "ts st' I' C' n" "str_inv I' (bds st') N' X' {}"
    "changed_at (p @ [key_slice y]) (bds st) N X (bds st') N' X'"
    "\<And>z. trie_get I' (bds st') l z = (if z = drop 8 y then Some v else trie_get I (bds st) l z)"
    using below unfolding put_made_def by blast
  note g = below_get[OF inv m(2) p b m(3)] and g0 = below_get[OF inv inv p b changed_at_refl]
  have "trie_get I' (bds st') i z = (if z = y then Some v else trie_get I (bds st) i z)" for z
  proof (cases "key_slice z = key_slice y \<and> 8 < length z")
    case True
    then have "drop 8 z = drop 8 y \<longleftrightarrow> z = y" using key_slice_long[of z y] y by simp
    then show ?thesis using True g(2)[of z] g0(2)[of z] m(4) by simp
  next
    case False
    then show ?thesis using g(2)[of z] y by auto
  qed
  from put_madeI[OF m(1,2) g(1) changed_at_child[OF m(3)] this] show ?thesis .
qed

lemma put_ok:
  assumes "ts st I C (n + len + 24)" and "str_inv I (bds st) N X {}" and "N p = Some i" and "len \<le> length key" "len < 2 ^ 32"
  shows "\<exists>st'. put ops key len v i st = Inr st' \<and> put_made p st I N X n i (take len key) v st'"
  using assms
proof (induction len arbitrary: key p i st C n rule: less_induct)
  case (less len)
  note st = less.prems(1) and inv = less.prems(2) and p = less.prems(3) and len = less.prems(4,5)
  let ?y = "take len key"
  let ?k = "key_slice ?y"
  obtain m where m: "I i = Some m" "map_of m ?k = X (p @ [?k])" using str_invD(3)[OF inv p] by (auto simp: node_ok_def)
  have s0: "ts st I C (Suc (n + len + 23))" by (rule ts_less[OF st]) simp
  obtain c st1 r st2 where sk: "on_world (ix_make_cursor ops ?k i) st = Inr (c, st1)"
    "on_world (ix_get_key ops c i) st1 = Inr (r, st2)" "key_found ?k r = Inr (map_of m ?k \<noteq> None)"
    "ts st2 I (C(c \<mapsto> (i, rec_ix (map fst m) ?k))) (n + len + 23)" "bds st2 = bds st"
    using seek_ok[OF s0 m(1), of ?k] by (elim exE conjE) (rule that)
  have slice: "UTIL_GetNextKeySlice_s key len = Inr ?k" by (rule GetNextKeySlice_s[OF len(1)])
  show ?case
  proof (cases "X (p @ [?k])")
    case None
    have s2: "ts st2 I (C(c \<mapsto> (i, rec_ix (map fst m) ?k))) (Suc (Suc (Suc (Suc (Suc n)))))"
      by (rule ts_less[OF sk(4)]) simp
    have inv2: "str_inv I (bds st2) N X {}" using inv sk(5) by simp
    obtain b st3 st4 st5 st6 where "BN_NewBorderNode_s st2 = Inr (b, st3)" "border_with key len v b st3 = Inr st4"
      "on_world (ix_put ops ?k b c i) st4 = Inr ((), st5)" "on_world (ix_free_cursor ops c) st5 = Inr ((), st6)"
      "put_made p st2 I N X n i ?y v st6"
      using put_new_slice[OF s2 inv2 p m(1) fun_upd_same len None, of v] by (elim exE conjE) (rule that)
    then show ?thesis
      using slice sk m(2) None put_made_frame[OF sk(5)] by (subst put.simps) simp
  next
    case (Some b)
    have mb: "map_of m ?k = Some b" using m(2) Some by simp
    obtain x st3 where v3: "on_world (ix_get_value ops c i) st2 = Inr ((x, Some b), st3)"
      "ts st3 I (C(c \<mapsto> (i, rec_ix (map fst m) ?k))) (n + len + 23)" "bds st3 = bds st2"
      using value_ok[OF sk(4) fun_upd_same m(1) mb] by blast
    obtain st4 C4 where s4: "on_world (ix_free_cursor ops c) st3 = Inr ((), st4)" "ts st4 I C4 (n + len + 23)" "bds st4 = bds st3"
      using free_ok[OF v3(2) fun_upd_same] by blast
    have B: "bds st4 = bds st" using s4(3) v3(3) sk(5) by simp
    have inv4: "str_inv I (bds st4) N X {}" using inv B by simp
    obtain bn where bn: "bds st4 b = Some bn" "border_ok bn" "b \<noteq> NULL"
      using str_invD(4)[OF inv4 Some] by (auto simp: linked_ok_def)
    have bo: "border_of (Some b) st4 = Inr (b, bn)" using bn(1,3) by (simp add: border_of_def written_def border_at_Some)
    have found: "key_found ?k r = Inr True" using sk(3) mb by simp
    have go: "put ops key len v i st = (if len \<le> 8 then rbind (BN_SetPrefixValue_s bn len v) (\<lambda>bn1. Inr (set_border st4 b bn1))
      else if BN_HasSuffix_s bn then
        rbind (new_key key len st4) (\<lambda>(k, st5). rbind (BN_TestSuffix_s bn k) (\<lambda>same.
          if same then rbind (BN_SetSuffixValue_s bn (drop 8 key) (len - 8) v st5) (\<lambda>(bn1, st6). Inr (set_border st6 b bn1))
          else rbind (BN_ExportSuffixValue_s bn st5) (\<lambda>(kv2, bn1, st6). rbind (written kv2) (\<lambda>(k2, v2).
            rbind (create_pair ops (drop 8 key) (len - 8) (sk_content k2) (sk_len k2) v v2 (set_border st6 b bn1)) (\<lambda>(sub, st7).
            rbind (border_at st7 b) (\<lambda>bn2. Inr (set_border st7 b (BN_SetLink_s bn2 sub))))))))
      else (case BN_GetLink_s bn of Some sub \<Rightarrow> put ops (drop 8 key) (len - 8) v sub st4
        | None \<Rightarrow> rbind (BN_SetSuffixValue_s bn (drop 8 key) (len - 8) v st4) (\<lambda>(bn1, st5). Inr (set_border st5 b bn1))))"
      by (subst put.simps) (simp only: slice sk(1,2) found v3(1) s4(1) bo rbind_Inr prod.case snd_conv if_True keyslice_length_def)
    have s4': "ts st4 I C4 (Suc (Suc (n + len + 21)))" by (rule ts_less[OF s4(2)]) simp
    note key_ok = new_key_ok[OF s4' len]
    have test: "BN_TestSuffix_s bn \<lparr>sk_content = ?y, sk_len = len\<rparr> = Inr (s = drop 8 ?y)"
      if "8 < len" "skeySuffix bn = Some s" for s
    proof -
      have "skeySuffixLength bn = length s" using bn(2) that(2) by (simp add: border_ok_def)
      moreover have "UTIL_StrEqual_s (drop 8 ?y) (len - 8) s (length s) = Inr (drop 8 ?y = s)"
        using StrEqual_s[of "len - 8" "drop 8 ?y" "length s" s] len(1) by simp
      ultimately show ?thesis using that by (auto simp: BN_TestSuffix_s_def size_minus_def)
    qed
    consider (short) "len \<le> 8" | (same) "8 < len" "skeySuffix bn = Some (drop 8 ?y)"
      | (other) s where "8 < len" "skeySuffix bn = Some s" "s \<noteq> drop 8 ?y"
      | (link) l where "8 < len" "skeySuffix bn = None" "BN_GetLink_s bn = Some l"
      | (none) "8 < len" "skeySuffix bn = None" "BN_GetLink_s bn = None"
      by (cases "skeySuffix bn"; cases "BN_GetLink_s bn"; force)
    then show ?thesis
    proof cases
      case short
      have "ts st4 I C4 n" by (rule ts_less[OF s4(2)]) simp
      from put_prefix[OF this inv4 p len(1) short Some bn(1,2), of v] show ?thesis
        using go short put_made_frame[OF B] by auto
    next
      case none
      have "ts st4 I C4 (Suc n)" by (rule ts_less[OF s4(2)]) simp
      from put_suffix[OF this inv4 p len none(1) Some bn(1,2) none(3), of v] none show ?thesis
        using go put_made_frame[OF B] by (auto simp: BN_HasSuffix_s_def)
    next
      case link
      have s: "ts st4 I C4 (n + (len - 8) + 24)" by (rule ts_less[OF s4(2)]) (use link(1) in simp)
      have "BN_GetLink_s bn = N (p @ [?k])" using str_invD(4)[OF inv4 Some] bn(1) by (auto simp: linked_ok_def)
      then have l: "N (p @ [?k]) = Some l" using link(3) by simp
      have d: "take (len - 8) (drop 8 key) = drop 8 ?y" by (simp add: drop_take)
      have le: "len - 8 \<le> length (drop 8 key)" "len - 8 < 2 ^ 32" using len by simp_all
      obtain st' where "put ops (drop 8 key) (len - 8) v l st4 = Inr st'"
        "put_made (p @ [?k]) st4 I N X n l (drop 8 ?y) v st'"
        using less.IH[OF _ s inv4 l le, unfolded d] link(1) by auto
      moreover from put_below[OF inv4 p _ Some bn(1) link(3) this(2)] have "put_made p st4 I N X n i ?y v st'"
        using link(1) len(1) by simp
      ultimately show ?thesis using go link put_made_frame[OF B] by (simp add: BN_HasSuffix_s_def)
    next
      case same
      obtain st5 where k: "new_key key len st4 = Inr (\<lparr>sk_content = ?y, sk_len = len\<rparr>, st5)" "ts st5 I C4 (n + len + 21)"
        "bds st5 = bds st4" using key_ok by blast
      have "ts st5 I C4 (Suc n)" by (rule ts_less[OF k(2)]) simp
      moreover have "str_inv I (bds st5) N X {}" "bds st5 b = Some bn" "BN_GetLink_s bn = None"
        using inv4 k(3) bn(1) same(2) by (simp_all add: BN_GetLink_s_def)
      ultimately obtain bn1 st6 where w: "BN_SetSuffixValue_s bn (drop 8 key) (len - 8) v st5 = Inr (bn1, st6)"
        "put_made p st5 I N X n i ?y v (set_border st6 b bn1)"
        using put_suffix[of st5 I C4 n N X p i len key b bn v] p len same Some bn(2) by auto
      have "bds st5 = bds st" using k(3) B by simp
      from put_made_frame[OF this w(2)] show ?thesis
        using go same k(1) w(1) test[OF same(1,2)] by (simp add: BN_HasSuffix_s_def)
    next
      case other
      obtain st5 where k: "new_key key len st4 = Inr (\<lparr>sk_content = ?y, sk_len = len\<rparr>, st5)" "ts st5 I C4 (n + len + 21)"
        "bds st5 = bds st4" using key_ok by blast
      have "ts st5 I C4 (n + (len - 8) + 14)" by (rule ts_less[OF k(2)]) simp
      note s5 = this
      have i5: "str_inv I (bds st5) N X {}" "bds st5 b = Some bn" using inv4 k(3) bn(1) by simp_all
      obtain v2 bn1 st6 sub st7 bn2 where w:
        "BN_ExportSuffixValue_s bn st5 = Inr (Some (\<lparr>sk_content = s, sk_len = length s\<rparr>, v2), bn1, st6)"
        "create_pair ops (drop 8 key) (len - 8) s (length s) v v2 (set_border st6 b bn1) = Inr (sub, st7)"
        "border_at st7 b = Inr bn2" "put_made p st5 I N X n i ?y v (set_border st7 b (BN_SetLink_s bn2 sub))"
        using put_split_suffix[OF s5 i5(1) p len other(1) Some i5(2) bn(2) other(2,3), of v] by (elim exE conjE) (rule that)
      have "bds st5 = bds st" using k(3) B by simp
      from put_made_frame[OF this w(4)] show ?thesis
        using go other k(1) w(1-3) test[OF other(1,2)] by (simp add: BN_HasSuffix_s_def written_def)
    qed
  qed
qed

end

end
