(* ===== verification/Str_Relation.thy ===== *)
theory Str_Relation
  imports Str_Put Index_Int
begin

text \<open>
  The interface that \<open>index_string.c\<close> expects, on the B+-trees of \<open>relation_mem.c\<close>: an index is a
  relation, a cursor one of its cursors. A getter succeeds when the cursor is valid, whatever the
  key or value. The trees share one memory.
\<close>

record rel_world =
  rw_trees :: "addr \<rightharpoonup> rl"
  rw_cursors :: "addr \<rightharpoonup> cursor"
  rw_fresh :: addr
  rw_mem :: nat

definition lookup_ptr :: "(addr \<rightharpoonup> 'a) \<Rightarrow> addr \<Rightarrow> 'a result" where
  "lookup_ptr m a = (case m a of None \<Rightarrow> Inl WildPtr | Some x \<Rightarrow> Inr x)"

definition rix_empty :: "rel_world \<Rightarrow> (addr \<times> rel_world) result" where
  "rix_empty w =
     (case Iempty (rw_mem w) of
        None \<Rightarrow> Inl ExitFailure
      | Some s \<Rightarrow> Inr (rw_fresh w, w\<lparr>rw_trees := (rw_trees w)(rw_fresh w \<mapsto> s), rw_fresh := Suc (rw_fresh w), rw_mem := avail s\<rparr>))"

text \<open>A new cursor, moved by \<open>f\<close>.\<close>

definition rix_cursor :: "(rl \<Rightarrow> cursor \<Rightarrow> (bool \<times> cursor) result) \<Rightarrow> addr \<Rightarrow> rel_world \<Rightarrow> (addr \<times> rel_world) result" where
  "rix_cursor f i w =
     rbind (lookup_ptr (rw_trees w) i) (\<lambda>s.
     rbind (RL_NewCursor cursor_mem (s\<lparr>avail := rw_mem w\<rparr>)) (\<lambda>(cur, s1).
       case cur of
         None \<Rightarrow> Inl ExitFailure
       | Some c \<Rightarrow> rbind (f s1 c) (\<lambda>(b, c1).
           Inr (rw_fresh w, w\<lparr>rw_trees := (rw_trees w)(i \<mapsto> s1), rw_cursors := (rw_cursors w)(rw_fresh w \<mapsto> c1),
             rw_fresh := Suc (rw_fresh w), rw_mem := avail s1\<rparr>))))"

definition rix_next_cursor :: "addr \<Rightarrow> addr \<Rightarrow> rel_world \<Rightarrow> (addr \<times> rel_world) result" where
  "rix_next_cursor c i w =
     rbind (lookup_ptr (rw_trees w) i) (\<lambda>s.
     rbind (lookup_ptr (rw_cursors w) c) (\<lambda>cur.
     rbind (RL_MoveToNext s cur) (\<lambda>c1. Inr (c, w\<lparr>rw_cursors := (rw_cursors w)(c \<mapsto> c1)\<rparr>))))"

definition rix_get :: "(rl \<Rightarrow> cursor \<Rightarrow> ('a \<times> cursor) result) \<Rightarrow> addr \<Rightarrow> addr \<Rightarrow> rel_world \<Rightarrow>
    ((bool \<times> 'a option) \<times> rel_world) result" where
  "rix_get f c i w =
     rbind (lookup_ptr (rw_trees w) i) (\<lambda>s.
     rbind (lookup_ptr (rw_cursors w) c) (\<lambda>cur.
     rbind (RL_CursorIsValid s cur) (\<lambda>v.
       if v then rbind (f s cur) (\<lambda>(x, c1). Inr ((True, Some x), w\<lparr>rw_cursors := (rw_cursors w)(c \<mapsto> c1)\<rparr>))
       else Inr ((False, None), w))))"

definition rix_put :: "ckey \<Rightarrow> addr \<Rightarrow> addr \<Rightarrow> addr \<Rightarrow> rel_world \<Rightarrow> (unit \<times> rel_world) result" where
  "rix_put k v c i w =
     rbind (lookup_ptr (rw_trees w) i) (\<lambda>s.
     rbind (lookup_ptr (rw_cursors w) c) (\<lambda>cur.
     rbind (Iput (s\<lparr>avail := rw_mem w\<rparr>) k v cur) (\<lambda>(s1, c1).
       Inr ((), w\<lparr>rw_trees := (rw_trees w)(i \<mapsto> s1), rw_cursors := (rw_cursors w)(c \<mapsto> c1), rw_mem := avail s1\<rparr>))))"

definition rix_free :: "addr \<Rightarrow> rel_world \<Rightarrow> (unit \<times> rel_world) result" where
  "rix_free c w = rbind (lookup_ptr (rw_cursors w) c) (\<lambda>_. Inr ((), w\<lparr>rw_cursors := (rw_cursors w)(c := None)\<rparr>))"

definition rel_index :: "rel_world int_index" where
  "rel_index = \<lparr>ix_empty = rix_empty, ix_make_cursor = (\<lambda>k. rix_cursor (\<lambda>s c. RL_MoveToKey s c k)),
     ix_first_cursor = rix_cursor RL_MoveToFirst, ix_next_cursor = rix_next_cursor,
     ix_get_key = rix_get RL_GetKey, ix_get_value = rix_get RL_GetRecord, ix_put = rix_put,
     ix_free_cursor = rix_free, ix_free = rix_free\<rparr>"

section \<open>The contract holds\<close>

definition rix_rep :: "rel_world \<Rightarrow> indexes \<Rightarrow> icursors \<Rightarrow> (addr \<Rightarrow> nat \<times> bt) \<Rightarrow> bool" where
  "rix_rep w I C A \<longleftrightarrow> 0 < rw_fresh w \<and>
     (\<forall>i m. I i = Some m \<longrightarrow> i \<noteq> NULL \<and> i < rw_fresh w \<and> rl_recs (A i) = m \<and> (\<exists>s. rw_trees w i = Some s \<and> rl_inv s (A i))) \<and>
     (\<forall>c i p. C c = Some (i, p) \<longrightarrow> c < rw_fresh w \<and> I i \<noteq> None \<and> (\<exists>cur. rw_cursors w c = Some cur \<and> rl_pos (A i) cur p))"

definition rix_irep :: "rel_world \<Rightarrow> indexes \<Rightarrow> icursors \<Rightarrow> bool" where
  "rix_irep w I C \<longleftrightarrow> (\<exists>A. rix_rep w I C A)"

definition rix_room :: "nat \<Rightarrow> rel_world \<Rightarrow> bool" where
  "rix_room n w \<longleftrightarrow> 20 * n \<le> rw_mem w \<and> n \<le> record_limit \<and> (\<forall>i s. rw_trees w i = Some s \<longrightarrow> numRecords s + n \<le> record_limit)"

lemma rix_repD:
  assumes "rix_rep w I C A"
  shows "I i = Some m \<Longrightarrow> \<exists>s. rw_trees w i = Some s \<and> rl_inv s (A i) \<and> rl_recs (A i) = m \<and> i \<noteq> NULL \<and> i < rw_fresh w"
    "C c = Some (i, p) \<Longrightarrow> \<exists>cur. rw_cursors w c = Some cur \<and> rl_pos (A i) cur p \<and> I i \<noteq> None \<and> c < rw_fresh w"
    "0 < rw_fresh w"
  using assms unfolding rix_rep_def by blast+

lemma rl_inv_avail: "rl_inv s a \<Longrightarrow> rl_inv (s\<lparr>avail := n\<rparr>) a"
  by (simp add: rl_inv_def rel_inv_avail)

lemma rix_cursor_ok:
  assumes rep: "rix_rep w I C A" and room: "rix_room (Suc n) w" and i: "I i = Some m"
    and f: "\<And>s c p. rl_inv s (A i) \<Longrightarrow> rl_pos (A i) c p \<Longrightarrow> \<exists>b c'. f s c = Inr (b, c') \<and> rl_pos (A i) c' q"
  shows "\<exists>c w'. rix_cursor f i w = Inr (c, w') \<and> C c = None \<and> rix_rep w' I (C(c \<mapsto> (i, q))) A \<and> rix_room n w'"
proof -
  obtain s where s: "rw_trees w i = Some s" "rl_inv s (A i)" "rl_recs (A i) = m" using rix_repD(1)[OF rep i] by blast
  let ?s = "s\<lparr>avail := rw_mem w\<rparr>"
  have av: "avail ?s \<noteq> 0" using room by (simp add: rix_room_def)
  have inv: "rel_inv ?s (fst (A i)) (snd (A i))" using rl_inv_avail[OF s(2)] by (simp add: rl_inv_def)
  let ?s1 = "?s\<lparr>avail := avail ?s - 1\<rparr>"
  obtain c0 where c0: "RL_NewCursor cursor_mem ?s = Inr (Some c0, ?s1)" "cur_pos (fst (A i)) (snd (A i)) c0 0"
    using RL_NewCursor_pos[OF inv cursor_mem_ok av] by blast
  have "rl_inv ?s1 (A i)" using rl_inv_avail[OF s(2)] by simp
  moreover have "rl_pos (A i) c0 0" using c0(2) by (simp add: rl_pos_def)
  ultimately obtain b c1 where c1: "f ?s1 c0 = Inr (b, c1)" "rl_pos (A i) c1 q" using f by blast
  let ?w = "w\<lparr>rw_trees := (rw_trees w)(i \<mapsto> ?s1), rw_cursors := (rw_cursors w)(rw_fresh w \<mapsto> c1),
    rw_fresh := Suc (rw_fresh w), rw_mem := avail ?s1\<rparr>"
  have "rix_cursor f i w = Inr (rw_fresh w, ?w)" using s(1) c0(1) c1(1) by (simp add: rix_cursor_def lookup_ptr_def)
  moreover have "C (rw_fresh w) = None"
    using rix_repD(2)[OF rep, of "rw_fresh w"] by (cases "C (rw_fresh w)") auto
  moreover have "rix_rep ?w I (C(rw_fresh w \<mapsto> (i, q))) A"
    unfolding rix_rep_def
  proof (intro conjI allI impI)
    fix j m' assume "I j = Some m'"
    then show "j \<noteq> NULL" "j < rw_fresh ?w" "rl_recs (A j) = m'" "\<exists>s. rw_trees ?w j = Some s \<and> rl_inv s (A j)"
      using rix_repD(1)[OF rep, of j m'] rl_inv_avail[OF s(2)] by auto
  next
    fix c j p assume "(C(rw_fresh w \<mapsto> (i, q))) c = Some (j, p)"
    then show "c < rw_fresh ?w" "I j \<noteq> None" "\<exists>cur. rw_cursors ?w c = Some cur \<and> rl_pos (A j) cur p"
      using rix_repD(2)[OF rep, of c j p] i c1(2) by (auto split: if_splits)
  qed simp
  moreover have "rix_room n ?w"
    unfolding rix_room_def
  proof (intro conjI allI impI)
    note rm = room[unfolded rix_room_def]
    show "20 * n \<le> rw_mem ?w" using conjunct1[OF rm] by simp
    show "n \<le> record_limit" using rm by simp
    fix j s' assume "rw_trees ?w j = Some s'"
    then have "\<exists>s''. rw_trees w j = Some s'' \<and> numRecords s' = numRecords s''" using s(1) by (auto split: if_splits)
    then show "numRecords s' + n \<le> record_limit" using rm by fastforce
  qed
  ultimately show ?thesis by blast
qed

lemma rix_get_ok:
  assumes rep: "rix_rep w I C A" and room: "rix_room n w" and c: "C c = Some (i, p)" and i: "I i = Some m"
    and f: "\<And>s cur. rl_inv s (A i) \<Longrightarrow> rl_pos (A i) cur p \<Longrightarrow> p < length m \<Longrightarrow> \<exists>c'. f s cur = Inr (g (m ! p), c') \<and> rl_pos (A i) c' p"
  shows "\<exists>r w'. rix_get f c i w = Inr ((p < length m, r), w') \<and> (p < length m \<longrightarrow> r = Some (g (m ! p))) \<and>
    rix_rep w' I C A \<and> rix_room n w'"
proof -
  obtain s where s: "rw_trees w i = Some s" "rl_inv s (A i)" "rl_recs (A i) = m" using rix_repD(1)[OF rep i] by blast
  obtain cur where cur: "rw_cursors w c = Some cur" "rl_pos (A i) cur p" using rix_repD(2)[OF rep c] by blast
  have v: "RL_CursorIsValid s cur = Inr (p < length m)" using rt.is_valid_iff[OF s(2) cur(2)] s(3) by simp
  show ?thesis
  proof (cases "p < length m")
    case True
    then obtain c' where c': "f s cur = Inr (g (m ! p), c')" "rl_pos (A i) c' p" using f[OF s(2) cur(2)] by blast
    let ?w = "w\<lparr>rw_cursors := (rw_cursors w)(c \<mapsto> c')\<rparr>"
    have "rix_get f c i w = Inr ((True, Some (g (m ! p))), ?w)"
      using s(1) cur(1) v True c'(1) by (simp add: rix_get_def lookup_ptr_def)
    moreover have "rix_rep ?w I C A" using rep c c'(2) unfolding rix_rep_def by auto
    moreover have "rix_room n ?w" using room by (simp add: rix_room_def)
    ultimately show ?thesis using True by auto
  next
    case False
    then have "rix_get f c i w = Inr ((False, None), w)" using s(1) cur(1) v by (simp add: rix_get_def lookup_ptr_def)
    then show ?thesis using False rep room by auto
  qed
qed

lemma rix_put_ok:
  assumes rep: "rix_rep w I C A" and room: "rix_room (Suc n) w" and c: "C c = Some (i, p)" and i: "I i = Some m"
  shows "\<exists>w' C' A' p'. rix_put k v c i w = Inr ((), w') \<and> rix_rep w' (I(i \<mapsto> alist_put k v m)) C' A' \<and>
    C' c = Some (i, p') \<and> rix_room n w'"
proof -
  obtain s where s: "rw_trees w i = Some s" "rl_inv s (A i)" "rl_recs (A i) = m" using rix_repD(1)[OF rep i] by blast
  obtain cur where cur: "rw_cursors w c = Some cur" "rl_pos (A i) cur p" using rix_repD(2)[OF rep c] by blast
  let ?s = "s\<lparr>avail := rw_mem w\<rparr>"
  have rm: "rl_room (Suc n) ?s" using room s(1) by (auto simp: rl_room_def rix_room_def)
  obtain s1 c1 a1 where p: "RL_PutRecord ?s cur k v = Inr (s1, c1)" "rl_inv s1 a1" "rl_recs a1 = alist_put k v m"
    "rl_pos a1 c1 (Suc (rec_ix (map fst m) k))" "rl_room n s1"
    using rt.put_law[OF rl_inv_avail[OF s(2)] cur(2) rm, of k v] unfolding s(3) by blast
  let ?w = "w\<lparr>rw_trees := (rw_trees w)(i \<mapsto> s1), rw_cursors := (rw_cursors w)(c \<mapsto> c1), rw_mem := avail s1\<rparr>"
  let ?C = "\<lambda>c'. if c' = c then Some (i, Suc (rec_ix (map fst m) k)) else case C c' of None \<Rightarrow> None
    | Some (j, q) \<Rightarrow> if j = i then None else Some (j, q)"
  have "rix_put k v c i w = Inr ((), ?w)" using s(1) cur(1) p(1) by (simp add: rix_put_def lookup_ptr_def Iput_def)
  moreover have "rix_rep ?w (I(i \<mapsto> alist_put k v m)) ?C (A(i := a1))"
    unfolding rix_rep_def
  proof (intro conjI allI impI)
    fix j m' assume j: "(I(i \<mapsto> alist_put k v m)) j = Some m'"
    show "j \<noteq> NULL" "j < rw_fresh ?w" "rl_recs ((A(i := a1)) j) = m'" "\<exists>s. rw_trees ?w j = Some s \<and> rl_inv s ((A(i := a1)) j)"
      using rix_repD(1)[OF rep, of j] j i p(2,3) by (auto split: if_splits)
  next
    fix c' j q assume c': "?C c' = Some (j, q)"
    show "c' < rw_fresh ?w" "(I(i \<mapsto> alist_put k v m)) j \<noteq> None" "\<exists>cur. rw_cursors ?w c' = Some cur \<and> rl_pos ((A(i := a1)) j) cur q"
      using rix_repD(2)[OF rep c] rix_repD(2)[OF rep, of c' j q] c' p(4) by (auto split: if_splits option.splits prod.splits)
  qed (use rix_repD(3)[OF rep] in simp)
  moreover have "rix_room n ?w"
    unfolding rix_room_def
  proof (intro conjI allI impI)
    note rw = room[unfolded rix_room_def] and rs = p(5)[unfolded rl_room_def]
    show "20 * n \<le> rw_mem ?w" using rs by simp
    show "n \<le> record_limit" using rw by simp
    fix j s' assume j: "rw_trees ?w j = Some s'"
    show "numRecords s' + n \<le> record_limit"
    proof (cases "j = i")
      case True
      then show ?thesis using j rs by simp
    next
      case False
      then have "rw_trees w j = Some s'" using j by simp
      then show ?thesis using rw by fastforce
    qed
  qed
  moreover have "?C c = Some (i, Suc (rec_ix (map fst m) k))" by simp
  ultimately show ?thesis by blast
qed

lemma rix_empty_ok:
  assumes rep: "rix_rep w I C A" and room: "rix_room (Suc n) w"
  shows "\<exists>i w' A'. rix_empty w = Inr (i, w') \<and> i \<noteq> NULL \<and> I i = None \<and> rix_rep w' (I(i \<mapsto> [])) C A' \<and> rix_room n w'"
proof -
  have "2 \<le> rw_mem w" using room by (simp add: rix_room_def)
  then obtain s where s: "RL_NewRelation (rw_mem w) = Some s" using RL_NewRelation_Some by blast
  note new = RL_NewRelation_inv[OF s]
  have none: "I (rw_fresh w) = None" using rix_repD(1)[OF rep, of "rw_fresh w"] by (cases "I (rw_fresh w)") auto
  let ?w = "w\<lparr>rw_trees := (rw_trees w)(rw_fresh w \<mapsto> s), rw_fresh := Suc (rw_fresh w), rw_mem := avail s\<rparr>"
  let ?a = "(0, Lf 1 True True [])"
  have "rix_rep ?w (I(rw_fresh w \<mapsto> [])) C (A(rw_fresh w := ?a))"
    unfolding rix_rep_def
  proof (intro conjI allI impI)
    fix j m' assume j: "(I(rw_fresh w \<mapsto> [])) j = Some m'"
    show "j \<noteq> NULL" "j < rw_fresh ?w" "rl_recs ((A(rw_fresh w := ?a)) j) = m'"
      "\<exists>s. rw_trees ?w j = Some s \<and> rl_inv s ((A(rw_fresh w := ?a)) j)"
      using rix_repD(1)[OF rep, of j] rix_repD(3)[OF rep] j new(1) by (auto simp: rl_inv_def rl_recs_def split: if_splits)
  next
    fix c' j q assume "C c' = Some (j, q)"
    then show "c' < rw_fresh ?w" "(I(rw_fresh w \<mapsto> [])) j \<noteq> None"
      "\<exists>cur. rw_cursors ?w c' = Some cur \<and> rl_pos ((A(rw_fresh w := ?a)) j) cur q"
      using rix_repD(2)[OF rep, of c' j q] none by auto
  qed simp
  moreover have "rix_room n ?w"
    using room new(2) rel_invD(6)[OF new(1)] unfolding rix_room_def by (auto split: if_splits) (meson Suc_leD)
  ultimately show ?thesis
    using s none rix_repD(3)[OF rep] by (auto simp: rix_empty_def Iempty_def)
qed

interpretation ri: int_indexes rel_index rix_irep rix_room
proof unfold_locales
  fix w I C n c i p m k v x
  show "rix_irep w I C \<Longrightarrow> I i = Some m \<Longrightarrow> i \<noteq> NULL \<and> sorted_keys m"
    unfolding rix_irep_def using rix_repD(1) rt.recs_sorted by metis
  show "rix_room (Suc n) w \<Longrightarrow> rix_room n w" by (auto simp: rix_room_def) (meson Suc_leD)
  show "\<exists>i w'. ix_empty rel_index w = Inr (i, w') \<and> i \<noteq> NULL \<and> I i = None \<and> rix_irep w' (I(i \<mapsto> [])) C \<and> rix_room n w'"
    if h: "rix_irep w I C" "rix_room (Suc n) w"
  proof -
    obtain A where rep: "rix_rep w I C A" using h(1) by (auto simp: rix_irep_def)
    from rix_empty_ok[OF rep h(2)] show ?thesis unfolding rix_irep_def by (auto simp: rel_index_def)
  qed
  show "\<exists>c w'. ix_make_cursor rel_index k i w = Inr (c, w') \<and> C c = None \<and>
      rix_irep w' I (C(c \<mapsto> (i, rec_ix (map fst m) k))) \<and> rix_room n w'"
    if h: "rix_irep w I C" "rix_room (Suc n) w" "I i = Some m"
  proof -
    obtain A where rep: "rix_rep w I C A" using h(1) by (auto simp: rix_irep_def)
    have "rl_recs (A i) = m" using rix_repD(1)[OF rep h(3)] by blast
    then have f: "\<exists>b c'. RL_MoveToKey s c k = Inr (b, c') \<and> rl_pos (A i) c' (rec_ix (map fst m) k)"
      if "rl_inv s (A i)" "rl_pos (A i) c p" for s c p using rt.to_key_law[OF that, of k] by blast
    have "\<exists>c w'. rix_cursor (\<lambda>s c. RL_MoveToKey s c k) i w = Inr (c, w') \<and> C c = None \<and>
        rix_rep w' I (C(c \<mapsto> (i, rec_ix (map fst m) k))) A \<and> rix_room n w'"
      by (rule rix_cursor_ok[OF rep h(2,3)]) (rule f)
    then show ?thesis unfolding rix_irep_def by (auto simp: rel_index_def)
  qed
  show "\<exists>c w'. ix_first_cursor rel_index i w = Inr (c, w') \<and> C c = None \<and> rix_irep w' I (C(c \<mapsto> (i, 0))) \<and> rix_room n w'"
    if h: "rix_irep w I C" "rix_room (Suc n) w" "I i = Some m"
  proof -
    obtain A where rep: "rix_rep w I C A" using h(1) by (auto simp: rix_irep_def)
    have f: "\<exists>b c'. RL_MoveToFirst s c = Inr (b, c') \<and> rl_pos (A i) c' 0" if "rl_inv s (A i)" "rl_pos (A i) c p" for s c p
      using rt.to_first_law[OF that] by blast
    have "\<exists>c w'. rix_cursor RL_MoveToFirst i w = Inr (c, w') \<and> C c = None \<and> rix_rep w' I (C(c \<mapsto> (i, 0))) A \<and> rix_room n w'"
      by (rule rix_cursor_ok[OF rep h(2,3)]) (rule f)
    then show ?thesis unfolding rix_irep_def by (auto simp: rel_index_def)
  qed
  show "\<exists>r w'. ix_get_key rel_index c i w = Inr ((p < length m, r), w') \<and> (p < length m \<longrightarrow> r = Some (fst (m ! p))) \<and>
      rix_irep w' I C \<and> rix_room n w'"
    if h: "rix_irep w I C" "rix_room n w" "C c = Some (i, p)" "I i = Some m"
  proof -
    obtain A where rep: "rix_rep w I C A" using h(1) by (auto simp: rix_irep_def)
    have "rl_recs (A i) = m" using rix_repD(1)[OF rep h(4)] by blast
    then have f: "\<exists>c'. RL_GetKey s cur = Inr (fst (m ! p), c') \<and> rl_pos (A i) c' p"
      if "rl_inv s (A i)" "rl_pos (A i) cur p" "p < length m" for s cur using rt.get_key_law[OF that(1,2)] that(3) by simp
    have "\<exists>r w'. rix_get RL_GetKey c i w = Inr ((p < length m, r), w') \<and> (p < length m \<longrightarrow> r = Some (fst (m ! p))) \<and>
        rix_rep w' I C A \<and> rix_room n w'"
      by (rule rix_get_ok[OF rep h(2-4)]) (rule f)
    then show ?thesis unfolding rix_irep_def by (auto simp: rel_index_def)
  qed
  show "\<exists>b w'. ix_get_value rel_index c i w = Inr ((b, Some (snd (m ! p))), w') \<and> rix_irep w' I C \<and> rix_room n w'"
    if h: "rix_irep w I C" "rix_room n w" "C c = Some (i, p)" "I i = Some m" "p < length m"
  proof -
    obtain A where rep: "rix_rep w I C A" using h(1) by (auto simp: rix_irep_def)
    have "rl_recs (A i) = m" using rix_repD(1)[OF rep h(4)] by blast
    then have f: "\<exists>c'. RL_GetRecord s cur = Inr (snd (m ! p), c') \<and> rl_pos (A i) c' p"
      if "rl_inv s (A i)" "rl_pos (A i) cur p" "p < length m" for s cur using rt.get_record_law[OF that(1,2)] that(3) by simp
    have "\<exists>r w'. rix_get RL_GetRecord c i w = Inr ((p < length m, r), w') \<and> (p < length m \<longrightarrow> r = Some (snd (m ! p))) \<and>
        rix_rep w' I C A \<and> rix_room n w'"
      by (rule rix_get_ok[OF rep h(2-4)]) (rule f)
    then show ?thesis using h(5) unfolding rix_irep_def by (auto simp: rel_index_def)
  qed
  show "\<exists>w' C' p'. ix_put rel_index k v c i w = Inr ((), w') \<and> rix_irep w' (I(i \<mapsto> alist_put k v m)) C' \<and>
      C' c = Some (i, p') \<and> rix_room n w'"
    if h: "rix_irep w I C" "rix_room (Suc n) w" "C c = Some (i, p)" "I i = Some m"
  proof -
    obtain A where rep: "rix_rep w I C A" using h(1) by (auto simp: rix_irep_def)
    from rix_put_ok[OF rep h(2-4), of k v] show ?thesis unfolding rix_irep_def by (auto simp: rel_index_def)
  qed
  show "\<exists>w'. ix_free_cursor rel_index c w = Inr ((), w') \<and> rix_irep w' I (C(c := None)) \<and> rix_room n w'"
    if h: "rix_irep w I C" "rix_room n w" "C c = Some x"
  proof -
    obtain A where rep: "rix_rep w I C A" using h(1) by (auto simp: rix_irep_def)
    obtain j q where x: "x = (j, q)" by (cases x)
    obtain cur where cur: "rw_cursors w c = Some cur" using rix_repD(2)[OF rep] h(3) x by blast
    let ?w = "w\<lparr>rw_cursors := (rw_cursors w)(c := None)\<rparr>"
    have "rix_rep ?w I (C(c := None)) A" using rep unfolding rix_rep_def by auto
    moreover have "rix_room n ?w" using h(2) by (simp add: rix_room_def)
    ultimately show ?thesis using cur by (auto simp: rel_index_def rix_free_def lookup_ptr_def rix_irep_def)
  qed
qed

end
