(* ===== verification/Str_Cursor.thy ===== *)
theory Str_Cursor
  imports Str_Relation
begin

text \<open>
  The trie as its clients see it, and what becomes of cursors on it: \<open>push_cursor\<close> never sets the
  capacity, so a cursor has room for one slice only.
\<close>

text \<open>The trie at \<open>i\<close> represents the map \<open>g\<close>, and \<open>n\<close> more steps fit into the memory.\<close>

definition strie :: "('w \<Rightarrow> indexes \<Rightarrow> icursors \<Rightarrow> bool) \<Rightarrow> (nat \<Rightarrow> 'w \<Rightarrow> bool) \<Rightarrow> 'w trie_heap \<Rightarrow> addr \<Rightarrow>
    (byte list \<Rightarrow> addr option) \<Rightarrow> nat \<Rightarrow> bool" where
  "strie irep iroom st i g n \<longleftrightarrow> (\<exists>I C N X. trie_state irep iroom st I C n \<and> str_inv I (bds st) N X {} \<and> N [] = Some i \<and>
     (\<forall>y. trie_get I (bds st) i y = g y))"

definition no_slices :: scursor where
  "no_slices = \<lparr>sc_capacity = 0, sc_size = 0, sc_content = []\<rparr>"

definition one_slice :: "addr \<Rightarrow> addr \<Rightarrow> nat \<Rightarrow> scursor" where
  "one_slice node c b = \<lparr>sc_capacity = 0, sc_size = 1, sc_content =
     [\<lparr>cs_node = Some node, cs_node_cursor = Some c, cs_bnode_cursor = Some b\<rparr>]\<rparr>"

lemma push_first: "0 < bd_mem st \<Longrightarrow> push_cursor i c b no_slices st = Inr (one_slice i c b, st\<lparr>bd_mem := bd_mem st - 1\<rparr>)"
  by (simp add: push_cursor_def no_slices_def one_slice_def surely_malloc_s_def aset_def)

lemma push_second: "0 < bd_mem st \<Longrightarrow> push_cursor i c b (one_slice i' c' b') st = Inl OutOfBounds"
  by (simp add: push_cursor_def one_slice_def surely_malloc_s_def aset_def)

lemma new_cursor_overflows: "0 < bd_mem st \<Longrightarrow> new_cursor st = Inl OutOfBounds"
  by (simp add: new_cursor_def surely_malloc_s_def)

text \<open>The slice of a key that the trie holds is in its root, and two long keys with it are below a link.\<close>

lemma trie_get_found:
  assumes inv: "str_inv I B N X {}" and i: "N q = Some i" and "trie_get I B i y \<noteq> None"
  obtains b bn where "X (q @ [key_slice y]) = Some b" "B b = Some bn" "b \<noteq> NULL" "border_get bn (trie_get I B) y \<noteq> None"
    "BN_GetLink_s bn = N (q @ [key_slice y])"
proof -
  note a = trie_get_node[OF inv i, of y]
  obtain b where b: "X (q @ [key_slice y]) = Some b" using a assms(3) by (cases "X (q @ [key_slice y])") auto
  from str_invD(4)[OF inv b] a assms(3) b show thesis by (auto simp: linked_ok_def intro: that)
qed

context int_indexes
begin

lemma strie_put:
  assumes "strie irep iroom st i g (n + len + 24)" and "len \<le> length key" and "len < 2 ^ 32"
  shows "\<exists>st'. put ops key len v i st = Inr st' \<and> strie irep iroom st' i (g(take len key \<mapsto> v)) n"
proof -
  obtain I C N X where s: "ts st I C (n + len + 24)" "str_inv I (bds st) N X {}" "N [] = Some i"
    "\<And>y. trie_get I (bds st) i y = g y" using assms(1) unfolding strie_def by blast
  obtain st' I' C' N' X' where p: "put ops key len v i st = Inr st'" "ts st' I' C' n" "str_inv I' (bds st') N' X' {}" "N' [] = Some i"
    "\<And>z. trie_get I' (bds st') i z = (if z = take len key then Some v else trie_get I (bds st) i z)"
    using put_ok[OF s(1-3) assms(2,3), of v] unfolding put_made_def by blast
  have "trie_get I' (bds st') i z = (g(take len key \<mapsto> v)) z" for z using p(5) s(4) by simp
  then show ?thesis using p(1-4) unfolding strie_def by blast
qed

lemma strie_empty:
  assumes "irep (bd_world st) Map.empty Map.empty" and "iroom (Suc n) (bd_world st)" and "Suc n \<le> bd_mem st"
    and "bds st = Map.empty" and "0 < bd_fresh st"
  shows "\<exists>i st'. on_world (ix_empty ops) st = Inr (i, st') \<and> strie irep iroom st' i Map.empty n"
proof -
  have "ts st Map.empty Map.empty (Suc n)" using assms by (simp add: trie_state_def)
  from new_index_ok[OF this] obtain i st' where i: "on_world (ix_empty ops) st = Inr (i, st')" "i \<noteq> NULL"
    "ts st' [i \<mapsto> []] Map.empty n" "bds st' = bds st" by blast
  have "str_inv [i \<mapsto> []] (bds st') [[] \<mapsto> i] Map.empty {}"
    by (rule str_invI) (use i(2) in \<open>auto simp: node_ok_def split: if_splits\<close>)
  moreover have "trie_get [i \<mapsto> []] (bds st') i y = None" for y by (subst trie_get.simps) simp
  ultimately show ?thesis using i(1,3) unfolding strie_def by (metis fun_upd_same)
qed

lemma make_cursor_short:
  assumes tr: "strie irep iroom st i g (Suc (Suc n))" and "g y \<noteq> None" and "length y \<le> 8"
  shows "\<exists>c st'. make_cursor ops cmp \<lparr>sk_content = y, sk_len = length y\<rparr> i no_slices st = Inr (one_slice i c (length y), st')"
proof -
  obtain I C N X where s: "ts st I C (Suc (Suc n))" "str_inv I (bds st) N X {}" "N [] = Some i"
    "\<And>y. trie_get I (bds st) i y = g y" using tr unfolding strie_def by blast
  obtain b where b: "X [key_slice y] = Some b" using trie_get_found[OF s(2,3), of y] s(4) assms(2) by (metis append_Nil)
  obtain m where m: "I i = Some m" "map_of m (key_slice y) = Some b"
    using str_invD(3)[OF s(2,3)] b by (auto simp: node_ok_def)
  obtain c st1 r st2 where sk: "on_world (ix_make_cursor ops (key_slice y) i) st = Inr (c, st1)"
    "on_world (ix_get_key ops c i) st1 = Inr (r, st2)" "key_found (key_slice y) r = Inr True"
    "ts st2 I (C(c \<mapsto> (i, rec_ix (map fst m) (key_slice y)))) (Suc n)"
    using seek_ok[OF s(1) m(1), of "key_slice y"] unfolding m(2) by auto
  have "0 < bd_mem st2" using sk(4) by (simp add: trie_state_def)
  then have "make_cursor ops cmp \<lparr>sk_content = y, sk_len = length y\<rparr> i no_slices st =
      Inr (one_slice i c (length y), st2\<lparr>bd_mem := bd_mem st2 - 1\<rparr>)"
    using sk(1-3) assms(3) by (subst make_cursor.simps) (simp add: GetNextKeySlice_s push_first)
  then show ?thesis by blast
qed

lemma make_cursor_second:
  assumes st: "ts st I C (Suc (Suc n))" and inv: "str_inv I (bds st) N X {}" and p: "N p = Some i"
    and y: "X (p @ [key_slice y]) \<noteq> None"
  shows "make_cursor ops cmp \<lparr>sk_content = y, sk_len = length y\<rparr> i (one_slice i' c' b') st = Inl OutOfBounds"
proof -
  let ?k = "key_slice y"
  obtain b where b: "X (p @ [?k]) = Some b" using y by auto
  obtain m where m: "I i = Some m" "map_of m ?k = Some b" using str_invD(3)[OF inv p] b by (auto simp: node_ok_def)
  obtain c st1 r st2 where sk: "on_world (ix_make_cursor ops ?k i) st = Inr (c, st1)"
    "on_world (ix_get_key ops c i) st1 = Inr (r, st2)" "key_found ?k r = Inr True"
    "ts st2 I (C(c \<mapsto> (i, rec_ix (map fst m) ?k))) (Suc n)" "bds st2 = bds st"
    using seek_ok[OF st m(1), of ?k] unfolding m(2) by auto
  obtain x st3 where v: "on_world (ix_get_value ops c i) st2 = Inr ((x, Some b), st3)"
    "ts st3 I (C(c \<mapsto> (i, rec_ix (map fst m) ?k))) (Suc n)" "bds st3 = bds st2"
    using value_ok[OF sk(4) fun_upd_same m] by blast
  have mem: "0 < bd_mem st2" "0 < bd_mem st3" using sk(4) v(2) by (simp_all add: trie_state_def)
  obtain bn where bn: "bds st3 b = Some bn" "b \<noteq> NULL"
    using str_invD(4)[OF inv b] v(3) sk(5) by (auto simp: linked_ok_def)
  have "border_of (Some b) st3 = Inr (b, bn)" using bn by (simp add: border_of_def written_def border_at_Some)
  then show ?thesis
    using sk(1-3) v(1) mem
    by (subst make_cursor.simps) (simp add: GetNextKeySlice_s push_second split: option.split)
qed

lemma make_cursor_shared:
  assumes tr: "strie irep iroom st i g (n + 6)" and y: "g y \<noteq> None" "g y' \<noteq> None" "y \<noteq> y'" "take 8 y = take 8 y'"
    and len: "8 < length y" "8 < length y'" "length y < 2 ^ 32"
  shows "make_cursor ops cmp \<lparr>sk_content = y, sk_len = length y\<rparr> i no_slices st = Inl OutOfBounds"
proof -
  let ?k = "key_slice y"
  obtain I C N X where s: "ts st I C (n + 6)" "str_inv I (bds st) N X {}" "N [] = Some i"
    "\<And>y. trie_get I (bds st) i y = g y" using tr unfolding strie_def by blast
  have k: "key_slice y' = ?k" using y(4) len by (simp add: key_slice_def)
  have gy: "trie_get I (bds st) i y \<noteq> None" "trie_get I (bds st) i y' \<noteq> None" using s(4) y(1,2) by simp_all
  obtain b bn where b: "X ([] @ [?k]) = Some b" "bds st b = Some bn" "b \<noteq> NULL" "border_get bn (trie_get I (bds st)) y \<noteq> None"
    "BN_GetLink_s bn = N ([] @ [?k])" by (rule trie_get_found[OF s(2,3) gy(1)])
  obtain b' bn' where b': "X ([] @ [?k]) = Some b'" "bds st b' = Some bn'" "border_get bn' (trie_get I (bds st)) y' \<noteq> None"
    using trie_get_found[OF s(2,3) gy(2)] unfolding k by metis
  have bn': "border_get bn (trie_get I (bds st)) y' \<noteq> None" using b(1,2) b' by simp
  have "drop 8 y \<noteq> drop 8 y'" using y(3,4) by (metis append_take_drop_id)
  then have sfx: "sfx bn = None" using b(4) bn' len by (auto simp: border_get_def split: option.splits if_splits)
  then obtain l where l: "BN_GetLink_s bn = Some l" "trie_get I (bds st) l (drop 8 y) \<noteq> None"
    using b(4) len by (auto simp: border_get_def split: option.splits)
  have nl: "N [?k] = Some l" using l(1) b(5) by simp
  obtain b2 where b2: "X ([?k] @ [key_slice (drop 8 y)]) = Some b2" by (rule trie_get_found[OF s(2) nl l(2)])
  obtain m where m: "I i = Some m" "map_of m ?k = Some b" using str_invD(3)[OF s(2,3)] b(1) by (auto simp: node_ok_def)
  have s0: "ts st I C (Suc (n + 5))" by (rule ts_less[OF s(1)]) simp
  obtain c st1 r st2 where sk: "on_world (ix_make_cursor ops ?k i) st = Inr (c, st1)"
    "on_world (ix_get_key ops c i) st1 = Inr (r, st2)" "key_found ?k r = Inr True"
    "ts st2 I (C(c \<mapsto> (i, rec_ix (map fst m) ?k))) (n + 5)" "bds st2 = bds st"
    using seek_ok[OF s0 m(1), of ?k] unfolding m(2) by auto
  obtain x st3 where v: "on_world (ix_get_value ops c i) st2 = Inr ((x, Some b), st3)"
    "ts st3 I (C(c \<mapsto> (i, rec_ix (map fst m) ?k))) (n + 5)" "bds st3 = bds st2"
    using value_ok[OF sk(4) fun_upd_same m] by blast
  have bo: "border_of (Some b) st3 = Inr (b, bn)"
    using b(2,3) v(3) sk(5) by (simp add: border_of_def written_def border_at_Some)
  let ?C = "C(c \<mapsto> (i, rec_ix (map fst m) ?k))"
  have mem: "0 < bd_mem st3" using v(2) by (simp add: trie_state_def)
  define st4 where "st4 = st3\<lparr>bd_mem := bd_mem st3 - 1\<rparr>"
  have "iroom (Suc (Suc (n + 2))) (bd_world st3)" using ts_less[OF v(2), of "Suc (Suc (n + 2))"] by (simp add: trie_state_def)
  then have s4: "ts st4 I ?C (Suc (Suc (n + 2)))" "bds st4 = bds st"
    using v(2,3) sk(5) by (auto simp: st4_def trie_state_def)
  have kl: "length y - 8 \<le> length (drop 8 y)" "length y - 8 < 2 ^ 32" using len(3) by simp_all
  obtain st5 where k5: "new_key (drop 8 y) (length y - 8) st4 = Inr (\<lparr>sk_content = drop 8 y, sk_len = length y - 8\<rparr>, st5)"
    "ts st5 I ?C (n + 2)" "bds st5 = bds st4" using new_key_ok[OF s4(1) kl] by auto
  have "make_cursor ops cmp \<lparr>sk_content = drop 8 y, sk_len = length (drop 8 y)\<rparr> l (one_slice i c 9) st5 = Inl OutOfBounds"
  proof (rule make_cursor_second)
    show "ts st5 I ?C (Suc (Suc n))" using k5(2) by (simp add: eval_nat_numeral)
    show "str_inv I (bds st5) N X {}" using s(2) k5(3) s4(2) by simp
  qed (use nl b2 in auto)
  then have "make_cursor ops cmp \<lparr>sk_content = drop 8 y, sk_len = length y - 8\<rparr> l (one_slice i c 9) st5 = Inl OutOfBounds"
    by simp
  then show ?thesis
    using sk(1-3) v(1) bo len l(1) k5(1) has_suffix[of bn] sfx push_first[OF mem] st4_def
    by (subst make_cursor.simps) (simp add: GetNextKeySlice_s)
qed

end

end
