(* ===== verification/Kv_Trie.thy ===== *)
theory Kv_Trie
  imports Str_Put Kv_Store
begin

text \<open>
  The key-value store as a trie: the border nodes of \<open>bordernode.c\<close> are seen as those of
  \<open>index_string.c\<close>, with a flag for every link that is not NULL, so the store has the shape and
  represents the map that the theory of tries defines. The rest of the theory says what each step
  of \<open>KV_Put\<close> and \<open>KV_Get\<close> does to it.
\<close>

section \<open>Border nodes\<close>

definition sb_flags :: "addr list \<Rightarrow> 64 word" where
  "sb_flags ls = foldr (\<lambda>i f. if ls ! (i - 1) \<noteq> NULL then or f (2 ^ i) else f) [1..<9] 0"

definition sb_of :: "bordernode \<Rightarrow> sborder" where
  "sb_of bn = \<lparr>prefixFlags = sb_flags (prefixLinks bn), sprefixLinks = NULL # prefixLinks bn, ssuffixLink = suffixLink bn,
     skeySuffix = keySuffix bn, skeySuffixLength = keySuffixLength bn\<rparr>"

lemma bit_fold_flags:
  "n < 64 \<Longrightarrow> bit (foldr (\<lambda>i f. if P i then or f (2 ^ i) else f) is 0 :: 64 word) n \<longleftrightarrow> n \<in> set is \<and> P n"
  by (induction "is") (auto simp: bit_flag)

lemma pfx_sb: "pfx (sb_of bn) n =
  (if 1 \<le> n \<and> n \<le> 8 \<and> prefixLinks bn ! (n - 1) \<noteq> NULL then Some (prefixLinks bn ! (n - 1)) else None)"
  by (cases n) (auto simp: pfx_def sb_of_def sb_flags_def bit_fold_flags)

lemma sfx_sb: "sfx (sb_of bn) = map_option (\<lambda>s. (s, suffixLink bn)) (keySuffix bn)"
  by (simp add: sfx_def sb_of_def)

lemma link_sb: "BN_GetLink_s (sb_of bn) = (if BN_GetLink bn = NULL then None else Some (BN_GetLink bn))"
  by (simp add: BN_GetLink_s_def BN_GetLink_def sb_of_def)

lemma border_ok_sb: "border_ok (sb_of bn) \<longleftrightarrow> length (prefixLinks bn) = 8 \<and>
    (\<forall>s. keySuffix bn = Some s \<longrightarrow> keySuffixLength bn = length s \<and> s \<noteq> [] \<and> length s < 2 ^ 32)"
  by (simp add: border_ok_def sb_of_def)

definition new_kv_border :: bordernode where
  "new_kv_border = \<lparr>prefixLinks = replicate 8 NULL, suffixLink = NULL, keySuffix = None, keySuffixLength = 0\<rparr>"

lemma sb_new: "sb_of new_kv_border = empty_border"
  by (simp add: sb_of_def new_kv_border_def empty_border_def sb_flags_def eval_nat_numeral)

section \<open>Keys\<close>

text \<open>The key holds the string \<open>y\<close>, which is not empty.\<close>

definition key_is :: "kvkey \<Rightarrow> byte list \<Rightarrow> bool" where
  "key_is key y \<longleftrightarrow> y \<noteq> [] \<and> length y < 2 ^ 32 \<and> klen key = length y \<and> (\<exists>str. kstr key = Some str \<and> y = take (length y) str)"

lemma key_isE:
  assumes "key_is key y"
  obtains str where "kstr key = Some str" "take (length y) str = y" "length y \<le> length str" "klen key = length y"
    "y \<noteq> []" "length y < 2 ^ 32"
proof -
  obtain str where "kstr key = Some str" "y = take (length y) str" using assms unfolding key_is_def by blast
  moreover from this(2) have "length y = min (length str) (length y)" by (metis length_take)
  ultimately show thesis using assms that unfolding key_is_def by auto
qed

lemma key_is_of: "y \<noteq> [] \<Longrightarrow> length y < 2 ^ 32 \<Longrightarrow> key_is (kvkey_of y) y"
  by (simp add: key_is_def kvkey_of_def)

lemma key_is_advance:
  assumes "key_is key y" and "8 < length y"
  shows "key_is (advance key) (drop 8 y)"
proof -
  obtain str where s: "kstr key = Some str" "take (length y) str = y" "klen key = length y" "length y < 2 ^ 32"
    by (rule key_isE[OF assms(1)])
  have "take (length y - 8) (drop 8 str) = drop 8 y" using s(2) by (metis drop_take)
  then show ?thesis using s assms(2) by (simp add: key_is_def advance_def)
qed

lemma next_slice_ok:
  assumes "key_is key y"
  shows "next_slice key = Inr (key_slice y)"
proof -
  obtain str where s: "kstr key = Some str" "take (length y) str = y" "length y \<le> length str" "klen key = length y"
    by (rule key_isE[OF assms])
  have "take (min 8 (length y)) str = take 8 y" using s(2) by (metis take_take)
  then have "UTIL_GetNextKeySlice str (min 8 (length y)) = Inr (key_slice y)"
    using s(3) by (simp add: GetNextKeySlice_val key_slice_def) (metis diff_diff_left diff_is_0_eq' linorder_le_cases min.absorb1 min.absorb2 min_def)
  then show ?thesis using s(1,4) by (simp add: next_slice_def str_of_def UTIL_Min_def min_def)
qed

lemma BN_SetValue_ok:
  assumes key: "key_is key y" and bn: "border_ok (sb_of bn)" and v: "v \<noteq> NULL" and mem: "0 < mem"
  shows "\<exists>bn' mem'. BN_SetValue bn (Some key) v mem = Inr (bn', mem') \<and> border_put (sb_of bn) y v (sb_of bn') \<and> mem \<le> Suc mem' \<and> mem' \<le> mem"
proof -
  obtain str where s: "kstr key = Some str" "take (length y) str = y" "length y \<le> length str" "klen key = length y"
    "y \<noteq> []" "length y < 2 ^ 32" by (rule key_isE[OF key])
  show ?thesis
  proof (cases "length y \<le> 8")
    case True
    let ?bn = "bn\<lparr>prefixLinks := (prefixLinks bn)[length y - 1 := v]\<rparr>"
    have len: "length (prefixLinks bn) = 8" "0 < length y" using bn s(5) by (simp_all add: border_ok_sb)
    have "aset (prefixLinks bn) (int (length y) - 1) v = Inr ((prefixLinks bn)[length y - 1 := v])"
      using len(1) True aset_int[of "length y - 1" "prefixLinks bn" v] len(2) by (simp add: of_nat_diff)
    then have "BN_SetPrefixValue bn (int (length y)) v = Inr ?bn" using True len by (simp add: BN_SetPrefixValue_def)
    moreover have "pfx (sb_of ?bn) n = ((pfx (sb_of bn))(length y \<mapsto> v)) n" for n
    proof -
      obtain j where j: "length y = Suc j" using len(2) by (cases "length y") auto
      then show ?thesis using len(1) True v by (cases n) (auto simp: pfx_sb)
    qed
    then have "border_put (sb_of bn) y v (sb_of ?bn)"
      using bn True by (auto simp: border_put_def border_ok_sb sfx_sb link_sb BN_GetLink_def fun_eq_iff)
    ultimately show ?thesis using True s(4) by (simp add: BN_SetValue_def KV_GetCharArraySize_def)
  next
    case False
    let ?s = "drop 8 y"
    let ?bn = "bn\<lparr>suffixLink := v, keySuffix := Some ?s, keySuffixLength := length y - 8\<rparr>"
    have "copy_loop (drop 8 str) 0 (length y - 8) = Inr ?s"
      using copy_loop_take[of 0 "length y - 8" "drop 8 str"] s(2,3) by simp (metis drop_take)
    then have "BN_SetSuffixValue bn (drop 8 str) (length y - 8) v mem = Inr (?bn, mem - 1)"
      using mem by (simp add: BN_SetSuffixValue_def surely_malloc_def)
    moreover have "border_put (sb_of bn) y v (sb_of ?bn)"
      using bn False s(6) by (auto simp: border_put_def border_ok_sb sfx_sb link_sb BN_GetLink_def pfx_sb fun_eq_iff)
    ultimately show ?thesis
      using False s(1,4) mem by (simp add: BN_SetValue_def KV_GetCharArraySize_def KV_GetCharArray_def str_of_def)
  qed
qed

section \<open>The steps of the store\<close>

text \<open>
  \<open>kv_state s I n\<close>: the nodes of \<open>s\<close> hold the indexes \<open>I\<close>, and there is room for \<open>n\<close> more steps.
  The value of a suffix is never NULL.
\<close>

definition node_rep :: "kv \<Rightarrow> nat \<Rightarrow> addr \<Rightarrow> (ckey \<times> addr) list \<Rightarrow> bool" where
  "node_rep s n i m \<longleftrightarrow> i \<noteq> NULL \<and> i < kfresh s \<and> length m + n \<le> record_limit \<and>
     (\<exists>t c a p. kvnodes s i = Some \<lparr>kv_tree = t, kv_cursor = c\<rparr> \<and> rl_inv t a \<and> rl_recs a = m \<and> rl_pos a c p)"

definition kv_state :: "kv \<Rightarrow> indexes \<Rightarrow> nat \<Rightarrow> bool" where
  "kv_state s I n \<longleftrightarrow> 20 * n \<le> kmem s \<and> n \<le> record_limit \<and> 0 < kfresh s \<and> (\<forall>i m. I i = Some m \<longrightarrow> node_rep s n i m) \<and>
     (\<forall>b bn. bnodes s b = Some bn \<longrightarrow> b < kfresh s \<and> (keySuffix bn \<noteq> None \<longrightarrow> suffixLink bn \<noteq> NULL))"

lemma kv_stateD:
  assumes "kv_state s I n"
  shows "20 * n \<le> kmem s" "n \<le> record_limit" "0 < kfresh s" "I i = Some m \<Longrightarrow> node_rep s n i m"
    "bnodes s b = Some bn \<Longrightarrow> b < kfresh s" "bnodes s b = Some bn \<Longrightarrow> keySuffix bn \<noteq> None \<Longrightarrow> suffixLink bn \<noteq> NULL"
  using assms unfolding kv_state_def by blast+

lemma kv_stateI:
  assumes "20 * n \<le> kmem s" "n \<le> record_limit" "0 < kfresh s" "\<And>i m. I i = Some m \<Longrightarrow> node_rep s n i m"
    "\<And>b bn. bnodes s b = Some bn \<Longrightarrow> b < kfresh s" 
    "\<And>b bn. bnodes s b = Some bn \<Longrightarrow> keySuffix bn \<noteq> None \<Longrightarrow> suffixLink bn \<noteq> NULL"
  shows "kv_state s I n"
  using assms unfolding kv_state_def by blast

lemma node_rep_frame:
  assumes "node_rep s n i m" and "kvnodes s' i = kvnodes s i" and "kfresh s \<le> kfresh s'" and "n' \<le> n"
  shows "node_rep s' n' i m"
  using assms unfolding node_rep_def by auto

lemma kv_state_less:
  assumes "kv_state s I n" and "n' \<le> n"
  shows "kv_state s I n'"
  by (rule kv_stateI) (use kv_stateD[OF assms(1)] assms(2) node_rep_frame[OF _ refl order_refl assms(2)] in auto)

text \<open>A step that does not change the trees.\<close>

lemma kv_state_bnodes:
  assumes "kv_state s I (Suc n)" and "kvnodes s' = kvnodes s" and "kfresh s \<le> kfresh s'" and "kmem s \<le> Suc (kmem s')"
    and "\<And>b bn. bnodes s' b = Some bn \<Longrightarrow> b < kfresh s' \<and> (keySuffix bn \<noteq> None \<longrightarrow> suffixLink bn \<noteq> NULL)"
  shows "kv_state s' I n"
proof (rule kv_stateI)
  note d = kv_stateD[OF assms(1)]
  show "20 * n \<le> kmem s'" "n \<le> record_limit" "0 < kfresh s'" using d(1-3) assms(3,4) by auto
  show "node_rep s' n i m" if "I i = Some m" for i m
    using node_rep_frame[OF d(4)[OF that] _ assms(3), of n] assms(2) by simp
qed (use assms(5) in blast)+

text \<open>The trees of the nodes.\<close>

definition same_borders :: "kv \<Rightarrow> kv \<Rightarrow> bool" where
  "same_borders s s' \<longleftrightarrow> bnodes s' = bnodes s \<and> rootNode s' = rootNode s \<and> numKeys_kv s' = numKeys_kv s"

lemma set_node_state:
  assumes st: "kv_state s I n" and i: "node_rep s n i m0" and "rl_inv t a" "rl_pos a c p" "length (rl_recs a) + n' \<le> record_limit"
    and mem: "20 * n' \<le> avail t" and n: "n' \<le> n"
  shows "kv_state (s\<lparr>kvnodes := (kvnodes s)(i \<mapsto> \<lparr>kv_tree = t, kv_cursor = c\<rparr>), kmem := avail t\<rparr>) (I(i \<mapsto> rl_recs a)) n'"
    (is "kv_state ?s _ _")
proof (rule kv_stateI)
  note d = kv_stateD[OF st]
  show "node_rep ?s n' j m" if "(I(i \<mapsto> rl_recs a)) j = Some m" for j m
  proof (cases "j = i")
    case True
    then have "kvnodes ?s j = Some \<lparr>kv_tree = t, kv_cursor = c\<rparr>" "m = rl_recs a" using that by simp_all
    then show ?thesis using True assms(3-5) i unfolding node_rep_def
      by (intro conjI exI[of _ t] exI[of _ c] exI[of _ a] exI[of _ p]) simp_all
  next
    case False
    then show ?thesis using that node_rep_frame[OF d(4), of j m ?s n'] n by simp
  qed
qed (use kv_stateD[OF st] mem n in auto)

lemma kv_state_same: "kv_state s (I(i \<mapsto> m)) n \<Longrightarrow> I i = Some m \<Longrightarrow> kv_state s I n"
  by (simp add: fun_upd_idem)

lemma kv_move_ok:
  assumes st: "kv_state s I n" and i: "I i = Some m"
  shows "\<exists>s' t c a. kv_move_to_key s i k = Inr (map_of m k \<noteq> None, s') \<and> kv_state s' I n \<and> same_borders s s' \<and>
    kvnodes s' i = Some \<lparr>kv_tree = t, kv_cursor = c\<rparr> \<and> rl_inv t a \<and> rl_recs a = m \<and> rl_pos a c (rec_ix (map fst m) k)"
proof -
  note d = kv_stateD[OF st]
  obtain t c a p where n: "kvnodes s i = Some \<lparr>kv_tree = t, kv_cursor = c\<rparr>" "rl_inv t a" "rl_recs a = m" "rl_pos a c p"
    and i0: "i \<noteq> NULL" "length m + n \<le> record_limit" using d(4)[OF i] unfolding node_rep_def by blast
  let ?t = "t\<lparr>avail := kmem s\<rparr>"
  have t: "rl_inv ?t a" using n(2) rel_inv_avail by (simp add: rl_inv_def)
  obtain c' where c': "RL_MoveToKey ?t c k = Inr (k \<in> fst ` set m, c')" "rl_pos a c' (rec_ix (map fst m) k)"
    using rt.to_key_law[OF t n(4), of k] n(3) by auto
  let ?s = "s\<lparr>kvnodes := (kvnodes s)(i \<mapsto> \<lparr>kv_tree = ?t, kv_cursor = c'\<rparr>), kmem := kmem s\<rparr>"
  have "kv_move_to_key s i k = Inr (map_of m k \<noteq> None, ?s)"
    using n(1) i0(1) c'(1) by (simp add: kv_move_to_key_def with_tree_def kvnode_at_def map_of_eq_None_iff)
  moreover have "kv_state ?s I n"
    using kv_state_same[OF set_node_state[OF st d(4)[OF i] t c'(2)]] i i0(2) d(1) n(3) by simp
  ultimately show ?thesis using t c'(2) n(3)
    by (intro exI[of _ ?s] exI[of _ ?t] exI[of _ c'] exI[of _ a]) (simp add: same_borders_def)
qed

lemma kv_seek_ok:
  assumes st: "kv_state s I n" and i: "I i = Some m" and k: "map_of m k = Some b"
  shows "\<exists>s1 s2. kv_move_to_key s i k = Inr (True, s1) \<and> kv_get_record s1 i = Inr (b, s2) \<and> kv_state s2 I n \<and> same_borders s s2"
proof -
  obtain s1 t c a where s1: "kv_move_to_key s i k = Inr (True, s1)" "kv_state s1 I n" "same_borders s s1"
    "kvnodes s1 i = Some \<lparr>kv_tree = t, kv_cursor = c\<rparr>" "rl_inv t a" "rl_recs a = m" "rl_pos a c (rec_ix (map fst m) k)"
    using kv_move_ok[OF st i, of k] k by auto
  note d = kv_stateD[OF s1(2)]
  let ?t = "t\<lparr>avail := kmem s1\<rparr>"
  have t: "rl_inv ?t a" using s1(5) rel_inv_avail by (simp add: rl_inv_def)
  have srt: "sorted_keys m" using rt.recs_sorted[OF t] s1(6) by simp
  have mem: "k \<in> fst ` set m" using k by (metis map_of_eq_None_iff option.distinct(1))
  have "rec_ix (map fst m) k < length m" "snd (m ! rec_ix (map fst m) k) = b"
    using rec_ix_mem[OF srt] rec_ix_map_of[OF srt mem] mem k by auto
  then obtain c' where c': "RL_GetRecord ?t c = Inr (b, c')" "rl_pos a c' (rec_ix (map fst m) k)"
    using rt.get_record_law[OF t s1(7)] s1(6) by auto
  let ?s = "s1\<lparr>kvnodes := (kvnodes s1)(i \<mapsto> \<lparr>kv_tree = ?t, kv_cursor = c'\<rparr>), kmem := kmem s1\<rparr>"
  have "i \<noteq> NULL" "length m + n \<le> record_limit" using d(4)[OF i] unfolding node_rep_def by auto
  then have "kv_get_record s1 i = Inr (b, ?s)" "kv_state ?s I n"
    using s1(4) c'(1) kv_state_same[OF set_node_state[OF s1(2) d(4)[OF i] t c'(2)]] i d(1) s1(6)
    by (simp_all add: kv_get_record_def with_tree_def kvnode_at_def)
  then show ?thesis using s1(1,3) by (intro exI[of _ s1] exI[of _ ?s]) (simp add: same_borders_def)
qed

lemma kv_put_record_ok:
  assumes st: "kv_state s I (Suc n)" and i: "I i = Some m"
  shows "\<exists>s'. kv_put_record s i k v = Inr s' \<and> kv_state s' (I(i \<mapsto> alist_put k v m)) n \<and> same_borders s s'"
proof -
  note d = kv_stateD[OF st]
  obtain t c a p where n: "kvnodes s i = Some \<lparr>kv_tree = t, kv_cursor = c\<rparr>" "rl_inv t a" "rl_recs a = m" "rl_pos a c p"
    and i0: "i \<noteq> NULL" "length m + Suc n \<le> record_limit" using d(4)[OF i] unfolding node_rep_def by blast
  let ?t = "t\<lparr>avail := kmem s\<rparr>"
  have t: "rl_inv ?t a" using n(2) rel_inv_avail by (simp add: rl_inv_def)
  have "rl_room (Suc n) ?t" using d(1) i0(2) rel_invD(6)[of t "fst a" "snd a"] n(2,3)
    by (simp add: rl_room_def rl_inv_def rl_recs_def)
  from rt.put_law[OF t n(4) this, of k v] obtain t' c' a' where
    p: "RL_PutRecord ?t c k v = Inr (t', c')" "rl_inv t' a'" "rl_recs a' = alist_put k v m"
      "rl_pos a' c' (Suc (rec_ix (map fst m) k))" "rl_room n t'" unfolding n(3) by blast
  let ?s = "s\<lparr>kvnodes := (kvnodes s)(i \<mapsto> \<lparr>kv_tree = t', kv_cursor = c'\<rparr>), kmem := avail t'\<rparr>"
  have "kv_put_record s i k v = Inr ?s"
    using n(1) i0(1) p(1) by (simp add: kv_put_record_def with_tree_def kvnode_at_def)
  moreover have "length (rl_recs a') + n \<le> record_limit" "20 * n \<le> avail t'"
    using p(2,5) rel_invD(6)[of t' "fst a'" "snd a'"] by (simp_all add: rl_room_def rl_inv_def rl_recs_def)
  then have "kv_state ?s (I(i \<mapsto> alist_put k v m)) n"
    using set_node_state[OF st d(4)[OF i] p(2,4), of n] p(3) by simp
  ultimately show ?thesis by (intro exI[of _ ?s]) (simp add: same_borders_def)
qed

lemma newKVNode_ok:
  assumes st: "kv_state s I (Suc n)"
  shows "\<exists>s'. newKVNode s = Inr (kfresh s, s') \<and> kfresh s \<noteq> NULL \<and> I (kfresh s) = None \<and>
    kv_state s' (I(kfresh s \<mapsto> [])) n \<and> same_borders s s'"
proof -
  note d = kv_stateD[OF st]
  let ?a = "(0, Lf 1 True True []) :: nat \<times> bt"
  have "2 \<le> kmem s - 1" using d(1) by simp
  then obtain t where t: "RL_NewRelation (kmem s - 1) = Some t" using RL_NewRelation_Some by blast
  note new = RL_NewRelation_inv[OF t]
  have "avail t \<noteq> 0" using new(2) d(1) by simp
  then obtain c where c: "RL_NewCursor cursor_mem t = Inr (Some c, t\<lparr>avail := avail t - 1\<rparr>)" "cur_pos 0 (Lf 1 True True []) c 0"
    using RL_NewCursor_pos[OF new(1) cursor_mem_ok] by blast
  let ?t = "t\<lparr>avail := avail t - 1\<rparr>"
  let ?s = "s\<lparr>kvnodes := (kvnodes s)(kfresh s \<mapsto> \<lparr>kv_tree = ?t, kv_cursor = c\<rparr>), kfresh := Suc (kfresh s), kmem := avail ?t\<rparr>"
  have new_node: "newKVNode s = Inr (kfresh s, ?s)" using t c(1) d(1) by (simp add: newKVNode_def)
  have fresh: "I (kfresh s) = None" using d(4)[of "kfresh s"] by (cases "I (kfresh s)") (auto simp: node_rep_def)
  have "rl_inv ?t ?a" "rl_pos ?a c 0" using rel_inv_avail[OF new(1)] c(2) by (simp_all add: rl_inv_def rl_pos_def)
  moreover have "rl_recs ?a = []" by (simp add: rl_recs_def)
  ultimately have rep: "node_rep ?s n (kfresh s) []"
    unfolding node_rep_def using d(2,3) by (intro conjI exI[of _ ?t] exI[of _ c] exI[of _ ?a] exI[of _ 0]) simp_all
  have "kv_state ?s (I(kfresh s \<mapsto> [])) n"
  proof (rule kv_stateI)
    show "20 * n \<le> kmem ?s" using new(2) d(1) by simp
    show "node_rep ?s n j m" if "(I(kfresh s \<mapsto> [])) j = Some m" for j m
    proof (cases "j = kfresh s")
      case True
      then show ?thesis using that rep by simp
    next
      case False
      then have "I j = Some m" using that by simp
      from node_rep_frame[OF d(4)[OF this], of ?s n] False show ?thesis by simp
    qed
    show "b < kfresh ?s" if "bnodes ?s b = Some bn" for b bn using d(5)[of b bn] that by simp
  qed (use d in auto)
  then show ?thesis using new_node fresh d(3) by (intro exI[of _ ?s]) (simp add: same_borders_def)
qed

lemma new_bnode_ok:
  assumes st: "kv_state s I (Suc n)"
  shows "\<exists>s'. new_bnode s = Inr (kfresh s, s') \<and> kfresh s \<noteq> NULL \<and> bnodes s (kfresh s) = None \<and> kv_state s' I n \<and>
    bnodes s' = (bnodes s)(kfresh s \<mapsto> new_kv_border) \<and> rootNode s' = rootNode s \<and> numKeys_kv s' = numKeys_kv s"
proof -
  note d = kv_stateD[OF st]
  let ?s = "s\<lparr>bnodes := (bnodes s)(kfresh s \<mapsto> new_kv_border), kfresh := Suc (kfresh s), kmem := kmem s - 1\<rparr>"
  have "new_bnode s = Inr (kfresh s, ?s)"
    using d(1) by (simp add: new_bnode_def BN_NewBorderNode_def surely_malloc_def new_kv_border_def)
  moreover have "bnodes s (kfresh s) = None" using d(5)[of "kfresh s"] by (cases "bnodes s (kfresh s)") auto
  moreover have "kv_state ?s I n"
  proof (rule kv_state_bnodes[OF st])
    show "b < kfresh ?s \<and> (keySuffix bn \<noteq> None \<longrightarrow> suffixLink bn \<noteq> NULL)" if "bnodes ?s b = Some bn" for b bn
      using that d(5,6)[of b bn] by (auto simp: new_kv_border_def split: if_splits)
  qed simp_all
  ultimately show ?thesis using d(3) by (intro exI[of _ ?s]) simp
qed

lemma set_bnode_state:
  assumes st: "kv_state s I (Suc n)" and "bnodes s b \<noteq> None" and "keySuffix bn \<noteq> None \<Longrightarrow> suffixLink bn \<noteq> NULL"
    and "kmem s \<le> Suc mem"
  shows "kv_state (set_bnode s b bn mem) I n"
proof (rule kv_state_bnodes[OF st])
  show "c < kfresh (set_bnode s b bn mem) \<and> (keySuffix cn \<noteq> None \<longrightarrow> suffixLink cn \<noteq> NULL)"
    if "bnodes (set_bnode s b bn mem) c = Some cn" for c cn
    using that kv_stateD(5,6)[OF st, of c] assms(2,3) by (auto simp: set_bnode_def split: if_splits)
qed (use assms(4) in \<open>simp_all add: set_bnode_def\<close>)

lemma BN_SetValue_suffix:
  assumes "BN_SetValue bn key v mem = Inr (bn', mem')" and "v \<noteq> NULL" and "keySuffix bn \<noteq> None \<longrightarrow> suffixLink bn \<noteq> NULL"
  shows "keySuffix bn' \<noteq> None \<Longrightarrow> suffixLink bn' \<noteq> NULL"
  using assms by (auto simp: BN_SetValue_def BN_SetSuffixValue_def BN_SetPrefixValue_def rbind_eq_Inr split: if_splits)

lemma bn_set_value_ok:
  assumes st: "kv_state s I (Suc n)" and b: "bnodes s b = Some bn" "b \<noteq> NULL" "border_ok (sb_of bn)"
    and key: "key_is key y" and v: "v \<noteq> NULL"
  shows "\<exists>bn' s'. bn_set_value s b key v = Inr s' \<and> border_put (sb_of bn) y v (sb_of bn') \<and> kv_state s' I n \<and>
    bnodes s' = (bnodes s)(b \<mapsto> bn') \<and> rootNode s' = rootNode s \<and> numKeys_kv s' = numKeys_kv s"
proof -
  have "0 < kmem s" using kv_stateD(1)[OF st] by simp
  from BN_SetValue_ok[OF key b(3) v this] obtain bn' mem' where
    w: "BN_SetValue bn (Some key) v (kmem s) = Inr (bn', mem')" "border_put (sb_of bn) y v (sb_of bn')" "kmem s \<le> Suc mem'" by blast
  have "kv_state (set_bnode s b bn' mem') I n"
    using set_bnode_state[OF st _ BN_SetValue_suffix[OF w(1) v] w(3)] b(1) kv_stateD(6)[OF st b(1)] by simp
  then show ?thesis using w b by (intro exI[of _ bn'] exI[of _ "set_bnode s b bn' mem'"])
    (simp add: bn_set_value_def bnode_at_def set_bnode_def)
qed

text \<open>A border node can be freed once, and then the other ones are as before.\<close>

lemma free_border_ok:
  assumes st: "kv_state s I n" and "bnodes s b \<noteq> None" and "b \<noteq> NULL"
  shows "\<exists>s'. BN_FreeBorderNode s b = Inr s' \<and> kv_state s' I n \<and> bnodes s' = (bnodes s)(b := None) \<and>
    BN_FreeBorderNode s' b = Inl WildPtr"
proof -
  let ?s = "s\<lparr>bnodes := (bnodes s)(b := None)\<rparr>"
  have "kv_state ?s I n"
    by (rule kv_stateI) (use kv_stateD[OF st] in \<open>auto simp: node_rep_def split: if_splits\<close>)
  then show ?thesis using assms(2,3) by (intro exI[of _ ?s]) (auto simp: BN_FreeBorderNode_def bnode_at_def)
qed

text \<open>A new border node with the value of a key, for a slice of the node \<open>i\<close>.\<close>

lemma put_new_border_ok:
  assumes st: "kv_state s I (Suc (Suc (Suc n)))" and i: "I i = Some m" and key: "key_is key y" and v: "v \<noteq> NULL"
  shows "\<exists>b bn s'. put_new_border s i k key v = Inr s' \<and> b \<noteq> NULL \<and> bnodes s b = None \<and>
    border_put empty_border y v (sb_of bn) \<and> kv_state s' (I(i \<mapsto> alist_put k b m)) n \<and>
    bnodes s' = (bnodes s)(b \<mapsto> bn) \<and> rootNode s' = rootNode s \<and> numKeys_kv s' = numKeys_kv s"
proof -
  obtain s1 where s1: "new_bnode s = Inr (kfresh s, s1)" "kfresh s \<noteq> NULL" "bnodes s (kfresh s) = None" "kv_state s1 I (Suc (Suc n))"
    "bnodes s1 = (bnodes s)(kfresh s \<mapsto> new_kv_border)" "rootNode s1 = rootNode s" "numKeys_kv s1 = numKeys_kv s"
    using new_bnode_ok[OF st] by blast
  have b1: "bnodes s1 (kfresh s) = Some new_kv_border" "border_ok (sb_of new_kv_border)"
    using s1(5) by (simp_all add: sb_new empty_border_ok)
  obtain bn s2 where s2: "bn_set_value s1 (kfresh s) key v = Inr s2" "border_put (sb_of new_kv_border) y v (sb_of bn)"
    "kv_state s2 I (Suc n)" "bnodes s2 = (bnodes s1)(kfresh s \<mapsto> bn)" "rootNode s2 = rootNode s1" "numKeys_kv s2 = numKeys_kv s1"
    using bn_set_value_ok[OF s1(4) b1(1) s1(2) b1(2) key v] by blast
  obtain s3 where s3: "kv_put_record s2 i k (kfresh s) = Inr s3" "kv_state s3 (I(i \<mapsto> alist_put k (kfresh s) m)) n" "same_borders s2 s3"
    using kv_put_record_ok[OF s2(3) i] by blast
  show ?thesis using s1 s2 s3
    by (intro exI[of _ "kfresh s"] exI[of _ bn] exI[of _ s3]) (simp add: put_new_border_def sb_new same_borders_def)
qed

end
