(* ===== verification/Kv_Two.thy ===== *)
theory Kv_Two
  imports Kv_Trie
begin

text \<open>
  \<open>KV_Get\<close> reads the map that the trie represents; the rounds of \<open>KV_Put\<close> that have two keys, the
  one to put and the one whose suffix it pushed out, build a trie for both of them at an empty
  node, unless the keys are joined: then the value of the second key ends up under the first.
\<close>

definition bdk :: "kv \<Rightarrow> addr \<rightharpoonup> sborder" where
  "bdk s b = map_option sb_of (bnodes s b)"

lemma bdk_upd: "bnodes s' = (bnodes s)(b \<mapsto> bn) \<Longrightarrow> bdk s' = (bdk s)(b \<mapsto> sb_of bn)"
  by (simp add: bdk_def fun_eq_iff)

lemma bdk_same: "bnodes s' = bnodes s \<Longrightarrow> bdk s' = bdk s"
  by (simp add: bdk_def fun_eq_iff)

lemma bdk_eq: "bdk s b = None \<longleftrightarrow> bnodes s b = None" "bnodes s b = Some bn \<Longrightarrow> bdk s b = Some (sb_of bn)"
  by (simp_all add: bdk_def)

text \<open>The border node of a slice.\<close>

lemma kv_border:
  assumes inv: "str_inv I (bdk s) N X {}" and "X q = Some b"
  obtains bn where "bnodes s b = Some bn" "b \<noteq> NULL" "border_ok (sb_of bn)" "BN_GetLink_s (sb_of bn) = N q"
  using str_invD(4)[OF inv assms(2)] unfolding linked_ok_def bdk_def by auto

section \<open>Reading\<close>

lemma suffix_value_ok:
  assumes "border_ok (sb_of bn)" and "len \<le> length str"
  shows "BN_GetSuffixValue bn str len = Inr (case keySuffix bn of None \<Rightarrow> NULL
    | Some s \<Rightarrow> if s = take len str then suffixLink bn else NULL)"
  using assms StrEqual_correct[of len str]
  by (auto simp: BN_GetSuffixValue_def border_ok_sb split: option.splits)

definition value_of :: "addr option \<Rightarrow> addr" where
  "value_of r = (case r of None \<Rightarrow> NULL | Some v \<Rightarrow> v)"

lemma getValue_ok:
  assumes "kv_state s I n" and "str_inv I (bdk s) N X {}" and "N p = Some i" and "len \<le> length str" and "0 < len"
  shows "\<exists>s'. getValueOfPartialKey s i str len = Inr (value_of (trie_get I (bdk s) i (take len str)), s') \<and>
    kv_state s' I n \<and> same_borders s s'"
  using assms
proof (induction len arbitrary: str p i s rule: less_induct)
  case (less len)
  note st = less.prems(1) and inv = less.prems(2) and p = less.prems(3) and len = less.prems(4,5)
  let ?y = "take len str"
  let ?k = "key_slice ?y"
  obtain m where m: "I i = Some m" "map_of m ?k = X (p @ [?k])" using str_invD(3)[OF inv p] by (auto simp: node_ok_def)
  have slice: "UTIL_GetNextKeySlice str (UTIL_Min 8 len) = Inr ?k"
    using len by (simp add: UTIL_Min_def GetNextKeySlice_val key_slice_def min_def)
  note g = trie_get_node[OF inv p, of ?y]
  show ?case
  proof (cases "X (p @ [?k])")
    case None
    obtain s1 where "kv_move_to_key s i ?k = Inr (False, s1)" "kv_state s1 I n" "same_borders s s1"
      using kv_move_ok[OF st m(1), of ?k] m(2) None by auto
    then show ?thesis using slice g None by (subst getValueOfPartialKey.simps) (simp add: value_of_def)
  next
    case (Some b)
    have "map_of m ?k = Some b" using m(2) Some by simp
    from kv_seek_ok[OF st m(1) this] obtain s1 s2 where
      s2: "kv_move_to_key s i ?k = Inr (True, s1)" "kv_get_record s1 i = Inr (b, s2)" "kv_state s2 I n" "same_borders s s2" by blast
    obtain bn where bn: "bnodes s b = Some bn" "b \<noteq> NULL" "border_ok (sb_of bn)" "BN_GetLink_s (sb_of bn) = N (p @ [?k])"
      by (rule kv_border[OF inv Some])
    have at: "bnode_at s2 b = Inr bn" using bn(1,2) s2(4) by (simp add: bnode_at_def same_borders_def)
    have go: "getValueOfPartialKey s i str len =
      (if len \<le> 8 then rbind (BN_GetPrefixValue bn (int len)) (\<lambda>v. Inr (v, s2))
       else if BN_HasSuffix bn then rbind (BN_GetSuffixValue bn (drop 8 str) (len - 8)) (\<lambda>v. Inr (v, s2))
       else if BN_GetLink bn \<noteq> NULL then getValueOfPartialKey s2 (BN_GetLink bn) (drop 8 str) (len - 8)
       else Inr (NULL, s2))"
      using slice s2(1,2) at by (subst getValueOfPartialKey.simps) simp
    have get: "trie_get I (bdk s) i ?y = border_get (sb_of bn) (trie_get I (bdk s)) ?y"
      using g Some bdk_eq(2)[OF bn(1)] by simp
    have B: "bdk s2 = bdk s" using s2(4) by (intro bdk_same) (simp add: same_borders_def)
    consider (short) "len \<le> 8" | (suffix) t where "8 < len" "keySuffix bn = Some t"
      | (link) "8 < len" "keySuffix bn = None" "BN_GetLink bn \<noteq> NULL" | (none) "8 < len" "keySuffix bn = None" "BN_GetLink bn = NULL"
      by (meson linorder_not_le not_None_eq)
    then show ?thesis
    proof cases
      case short
      obtain j where j: "len = Suc j" using len(2) by (cases len) auto
      have "aget (prefixLinks bn) (int len - 1) = Inr (prefixLinks bn ! j)"
        using bn(3) short j aget_int[of j "prefixLinks bn"] by (simp add: border_ok_sb)
      then have "BN_GetPrefixValue bn (int len) = Inr (value_of (pfx (sb_of bn) len))"
        using short j by (simp add: BN_GetPrefixValue_def pfx_sb value_of_def)
      then show ?thesis using go short get len s2(3,4) by (simp add: border_get_def)
    next
      case suffix
      then show ?thesis
        using go get len s2(3,4) suffix_value_ok[OF bn(3), of "len - 8" "drop 8 str"]
        by (auto simp: border_get_def BN_HasSuffix_def sfx_sb value_of_def drop_take)
    next
      case link
      have l: "N (p @ [?k]) = Some (BN_GetLink bn)" using bn(4) link(3) by (simp add: link_sb)
      have "str_inv I (bdk s2) N X {}" using inv B by simp
      note i2 = this
      have le: "len - 8 < len" "len - 8 \<le> length (drop 8 str)" "0 < len - 8" using link(1) len by simp_all
      from less.IH[OF le(1) s2(3) i2 l le(2,3)] obtain s3 where
        "getValueOfPartialKey s2 (BN_GetLink bn) (drop 8 str) (len - 8)
          = Inr (value_of (trie_get I (bdk s2) (BN_GetLink bn) (take (len - 8) (drop 8 str))), s3)"
        "kv_state s3 I n" "same_borders s2 s3" by blast
      then show ?thesis
        using go get link len s2(4) B by (simp add: border_get_def BN_HasSuffix_def sfx_sb link_sb same_borders_def drop_take)
    next
      case none
      then show ?thesis using go get len s2(3,4)
        by (simp add: border_get_def BN_HasSuffix_def sfx_sb link_sb value_of_def)
    qed
  qed
qed

section \<open>Building a trie for two keys\<close>

text \<open>Two keys are joined when \<open>KV_Put\<close> finds equal slices of them and one of them ends there.\<close>

function kv_joined :: "byte list \<Rightarrow> byte list \<Rightarrow> bool" where
  "kv_joined y z = (if key_slice y \<noteq> key_slice z then False
     else if length y \<le> 8 \<or> length z \<le> 8 then True else kv_joined (drop 8 y) (drop 8 z))"
  by pat_completeness auto
termination
  by (relation "measure (\<lambda>(y, z). length y)") auto

declare kv_joined.simps [simp del]

definition pair_result :: "byte list \<Rightarrow> addr \<Rightarrow> byte list \<Rightarrow> addr \<Rightarrow> byte list \<Rightarrow> addr option" where
  "pair_result y v z v2 = (if kv_joined y z then [y \<mapsto> v2] else [z \<mapsto> v2, y \<mapsto> v])"

definition kv_made :: "ckey list \<Rightarrow> kv \<Rightarrow> paths \<Rightarrow> paths \<Rightarrow> nat \<Rightarrow> addr \<Rightarrow> (byte list \<Rightarrow> addr option) \<Rightarrow> kv \<Rightarrow> bool" where
  "kv_made p s N X n i g s' \<longleftrightarrow> (\<exists>I' N' X'. kv_state s' I' n \<and> rootNode s' = rootNode s \<and> str_inv I' (bdk s') N' X' {} \<and>
     N' p = Some i \<and> changed_at p (bdk s) N X (bdk s') N' X' \<and> (\<forall>z. trie_get I' (bdk s') i z = g z))"

lemma kv_madeI:
  assumes "kv_state s' I' n" and "rootNode s' = rootNode s" and "str_inv I' (bdk s') N' X' {}" and "N' p = Some i"
    and "changed_at p (bdk s) N X (bdk s') N' X'" and "\<And>z. trie_get I' (bdk s') i z = g z"
  shows "kv_made p s N X n i g s'"
  using assms unfolding kv_made_def by blast

lemma kv_madeE:
  assumes "kv_made p s N X n i g s'"
  obtains I' N' X' where "kv_state s' I' n" "rootNode s' = rootNode s" "str_inv I' (bdk s') N' X' {}" "N' p = Some i"
    "changed_at p (bdk s) N X (bdk s') N' X'" "\<forall>z. trie_get I' (bdk s') i z = g z"
  using assms unfolding kv_made_def by blast

lemma changed_at_trans:
  assumes "changed_at p B N X B1 N1 X1" and "changed_at p B1 N1 X1 B2 N2 X2"
  shows "changed_at p B N X B2 N2 X2"
  using assms unfolding changed_at_def by metis

lemma border_put_again: "border_put bn y v bn1 \<Longrightarrow> border_put bn1 y v2 bn2 \<Longrightarrow> border_put bn y v2 bn2"
  by (auto simp: border_put_def split: if_splits)

lemma no_slice:
  assumes inv: "str_inv I B N X {}" and "N p = Some i" and "I i = Some []"
  shows "X (p @ [k]) = None" "trie_get I B i z = None"
proof -
  show x: "X (p @ [k]) = None" for k using str_invD(3)[OF assms(1,2)] assms(3) by (auto simp: node_ok_def)
  show "trie_get I B i z = None" using trie_get_node[OF assms(1,2), of z] x by simp
qed

text \<open>A new border node, in the terms of the trie.\<close>

lemma insert_border:
  assumes st: "kv_state s I (n + 3)" and inv: "str_inv I (bdk s) N X {}" and p: "N p = Some i" "X (p @ [key_slice y]) = None"
    and key: "key_is key y" and v: "v \<noteq> NULL"
  shows "\<exists>b bn s' I'. put_new_border s i (key_slice y) key v = Inr s' \<and> kv_state s' I' n \<and> rootNode s' = rootNode s \<and>
    numKeys_kv s' = numKeys_kv s \<and> bdk s' = (bdk s)(b \<mapsto> sb_of bn) \<and> border_put empty_border y v (sb_of bn) \<and>
    str_inv I' (bdk s') N (X(p @ [key_slice y] \<mapsto> b)) {} \<and>
    changed_at p (bdk s) N X (bdk s') N (X(p @ [key_slice y] \<mapsto> b)) \<and>
    (\<forall>z. trie_get I' (bdk s') i z = (if z = y then Some v else trie_get I (bdk s) i z))"
proof -
  obtain m where m: "I i = Some m" using str_invD(3)[OF inv p(1)] by (auto simp: node_ok_def)
  have s0: "kv_state s I (Suc (Suc (Suc n)))" using st by (simp add: eval_nat_numeral)
  obtain b bn s' where b: "put_new_border s i (key_slice y) key v = Inr s'" "b \<noteq> NULL" "bnodes s b = None"
    "border_put empty_border y v (sb_of bn)" "kv_state s' (I(i \<mapsto> alist_put (key_slice y) b m)) n"
    "bnodes s' = (bnodes s)(b \<mapsto> bn)" "rootNode s' = rootNode s" "numKeys_kv s' = numKeys_kv s"
    using put_new_border_ok[OF s0 m key v, of "key_slice y"] by (elim exE conjE) (rule that)
  have "bdk s b = None" using b(3) bdk_eq(1) by blast
  note g = new_slice[OF inv p(1) m p(2) this b(2,4)]
  have B: "bdk s' = (bdk s)(b \<mapsto> sb_of bn)" by (rule bdk_upd[OF b(6)])
  show ?thesis
    by (intro exI[of _ b] exI[of _ bn] exI[of _ s'] exI[of _ "I(i \<mapsto> alist_put (key_slice y) b m)"])
      (use b(1,4,5,7,8) B g in simp)
qed

text \<open>A new layer: a border node that links to an empty node.\<close>

lemma link_inv:
  fixes k :: ckey
  assumes inv: "str_inv I B N X {}" and p: "N p = Some i" "I i = Some []" and l: "I l = None" "l \<noteq> NULL" and b: "B b = None" "b \<noteq> NULL"
  defines "r \<equiv> p @ [k]"
  shows "str_inv (I(l \<mapsto> [], i \<mapsto> [(k, b)])) (B(b \<mapsto> BN_SetLink_s empty_border l)) (N(r \<mapsto> l)) (X(r \<mapsto> b)) {}"
    "changed_at p B N X (B(b \<mapsto> BN_SetLink_s empty_border l)) (N(r \<mapsto> l)) (X(r \<mapsto> b))"
proof -
  let ?B = "B(b \<mapsto> BN_SetLink_s empty_border l)"
  have fresh: "b \<notin> ran X" "l \<notin> ran N" using str_inv_fresh[OF inv] l(1) b(1) by blast+
  have xr: "X r = None" using no_slice[OF inv p] by (simp add: r_def)
  have nr: "N r = None" using str_invD(5)[OF inv, of r] xr by (cases "N r") (auto simp: r_def)
  have xk: "X (r @ [k']) = None" for k' using str_inv_below[OF inv nr strict_prefix_snoc(1)[of r k']] by simp
  have "str_inv (I(l \<mapsto> [])) ?B N X {}" by (rule str_inv_heap[OF inv]) (use fresh in auto)
  from str_inv_add_node[OF this nr disjI1[OF xr] xk fresh(2) l(2)]
  have i1: "str_inv (I(l \<mapsto> [])) ?B (N(r \<mapsto> l)) X {r}" by simp
  have "p \<noteq> r" "i \<noteq> l" using p(2) l(1) by (auto simp: r_def)
  then have i2: "(N(r \<mapsto> l)) p = Some i" "(I(l \<mapsto> [])) i = Some []" "?B b = Some (BN_SetLink_s empty_border l)"
    "BN_GetLink_s (BN_SetLink_s empty_border l) = (N(r \<mapsto> l)) (p @ [k])" using p SetLink(4)[OF empty_border_ok(1) l(2)]
    by (simp_all add: r_def)
  have eq: "alist_put k b [] = [(k, b)]" "{p @ [k]} - {p @ [k]} = {}" by simp_all
  from str_inv_add_border[OF i1 i2(1,2) xr[unfolded r_def] fresh(1) b(2) i2(3) SetLink(1)[OF empty_border_ok(1) l(2)] i2(4)]
  show "str_inv (I(l \<mapsto> [], i \<mapsto> [(k, b)])) ?B (N(r \<mapsto> l)) (X(r \<mapsto> b)) {}" by (simp only: r_def eq)
  show "changed_at p B N X ?B (N(r \<mapsto> l)) (X(r \<mapsto> b))"
    using not_prefix_snoc[of p _ k] fresh(1) by (auto simp: changed_at_def ran_def r_def)
qed

text \<open>A change behind the link of a border node, seen from the node above.\<close>

lemma made_below:
  assumes inv: "str_inv I (bdk s) N X {}" and p: "N p = Some i"
    and b: "X (p @ [k]) = Some b" "bdk s b = Some bn" "BN_GetLink_s bn = Some l"
    and below: "kv_made (p @ [k]) s N X n l g s'"
  shows "kv_made p s N X n i (\<lambda>z. if key_slice z = k \<and> 8 < length z then g (drop 8 z) else trie_get I (bdk s) i z) s'"
proof -
  obtain I' N' X' where m: "kv_state s' I' n" "rootNode s' = rootNode s" "str_inv I' (bdk s') N' X' {}" "N' (p @ [k]) = Some l"
    "changed_at (p @ [k]) (bdk s) N X (bdk s') N' X'" "\<forall>z. trie_get I' (bdk s') l z = g z"
    using below by (rule kv_madeE)
  note g = below_get[OF inv m(3) p b m(5)]
  show ?thesis
    by (rule kv_madeI[OF m(1,2,3) g(1) changed_at_child[OF m(5)]]) (simp only: g(2) m(6))
qed

lemma kv_made_cong: "kv_made p s N X n i g s' \<Longrightarrow> (\<And>z. g z = g' z) \<Longrightarrow> kv_made p s N X n i g' s'"
  unfolding kv_made_def by simp

lemma kv_made_step:
  assumes "kv_made p s1 N1 X1 n i g s'" and "changed_at p (bdk s) N X (bdk s1) N1 X1" and "rootNode s1 = rootNode s"
  shows "kv_made p s N X n i g s'"
proof -
  obtain I' N' X' where m: "kv_state s' I' n" "rootNode s' = rootNode s1" "str_inv I' (bdk s') N' X' {}" "N' p = Some i"
    "changed_at p (bdk s1) N1 X1 (bdk s') N' X'" "\<forall>z. trie_get I' (bdk s') i z = g z" using assms(1) by (rule kv_madeE)
  from m(2) assms(3) have "rootNode s' = rootNode s" by simp
  from kv_madeI[OF m(1) this m(3,4) changed_at_trans[OF assms(2) m(5)]] m(6) show ?thesis by blast
qed

lemma kv_state_incr: "kv_state s I n \<Longrightarrow> kv_state (incr_keys s) I n"
  by (simp add: kv_state_def node_rep_def incr_keys_def)

lemma kv_made_incr: "kv_made p s N X n i g s' \<Longrightarrow> kv_made p s N X n i g (incr_keys s')"
proof -
  assume m: "kv_made p s N X n i g s'"
  have "bdk (incr_keys s') = bdk s'" by (rule bdk_same) (simp add: incr_keys_def)
  moreover have "rootNode (incr_keys s') = rootNode s'" by (simp add: incr_keys_def)
  ultimately show ?thesis using m kv_state_incr[of s'] unfolding kv_made_def by metis
qed

text \<open>The last round: the slices differ, or one of the keys ends.\<close>

lemma two_apart:
  assumes st: "kv_state s I (n + 6)" and inv: "str_inv I (bdk s) N X {}" and p: "N p = Some i" "I i = Some []"
    and keys: "key_is key y" "key_is sk z" "v \<noteq> NULL" "v2 \<noteq> NULL" and ne: "key_slice y \<noteq> key_slice z"
  shows "\<exists>s'. put_two_keys s i key v sk v2 = Inr (Inl (s', key)) \<and> kv_made p s N X n i (pair_result y v z v2) s' \<and>
    numKeys_kv s' = Suc (numKeys_kv s)"
proof -
  have s0: "kv_state s I ((n + 3) + 3)" using st by (simp add: algebra_simps)
  obtain b1 s1 I1 where s1: "put_new_border s i (key_slice y) key v = Inr s1" "kv_state s1 I1 (n + 3)" "rootNode s1 = rootNode s"
    "numKeys_kv s1 = numKeys_kv s" "str_inv I1 (bdk s1) N (X(p @ [key_slice y] \<mapsto> b1)) {}"
    "changed_at p (bdk s) N X (bdk s1) N (X(p @ [key_slice y] \<mapsto> b1))"
    "\<And>x. trie_get I1 (bdk s1) i x = (if x = y then Some v else trie_get I (bdk s) i x)"
    using insert_border[OF s0 inv p(1) no_slice(1)[OF inv p] keys(1,3)] by (elim exE conjE) (rule that; blast)
  let ?X = "X(p @ [key_slice y] \<mapsto> b1)"
  have none: "?X (p @ [key_slice z]) = None" using ne no_slice(1)[OF inv p, of "key_slice z"] by simp
  obtain b2 s2 I2 where s2: "put_new_border s1 i (key_slice z) sk v2 = Inr s2" "kv_state s2 I2 n" "rootNode s2 = rootNode s1"
    "numKeys_kv s2 = numKeys_kv s1" "str_inv I2 (bdk s2) N (?X(p @ [key_slice z] \<mapsto> b2)) {}"
    "changed_at p (bdk s1) N ?X (bdk s2) N (?X(p @ [key_slice z] \<mapsto> b2))"
    "\<And>x. trie_get I2 (bdk s2) i x = (if x = z then Some v2 else trie_get I1 (bdk s1) i x)"
    using insert_border[OF s1(2,5) p(1) none keys(2,4)] by (elim exE conjE) (rule that; blast)
  have root: "rootNode s2 = rootNode s" using s1(3) s2(3) by simp
  have j: "\<not> kv_joined y z" using ne by (simp add: kv_joined.simps[of y z])
  have "kv_made p s N X n i (pair_result y v z v2) s2"
    by (rule kv_madeI[OF s2(2) root s2(5) p(1) changed_at_trans[OF s1(6) s2(6)]])
      (use ne j in \<open>auto simp: s2(7) s1(7) pair_result_def no_slice(2)[OF inv p]\<close>)
  moreover have "put_two_keys s i key v sk v2 = Inr (Inl (incr_keys s2, key))"
    using next_slice_ok[OF keys(1)] next_slice_ok[OF keys(2)] ne s1(1) s2(1) by (simp add: put_two_keys_def)
  moreover have "numKeys_kv (incr_keys s2) = Suc (numKeys_kv s)" using s1(4) s2(4) by (simp add: incr_keys_def)
  ultimately show ?thesis using kv_made_incr by blast
qed

lemma two_joined:
  assumes st: "kv_state s I (n + 4)" and inv: "str_inv I (bdk s) N X {}" and p: "N p = Some i" "I i = Some []"
    and keys: "key_is key y" "key_is sk z" "v \<noteq> NULL" "v2 \<noteq> NULL"
    and eq: "key_slice y = key_slice z" "length y \<le> 8 \<or> length z \<le> 8"
  shows "\<exists>s'. put_two_keys s i key v sk v2 = Inr (Inl (s', key)) \<and> kv_made p s N X n i (pair_result y v z v2) s' \<and>
    numKeys_kv s' = Suc (numKeys_kv s)"
proof -
  let ?b = "kfresh s"
  have s0: "kv_state s I (Suc (Suc (Suc (Suc n))))" using st by (simp add: eval_nat_numeral)
  obtain s1 where s1: "new_bnode s = Inr (?b, s1)" "?b \<noteq> NULL" "bnodes s ?b = None" "kv_state s1 I (Suc (Suc (Suc n)))"
    "bnodes s1 = (bnodes s)(?b \<mapsto> new_kv_border)" "rootNode s1 = rootNode s" "numKeys_kv s1 = numKeys_kv s"
    using new_bnode_ok[OF s0] by blast
  have b1: "bnodes s1 ?b = Some new_kv_border" "border_ok (sb_of new_kv_border)" using s1(5) by (simp_all add: sb_new empty_border_ok)
  obtain b2 s2 where s2: "bn_set_value s1 ?b key v = Inr s2" "border_put (sb_of new_kv_border) y v (sb_of b2)"
    "kv_state s2 I (Suc (Suc n))" "bnodes s2 = (bnodes s1)(?b \<mapsto> b2)" "rootNode s2 = rootNode s1" "numKeys_kv s2 = numKeys_kv s1"
    using bn_set_value_ok[OF s1(4) b1(1) s1(2) b1(2) keys(1,3)] by blast
  have b2: "bnodes s2 ?b = Some b2" "border_ok (sb_of b2)" using s2(2,4) by (simp_all add: border_put_def)
  obtain b3 s3 where s3: "bn_set_value s2 ?b key v2 = Inr s3" "border_put (sb_of b2) y v2 (sb_of b3)"
    "kv_state s3 I (Suc n)" "bnodes s3 = (bnodes s2)(?b \<mapsto> b3)" "rootNode s3 = rootNode s2" "numKeys_kv s3 = numKeys_kv s2"
    using bn_set_value_ok[OF s2(3) b2(1) s1(2) b2(2) keys(1,4)] by blast
  obtain s4 where s4: "kv_put_record s3 i (key_slice y) ?b = Inr s4"
    "kv_state s4 (I(i \<mapsto> alist_put (key_slice y) ?b [])) n" "same_borders s3 s4"
    using kv_put_record_ok[OF s3(3) p(2)] by blast
  have put: "border_put empty_border y v2 (sb_of b3)" using border_put_again[OF s2(2) s3(2)] by (simp add: sb_new)
  have "bdk s ?b = None" using s1(3) bdk_eq(1) by blast
  note g = new_slice[OF inv p no_slice(1)[OF inv p] this s1(2) put]
  have "bnodes s4 = (bnodes s)(?b \<mapsto> b3)" using s1(5) s2(4) s3(4) s4(3) by (simp add: same_borders_def)
  note B = bdk_upd[OF this]
  have root: "rootNode s4 = rootNode s" using s1(6) s2(5) s3(5) s4(3) by (simp add: same_borders_def)
  have j: "kv_joined y z" using eq by (simp add: kv_joined.simps[of y z])
  have "kv_made p s N X n i (pair_result y v z v2) s4"
    by (rule kv_madeI[OF s4(2) root, unfolded B, OF g(1) p(1) g(2)])
      (simp only: g(3) no_slice(2)[OF inv p] pair_result_def j if_True fun_upd_apply)
  moreover have "put_two_keys s i key v sk v2 = Inr (Inl (incr_keys s4, key))"
    using next_slice_ok[OF keys(1)] next_slice_ok[OF keys(2)] eq s1(1) s2(1) s3(1) s4(1) keys(1,2)
    by (auto simp: put_two_keys_def key_is_def)
  moreover have "numKeys_kv (incr_keys s4) = Suc (numKeys_kv s)"
    using s1(7) s2(6) s3(6) s4(3) by (simp add: incr_keys_def same_borders_def)
  ultimately show ?thesis using kv_made_incr by blast
qed

lemma sb_link: "sb_of (BN_SetLink bn l) = BN_SetLink_s (sb_of bn) l"
  by (simp add: sb_of_def BN_SetLink_def BN_SetLink_s_def)

text \<open>A round that adds a layer.\<close>

lemma two_link:
  assumes st: "kv_state s I (n + 4)" and inv: "str_inv I (bdk s) N X {}" and p: "N p = Some i" "I i = Some []"
    and keys: "key_is key y" "key_is sk z" and eq: "key_slice y = key_slice z" "8 < length y" "8 < length z"
  shows "\<exists>s' l b. put_two_keys s i key v sk v2 = Inr (Inr (s', l, advance key, Some (advance sk, v2))) \<and>
    kv_state s' (I(l \<mapsto> [], i \<mapsto> [(key_slice y, b)])) n \<and> rootNode s' = rootNode s \<and> numKeys_kv s' = numKeys_kv s \<and>
    bdk s' = (bdk s)(b \<mapsto> BN_SetLink_s empty_border l) \<and> l \<noteq> NULL \<and> l \<noteq> i \<and>
    str_inv (I(l \<mapsto> [], i \<mapsto> [(key_slice y, b)])) (bdk s') (N(p @ [key_slice y] \<mapsto> l)) (X(p @ [key_slice y] \<mapsto> b)) {} \<and>
    changed_at p (bdk s) N X (bdk s') (N(p @ [key_slice y] \<mapsto> l)) (X(p @ [key_slice y] \<mapsto> b))"
proof -
  let ?l = "kfresh s"
  let ?I = "I(?l \<mapsto> [])"
  have s0: "kv_state s I (Suc (Suc (Suc (Suc n))))" using st by (simp add: eval_nat_numeral)
  obtain s1 where s1: "newKVNode s = Inr (?l, s1)" "?l \<noteq> NULL" "I ?l = None" "kv_state s1 ?I (Suc (Suc (Suc n)))"
    "same_borders s s1" using newKVNode_ok[OF s0] by blast
  let ?b = "kfresh s1"
  obtain s2 where s2: "new_bnode s1 = Inr (?b, s2)" "?b \<noteq> NULL" "bnodes s1 ?b = None" "kv_state s2 ?I (Suc (Suc n))"
    "bnodes s2 = (bnodes s1)(?b \<mapsto> new_kv_border)" "rootNode s2 = rootNode s1" "numKeys_kv s2 = numKeys_kv s1"
    using new_bnode_ok[OF s1(4)] by blast
  let ?bn = "BN_SetLink new_kv_border ?l"
  let ?s3 = "set_bnode s2 ?b ?bn (kmem s2)"
  have "bnodes s2 ?b \<noteq> None" "kmem s2 \<le> Suc (kmem s2)" "keySuffix ?bn \<noteq> None \<Longrightarrow> suffixLink ?bn \<noteq> NULL"
    using s2(5) by (simp_all add: BN_SetLink_def)
  then have s3: "kv_state ?s3 ?I (Suc n)" by (intro set_bnode_state[OF s2(4)])
  have il: "i \<noteq> ?l" using p(2) s1(3) by auto
  then have "?I i = Some []" using p(2) by simp
  from kv_put_record_ok[OF s3 this, of "key_slice y" ?b] obtain s4 where
    s4: "kv_put_record ?s3 i (key_slice y) ?b = Inr s4" "kv_state s4 (I(?l \<mapsto> [], i \<mapsto> [(key_slice y, ?b)])) n" "same_borders ?s3 s4"
    unfolding alist_put.simps by blast
  have at: "bnode_at s2 ?b = Inr new_kv_border" using s2(2,5) by (simp add: bnode_at_def)
  have go: "put_two_keys s i key v sk v2 = Inr (Inr (s4, ?l, advance key, Some (advance sk, v2)))"
    using next_slice_ok[OF keys(1)] next_slice_ok[OF keys(2)] eq s1(1,2) s2(1) at s4(1) keys
    by (simp add: put_two_keys_def key_is_def)
  have bs: "bnodes s4 = (bnodes s)(?b \<mapsto> ?bn)" "bnodes s ?b = None"
    using s1(5) s2(3,5) s4(3) by (simp_all add: same_borders_def set_bnode_def)
  have B: "bdk s4 = (bdk s)(?b \<mapsto> BN_SetLink_s empty_border ?l)" using bdk_upd[OF bs(1)] by (simp add: sb_link sb_new)
  have "bdk s ?b = None" using bs(2) bdk_eq(1) by blast
  note g = link_inv[OF inv p s1(3,2) this s2(2), of "key_slice y"]
  have "rootNode s4 = rootNode s" "numKeys_kv s4 = numKeys_kv s"
    using s1(5) s2(6,7) s4(3) by (simp_all add: same_borders_def set_bnode_def)
  then show ?thesis using go s4(2) B s1(2) il g
    by (intro exI[of _ s4] exI[of _ ?l] exI[of _ ?b]) simp
qed

lemma kv_joined_below:
  assumes "key_slice y = key_slice z" "8 < length y" "8 < length z"
  shows "kv_joined y z = kv_joined (drop 8 y) (drop 8 z)"
  using assms by (simp add: kv_joined.simps[of y z])

lemma pair_result_below:
  assumes "key_slice y = key_slice z" "8 < length y" "8 < length z"
  shows "(if key_slice x = key_slice y \<and> 8 < length x then pair_result (drop 8 y) v (drop 8 z) v2 (drop 8 x) else None)
    = pair_result y v z v2 x"
proof (cases "key_slice x = key_slice y \<and> 8 < length x")
  case True
  then have "drop 8 x = drop 8 y \<longleftrightarrow> x = y" "drop 8 x = drop 8 z \<longleftrightarrow> x = z"
    using assms key_slice_long[of x y] key_slice_long[of x z] by simp_all
  then show ?thesis using True by (simp add: pair_result_def kv_joined_below[OF assms])
next
  case False
  then have "x \<noteq> y" "x \<noteq> z" using assms by auto
  then show ?thesis using False by (auto simp: pair_result_def)
qed

theorem two_ok:
  assumes "kv_state s I (n + 4 * length y + 6)" and "str_inv I (bdk s) N X {}" and "N p = Some i" and "I i = Some []"
    and "key_is key y" and "key_is sk z" and "v \<noteq> NULL" and "v2 \<noteq> NULL" and "length y div 8 + 1 \<le> fuel"
  shows "\<exists>s' key'. KV_Put_loop fuel s v (i, key, Some (sk, v2)) = Inr (s', key') \<and> kv_made p s N X n i (pair_result y v z v2) s' \<and>
    numKeys_kv s' = Suc (numKeys_kv s)"
  using assms
proof (induction y arbitrary: z key sk p i s I N X fuel rule: measure_induct_rule[where f = length])
  case (less y)
  note st = less.prems(1) and inv = less.prems(2) and p = less.prems(3,4) and keys = less.prems(5-8)
  obtain f where f: "fuel = Suc f" using less.prems(9) by (cases fuel) auto
  consider (apart) "key_slice y \<noteq> key_slice z" | (joined) "key_slice y = key_slice z" "length y \<le> 8 \<or> length z \<le> 8"
    | (link) "key_slice y = key_slice z" "8 < length y" "8 < length z" by linarith
  then show ?case
  proof cases
    case apart
    have "kv_state s I (n + 6)" by (rule kv_state_less[OF st]) simp
    from two_apart[OF this inv p keys apart] show ?thesis by (auto simp: f)
  next
    case joined
    have "kv_state s I (n + 4)" by (rule kv_state_less[OF st]) simp
    from two_joined[OF this inv p keys joined] show ?thesis by (auto simp: f)
  next
    case link
    let ?y = "drop 8 y" and ?z = "drop 8 z" and ?k = "key_slice y"
    let ?r = "p @ [?k]"
    have "kv_state s I ((n + 4 * length ?y + 6) + 4)" by (rule kv_state_less[OF st]) (use link(2) in simp)
    from two_link[OF this inv p keys(1,2) link, of v v2] obtain s1 l b where
      s1: "put_two_keys s i key v sk v2 = Inr (Inr (s1, l, advance key, Some (advance sk, v2)))"
      "kv_state s1 (I(l \<mapsto> [], i \<mapsto> [(?k, b)])) (n + 4 * length ?y + 6)" "rootNode s1 = rootNode s" "numKeys_kv s1 = numKeys_kv s"
      "bdk s1 = (bdk s)(b \<mapsto> BN_SetLink_s empty_border l)" "l \<noteq> NULL" "l \<noteq> i"
      "str_inv (I(l \<mapsto> [], i \<mapsto> [(?k, b)])) (bdk s1) (N(?r \<mapsto> l)) (X(?r \<mapsto> b)) {}"
      "changed_at p (bdk s) N X (bdk s1) (N(?r \<mapsto> l)) (X(?r \<mapsto> b))" by (elim exE conjE) (rule that)
    let ?I = "I(l \<mapsto> [], i \<mapsto> [(?k, b)])" and ?N = "N(?r \<mapsto> l)" and ?X = "X(?r \<mapsto> b)"
    have l: "?N ?r = Some l" "?I l = Some []" "?N p = Some i" "?X ?r = Some b" "bdk s1 b = Some (BN_SetLink_s empty_border l)"
      using s1(5,7) p(1) by simp_all
    have lt: "length ?y < length y" "length ?y div 8 + 1 \<le> f" using less.prems(9) link(2) f by auto
    obtain s2 key2 where s2: "KV_Put_loop f s1 v (l, advance key, Some (advance sk, v2)) = Inr (s2, key2)"
      "kv_made ?r s1 ?N ?X n l (pair_result ?y v ?z v2) s2" "numKeys_kv s2 = Suc (numKeys_kv s1)"
      using less.IH[OF lt(1) s1(2,8) l(1,2) key_is_advance[OF keys(1) link(2)] key_is_advance[OF keys(2) link(3)] keys(3,4) lt(2)]
      by (elim exE conjE) (rule that)
    note sl = SetLink[OF empty_border_ok(1) s1(6)]
    have other: "trie_get ?I (bdk s1) i x = None" if h: "\<not> (key_slice x = ?k \<and> 8 < length x)" for x
    proof (cases "key_slice x = ?k")
      case True
      then have "trie_get ?I (bdk s1) i x = border_get (BN_SetLink_s empty_border l) (trie_get ?I (bdk s1)) x"
        using trie_get_node[OF s1(8) l(3), of x] l(5) by simp
      also have "\<dots> = None" using h True sl(2) empty_border_ok(2) by (simp add: border_get_def)
      finally show ?thesis .
    next
      case False
      then show ?thesis using trie_get_node[OF s1(8) l(3), of x] no_slice(1)[OF inv p, of "key_slice x"] by simp
    qed
    have "kv_made p s1 ?N ?X n i (pair_result y v z v2) s2"
      using made_below[OF s1(8) l(3,4,5) sl(4) s2(2)]
      by (rule kv_made_cong) (simp add: other pair_result_below[OF link, symmetric])
    from kv_made_step[OF this s1(9,3)] show ?thesis using s1(1,4) s2(1,3) by (simp add: f)
  qed
qed

end
