(* ===== verification/Kv_Insert.thy ===== *)
theory Kv_Insert
  imports Kv_Two
begin

text \<open>
  \<open>KV_Put\<close> refines the update of a map, as long as no key in the store clashes with the new one. If one
  does, then its value moves to the new key.
\<close>

section \<open>The rounds at a border node\<close>

lemma prefix_value_ok:
  assumes "border_ok (sb_of bn)" and "0 < len" "len \<le> 8"
  shows "BN_GetPrefixValue bn (int len) = Inr (value_of (pfx (sb_of bn) len))" "value_of (pfx (sb_of bn) len) = NULL \<longleftrightarrow> pfx (sb_of bn) len = None"
proof -
  obtain j where j: "len = Suc j" using assms(2) by (cases len) auto
  have "aget (prefixLinks bn) (int len - 1) = Inr (prefixLinks bn ! j)"
    using assms j aget_int[of j "prefixLinks bn"] by (simp add: border_ok_sb)
  then show "BN_GetPrefixValue bn (int len) = Inr (value_of (pfx (sb_of bn) len))"
    using assms(3) j by (simp add: BN_GetPrefixValue_def pfx_sb value_of_def)
  show "value_of (pfx (sb_of bn) len) = NULL \<longleftrightarrow> pfx (sb_of bn) len = None" by (simp add: pfx_sb value_of_def)
qed

text \<open>A put that ends at this border node changes it in place.\<close>

definition border_made :: "ckey list \<Rightarrow> kv \<Rightarrow> indexes \<Rightarrow> paths \<Rightarrow> paths \<Rightarrow> nat \<Rightarrow> addr \<Rightarrow> addr \<Rightarrow> bordernode \<Rightarrow> byte list \<Rightarrow> addr \<Rightarrow>
    kv \<Rightarrow> bool" where
  "border_made p s I N X n i b bn y v s' \<longleftrightarrow> kv_state s' I n \<and> rootNode s' = rootNode s \<and>
     (\<exists>bn'. bdk s' = (bdk s)(b \<mapsto> bn') \<and> border_put (sb_of bn) y v bn') \<and> str_inv I (bdk s') N X {} \<and>
     changed_at p (bdk s) N X (bdk s') N X \<and> (\<forall>z. trie_get I (bdk s') i z = ((trie_get I (bdk s) i)(y \<mapsto> v)) z)"

lemma border_madeI:
  assumes "kv_state s' I n" and "rootNode s' = rootNode s" and B: "bdk s' = (bdk s)(b \<mapsto> bn')" and "border_put (sb_of bn) y v bn'"
    and "str_inv I ((bdk s)(b \<mapsto> bn')) N X {}" and "changed_at p (bdk s) N X ((bdk s)(b \<mapsto> bn')) N X"
    and "\<And>z. trie_get I ((bdk s)(b \<mapsto> bn')) i z = (if z = y then Some v else trie_get I (bdk s) i z)"
  shows "border_made p s I N X n i b bn y v s'"
  unfolding border_made_def fun_upd_apply[of "trie_get I (bdk s) i"] B
  using assms(1,2,4-) by (intro conjI allI exI[of _ bn']) (rule refl | assumption)+

definition added_keys :: "(byte list \<Rightarrow> addr option) \<Rightarrow> byte list \<Rightarrow> nat" where
  "added_keys m y = (if m y = None then 1 else 0)"

lemma put_at_border_ok:
  assumes st: "kv_state s I (Suc n)" and inv: "str_inv I (bdk s) N X {}" and p: "N p = Some i" "X (p @ [key_slice y]) = Some b"
    and b: "bnodes s b = Some bn" and key: "key_is key y" and v: "v \<noteq> NULL"
    and long: "8 < length y \<Longrightarrow> BN_GetLink bn = NULL \<and> (\<forall>t. keySuffix bn = Some t \<longrightarrow> t = drop 8 y)"
  shows "\<exists>s'. put_at_border s i b key v = Inr (Inl (s', key)) \<and> border_made p s I N X n i b bn y v s' \<and>
    numKeys_kv s' = numKeys_kv s + added_keys (trie_get I (bdk s) i) y"
proof -
  obtain str where k: "kstr key = Some str" "take (length y) str = y" "length y \<le> length str" "klen key = length y"
    "y \<noteq> []" "length y < 2 ^ 32" by (rule key_isE[OF key])
  have b0: "b \<noteq> NULL" "border_ok (sb_of bn)" using kv_border[OF inv p(2)] b by (metis option.inject)+
  have at: "bnode_at s b = Inr bn" using b b0(1) by (simp add: bnode_at_def)
  have mem: "0 < kmem s" using kv_stateD(1)[OF st] by simp
  from BN_SetValue_ok[OF key b0(2) v mem] obtain bn' mem' where
    w: "BN_SetValue bn (Some key) v (kmem s) = Inr (bn', mem')" "border_put (sb_of bn) y v (sb_of bn')" "kmem s \<le> Suc mem'" by blast
  let ?s = "set_bnode s b bn' mem'"
  have "bnodes s b \<noteq> None" "keySuffix bn \<noteq> None \<longrightarrow> suffixLink bn \<noteq> NULL" using b kv_stateD(6)[OF st b] by simp_all
  then have st': "kv_state ?s I n" using set_bnode_state[OF st _ BN_SetValue_suffix[OF w(1) v] w(3)] by blast
  have B: "bdk ?s = (bdk s)(b \<mapsto> sb_of bn')" by (rule bdk_upd) (simp add: set_bnode_def)
  have lg: "8 < length y \<Longrightarrow> BN_GetLink_s (sb_of bn) = None \<and> (\<forall>t w. sfx (sb_of bn) = Some (t, w) \<longrightarrow> t = drop 8 y)"
    using long by (auto simp: link_sb sfx_sb)
  note g = put_in_border[OF inv p bdk_eq(2)[OF b] w(2) lg]
  have made: "border_made p s I N X n i b bn y v ?s"
    by (rule border_madeI[OF st' _ B w(2) g]) (simp add: set_bnode_def)
  have made': "border_made p s I N X n i b bn y v (incr_keys ?s)"
  proof -
    have "bdk (incr_keys ?s) = bdk ?s" by (rule bdk_same) (simp add: incr_keys_def)
    moreover have "rootNode (incr_keys ?s) = rootNode ?s" by (simp add: incr_keys_def)
    ultimately show ?thesis using made kv_state_incr[OF st'] unfolding border_made_def by metis
  qed
  have get: "trie_get I (bdk s) i y = border_get (sb_of bn) (trie_get I (bdk s)) y"
    using trie_get_node[OF inv p(1), of y] p(2) bdk_eq(2)[OF b] by simp
  show ?thesis
  proof (cases "length y \<le> 8")
    case True
    have len: "0 < length y" using k(5) by simp
    have "BN_SetPrefixValue bn (int (length y)) v = Inr bn'" "mem' = kmem s"
      using w(1) True k(4) by (auto simp: BN_SetValue_def KV_GetCharArraySize_def rbind_eq_Inr)
    then have go: "put_at_border s i b key v =
        Inr (Inl (set_bnode (if pfx (sb_of bn) (length y) = None then incr_keys s else s) b bn' (kmem s), key))"
      using at prefix_value_ok[OF b0(2) len True] True k(4) by (simp add: put_at_border_def Let_def incr_keys_def)
    have y: "trie_get I (bdk s) i y = pfx (sb_of bn) (length y)" using get True by (simp add: border_get_def)
    have e: "set_bnode (incr_keys s) b bn' (kmem s) = incr_keys ?s" "set_bnode s b bn' (kmem s) = ?s"
      "numKeys_kv (incr_keys ?s) = Suc (numKeys_kv s)" "numKeys_kv ?s = numKeys_kv s"
      using \<open>mem' = kmem s\<close> by (simp_all add: set_bnode_def incr_keys_def)
    show ?thesis
    proof (cases "pfx (sb_of bn) (length y) = None")
      case True
      then have "put_at_border s i b key v = Inr (Inl (incr_keys ?s, key))" using go e(1) by simp
      moreover have "added_keys (trie_get I (bdk s) i) y = 1" using True y by (simp add: added_keys_def)
      ultimately show ?thesis using made' e(3) by auto
    next
      case False
      then have "put_at_border s i b key v = Inr (Inl (?s, key))" using go by (simp only: False if_False e(2))
      moreover have "added_keys (trie_get I (bdk s) i) y = 0" using False y by (simp add: added_keys_def)
      ultimately show ?thesis using made e(4) by auto
    qed
  next
    case False
    then have set: "BN_SetSuffixValue bn (drop 8 str) (length y - 8) v (kmem s) = Inr (bn', mem')"
      using w(1) k(1,4) by (simp add: BN_SetValue_def KV_GetCharArraySize_def KV_GetCharArray_def str_of_def)
    show ?thesis
    proof (cases "keySuffix bn")
      case None
      then have "put_at_border s i b key v = Inr (Inl (incr_keys ?s, key))"
        using at set False long k(1,4) by (simp add: put_at_border_def BN_HasSuffix_def str_of_def)
      moreover have "trie_get I (bdk s) i y = None" using get False lg None by (simp add: border_get_def sfx_sb)
      ultimately show ?thesis using made' by (auto simp: added_keys_def set_bnode_def incr_keys_def)
    next
      case (Some t)
      then have t: "t = drop 8 y" using long False by simp
      have "keySuffixLength bn = length t" using b0(2) Some by (simp add: border_ok_sb)
      moreover have "take (length y - 8) (drop 8 str) = t" using k(2) t by (metis drop_take)
      ultimately have "BN_TestSuffix bn (Some key) = Inr True"
        using StrEqual_correct[of "length y - 8" "drop 8 str" "length t" t] k(1,3,4) False t Some
        by (simp add: BN_TestSuffix_def KV_GetCharArray_def KV_GetCharArraySize_def size_minus_def str_of_def)
      then have "put_at_border s i b key v = Inr (Inl (?s, key))"
        using at set False Some k(1,4) by (simp add: put_at_border_def BN_HasSuffix_def str_of_def)
      moreover have "trie_get I (bdk s) i y \<noteq> None" using get False Some t by (simp add: border_get_def sfx_sb)
      ultimately show ?thesis using made by (auto simp: added_keys_def set_bnode_def)
    qed
  qed
qed

text \<open>A suffix that differs: it is exported, and the border node links to a new, empty node.\<close>

lemma split_inv:
  fixes k :: ckey
  assumes inv: "str_inv I B N X {}" and p: "N p = Some i" "X (p @ [k]) = Some b" "B b = Some bn" "border_ok bn"
    and none: "BN_GetLink_s bn = None" and l: "I l = None" "l \<noteq> NULL"
  defines "r \<equiv> p @ [k]"
  shows "str_inv (I(l \<mapsto> [])) (B(b \<mapsto> BN_SetLink_s bn l)) (N(r \<mapsto> l)) X {}"
    "changed_at p B N X (B(b \<mapsto> BN_SetLink_s bn l)) (N(r \<mapsto> l)) X"
proof -
  have fresh: "l \<notin> ran N" using str_inv_fresh(1)[OF inv] l(1) by blast
  have nr: "N r = None" using str_invD(4)[OF inv p(2)] p(3) none by (simp add: linked_ok_def r_def)
  have xk: "X (r @ [k']) = None" for k' using str_inv_below[OF inv nr strict_prefix_snoc(1)[of r k']] by simp
  have "str_inv (I(l \<mapsto> [])) B N X {}" by (rule str_inv_heap[OF inv]) (use fresh in auto)
  from str_inv_add_node[OF str_inv_pend[OF this nr] nr disjI2[OF insertI1] xk fresh l(2)]
  have i1: "str_inv (I(l \<mapsto> [])) B (N(r \<mapsto> l)) X {r}" by simp
  have "BN_GetLink_s (BN_SetLink_s bn l) = (N(r \<mapsto> l)) r" using SetLink(4)[OF p(4) l(2)] by simp
  from str_inv_set_border[OF i1 p(2)[folded r_def] SetLink(1)[OF p(4) l(2)] this]
  show "str_inv (I(l \<mapsto> [])) (B(b \<mapsto> BN_SetLink_s bn l)) (N(r \<mapsto> l)) X {}" by (simp only: Diff_cancel)
  have "X q = Some c \<Longrightarrow> q \<noteq> r \<Longrightarrow> c \<noteq> b" for q c using str_invD(2)[OF inv p(2)] by (auto simp: r_def)
  then show "changed_at p B N X (B(b \<mapsto> BN_SetLink_s bn l)) (N(r \<mapsto> l)) X"
    using not_prefix_snoc[of p _ k] by (auto simp: changed_at_def r_def)
qed

lemma put_split_ok:
  assumes st: "kv_state s I (n + 3)" and inv: "str_inv I (bdk s) N X {}" and p: "N p = Some i" "X (p @ [key_slice y]) = Some b"
    and b: "bnodes s b = Some bn" and key: "key_is key y" and y: "8 < length y" and t: "keySuffix bn = Some t" "t \<noteq> drop 8 y"
  shows "\<exists>s' l sk. put_at_border s i b key v = Inr (Inr (s', l, advance key, Some (sk, suffixLink bn))) \<and> key_is sk t \<and>
    l \<noteq> NULL \<and> l \<noteq> i \<and> kv_state s' (I(l \<mapsto> [])) n \<and> rootNode s' = rootNode s \<and> numKeys_kv s' = numKeys_kv s \<and>
    bdk s' = (bdk s)(b \<mapsto> BN_SetLink_s (sb_of bn) l) \<and>
    str_inv (I(l \<mapsto> [])) (bdk s') (N(p @ [key_slice y] \<mapsto> l)) X {} \<and>
    changed_at p (bdk s) N X (bdk s') (N(p @ [key_slice y] \<mapsto> l)) X"
proof -
  obtain str where k: "kstr key = Some str" "take (length y) str = y" "length y \<le> length str" "klen key = length y"
    "y \<noteq> []" "length y < 2 ^ 32" by (rule key_isE[OF key])
  have b0: "b \<noteq> NULL" "border_ok (sb_of bn)" using kv_border[OF inv p(2)] b by (metis option.inject)+
  have at: "bnode_at s b = Inr bn" using b b0(1) by (simp add: bnode_at_def)
  have tl: "keySuffixLength bn = length t" "t \<noteq> []" "length t < 2 ^ 32" using b0(2) t(1) by (simp_all add: border_ok_sb)
  have s0: "kv_state s I (Suc (Suc n))" by (rule kv_state_less[OF st]) simp
  note d = kv_stateD[OF s0]
  have "take (length y - 8) (drop 8 str) = drop 8 y" using k(2) by (metis drop_take)
  then have test: "BN_TestSuffix bn (Some key) = Inr False"
    using StrEqual_correct[of "length y - 8" "drop 8 str" "length t" t] k(1,3,4) y t tl(1)
    by (simp add: BN_TestSuffix_def KV_GetCharArray_def KV_GetCharArraySize_def size_minus_def str_of_def)
  let ?sk = "\<lparr>kstr = Some t, klen = length t\<rparr>" and ?bn1 = "bn\<lparr>suffixLink := NULL, keySuffix := None, keySuffixLength := 0\<rparr>"
  have ex: "BN_ExportSuffixValue bn (kmem s) = Inr (suffixLink bn, Some ?sk, ?bn1, kmem s - 1)"
    using t(1) tl d(1) by (simp add: BN_ExportSuffixValue_def KV_MoveKey_def surely_malloc_def)
  let ?s1 = "set_bnode s b ?bn1 (kmem s - 1)"
  have "kv_state ?s1 I (Suc n)" using b by (intro set_bnode_state[OF s0]) simp_all
  from newKVNode_ok[OF this] obtain s2 where s2: "newKVNode ?s1 = Inr (kfresh s, s2)" "kfresh s \<noteq> NULL" "I (kfresh s) = None"
    "kv_state s2 (I(kfresh s \<mapsto> [])) n" "same_borders ?s1 s2" by (auto simp: set_bnode_def)
  let ?l = "kfresh s" and ?bn2 = "BN_SetLink ?bn1 (kfresh s)"
  let ?s3 = "set_bnode s2 b ?bn2 (kmem s2)"
  have at2: "bnode_at s2 b = Inr ?bn1" using s2(5) b0(1) by (simp add: bnode_at_def same_borders_def set_bnode_def)
  have go: "put_at_border s i b key v = Inr (Inr (?s3, ?l, advance key, Some (?sk, suffixLink bn)))"
    using at test ex s2(1) at2 t(1) k(4) y by (simp add: put_at_border_def BN_HasSuffix_def)
  have e: "rootNode ?s3 = rootNode s" "numKeys_kv ?s3 = numKeys_kv s" "bnodes ?s3 = (bnodes s)(b \<mapsto> ?bn2)"
    using s2(5) by (simp_all add: same_borders_def set_bnode_def)
  have "sb_of ?bn2 = BN_SetLink_s (sb_of bn) ?l" by (simp add: sb_of_def BN_SetLink_def BN_SetLink_s_def)
  then have B: "bdk ?s3 = (bdk s)(b \<mapsto> BN_SetLink_s (sb_of bn) ?l)" using bdk_upd[OF e(3)] by simp
  have st3: "kv_state ?s3 (I(?l \<mapsto> [])) n"
  proof (rule kv_stateI)
    note d2 = kv_stateD[OF s2(4)]
    show "20 * n \<le> kmem ?s3" "n \<le> record_limit" "0 < kfresh ?s3" using d2(1-3) by (simp_all add: set_bnode_def)
    show "node_rep ?s3 n j m" if "(I(?l \<mapsto> [])) j = Some m" for j m
      by (rule node_rep_frame[OF d2(4)[OF that]]) (simp_all add: set_bnode_def)
    show "c < kfresh ?s3" if "bnodes ?s3 c = Some cn" for c cn
    proof (cases "c = b")
      case True
      then show ?thesis using d2(5)[of b ?bn1] s2(5) by (simp add: set_bnode_def same_borders_def)
    next
      case False
      then show ?thesis using d2(5)[of c cn] that by (simp add: set_bnode_def)
    qed
    show "suffixLink cn \<noteq> NULL" if "bnodes ?s3 c = Some cn" "keySuffix cn \<noteq> None" for c cn
    proof (cases "c = b")
      case True
      then show ?thesis using that by (auto simp: set_bnode_def BN_SetLink_def)
    next
      case False
      then show ?thesis using d2(6)[of c cn] that by (simp add: set_bnode_def)
    qed
  qed
  have "BN_GetLink_s (sb_of bn) = None" using t(1) by (simp add: link_sb BN_GetLink_def)
  note g = split_inv[OF inv p bdk_eq(2)[OF b] b0(2) this s2(3,2)]
  have "key_is ?sk t" using tl by (simp add: key_is_def)
  moreover have "?l \<noteq> i" using str_invD(3)[OF inv p(1)] s2(3) by (auto simp: node_ok_def)
  ultimately show ?thesis using go s2(2) st3 e(1,2) B g
    by (intro exI[of _ ?s3] exI[of _ ?l] exI[of _ ?sk]) simp
qed

section \<open>The map after a put\<close>

definition kv_clash :: "byte list \<Rightarrow> byte list \<Rightarrow> bool" where
  "kv_clash y z \<longleftrightarrow> y \<noteq> z \<and> 8 < length y \<and> 8 < length z \<and> kv_joined y z"

definition put_result :: "(byte list \<rightharpoonup> addr) \<Rightarrow> byte list \<Rightarrow> addr \<Rightarrow> (byte list \<rightharpoonup> addr) \<Rightarrow> bool" where
  "put_result m y v m' \<longleftrightarrow> m' = m(y \<mapsto> v) \<or> (\<exists>z v2. kv_clash y z \<and> m z = Some v2 \<and> m' = m(z := None, y \<mapsto> v2))"

lemma slice_append: "8 < length y \<Longrightarrow> key_slice (take 8 y @ t) = key_slice y"
  by (simp add: key_slice_def min_def)

lemma drop_slice: "8 < length y \<Longrightarrow> drop 8 (take 8 y @ t) = t"
  by simp

lemma long_in_slice:
  assumes "8 < length y" and "key_slice x = key_slice y \<and> 8 < length x"
  shows "drop 8 x = t \<longleftrightarrow> x = take 8 y @ t"
proof
  assume "drop 8 x = t"
  moreover have "take 8 x = take 8 y" by (rule key_slice_inj) (use assms in simp_all)
  ultimately show "x = take 8 y @ t" by (metis append_take_drop_id)
qed (use assms(1) in simp)

lemma put_result_split:
  assumes y: "8 < length y" and t: "t \<noteq> []" "t \<noteq> drop 8 y"
    and old: "\<And>x. key_slice x = key_slice y \<and> 8 < length x \<Longrightarrow> m x = (if drop 8 x = t then Some v2 else None)"
  shows "put_result m y v (\<lambda>x. if key_slice x = key_slice y \<and> 8 < length x then pair_result (drop 8 y) v t v2 (drop 8 x) else m x)"
proof -
  let ?z = "take 8 y @ t"
  have z0: "drop 8 ?z = t" by (rule drop_slice[OF y])
  have "?z \<noteq> y" using z0 t(2) by metis
  then have z: "8 < length ?z" "key_slice ?z = key_slice y" "drop 8 ?z = t" "?z \<noteq> y"
    using y t(1) slice_append[OF y, of t] z0 by simp_all
  have mz: "m ?z = Some v2" using old[of ?z] z by simp
  have in_slice: "drop 8 x = t \<longleftrightarrow> x = ?z" "drop 8 x = drop 8 y \<longleftrightarrow> x = y" if "key_slice x = key_slice y \<and> 8 < length x" for x
    using long_in_slice[OF y that, of t] long_in_slice[OF y that, of "drop 8 y"] by simp_all
  have j: "kv_joined y ?z = kv_joined (drop 8 y) t" using kv_joined_below[OF _ y z(1)] z(2,3) by simp
  show ?thesis
  proof (cases "kv_joined (drop 8 y) t")
    case True
    then have "kv_clash y ?z" using y z(1,4) j by (simp add: kv_clash_def)
    moreover have "(\<lambda>x. if key_slice x = key_slice y \<and> 8 < length x then pair_result (drop 8 y) v t v2 (drop 8 x) else m x)
        = m(?z := None, y \<mapsto> v2)"
    proof (rule ext)
      fix x
      show "(if key_slice x = key_slice y \<and> 8 < length x then pair_result (drop 8 y) v t v2 (drop 8 x) else m x)
        = (m(?z := None, y \<mapsto> v2)) x"
      proof (cases "key_slice x = key_slice y \<and> 8 < length x")
        case True
        then show ?thesis using in_slice[OF True] old[OF True] \<open>kv_joined (drop 8 y) t\<close> by (simp add: pair_result_def)
      next
        case False
        then have "x \<noteq> y" "x \<noteq> ?z" using y z(1,2) by auto
        then show ?thesis using False by auto
      qed
    qed
    ultimately show ?thesis unfolding put_result_def using mz by blast
  next
    case False
    have "(\<lambda>x. if key_slice x = key_slice y \<and> 8 < length x then pair_result (drop 8 y) v t v2 (drop 8 x) else m x) = m(y \<mapsto> v)"
    proof (rule ext)
      fix x
      show "(if key_slice x = key_slice y \<and> 8 < length x then pair_result (drop 8 y) v t v2 (drop 8 x) else m x) = (m(y \<mapsto> v)) x"
      proof (cases "key_slice x = key_slice y \<and> 8 < length x")
        case True
        then show ?thesis using in_slice[OF True] old[OF True] \<open>\<not> kv_joined (drop 8 y) t\<close> z(4) by (simp add: pair_result_def)
      next
        case False
        then have "x \<noteq> y" using y by auto
        then show ?thesis using False by auto
      qed
    qed
    then show ?thesis by (simp add: put_result_def)
  qed
qed

text \<open>A put below a link.\<close>

lemma put_result_below:
  assumes y: "8 < length y" and sub: "put_result g (drop 8 y) v g'"
    and old: "\<And>x. key_slice x = key_slice y \<and> 8 < length x \<Longrightarrow> m x = g (drop 8 x)"
  shows "put_result m y v (\<lambda>x. if key_slice x = key_slice y \<and> 8 < length x then g' (drop 8 x) else m x)"
proof -
  let ?S = "\<lambda>x. key_slice x = key_slice y \<and> 8 < length x"
  have iny: "drop 8 x = drop 8 y \<longleftrightarrow> x = y" if "?S x" for x using long_in_slice[OF y that, of "drop 8 y"] by simp
  from sub consider "g' = g(drop 8 y \<mapsto> v)"
    | z v2 where "kv_clash (drop 8 y) z" "g z = Some v2" "g' = g(z := None, drop 8 y \<mapsto> v2)" unfolding put_result_def by blast
  then show ?thesis
  proof cases
    case 1
    have "(\<lambda>x. if ?S x then g' (drop 8 x) else m x) = m(y \<mapsto> v)"
    proof (rule ext)
      show "(if ?S x then g' (drop 8 x) else m x) = (m(y \<mapsto> v)) x" for x
        using iny[of x] old[of x] y 1 by auto
    qed
    then show ?thesis by (simp add: put_result_def)
  next
    case 2
    let ?z = "take 8 y @ z"
    have len: "8 < length (drop 8 y)" "8 < length z" "kv_joined (drop 8 y) z" "z \<noteq> drop 8 y" using 2(1) by (auto simp: kv_clash_def)
    have z: "?S ?z" "drop 8 ?z = z" using y len(2) slice_append[OF y, of z] by auto
    have inz: "drop 8 x = z \<longleftrightarrow> x = ?z" if "?S x" for x by (rule long_in_slice[OF y that])
    have "?z \<noteq> y" using z(2) len(4) by metis
    moreover have "kv_joined y ?z" using kv_joined_below[of y ?z] y z len(3) by simp
    ultimately have "kv_clash y ?z" using y z(1) by (auto simp: kv_clash_def)
    moreover have "m ?z = Some v2" using old[OF z(1)] z(2) 2(2) by simp
    moreover have "(\<lambda>x. if ?S x then g' (drop 8 x) else m x) = m(?z := None, y \<mapsto> v2)"
    proof (rule ext)
      show "(if ?S x then g' (drop 8 x) else m x) = (m(?z := None, y \<mapsto> v2)) x" for x
      proof (cases "?S x")
        case True
        then show ?thesis using iny[OF True] inz[OF True] old[OF True] 2(3) by simp
      next
        case False
        then have "x \<noteq> y" "x \<noteq> ?z" using y z(1) by auto
        then show ?thesis using False by auto
      qed
    qed
    ultimately show ?thesis unfolding put_result_def by blast
  qed
qed

section \<open>The loop of \<open>KV_Put\<close>\<close>

text \<open>The slice is new: one round inserts a border node, the next one finds it and sets the value again.\<close>

lemma put_new_slice_ok:
  assumes st: "kv_state s I (n + 4)" and inv: "str_inv I (bdk s) N X {}" and p: "N p = Some i" "X (p @ [key_slice y]) = None"
    and key: "key_is key y" and v: "v \<noteq> NULL"
  shows "\<exists>s' I' X' b bn. KV_Put_loop (Suc (Suc fuel)) s v (i, key, None) = Inr (s', key) \<and> kv_state s' I' n \<and> rootNode s' = rootNode s \<and>
    str_inv I' (bdk s') N X' {} \<and> changed_at p (bdk s) N X (bdk s') N X' \<and> X' (p @ [key_slice y]) = Some b \<and>
    bdk s' b = Some bn \<and> border_put empty_border y v bn \<and>
    (\<forall>z. trie_get I' (bdk s') i z = ((trie_get I (bdk s) i)(y \<mapsto> v)) z) \<and> numKeys_kv s' = Suc (numKeys_kv s)"
proof -
  let ?k = "key_slice y"
  obtain m where m: "I i = Some m" "map_of m ?k = None" using str_invD(3)[OF inv p(1)] p(2) by (auto simp: node_ok_def)
  obtain s1 where s1: "kv_move_to_key s i ?k = Inr (False, s1)" "kv_state s1 I (n + 4)" "same_borders s s1"
    using kv_move_ok[OF st m(1), of ?k] m(2) by auto
  have "bnodes s1 = bnodes s" using s1(3) by (simp add: same_borders_def)
  then have B1: "bdk s1 = bdk s" by (rule bdk_same)
  have "kv_state s1 I (Suc n + 3)" by (rule kv_state_less[OF s1(2)]) simp
  from insert_border[OF this inv[folded B1] p key v] obtain b bn s2 I2 where
    s2: "put_new_border s1 i ?k key v = Inr s2" "kv_state s2 I2 (Suc n)" "rootNode s2 = rootNode s1" "numKeys_kv s2 = numKeys_kv s1"
    "bdk s2 = (bdk s1)(b \<mapsto> sb_of bn)" "border_put empty_border y v (sb_of bn)" "str_inv I2 (bdk s2) N (X(p @ [?k] \<mapsto> b)) {}"
    "changed_at p (bdk s1) N X (bdk s2) N (X(p @ [?k] \<mapsto> b))"
    "\<forall>z. trie_get I2 (bdk s2) i z = (if z = y then Some v else trie_get I (bdk s1) i z)" by (elim exE conjE) (rule that)
  let ?s2 = "incr_keys s2" and ?X = "X(p @ [?k] \<mapsto> b)"
  have st2: "kv_state ?s2 I2 (Suc n)" by (rule kv_state_incr[OF s2(2)])
  obtain m2 where m2: "I2 i = Some m2" "map_of m2 ?k = Some b" using str_invD(3)[OF s2(7) p(1)] by (auto simp: node_ok_def)
  obtain s3 s4 where s4: "kv_move_to_key ?s2 i ?k = Inr (True, s3)" "kv_get_record s3 i = Inr (b, s4)" "kv_state s4 I2 (Suc n)"
    "same_borders ?s2 s4" using kv_seek_ok[OF st2 m2] by blast
  have "bnodes s4 = bnodes s2" using s4(4) by (simp add: same_borders_def incr_keys_def)
  then have B4: "bdk s4 = bdk s2" by (rule bdk_same)
  have "bdk s4 b = Some (sb_of bn)" using B4 s2(5) by simp
  then obtain bn4 where bn4: "bnodes s4 b = Some bn4" "sb_of bn4 = sb_of bn" by (auto simp: bdk_def)
  have long: "8 < length y \<Longrightarrow> BN_GetLink bn4 = NULL \<and> (\<forall>t. keySuffix bn4 = Some t \<longrightarrow> t = drop 8 y)"
    using s2(6) link_sb[of bn4] sfx_sb[of bn4] unfolding bn4(2) by (auto simp: border_put_def split: if_splits)
  have "?X (p @ [?k]) = Some b" by simp
  from put_at_border_ok[OF s4(3) s2(7)[folded B4] p(1) this bn4(1) key v long] obtain s5 where
    s5: "put_at_border s4 i b key v = Inr (Inl (s5, key))" "border_made p s4 I2 N ?X n i b bn4 y v s5"
    "numKeys_kv s5 = numKeys_kv s4 + added_keys (trie_get I2 (bdk s4) i) y" by blast
  obtain bn5 where m5: "kv_state s5 I2 n" "rootNode s5 = rootNode s4" "bdk s5 = (bdk s4)(b \<mapsto> bn5)" "border_put (sb_of bn) y v bn5"
    "str_inv I2 (bdk s5) N ?X {}" "changed_at p (bdk s4) N ?X (bdk s5) N ?X"
    "\<forall>z. trie_get I2 (bdk s5) i z = ((trie_get I2 (bdk s4) i)(y \<mapsto> v)) z"
    using s5(2) unfolding border_made_def bn4(2) by blast
  have loop: "KV_Put_loop (Suc (Suc fuel)) s v (i, key, None) = Inr (s5, key)"
    using next_slice_ok[OF key] s1(1) s2(1) s4(1,2) s5(1) by (simp add: put_one_key_def)
  have ch: "changed_at p (bdk s) N X (bdk s5) N ?X" using changed_at_trans[OF s2(8) m5(6)[unfolded B4]] B1 by simp
  have get: "\<forall>z. trie_get I2 (bdk s5) i z = ((trie_get I (bdk s) i)(y \<mapsto> v)) z" using m5(7) s2(9) unfolding B4 B1 by simp
  have num: "numKeys_kv s5 = Suc (numKeys_kv s)"
    using s5(3) s2(4,9) s1(3) s4(4) unfolding B4 by (simp add: added_keys_def same_borders_def incr_keys_def)
  have root: "rootNode s5 = rootNode s" using m5(2) s2(3) s1(3) s4(4) by (simp add: same_borders_def incr_keys_def)
  have "bdk s5 b = Some bn5" using m5(3) by simp
  with loop m5(1) root m5(5) ch border_put_again[OF s2(6) m5(4)] get num show ?thesis
    by (intro exI[of _ s5] exI[of _ I2] exI[of _ ?X] exI[of _ b] exI[of _ bn5] conjI) simp_all
qed

lemma border_made_kv:
  "border_made p s I N X n i b bn y v s' \<Longrightarrow> N p = Some i \<Longrightarrow> kv_made p s N X n i ((trie_get I (bdk s) i)(y \<mapsto> v)) s'"
  unfolding border_made_def by (elim conjE) (rule kv_madeI; (assumption | (drule spec, assumption)))

lemma put_result_upd: "put_result m y v (m(y \<mapsto> v))"
  by (simp add: put_result_def)

text \<open>The value of a key behind a border node with a suffix or a link.\<close>

lemma long_get:
  assumes inv: "str_inv I (bdk s) N X P" and p: "N p = Some i" "X (p @ [k]) = Some b" "bdk s b = Some bn" and x: "key_slice x = k \<and> 8 < length x"
  shows "trie_get I (bdk s) i x = (case sfx bn of Some (t, w) \<Rightarrow> if drop 8 x = t then Some w else None
    | None \<Rightarrow> (case BN_GetLink_s bn of None \<Rightarrow> None | Some l \<Rightarrow> trie_get I (bdk s) l (drop 8 x)))"
proof -
  have "trie_get I (bdk s) i x = border_get bn (trie_get I (bdk s)) x" using trie_get_node[OF inv p(1), of x] p(2,3) x by simp
  then show ?thesis using x by (auto simp: border_get_def split: option.splits)
qed

lemma put_round:
  assumes "put_at_border s2 i b key v = Inr r" and "next_slice key = Inr k" and "kv_move_to_key s i k = Inr (True, s1)"
    and "kv_get_record s1 i = Inr (b, s2)"
  shows "KV_Put_loop (Suc fuel) s v (i, key, None) = (case r of Inl done \<Rightarrow> Inr done | Inr (s3, st) \<Rightarrow> KV_Put_loop fuel s3 v st)"
  using assms by (simp add: put_one_key_def)

lemma put_split_loop:
  assumes st: "kv_state s I (n + 4 * length y + 12)" and inv: "str_inv I (bdk s) N X {}"
    and p: "N p = Some i" "X (p @ [key_slice y]) = Some b"
    and b: "bnodes s b = Some bn" and key: "key_is key y" and v: "v \<noteq> NULL" and y: "8 < length y"
    and t: "keySuffix bn = Some t" "t \<noteq> drop 8 y" and fuel: "length y div 8 + 1 \<le> fuel"
  shows "\<exists>s1 st1 s' key' g. put_at_border s i b key v = Inr (Inr (s1, st1)) \<and> KV_Put_loop fuel s1 v st1 = Inr (s', key') \<and>
    g = (\<lambda>x. if key_slice x = key_slice y \<and> 8 < length x then pair_result (drop 8 y) v t (suffixLink bn) (drop 8 x)
      else trie_get I (bdk s) i x) \<and>
    put_result (trie_get I (bdk s) i) y v g \<and> kv_made p s N X n i g s' \<and>
    numKeys_kv s' = numKeys_kv s + added_keys (trie_get I (bdk s) i) y"
proof -
  let ?k = "key_slice y" and ?y = "drop 8 y" and ?v2 = "suffixLink bn"
  let ?r = "p @ [?k]"
  have b0: "border_ok (sb_of bn)" using kv_border[OF inv p(2)] b by (metis option.inject)
  have v2: "?v2 \<noteq> NULL" using kv_stateD(6)[OF st b] t(1) by simp
  have "kv_state s I ((n + 4 * length ?y + 6) + 3)" by (rule kv_state_less[OF st]) simp
  from put_split_ok[OF this inv p b key y t, of v] obtain s1 l sk where
    s1: "put_at_border s i b key v = Inr (Inr (s1, l, advance key, Some (sk, ?v2)))" "key_is sk t" "l \<noteq> NULL" "l \<noteq> i"
    "kv_state s1 (I(l \<mapsto> [])) (n + 4 * length ?y + 6)" "rootNode s1 = rootNode s" "numKeys_kv s1 = numKeys_kv s"
    "bdk s1 = (bdk s)(b \<mapsto> BN_SetLink_s (sb_of bn) l)" "str_inv (I(l \<mapsto> [])) (bdk s1) (N(?r \<mapsto> l)) X {}"
    "changed_at p (bdk s) N X (bdk s1) (N(?r \<mapsto> l)) X" by (elim exE conjE) (rule that)
  let ?I = "I(l \<mapsto> [])" and ?N = "N(?r \<mapsto> l)" and ?bn = "BN_SetLink_s (sb_of bn) l"
  have l: "?N ?r = Some l" "?I l = Some []" "?N p = Some i" "bdk s1 b = Some ?bn" using s1(8) p(1) by simp_all
  have fl: "length ?y div 8 + 1 \<le> fuel" using fuel y by simp
  have ne: "?y \<noteq> t" using t(2) by simp
  obtain s2 key2 where s2: "KV_Put_loop fuel s1 v (l, advance key, Some (sk, ?v2)) = Inr (s2, key2)"
    "kv_made ?r s1 ?N X n l (pair_result ?y v t ?v2) s2" "numKeys_kv s2 = Suc (numKeys_kv s1)"
    using two_ok[OF s1(5,9) l(1,2) key_is_advance[OF key y] s1(2) v v2 fl] by (elim exE conjE) (rule that)
  note sl = SetLink[OF b0 s1(3)]
  define m where "m = trie_get I (bdk s) i"
  have other: "trie_get ?I (bdk s1) i x = m x" if h: "\<not> (key_slice x = ?k \<and> 8 < length x)" for x
  proof (cases "key_slice x = ?k")
    case True
    have "trie_get ?I (bdk s1) i x = border_get ?bn (trie_get ?I (bdk s1)) x"
      using trie_get_node[OF s1(9) l(3), of x] l(4) p(2) True by simp
    also have "\<dots> = border_get (sb_of bn) (trie_get I (bdk s)) x" using h True sl(2) by (simp add: border_get_def)
    also have "\<dots> = m x" using trie_get_node[OF inv p(1), of x] p(2) True bdk_eq(2)[OF b] by (simp add: m_def)
    finally show ?thesis .
  next
    case False
    have c: "X q = Some c \<Longrightarrow> q \<noteq> ?r \<Longrightarrow> c \<noteq> b" for q c using str_invD(2)[OF inv p(2)] by blast
    show ?thesis unfolding m_def
      by (rule other_slice[OF inv s1(9) p(1) l(3) False]) (use c s1(8) in auto)
  qed
  have old: "m x = (if drop 8 x = t then Some ?v2 else None)" if "key_slice x = ?k \<and> 8 < length x" for x
    using long_get[OF inv p bdk_eq(2)[OF b] that] t(1) by (simp add: m_def sfx_sb)
  let ?g = "\<lambda>x. if key_slice x = ?k \<and> 8 < length x then pair_result ?y v t ?v2 (drop 8 x) else m x"
  have "t \<noteq> []" using b0 t(1) by (simp add: border_ok_sb)
  from put_result_split[OF y this t(2) old] have res: "put_result m y v ?g" .
  have "kv_made p s1 ?N X n i ?g s2"
    using made_below[OF s1(9) l(3) p(2) l(4) sl(4) s2(2)] by (rule kv_made_cong) (simp add: other)
  from kv_made_step[OF this s1(10,6)] have made: "kv_made p s N X n i ?g s2" .
  have "m y = None" using old[of y] y ne by simp
  then have "numKeys_kv s2 = numKeys_kv s + added_keys m y" using s2(3) s1(7) by (simp add: added_keys_def)
  then show ?thesis using s1(1) s2(1) res made unfolding m_def[symmetric]
    by (intro exI[of _ s1] exI[of _ "(l, advance key, Some (sk, ?v2))"] exI[of _ s2] exI[of _ key2] exI[of _ ?g]) simp
qed

theorem KV_Put_loop_ok:
  assumes "kv_state s I (n + 4 * length y + 12)" and "str_inv I (bdk s) N X {}" and "N p = Some i" and "key_is key y" and "v \<noteq> NULL"
    and "length y div 8 + 3 \<le> fuel"
  shows "\<exists>s' key' g. KV_Put_loop fuel s v (i, key, None) = Inr (s', key') \<and> put_result (trie_get I (bdk s) i) y v g \<and>
    kv_made p s N X n i g s' \<and> numKeys_kv s' = numKeys_kv s + added_keys (trie_get I (bdk s) i) y"
  using assms
proof (induction y arbitrary: key p i s fuel rule: measure_induct_rule[where f = length])
  case (less y)
  note st = less.prems(1) and inv = less.prems(2) and p = less.prems(3) and key = less.prems(4) and v = less.prems(5)
  let ?k = "key_slice y"
  obtain m where m: "I i = Some m" "map_of m ?k = X (p @ [?k])" using str_invD(3)[OF inv p] by (auto simp: node_ok_def)
  have "fuel = Suc (Suc (fuel - 2))" using less.prems(6) by linarith
  then obtain f where f: "fuel = Suc (Suc f)" by blast
  show ?case
  proof (cases "X (p @ [?k])")
    case None
    have "kv_state s I (n + 4)" by (rule kv_state_less[OF st]) simp
    from put_new_slice_ok[OF this inv p None key v, of f] obtain s' I' X' where
      s': "KV_Put_loop (Suc (Suc f)) s v (i, key, None) = Inr (s', key)" "kv_state s' I' n" "rootNode s' = rootNode s" "str_inv I' (bdk s') N X' {}"
      "changed_at p (bdk s) N X (bdk s') N X'" "\<forall>z. trie_get I' (bdk s') i z = ((trie_get I (bdk s) i)(y \<mapsto> v)) z"
      "numKeys_kv s' = Suc (numKeys_kv s)" by (elim exE conjE) (rule that)
    have "kv_made p s N X n i ((trie_get I (bdk s) i)(y \<mapsto> v)) s'"
      by (rule kv_madeI[OF s'(2-4) p s'(5)]) (rule s'(6)[rule_format])
    moreover have "trie_get I (bdk s) i y = None" using trie_get_node[OF inv p, of y] None by simp
    ultimately show ?thesis using s'(1,7) put_result_upd by (auto simp: added_keys_def f)
  next
    case (Some b)
    have "map_of m ?k = Some b" using m(2) Some by simp
    from kv_seek_ok[OF st m(1) this] obtain s1 s2 where
      s2: "kv_move_to_key s i ?k = Inr (True, s1)" "kv_get_record s1 i = Inr (b, s2)" "kv_state s2 I (n + 4 * length y + 12)"
      "same_borders s s2" by blast
    have e: "rootNode s2 = rootNode s" "numKeys_kv s2 = numKeys_kv s" "bnodes s2 = bnodes s" using s2(4) by (simp_all add: same_borders_def)
    have B: "bdk s2 = bdk s" by (rule bdk_same[OF e(3)])
    note inv2 = inv[folded B]
    obtain bn where bn: "bnodes s2 b = Some bn" "b \<noteq> NULL" "border_ok (sb_of bn)" "BN_GetLink_s (sb_of bn) = N (p @ [?k])"
      by (rule kv_border[OF inv2 Some])
    have lift: "kv_made p s2 N X n i g s' \<Longrightarrow> kv_made p s N X n i g s'" for g s'
      using kv_made_step[of p s2 N X n i g s' s N X] changed_at_refl[of p "bdk s" N X] e(1) B by simp
    note rnd = put_round[OF _ next_slice_ok[OF key] s2(1,2), of v]
    obtain h where h: "fuel = Suc h" "length y div 8 + 2 \<le> h" using f less.prems(6) by auto
    consider (here) "8 < length y \<Longrightarrow> BN_GetLink bn = NULL \<and> (\<forall>t. keySuffix bn = Some t \<longrightarrow> t = drop 8 y)"
      | (split) t where "8 < length y" "keySuffix bn = Some t" "t \<noteq> drop 8 y"
      | (link) "8 < length y" "keySuffix bn = None" "BN_GetLink bn \<noteq> NULL"
      unfolding BN_GetLink_def by (metis option.distinct(1))
    then show ?thesis
    proof cases
      case here
      have "kv_state s2 I (Suc n)" by (rule kv_state_less[OF s2(3)]) simp
      from put_at_border_ok[OF this inv2 p Some bn(1) key v here] obtain s3 where
        s3: "put_at_border s2 i b key v = Inr (Inl (s3, key))" "border_made p s2 I N X n i b bn y v s3"
        "numKeys_kv s3 = numKeys_kv s2 + added_keys (trie_get I (bdk s2) i) y" by blast
      from lift[OF border_made_kv[OF s3(2) p]] have "kv_made p s N X n i ((trie_get I (bdk s) i)(y \<mapsto> v)) s3" unfolding B .
      then show ?thesis using rnd[OF s3(1), of h] s3(3) put_result_upd[of "trie_get I (bdk s) i" y v] B e(2) h(1) by auto
    next
      case split
      have "length y div 8 + 1 \<le> h" using h(2) by simp
      from put_split_loop[OF s2(3) inv2 p Some bn(1) key v split this] obtain s3 st3 s' key' g where
        s3: "put_at_border s2 i b key v = Inr (Inr (s3, st3))" "KV_Put_loop h s3 v st3 = Inr (s', key')"
        "put_result (trie_get I (bdk s2) i) y v g" "kv_made p s2 N X n i g s'"
        "numKeys_kv s' = numKeys_kv s2 + added_keys (trie_get I (bdk s2) i) y" by (elim exE conjE) (rule that)
      show ?thesis using rnd[OF s3(1), of h] s3(2,3,5) lift[OF s3(4)] B e(2) h(1)
        by (intro exI[of _ s'] exI[of _ key'] exI[of _ g]) simp
    next
      case link
      let ?y = "drop 8 y" and ?l = "BN_GetLink bn"
      let ?r = "p @ [?k]"
      have go: "put_at_border s2 i b key v = Inr (Inr (s2, ?l, advance key, None))"
        using bn(1,2) link key by (simp add: put_at_border_def bnode_at_def BN_HasSuffix_def key_is_def)
      have l: "N ?r = Some ?l" "BN_GetLink_s (sb_of bn) = Some ?l" using bn(4) link(3) by (simp_all add: link_sb)
      have lt: "length ?y < length y" "length ?y div 8 + 3 \<le> h" using h(2) link(1) by auto
      have st': "kv_state s2 I (n + 4 * length ?y + 12)" by (rule kv_state_less[OF s2(3)]) simp
      obtain s' key' g where s': "KV_Put_loop h s2 v (?l, advance key, None) = Inr (s', key')"
        "put_result (trie_get I (bdk s2) ?l) ?y v g" "kv_made ?r s2 N X n ?l g s'"
        "numKeys_kv s' = numKeys_kv s2 + added_keys (trie_get I (bdk s2) ?l) ?y"
        using less.IH[OF lt(1) st' inv2 l(1) key_is_advance[OF key link(1)] v lt(2)] by (elim exE conjE) (rule that)
      define m1 where "m1 = trie_get I (bdk s2) i"
      have old: "m1 x = trie_get I (bdk s2) ?l (drop 8 x)" if "key_slice x = ?k \<and> 8 < length x" for x
        using long_get[OF inv2 p Some bdk_eq(2)[OF bn(1)] that] link(2) l(2) by (simp add: m1_def sfx_sb)
      let ?g = "\<lambda>x. if key_slice x = ?k \<and> 8 < length x then g (drop 8 x) else m1 x"
      have "put_result m1 y v ?g" by (rule put_result_below[OF link(1) s'(2) old])
      moreover have "kv_made p s N X n i ?g s'"
        using lift[OF made_below[OF inv2 p Some bdk_eq(2)[OF bn(1)] l(2) s'(3)]] unfolding m1_def .
      moreover have "added_keys m1 y = added_keys (trie_get I (bdk s2) ?l) ?y" using old[of y] link(1) by (simp add: added_keys_def)
      ultimately show ?thesis using rnd[OF go, of h] s'(1,4) e(2) h(1)
        by (intro exI[of _ s'] exI[of _ key'] exI[of _ ?g]) (simp add: m1_def B)
    qed
  qed
qed

end
