(* ===== verification/Kv_Map.thy ===== *)
theory Kv_Map
  imports Kv_Insert
begin

text \<open>
  The key-value store as a map from byte strings to values: what \<open>KV_NewKVStore\<close>, \<open>KV_Put\<close>, \<open>KV_Get\<close> and
  \<open>KV_NumKeys\<close> do to it, and how two keys that clash lose a value.
\<close>

section \<open>The map of a store\<close>

definition kv_rep :: "kv \<Rightarrow> (byte list \<rightharpoonup> addr) \<Rightarrow> nat \<Rightarrow> bool" where
  "kv_rep s m n \<longleftrightarrow> (\<exists>I N X. kv_state s I n \<and> str_inv I (bdk s) N X {} \<and> N [] = Some (rootNode s) \<and>
     m = trie_get I (bdk s) (rootNode s))"

lemma kv_repI:
  "kv_state s I n \<Longrightarrow> str_inv I (bdk s) N X {} \<Longrightarrow> N [] = Some (rootNode s) \<Longrightarrow> kv_rep s (trie_get I (bdk s) (rootNode s)) n"
  unfolding kv_rep_def by blast

lemma kv_repE:
  assumes "kv_rep s m n"
  obtains I N X where "kv_state s I n" "str_inv I (bdk s) N X {}" "N [] = Some (rootNode s)" "m = trie_get I (bdk s) (rootNode s)"
  using assms unfolding kv_rep_def by blast

lemma kv_rep_less: "kv_rep s m n \<Longrightarrow> n' \<le> n \<Longrightarrow> kv_rep s m n'"
  unfolding kv_rep_def using kv_state_less by blast

text \<open>Every round of \<open>KV_Put\<close> that goes down strips eight bytes of the key and costs at most four steps.\<close>

definition put_room :: "byte list \<Rightarrow> nat" where
  "put_room y = 4 * length y + 12"

definition put_fuel :: "byte list \<Rightarrow> nat" where
  "put_fuel y = length y div 8 + 3"

definition kv_key :: "byte list \<Rightarrow> bool" where
  "kv_key y \<longleftrightarrow> y \<noteq> [] \<and> length y < 2 ^ 32"

lemma KV_Put_rep:
  assumes rep: "kv_rep s m (n + put_room y)" and y: "kv_key y" and v: "v \<noteq> NULL" and fuel: "put_fuel y \<le> fuel"
  shows "\<exists>s' key' m'. KV_Put fuel s (kvkey_of y) v = Inr (True, s', key') \<and> put_result m y v m' \<and> kv_rep s' m' n \<and>
    KV_NumKeys s' = KV_NumKeys s + added_keys m y"
proof -
  obtain I N X where r: "kv_state s I (n + put_room y)" "str_inv I (bdk s) N X {}" "N [] = Some (rootNode s)"
    "m = trie_get I (bdk s) (rootNode s)" using rep by (rule kv_repE)
  have st: "kv_state s I (n + 4 * length y + 12)" using r(1) by (simp add: put_room_def add.assoc)
  have key: "key_is (kvkey_of y) y" using y key_is_of by (simp add: kv_key_def)
  have f: "length y div 8 + 3 \<le> fuel" using fuel by (simp add: put_fuel_def)
  obtain s' key' g where s': "KV_Put_loop fuel s v (rootNode s, kvkey_of y, None) = Inr (s', key')" "put_result m y v g"
    "kv_made [] s N X n (rootNode s) g s'" "numKeys_kv s' = numKeys_kv s + added_keys m y"
    using KV_Put_loop_ok[OF st r(2,3) key v f, folded r(4)] by (elim exE conjE) (rule that)
  obtain I' N' X' where m: "kv_state s' I' n" "rootNode s' = rootNode s" "str_inv I' (bdk s') N' X' {}" "N' [] = Some (rootNode s)"
    "changed_at [] (bdk s) N X (bdk s') N' X'" "\<forall>z. trie_get I' (bdk s') (rootNode s) z = g z" using s'(3) by (rule kv_madeE)
  have "g = trie_get I' (bdk s') (rootNode s')" using m(2,6) by auto
  then have "kv_rep s' g n" using kv_repI[OF m(1,3)] m(2,4) by simp
  then show ?thesis using s'(1,2,4) v by (auto simp: KV_Put_def KV_NumKeys_def kvkey_of_def)
qed

text \<open>Without a clash, \<open>KV_Put\<close> is the update of a map.\<close>

lemma KV_Put_no_clash:
  assumes "kv_rep s m (n + put_room y)" and "kv_key y" and "v \<noteq> NULL" and clash: "\<forall>z \<in> dom m. \<not> kv_clash y z" and "put_fuel y \<le> fuel"
  shows "\<exists>s' key'. KV_Put fuel s (kvkey_of y) v = Inr (True, s', key') \<and> kv_rep s' (m(y \<mapsto> v)) n \<and>
    KV_NumKeys s' = KV_NumKeys s + added_keys m y"
proof -
  have "m' = m(y \<mapsto> v)" if "put_result m y v m'" for m' using that clash unfolding put_result_def by blast
  then show ?thesis using KV_Put_rep[OF assms(1,2,3,5)] by blast
qed

lemma KV_Get_rep:
  assumes rep: "kv_rep s m n" and y: "y \<noteq> []"
  shows "\<exists>s'. KV_Get s (kvkey_of y) = Inr (value_of (m y), s') \<and> kv_rep s' m n \<and> KV_NumKeys s' = KV_NumKeys s"
proof -
  obtain I N X where r: "kv_state s I n" "str_inv I (bdk s) N X {}" "N [] = Some (rootNode s)"
    "m = trie_get I (bdk s) (rootNode s)" using rep by (rule kv_repE)
  obtain s' where s': "getValueOfPartialKey s (rootNode s) y (length y) = Inr (value_of (m y), s')" "kv_state s' I n" "same_borders s s'"
    using getValue_ok[OF r(1,2,3) order_refl, of y] y r(4) by auto
  have e: "rootNode s' = rootNode s" "numKeys_kv s' = numKeys_kv s" "bnodes s' = bnodes s" using s'(3) by (simp_all add: same_borders_def)
  have B: "bdk s' = bdk s" by (rule bdk_same[OF e(3)])
  have "kv_rep s' m n" using kv_repI[OF s'(2), of N X] r(2-4) e(1) B by simp
  then show ?thesis using s'(1) e(2) by (simp add: KV_Get_def KV_NumKeys_def kvkey_of_def str_of_def)
qed

text \<open>A new store is empty.\<close>

lemma new_store:
  assumes "20 * Suc n < mem" and "Suc n \<le> record_limit"
  shows "\<exists>s I. KV_NewKVStore mem = Inr (Some s) \<and> kv_state s I n \<and> str_inv I (bdk s) [[] \<mapsto> rootNode s] Map.empty {} \<and>
    I (rootNode s) = Some [] \<and> KV_NumKeys s = 0"
proof -
  let ?s0 = "\<lparr>kvnodes = (\<lambda>_. None), bnodes = (\<lambda>_. None), kfresh = 1, kmem = mem - 1, rootNode = NULL, numKeys_kv = 0\<rparr> :: kv"
  have "kv_state ?s0 Map.empty (Suc n)" using assms by (simp add: kv_state_def)
  from newKVNode_ok[OF this] obtain s1 where s1: "newKVNode ?s0 = Inr (1, s1)" "kv_state s1 [1 \<mapsto> []] n" "same_borders ?s0 s1"
    by auto
  let ?s = "s1\<lparr>rootNode := 1, numKeys_kv := 0\<rparr>"
  have "KV_NewKVStore mem = Inr (Some ?s)" using s1(1) assms(1) by (simp add: KV_NewKVStore_def Let_def)
  moreover have "kv_state ?s [1 \<mapsto> []] n" using s1(2) by (simp add: kv_state_def node_rep_def)
  moreover have "str_inv [1 \<mapsto> []] (bdk ?s) [[] \<mapsto> 1] Map.empty {}"
    by (rule str_invI) (auto simp: node_ok_def split: if_splits)
  ultimately show ?thesis by (intro exI[of _ ?s] exI[of _ "[1 \<mapsto> []]"]) (simp add: KV_NumKeys_def)
qed

lemma new_store_rep:
  assumes "20 * Suc n < mem" and "Suc n \<le> record_limit"
  shows "\<exists>s. KV_NewKVStore mem = Inr (Some s) \<and> kv_rep s Map.empty n \<and> KV_NumKeys s = 0"
proof -
  obtain s I where s: "KV_NewKVStore mem = Inr (Some s)" "kv_state s I n" "str_inv I (bdk s) [[] \<mapsto> rootNode s] Map.empty {}"
    "I (rootNode s) = Some []" "KV_NumKeys s = 0" using new_store[OF assms] by blast
  have "trie_get I (bdk s) (rootNode s) = Map.empty" using no_slice(2)[OF s(3) _ s(4)] by (auto simp: fun_eq_iff)
  then show ?thesis using kv_repI[OF s(2,3)] s(1,5) by auto
qed

section \<open>Two keys that clash\<close>

text \<open>
  The keys share slices up to a layer where one of them ends. The put of the second one pushes the
  suffix of the first down to that layer, and there sets both values under the second key.
\<close>

lemma kv_clash_lost:
  assumes clash: "kv_clash y z" and y: "kv_key y" and z: "kv_key z" and v: "v \<noteq> NULL" "v2 \<noteq> NULL"
    and mem: "20 * Suc (put_room y + 4) < mem" "Suc (put_room y + 4) \<le> record_limit" and fuel: "put_fuel y \<le> fuel" "put_fuel z \<le> fuel"
  shows "\<exists>s0 s1 s2 s3 s4 key1 key2. KV_NewKVStore mem = Inr (Some s0) \<and> KV_Put fuel s0 (kvkey_of z) v2 = Inr (True, s1, key1) \<and>
    KV_Put fuel s1 (kvkey_of y) v = Inr (True, s2, key2) \<and> KV_Get s2 (kvkey_of z) = Inr (NULL, s3) \<and>
    KV_Get s3 (kvkey_of y) = Inr (v2, s4)"
proof -
  have len: "8 < length y" "8 < length z" and ne: "y \<noteq> z" using clash by (simp_all add: kv_clash_def)
  have "kv_joined y z" using clash by (simp add: kv_clash_def)
  then have sl: "key_slice y = key_slice z" by (simp add: kv_joined.simps[of y z] split: if_splits)
  have j: "kv_joined (drop 8 y) (drop 8 z)" using \<open>kv_joined y z\<close> kv_joined_below[OF sl len] by simp
  have d: "drop 8 z \<noteq> drop 8 y" using key_slice_long[OF len] sl ne by auto
  have keys: "key_is (kvkey_of y) y" "key_is (kvkey_of z) z" using y z key_is_of by (simp_all add: kv_key_def)
  obtain s0 I0 where s0: "KV_NewKVStore mem = Inr (Some s0)" "kv_state s0 I0 (put_room y + 4)"
    "str_inv I0 (bdk s0) [[] \<mapsto> rootNode s0] Map.empty {}" "I0 (rootNode s0) = Some []" using new_store[OF mem] by blast
  have p: "[[] \<mapsto> rootNode s0] [] = Some (rootNode s0)" "Map.empty ([] @ [key_slice z]) = None" by simp_all
  have "fuel = Suc (Suc (fuel - 2))" using fuel(1) by (simp add: put_fuel_def)
  then obtain f where f: "fuel = Suc (Suc f)" by blast
  obtain s1 I1 X1 b bn where s1: "KV_Put_loop (Suc (Suc f)) s0 v2 (rootNode s0, kvkey_of z, None) = Inr (s1, kvkey_of z)"
    "kv_state s1 I1 (put_room y)" "rootNode s1 = rootNode s0" "str_inv I1 (bdk s1) [[] \<mapsto> rootNode s0] X1 {}"
    "X1 ([] @ [key_slice z]) = Some b" "bdk s1 b = Some bn" "border_put empty_border z v2 bn"
    using put_new_slice_ok[OF s0(2,3) p keys(2) v(2), of f] by (elim exE conjE) (rule that)
  obtain m1 where m1: "I1 (rootNode s0) = Some m1" "map_of m1 (key_slice z) = Some b"
    using str_invD(3)[OF s1(4) p(1)] s1(5) by (auto simp: node_ok_def)
  obtain s2 s3 where s3: "kv_move_to_key s1 (rootNode s0) (key_slice z) = Inr (True, s2)" "kv_get_record s2 (rootNode s0) = Inr (b, s3)"
    "kv_state s3 I1 (put_room y)" "same_borders s1 s3" using kv_seek_ok[OF s1(2) m1] by blast
  have e: "rootNode s3 = rootNode s0" "bnodes s3 = bnodes s1" using s3(4) s1(3) by (simp_all add: same_borders_def)
  have B: "bdk s3 = bdk s1" by (rule bdk_same[OF e(2)])
  obtain bn3 where bn3: "bnodes s3 b = Some bn3" "sb_of bn3 = bn" using s1(6) e(2) by (auto simp: bdk_def)
  have "sfx (sb_of bn3) = Some (drop 8 z, v2)" using s1(7) bn3(2) len(2) by (simp add: border_put_def)
  then have t: "keySuffix bn3 = Some (drop 8 z)" "suffixLink bn3 = v2" by (auto simp: sfx_sb)
  have st: "kv_state s3 I1 (0 + 4 * length y + 12)" using s3(3) by (simp add: put_room_def)
  have xy: "X1 ([] @ [key_slice y]) = Some b" using s1(5) sl by simp
  have "length y div 8 + 1 \<le> Suc f" using fuel(1) f by (simp add: put_fuel_def)
  from put_split_loop[OF st s1(4)[folded B] p(1) xy bn3(1) keys(1) v(1) len(1) t(1) d this] obtain s4 st4 s5 key5 g where
    s5: "put_at_border s3 (rootNode s0) b (kvkey_of y) v = Inr (Inr (s4, st4))" "KV_Put_loop (Suc f) s4 v st4 = Inr (s5, key5)"
    "g = (\<lambda>x. if key_slice x = key_slice y \<and> 8 < length x then pair_result (drop 8 y) v (drop 8 z) (suffixLink bn3) (drop 8 x)
       else trie_get I1 (bdk s3) (rootNode s0) x)"
    "kv_made [] s3 [[] \<mapsto> rootNode s0] X1 0 (rootNode s0) g s5" by (elim exE conjE) (rule that)
  have "KV_Put_loop fuel s1 v (rootNode s0, kvkey_of y, None) = Inr (s5, key5)"
    using put_round[OF s5(1) next_slice_ok[OF keys(1)] s3(1)[folded sl] s3(2), of "Suc f"] s5(2) f by simp
  then have put2: "KV_Put fuel s1 (kvkey_of y) v = Inr (True, s5, key5)" using s1(3) v(1) by (simp add: KV_Put_def kvkey_of_def)
  have put1: "KV_Put fuel s0 (kvkey_of z) v2 = Inr (True, s1, kvkey_of z)" using s1(1) v(2) f by (simp add: KV_Put_def kvkey_of_def)
  have g: "g z = None" "g y = Some v2" using s5(3) len sl j d t(2) by (simp_all add: pair_result_def)
  obtain I' N' X' where m: "kv_state s5 I' 0" "rootNode s5 = rootNode s3" "str_inv I' (bdk s5) N' X' {}" "N' [] = Some (rootNode s0)"
    "changed_at [] (bdk s3) [[] \<mapsto> rootNode s0] X1 (bdk s5) N' X'" "\<forall>z. trie_get I' (bdk s5) (rootNode s0) z = g z"
    using s5(4) by (rule kv_madeE)
  have "trie_get I' (bdk s5) (rootNode s5) = g" using m(2,6) e(1) by auto
  then have rep: "kv_rep s5 g 0" using kv_repI[OF m(1,3)] m(2,4) e(1) by simp
  have nil: "z \<noteq> []" "y \<noteq> []" using len by auto
  obtain s6 where s6: "KV_Get s5 (kvkey_of z) = Inr (NULL, s6)" "kv_rep s6 g 0"
    using KV_Get_rep[OF rep nil(1)] g(1) by (auto simp: value_of_def)
  obtain s7 where s7: "KV_Get s6 (kvkey_of y) = Inr (v2, s7)" using KV_Get_rep[OF s6(2) nil(2)] g(2) by (auto simp: value_of_def)
  show ?thesis using s0(1) put1 put2 s6(1) s7
    by (intro exI[of _ s0] exI[of _ s1] exI[of _ s5] exI[of _ s6] exI[of _ s7] exI[of _ "kvkey_of z"] exI[of _ key5]) simp
qed

end
