(* ===== verification/Tuple_Type.thy ===== *)
theory Tuple_Type
  imports Tuple_Pair
begin

text \<open>
  Keys are untyped pointers in C, and the operations of an index do not check them. This theory says
  which keys a schema takes and what for: a hash table takes every key, for the integer that its
  pointer is; a list of strings takes strings only; a pair index takes what its components take.
\<close>

fun cast_key :: "shape \<Rightarrow> theap \<Rightarrow> key \<Rightarrow> key option" where
  "cast_key Int_shape h k = Some (KInt (key_word h k))"
| "cast_key Str_shape h k = (case k of KStr s \<Rightarrow> Some k | _ \<Rightarrow> None)"
| "cast_key (Pair_shape a b) h k =
     (case k of
        KPair ka kb \<Rightarrow> (case (cast_key a h ka, cast_key b h kb) of
          (Some ka', Some kb') \<Rightarrow> Some (KPair ka' kb') | _ \<Rightarrow> None)
      | _ \<Rightarrow> None)"

lemmas index_ops = index_new_def index_insert_def index_lookup_def inthash_schema_def stringlist_schema_def
  inthash_insert_method_def inthash_lookup_method_def stringlist_insert_method_def stringlist_lookup_method_def

text \<open>A key of the schema's type is taken for itself, and every key that is taken is taken for one.\<close>

lemma cast_valid: "valid_key d k \<Longrightarrow> cast_key d h k = Some k"
  by (induction d arbitrary: k)
    (auto simp: valid_int_def valid_str_def valid_pair_def key_word_def split: key.splits)

lemma cast_is_valid: "cast_key d h k = Some k' \<Longrightarrow> valid_key d k'"
  by (induction d arbitrary: k k')
    (auto simp: valid_int_def valid_str_def valid_pair_def split: key.splits option.splits)

lemma cast_pair:
  assumes "cast_key (Pair_shape a b) h k = Some k'"
  obtains ka kb ka' kb' where "k = KPair ka kb" "k' = KPair ka' kb'" "cast_key a h ka = Some ka'" "cast_key b h kb = Some kb'"
  using assms by (auto split: key.splits option.splits)

section \<open>The addresses of keys\<close>

lemma cast_cong: "kaddr h' = kaddr h \<Longrightarrow> cast_key d h' k = cast_key d h k"
  by (induction d arbitrary: k) (auto simp: key_word_def split: key.split)

lemma kaddr_malloc_obj: "malloc_obj h ob = Inr (p, h') \<Longrightarrow> kaddr h' = kaddr h"
  by (auto simp: malloc_obj_def malloc_cell_def split: if_splits)

lemma kaddr_new: "index_new (schema_of d) h = Inr (p, h') \<Longrightarrow> kaddr h' = kaddr h"
  by (induction d arbitrary: p)
    (auto simp: index_ops inthash_new_def stringlist_new_def tuple_mtable_def tuple_new_method_def intro: kaddr_malloc_obj)

lemma kaddr_insert_list: "inthash_insert_list h ps n = Inr (i, qs, h') \<Longrightarrow> kaddr h' = kaddr h"
  by (induction ps arbitrary: i qs)
    (auto simp: new_icell_def malloc_cell_def rbind_eq_Inr split: if_splits)

lemma kaddr_inthash_insert: "inthash_insert h p n v = Inr (w, h') \<Longrightarrow> kaddr h' = kaddr h"
  by (auto simp: inthash_insert_def rbind_eq_Inr set_obj_def dest!: kaddr_insert_list)

lemma kaddr_insert_loop: "stringlist_insert_loop h cs s v = Inr (w, ds, h') \<Longrightarrow> kaddr h' = kaddr h"
  by (induction cs arbitrary: ds)
    (auto simp: new_scell_def copy_string_def malloc_cell_def rbind_eq_Inr split: if_splits)

lemma kaddr_stringlist_insert: "stringlist_insert h p s v = Inr (w, h') \<Longrightarrow> kaddr h' = kaddr h"
  by (auto simp: stringlist_insert_def rbind_eq_Inr set_obj_def dest!: kaddr_insert_loop)

text \<open>What an insertion into a pair index does when its key is a pair.\<close>

definition first_level :: "shape \<Rightarrow> shape \<Rightarrow> theap \<Rightarrow> addr \<Rightarrow> key \<Rightarrow> (addr \<times> theap) result" where
  "first_level a b h p ka =
     rbind (index_lookup (schema_of a) h p ka) (\<lambda>q.
     if q = NULL then
       rbind (index_new (schema_of b) h) (\<lambda>(q1, h1).
       rbind (index_insert (schema_of a) h1 p ka q1) (\<lambda>(_, h2). Inr (q1, h2)))
     else Inr (q, h))"

lemma insert_pair:
  "index_insert (schema_of (Pair_shape a b)) h p (KPair ka kb) v =
     rbind (first_level a b h p ka) (\<lambda>(q, h1). index_insert (schema_of b) h1 q kb v)"
  by (simp add: first_level_def index_insert_def tuple_mtable_def tuple_insert_method_def rbind_assoc)

lemma lookup_pair:
  "index_lookup (schema_of (Pair_shape a b)) h p (KPair ka kb) =
     rbind (index_lookup (schema_of a) h p ka) (\<lambda>q. if q = NULL then Inr NULL else index_lookup (schema_of b) h q kb)"
  by (simp add: index_lookup_def tuple_mtable_def tuple_lookup_method_def)

lemma kaddr_insert: "index_insert (schema_of d) h p k v = Inr (w, h') \<Longrightarrow> kaddr h' = kaddr h"
proof (induction d arbitrary: h p k v w h')
  case Int_shape
  then show ?case by (auto simp: index_ops intro: kaddr_inthash_insert)
next
  case Str_shape
  then show ?case by (auto simp: index_ops rbind_eq_Inr intro: kaddr_stringlist_insert split: key.splits if_splits)
next
  case (Pair_shape a b)
  then obtain ka kb where k: "k = KPair ka kb"
    by (cases k) (auto simp: index_insert_def tuple_mtable_def tuple_insert_method_def)
  then obtain q h1 where f: "first_level a b h p ka = Inr (q, h1)" "index_insert (schema_of b) h1 q kb v = Inr (w, h')"
    using Pair_shape.prems by (auto simp del: schema_of.simps simp: insert_pair rbind_eq_Inr)
  have "kaddr h1 = kaddr h"
    using f(1) by (auto simp: first_level_def rbind_eq_Inr split: if_splits dest!: kaddr_new Pair_shape.IH(1))
  then show ?case using Pair_shape.IH(2)[OF f(2)] by simp
qed

section \<open>A key is used as what it is taken for\<close>

lemma cast_lookup:
  "cast_key d h k = Some k' \<Longrightarrow> index_lookup (schema_of d) h p k = index_lookup (schema_of d) h p k'"
proof (induction d arbitrary: k k' p)
  case (Pair_shape a b)
  from Pair_shape.prems obtain ka kb ka' kb' where k: "k = KPair ka kb" "k' = KPair ka' kb'"
    "cast_key a h ka = Some ka'" "cast_key b h kb = Some kb'" by (rule cast_pair)
  show ?case unfolding k(1,2) lookup_pair Pair_shape.IH(1)[OF k(3)] Pair_shape.IH(2)[OF k(4)] ..
qed (auto simp: index_ops key_word_def split: key.splits)

lemma cast_insert:
  "cast_key d h k = Some k' \<Longrightarrow> index_insert (schema_of d) h p k v = index_insert (schema_of d) h p k' v"
proof (induction d arbitrary: h k k' p v)
  case (Pair_shape a b)
  from Pair_shape.prems obtain ka kb ka' kb' where k: "k = KPair ka kb" "k' = KPair ka' kb'"
    "cast_key a h ka = Some ka'" "cast_key b h kb = Some kb'" by (rule cast_pair)
  have first: "first_level a b h p ka = first_level a b h p ka'"
  proof -
    have "index_insert (schema_of a) h1 p ka q = index_insert (schema_of a) h1 p ka' q"
      if "index_new (schema_of b) h = Inr (q, h1)" for q h1
      by (rule Pair_shape.IH(1)) (simp add: cast_cong[OF kaddr_new[OF that]] k(3))
    then show ?thesis unfolding first_level_def cast_lookup[OF k(3)] by (auto intro!: rbind_cong split: prod.splits)
  qed
  have second: "index_insert (schema_of b) h1 q kb v = index_insert (schema_of b) h1 q kb' v"
    if "first_level a b h p ka' = Inr (q, h1)" for q h1
  proof -
    have "kaddr h1 = kaddr h"
      using that by (auto simp: first_level_def rbind_eq_Inr split: if_splits dest!: kaddr_new kaddr_insert)
    then show ?thesis by (intro Pair_shape.IH(2)) (simp add: cast_cong[of h1 h] k(4))
  qed
  show ?case unfolding k(1,2) insert_pair first by (auto intro!: rbind_cong second split: prod.splits)
qed (auto simp: index_ops key_word_def split: key.splits)

text \<open>A key that is not taken is never found, and inserting it fails.\<close>

lemma no_cast_lookup:
  "cast_key d h k = None \<Longrightarrow> index_lookup (schema_of d) h p k = Inr w \<Longrightarrow> w = NULL"
proof (induction d arbitrary: k p w)
  case (Pair_shape a b)
  show ?case
  proof (rule ccontr)
    assume "w \<noteq> NULL"
    with Pair_shape.prems(2) obtain ka kb q where k: "k = KPair ka kb" "index_lookup (schema_of a) h p ka = Inr q" "q \<noteq> NULL"
      "index_lookup (schema_of b) h q kb = Inr w"
      by (auto simp: index_lookup_def tuple_mtable_def tuple_lookup_method_def rbind_eq_Inr split: key.splits if_splits)
    then have "cast_key a h ka \<noteq> None" "cast_key b h kb \<noteq> None"
      using Pair_shape.IH(1)[OF _ k(2)] Pair_shape.IH(2)[OF _ k(4)] \<open>w \<noteq> NULL\<close> by blast+
    then show False using Pair_shape.prems(1) k(1) by auto
  qed
qed (auto simp: index_ops rbind_eq_Inr split: key.splits if_splits)

lemma no_cast_insert:
  "index_insert (schema_of d) h p k v = Inr r \<Longrightarrow> cast_key d h k \<noteq> None"
proof (induction d arbitrary: h p k v r)
  case (Pair_shape a b)
  then obtain ka kb where k: "k = KPair ka kb"
    by (cases k) (auto simp: index_insert_def tuple_mtable_def tuple_insert_method_def)
  then obtain q h1 where f: "first_level a b h p ka = Inr (q, h1)" "index_insert (schema_of b) h1 q kb v = Inr r"
    using Pair_shape.prems by (auto simp del: schema_of.simps simp: insert_pair rbind_eq_Inr)
  have h1: "kaddr h1 = kaddr h"
    using f(1) by (auto simp: first_level_def rbind_eq_Inr split: if_splits dest!: kaddr_new kaddr_insert)
  have "cast_key a h ka \<noteq> None"
  proof
    assume none: "cast_key a h ka = None"
    then obtain h0 q0 h2 w where new: "index_new (schema_of b) h = Inr (q0, h0)"
      "index_insert (schema_of a) h0 p ka q0 = Inr (w, h2)"
      using f(1) no_cast_lookup[OF none] by (auto simp: first_level_def rbind_eq_Inr split: if_splits)
    from Pair_shape.IH(1)[OF new(2)] show False using none cast_cong[OF kaddr_new[OF new(1)]] by simp
  qed
  moreover have "cast_key b h kb \<noteq> None" using Pair_shape.IH(2)[OF f(2)] cast_cong[OF h1] by simp
  ultimately show ?case by (auto simp: k)
qed (auto simp: index_ops rbind_eq_Inr split: key.splits if_splits)

text \<open>The contract of an index, for every key.\<close>

lemma schema_any_key:
  assumes "heap_ok h" and "shape_rep d h p F m" and "shape_cost d \<le> omem h"
  shows "case cast_key d h k of
      None \<Rightarrow> (\<exists>e. index_insert (schema_of d) h p k v = Inl e) \<and>
        index_lookup (schema_of d) h p k \<in> {Inr NULL} \<union> range Inl
    | Some k' \<Rightarrow>
        index_lookup (schema_of d) h p k = Inr (case m k' of None \<Rightarrow> NULL | Some w \<Rightarrow> w) \<and>
        (\<exists>h' F'. index_insert (schema_of d) h p k v = Inr (case m k' of None \<Rightarrow> NULL | Some w \<Rightarrow> w, h') \<and>
           shape_rep d h' p F' (m(k' \<mapsto> v)))"
proof (cases "cast_key d h k")
  case None
  have "\<exists>e. index_insert (schema_of d) h p k v = Inl e"
    using no_cast_insert[of d h p k v] None by (cases "index_insert (schema_of d) h p k v") auto
  moreover have "index_lookup (schema_of d) h p k \<in> {Inr NULL} \<union> range Inl"
    using no_cast_lookup[OF None, of p] by (cases "index_lookup (schema_of d) h p k") auto
  ultimately show ?thesis using None by simp
next
  case (Some k')
  note contract = schema_of_contract[of d] and v = cast_is_valid[OF Some]
  show ?thesis
    using Some cast_lookup[OF Some] cast_insert[OF Some] index_schema.lookup_law[OF contract assms(2) v]
      index_schema.insert_law[OF contract assms(1,2) v assms(3)] by fastforce
qed

end
