(* ===== verification/Spec2Isabelle.thy ===== *)
theory Spec2Isabelle
  imports Relation_Delete Index_Int Kv_Store Fo_Index Malloc Db_Join Verif_Put Bst_Free Seq_Scan Str_Cursor Kv_Map Tuple_Type
begin

text \<open>
DeepSpecDB is a main-memory database in C. This development models its C code and proves
  that the parts do what they promise.

  The parts. \<open>src/src/btrees and tries (Adewale)\<close> holds the storage: B+-trees with cursors
  (\<open>relation_mem.c\<close>, called relations), an integer index on top of them (\<open>index_int.c\<close>), range
  queries (\<open>relapps.c\<close>), and a trie of B+-trees for string keys (\<open>kvstore.c\<close>, with \<open>bordernode.c\<close>,
  \<open>stringbag.c\<close>, \<open>permuter.c\<close> and \<open>util.c\<close>). \<open>src/tuplekey\<close> has hash tables, string lists and the
  schemas that nest them into indexes on tuples. \<open>src/src/low level algos (Pablo)\<close> has the query
  operators that scan relations, build indexes on tuples and join. \<open>src/memmgr\<close> is the memory
  allocator, \<open>src/concurrency\<close> a concurrent search tree with a lock in every box, and
  \<open>src/verif/btrees\<close> the version of \<open>relation_mem.c\<close> prepared for verification.

  How the code is modelled. \<open>Prelude\<close> has the result type: every C function that can go wrong
  returns a value or the reason why the C program has no defined behaviour or stops (a NULL or wild
  pointer, an array index out of bounds, uninitialised memory, a failed \<open>assert\<close>, \<open>exit(1)\<close>). A heap is a
  record of maps from addresses to objects, one map for each C type; memory that \<open>malloc\<close> may still
  hand out is a counter, or a flag where there is one allocation, so running out of memory is a branch of
  every allocating function: it exits, returns NULL, or writes through NULL where the C code does not test
  the result (\<open>build_keypair\<close>, \<open>tuple_schema\<close>, \<open>UTIL_KeySliceToStr\<close>, \<open>UTIL_UlToStr\<close> and the caller of
  \<open>UTIL_ResizeArray\<close>). Loops and
  recursion that follow pointers run on fuel; the theorems give fuel that is enough. Keys are \<open>64 word\<close>,
  characters are \<open>8 word\<close>, and arithmetic wraps where C wraps. Cursors and nodes are changed by
  explicit passing of the heap.

  The theories.
  \<open>Relation_Mem\<close> has the types of \<open>relation_mem.c\<close>, its descent and cursor functions; \<open>Relation_Put\<close>
  \<open>splitnode\<close>, \<open>putEntry\<close> and \<open>RL_PutRecord\<close>; \<open>Relation_Delete\<close> deletion of a relation.
  \<open>Relation_Node\<close>, \<open>Relation_Tree\<close>, \<open>Relation_Path\<close>, \<open>Relation_Search\<close> and \<open>Relation_Cursor\<close> hold the
  invariant of nodes, the trees that the heap represents and the positions of cursors in them, with
  the lemmas on search and cursor moves; \<open>Relation_Ins\<close> and \<open>Relation_Insert\<close> the lemmas on insertion and
  splitting; \<open>Relation_Access\<close> and \<open>Relation_Api\<close> the locale \<open>ordered_table\<close>, the contract of a table
  with cursors, interpreted on the functions of \<open>relation_mem.c\<close>. \<open>Index_Int\<close> and the range query in it
  use that contract only.
  \<open>Verif_Mem\<close> models \<open>verif/btrees/relation_mem.c\<close>, which keeps a flag \<open>First\<close> and \<open>Last\<close> in each node;
  \<open>Verif_Read\<close> and \<open>Verif_Put\<close> prove that its operations are those of \<open>relation_mem.c\<close> on the
  same tree without the flags, and interpret \<open>ordered_table\<close> a second time.
  \<open>Kv_Util\<close>, \<open>Kv_Data\<close> and \<open>Kv_Store\<close> model the string store, from bytes and key slices to the trie.
  \<open>Kv_Trie\<close> sees its border nodes as those of the theories on tries below and says what the steps of
  \<open>KV_Put\<close> do to a trie, \<open>Kv_Two\<close> proves \<open>KV_Get\<close> and the rounds of \<open>KV_Put\<close> that have two keys, \<open>Kv_Insert\<close> the
  loop of \<open>KV_Put\<close>, and \<open>Kv_Map\<close> states the result for a store as a map. Two keys clash when their
  suffixes end in the same slice: then \<open>KV_Put\<close> stores one of the values under the wrong key.
  \<open>Str_Index\<close> models \<open>index_string.c\<close>, a second trie over strings: every layer is an integer index on
  slices of eight bytes, whose records are border nodes. The integer index is a record of operations,
  because \<open>index_string.c\<close> only calls it through \<open>index_int.h\<close>; the locale \<open>int_indexes\<close> in \<open>Str_Trie\<close> states what
  they promise, and \<open>Str_Relation\<close> interprets it on \<open>relation_mem.c\<close>. \<open>Str_Border\<close> and \<open>Str_Trie\<close> hold the
  invariant and the map from strings to values that a trie represents, \<open>Str_Pair\<close> and \<open>Str_Put\<close> prove that
  \<open>put\<close> changes that map at one key, and \<open>Str_Cursor\<close> shows where \<open>make_cursor\<close> overflows its buffer.
  \<open>Tuple_Index\<close> models \<open>src/tuplekey\<close>; \<open>Tuple_Laws\<close> and \<open>Tuple_Pair\<close> have the contract of a schema and
  prove it for hash tables, string lists and every nesting of them,
  \<open>Tuple_Type\<close> what each schema takes an untyped key for. The address of a key that is not an integer is a
  field of the heap that no operation changes, and any address is possible. \<open>Fo_Index\<close> is \<open>fo_index.c\<close>.
  \<open>Fifo\<close> models the queues, \<open>Db_Ops\<close> the query operators; \<open>Db_Laws\<close> and \<open>Db_Join\<close> prove the index
  scan and the index join. \<open>Seq_Scan\<close> is the scan over index objects in \<open>db_seq_scan.c\<close>.
  \<open>Malloc\<close> models the allocator, \<open>Bst_Conc\<close> the concurrent tree as a step relation of interleaved
  threads, which must hold a lock to release or free it, with its invariant in \<open>Bst_Tree\<close>, \<open>Bst_Inv\<close>, \<open>Bst_Steps\<close>, \<open>Bst_Change\<close> and \<open>Bst_Rotate\<close>,
  linearizability in \<open>Bst_Lin\<close>, progress in \<open>Bst_Progress\<close> and the release of a tree in \<open>Bst_Free\<close>.

  Bounds. A relation may hold up to \<open>14 * 8 ^ 18\<close> records, because a cursor has room for
  \<open>MAX_TREE_DEPTH\<close> levels; the theorems on insertion assume fewer records and enough memory.
  \<open>KV_Put\<close> strips eight bytes of the key per layer and takes at most two rounds in the last one, so fuel
  of the key's length divided by 8, plus 3, is enough.

  Not modelled: printing and the test programs; \<open>mmap\<close>, a parameter of the allocator;
  \<open>BN_CompareSuffix\<close>, which no file defines, a parameter of the trie; the copies of
  \<open>src/tuplekey\<close> in another directory; \<open>verifiable.c\<close>, which repeats \<open>kvstore.c\<close>, \<open>bordernode.c\<close> and parts of
  \<open>util.c\<close> in one file; \<open>db_index_join.c\<close>, which does not
  compile; functions that are only declared.
\<close>

section \<open>B+-tree relations\<close>

text \<open>C1: \<open>RL_PutRecord\<close> never fails while memory and the record limit allow, keeps the
  invariant of the B+-tree, updates the sorted list of records like a sorted association list, and
  leaves the cursor behind the record it wrote.\<close>

theorem relation_put:
  assumes "rl_inv s a" and "rl_pos a c p" and "rl_room (Suc n) s"
  shows "\<exists>s' c' a'. RL_PutRecord s c k v = Inr (s', c') \<and> rl_inv s' a' \<and>
    rl_recs a' = alist_put k v (rl_recs a) \<and>
    rl_pos a' c' (Suc (rec_ix (map fst (rl_recs a)) k)) \<and> rl_room n s'"
  using assms by (rule rt.put_law)

lemma relation_put_witness:
  "\<exists>s c s' c' a'. RL_PutRecord s c 2 25 = Inr (s', c') \<and> rl_inv s' a' \<and>
    rl_recs a' = [(1, 10), (2, 25), (3, 30)]"
proof -
  have "sorted_keys [(1 :: ckey, 10 :: nat), (3, 30)]" "length [(1 :: ckey, 10 :: nat), (3, 30)] + Suc 0 \<le> record_limit"
    by (simp_all add: record_limit_def)
  from table_exists[OF this] obtain s c a p where t: "rl_inv s a" "rl_recs a = [(1, 10), (3, 30)]"
    "rl_pos a c p" "rl_room (Suc 0) s" .
  obtain s' c' a' where p: "RL_PutRecord s c 2 25 = Inr (s', c')" "rl_inv s' a'"
    "rl_recs a' = alist_put 2 25 (rl_recs a)"
    using relation_put[OF t(1,3,4), of 2 25] by blast
  have "rl_recs a' = [(1, 10), (2, 25), (3, 30)]" using p(3) by (simp add: t(2))
  with p(1,2) show ?thesis by blast
qed

text \<open>C2: after any sequence of puts into a new relation, \<open>RL_MoveToKey\<close> tells whether
  the key was put, and \<open>RL_GetRecord\<close> then returns the value put last under it.\<close>

theorem relation_puts_lookup:
  assumes "RL_NewRelation m = Some s0" and "arrays_ok c0"
    and "20 * length kvs + 3 \<le> m" and "length kvs \<le> record_limit"
  shows "\<exists>c s s' c' c1. RL_NewCursor c0 s0 = Inr (Some c, s) \<and>
    put_list RL_PutRecord s c kvs = Inr (s', c') \<and>
    RL_MoveToKey s' c' k = Inr (map_of (rev kvs) k \<noteq> None, c1) \<and>
    (\<forall>v. map_of (rev kvs) k = Some v \<longrightarrow> (\<exists>c2. RL_GetRecord s' c1 = Inr (v, c2)))"
proof -
  obtain c s s' c' a p where t: "RL_NewCursor c0 s0 = Inr (Some c, s)"
    "put_list RL_PutRecord s c kvs = Inr (s', c')" "rl_inv s' a"
    "rl_recs a = alist_puts kvs []" "rl_pos a c' p"
    using new_table_puts[OF assms(1,2), of kvs 0] assms(3,4) by auto
  have m: "map_of (rl_recs a) = map_of (rev kvs)" by (simp add: t(4) map_of_alist_puts)
  obtain c1 where c1: "RL_MoveToKey s' c' k = Inr (k \<in> fst ` set (rl_recs a), c1)"
    using rt.to_key_law[OF t(3,5), of k] by blast
  have mem: "k \<in> fst ` set (rl_recs a) \<longleftrightarrow> map_of (rev kvs) k \<noteq> None"
    by (simp flip: m add: map_of_eq_None_iff)
  have "\<exists>c2. RL_GetRecord s' c1 = Inr (v, c2)" if v: "map_of (rev kvs) k = Some v" for v
    using rt.lookup[OF t(3,5), of k v] v c1 m by auto
  with t(1,2) c1 show ?thesis unfolding mem by blast
qed

lemma relation_puts_lookup_witness:
  "\<exists>s c s' c' c1 c2. put_list RL_PutRecord s c [(7, 1), (3, 2), (7, 5)] = Inr (s', c') \<and>
     RL_MoveToKey s' c' 7 = Inr (True, c1) \<and> RL_GetRecord s' c1 = Inr (5, c2)"
proof -
  let ?kvs = "[(7 :: ckey, 1 :: nat), (3, 2), (7, 5)]"
  have "arrays_ok \<lparr>level = 0, ancestorsIdx = replicate 20 0, ancestors = replicate 20 0\<rparr>"
    by (simp add: arrays_ok_def)
  then obtain c0 where "arrays_ok c0" by blast
  moreover obtain s0 where s0: "RL_NewRelation 100 = Some s0" using RL_NewRelation_Some[of 100] by auto
  moreover have "20 * length ?kvs + 3 \<le> 100" "length ?kvs \<le> record_limit" by (simp_all add: record_limit_def)
  ultimately obtain c s s' c' c1 where w: "put_list RL_PutRecord s c ?kvs = Inr (s', c')"
    "RL_MoveToKey s' c' 7 = Inr (map_of (rev ?kvs) 7 \<noteq> None, c1)"
    "\<forall>v. map_of (rev ?kvs) 7 = Some v \<longrightarrow> (\<exists>c2. RL_GetRecord s' c1 = Inr (v, c2))"
    using relation_puts_lookup[of 100 s0 c0 ?kvs 7] by blast
  have "map_of (rev ?kvs) 7 = Some 5" by simp
  with w(3) obtain c2 where c2: "RL_GetRecord s' c1 = Inr (5, c2)" by blast
  have found: "(map_of (rev ?kvs) 7 \<noteq> None) = True" by simp
  show ?thesis using w(1) w(2)[unfolded found] c2 by blast
qed

text \<open>C3: a scan of a relation with \<open>RL_MoveToFirst\<close>, \<open>RL_GetRecord\<close> and
  \<open>RL_MoveToNext\<close> returns every record once, in the order of the keys, and then the cursor is
  invalid.\<close>

theorem relation_scan:
  assumes "rl_inv s a" and "rl_pos a c p"
  shows "\<exists>c1 c2. RL_MoveToFirst s c = Inr (rl_recs a \<noteq> [], c1) \<and>
    read_list RL_GetRecord RL_MoveToNext s c1 (length (rl_recs a)) = Inr (map snd (rl_recs a), c2) \<and>
    RL_CursorIsValid s c2 = Inr False"
  using assms by (rule rt.full_scan)

lemma relation_scan_witness:
  "\<exists>s c c1 c2. RL_MoveToFirst s c = Inr (True, c1) \<and>
    read_list RL_GetRecord RL_MoveToNext s c1 3 = Inr ([30, 20, 10], c2)"
proof -
  let ?kvs = "[(1 :: ckey, 30 :: nat), (5, 20), (9, 10)]"
  have "sorted_keys ?kvs" "length ?kvs + 0 \<le> record_limit" by (simp_all add: record_limit_def)
  from table_exists[OF this] obtain s c a p where t: "rl_inv s a" "rl_recs a = ?kvs" "rl_pos a c p" .
  have "length ?kvs = 3" "map snd ?kvs = [30, 20, 10]" "(?kvs \<noteq> []) = True" by simp_all
  note eqs = this
  show ?thesis using relation_scan[OF t(1,3)] unfolding t(2) eqs by blast
qed

text \<open>C4: a tree of height \<open>h + 1\<close> holds at least \<open>14 * 8 ^ h\<close> records, so the arrays of
  a cursor, which have \<open>MAX_TREE_DEPTH\<close> = 20 entries, are long enough for every path up to
  \<open>14 * 8 ^ 18\<close> records.\<close>

theorem relation_height:
  assumes "rel_inv s h t"
  shows "(case h of 0 \<Rightarrow> True | Suc h' \<Rightarrow> 14 * 8 ^ h' \<le> numRecords s) \<and>
    (numRecords s < 14 * 8 ^ 18 \<longrightarrow> depth s + 1 < MAX_TREE_DEPTH)"
  using height_bound[of s _ t] height_below_limit[OF assms] assms rel_invD(6)[OF assms]
  by (cases h) (auto simp: record_limit_def rel_inv_def MAX_TREE_DEPTH_def)

lemma relation_height_witness:
  "\<exists>s. RL_NewRelation 5 = Some s \<and> depth s + 1 < MAX_TREE_DEPTH"
proof -
  obtain s where s: "RL_NewRelation 5 = Some s" using RL_NewRelation_Some[of 5] by auto
  then have "numRecords s < 14 * 8 ^ 18"
    using rel_invD(6)[OF RL_NewRelation_inv(1)[OF s]] by simp
  then show ?thesis using relation_height[OF RL_NewRelation_inv(1)[OF s]] s by simp
qed

text \<open>C5: a cursor behind the last record is not valid, and reading the record,
  the key or the entry through it fails the assertion; on a valid one the read succeeds.\<close>

theorem relation_invalid_cursor:
  assumes "rl_inv s a" and "rl_pos a c p"
  shows "RL_CursorIsValid s c = Inr (p < length (rl_recs a)) \<and>
    (RL_GetKey s c = Inl AssertFail \<longleftrightarrow> p = length (rl_recs a)) \<and>
    (p < length (rl_recs a) \<longrightarrow> (\<exists>c'. RL_GetKey s c = Inr (fst (rl_recs a ! p), c')))"
  using rt.is_valid_iff[OF assms] rt.pos_le[OF assms] rt.get_key_law[OF assms]
    rt.get_key_invalid[OF assms(1), of c] assms(2) by (cases "p < length (rl_recs a)") auto

lemma relation_invalid_cursor_witness:
  "\<exists>s c. RL_CursorIsValid s c = Inr False \<and> RL_GetKey s c = Inl AssertFail"
proof -
  have "sorted_keys ([] :: kvs)" "length ([] :: kvs) + 0 \<le> record_limit" by simp_all
  from table_exists_first[OF this] obtain s c a where t: "rl_inv s a" "rl_recs a = []" "rl_pos a c 0" .
  then show ?thesis using relation_invalid_cursor[OF t(1,3)] by auto
qed

text \<open>C6: \<open>RL_DeleteRelation\<close> calls the callback on every record once, in the order of the
  keys, and frees every node but the root.\<close>

theorem relation_delete:
  assumes "rel_inv s h t"
  shows "handleDeleteBtree (Suc h) s (root s) True
    = Inr (freed s (set (addrs t) - {root s}), map snd (contents t))"
proof -
  note inv = rel_invD[OF assms]
  have "addrs t = root s # tl (addrs t)" by (cases t) (simp_all add: inv(3))
  then have "set (tl (addrs t)) = set (addrs t) - {root s}"
    using inv(4) by (metis Diff_insert_absorb distinct.simps(2) list.simps(15))
  then show ?thesis using handleDeleteBtree_correct[OF inv(1,2,4)] inv(3) by simp
qed

lemma relation_delete_witness:
  "\<exists>s h t. contents t = [(4, 8)] \<and> handleDeleteBtree (Suc h) s (root s) True
    = Inr (freed s (set (addrs t) - {root s}), [8])"
proof -
  have "sorted_keys [(4 :: ckey, 8 :: nat)]" "length [(4 :: ckey, 8 :: nat)] + 0 \<le> record_limit"
    by (simp_all add: record_limit_def)
  from table_exists[OF this] obtain s c a p where t: "rl_inv s a" "rl_recs a = [(4, 8)]" "rl_pos a c p" .
  then have "rel_inv s (fst a) (snd a)" "contents (snd a) = [(4, 8)]" by (simp_all add: rl_inv_def rl_recs_def)
  with relation_delete[of s "fst a" "snd a"] show ?thesis by (metis list.simps(8,9) snd_conv)
qed

section \<open>Index interface and range queries\<close>

text \<open>C7: through \<open>index_int.c\<close>, a value that was just put is found again under its key;
  \<open>Iget_value\<close> reports success exactly when the value is not NULL.\<close>

theorem index_put_lookup:
  assumes "rl_inv s a" and "rl_pos a c p" and "rl_room (Suc n) s"
  shows "\<exists>s1 c1 c2 c3. Iput s k v c = Inr (s1, c1) \<and> Imove_cursor s1 k (Some c1) = Inr (Some c2) \<and>
    Iget_value s1 (Some c2) = Inr (v \<noteq> NULL, Some v, c3)"
  using assms by (rule Iput_Imove)

lemma index_put_lookup_witness:
  "\<exists>s c s1 c1 c2 c3. Iput s 6 0 c = Inr (s1, c1) \<and> Imove_cursor s1 6 (Some c1) = Inr (Some c2) \<and>
    Iget_value s1 (Some c2) = Inr (False, Some 0, c3)"
proof -
  have "sorted_keys ([] :: kvs)" "length ([] :: kvs) + Suc 0 \<le> record_limit" by (simp_all add: record_limit_def)
  from table_exists[OF this] obtain s c a p where t: "rl_inv s a" "rl_pos a c p" "rl_room (Suc 0) s" .
  have "((0 :: nat) \<noteq> NULL) = False" by simp
  with index_put_lookup[OF t, of 6 0] show ?thesis by metis
qed

text \<open>C8: \<open>Ilast_cursor\<close> returns (the loop ends) with the cursor on the last record of a
  non-empty relation.\<close>

theorem index_last:
  assumes "rl_inv s a" and "rl_pos a c p" and "rl_recs a \<noteq> []" and "length (rl_recs a) < fuel"
  shows "\<exists>c'. Ilast_cursor fuel s (Some c) = Inr (Some c') \<and> rl_pos a c' (length (rl_recs a) - 1)"
  using assms by (rule Ilast_cursor_pos)

lemma index_last_witness:
  "\<exists>s c c' c''. Ilast_cursor 3 s (Some c) = Inr (Some c') \<and> RL_GetKey s c' = Inr (9, c'')"
proof -
  let ?kvs = "[(5 :: ckey, 1 :: nat), (9, 2)]"
  have "sorted_keys ?kvs" "length ?kvs + 0 \<le> record_limit" by (simp_all add: record_limit_def)
  from table_exists[OF this] obtain s c a p where t: "rl_inv s a" "rl_recs a = ?kvs" "rl_pos a c p" .
  have n: "rl_recs a \<noteq> []" "length (rl_recs a) < 3" "length (rl_recs a) - 1 = 1" by (simp_all add: t(2))
  obtain c' where c': "Ilast_cursor 3 s (Some c) = Inr (Some c')" "rl_pos a c' 1"
    using index_last[OF t(1,3) n(1,2)] unfolding n(3) by blast
  have "1 < length (rl_recs a)" "fst (rl_recs a ! 1) = 9" by (simp_all add: t(2))
  with rt.get_key_law[OF t(1) c'(2)] obtain c'' where "RL_GetKey s c' = Inr (9, c'')" by metis
  with c'(1) show ?thesis by blast
qed

text \<open>C9: \<open>RLAPP_RangeQuery\<close> returns NULL without memory for its array. It fails an assertion when
  every key is below the range, writes through NULL when more than two records are in the range and
  \<open>realloc\<close> fails, writes past its array when more than four records are in the range, and otherwise
  returns exactly the records in the range, in order. \<open>mem\<close> is the number of allocations that succeed.\<close>

theorem range_query:
  fixes lower upper :: ckey
  assumes "rl_inv s a" and "rl_pos a c p" and "p < length (rl_recs a)" and "length (rl_recs a) < fuel"
  defines "q \<equiv> filter (\<lambda>kv. lower \<le> fst kv \<and> fst kv \<le> upper) (rl_recs a)"
  shows "if mem = 0 then RLAPP_RangeQuery fuel mem s c lower upper = Inr (None, 0, c)
    else if \<forall>k \<in> fst ` set (rl_recs a). k < lower
    then RLAPP_RangeQuery fuel mem s c lower upper = Inl AssertFail
    else if mem = 1 \<and> 2 < length q then RLAPP_RangeQuery fuel mem s c lower upper = Inl NullDeref
    else if 4 < length q then RLAPP_RangeQuery fuel mem s c lower upper = Inl OutOfBounds
    else \<exists>records c'. RLAPP_RangeQuery fuel mem s c lower upper
        = Inr (if q = [] then None else Some records, length q, c') \<and>
      take (length q) records = map (Some \<circ> snd) q"
  using RLAPP_RangeQuery_correct[OF assms(1-4)] unfolding q_def .

lemma range_query_witness:
  "\<exists>s c. RLAPP_RangeQuery 9 2 s c 1 5 = Inl OutOfBounds \<and>
     RLAPP_RangeQuery 9 2 s c 6 9 = Inl AssertFail \<and>
     RLAPP_RangeQuery 9 1 s c 2 4 = Inl NullDeref \<and>
     (\<exists>records c'. RLAPP_RangeQuery 9 2 s c 2 4 = Inr (Some records, 3, c') \<and>
        take 3 records = [Some 20, Some 30, Some 40])"
proof -
  let ?kvs = "[(1 :: ckey, 10 :: nat), (2, 20), (3, 30), (4, 40), (5, 50)]"
  have "sorted_keys ?kvs" "length ?kvs + 0 \<le> record_limit" by (simp_all add: record_limit_def)
  from table_exists_first[OF this] obtain s c a where t: "rl_inv s a" "rl_recs a = ?kvs" "rl_pos a c 0" .
  have len: "0 < length (rl_recs a)" "length (rl_recs a) < 9" by (simp_all add: t(2))
  note q = range_query[OF t(1,3) len, unfolded t(2)]
  have "RLAPP_RangeQuery 9 2 s c 1 5 = Inl OutOfBounds" using q[of 2 1 5] by simp
  moreover have "RLAPP_RangeQuery 9 2 s c 6 9 = Inl AssertFail" using q[of 2 6 9] by simp
  moreover have f: "filter (\<lambda>kv. 2 \<le> fst kv \<and> fst kv \<le> 4) ?kvs = [(2, 20), (3, 30), (4, 40)]"
    by (simp add: word_le_nat_alt)
  have l: "length [(2 :: ckey, 20 :: nat), (3, 30), (4, 40)] = 3"
    "map (Some \<circ> snd) [(2 :: ckey, 20 :: nat), (3, 30), (4, 40)] = [Some 20, Some 30, Some 40]" by simp_all
  have "RLAPP_RangeQuery 9 1 s c 2 4 = Inl NullDeref" using q[of 1 2 4] unfolding f l by simp
  moreover have "\<exists>records c'. RLAPP_RangeQuery 9 2 s c 2 4 = Inr (Some records, 3, c') \<and>
        take 3 records = [Some 20, Some 30, Some 40]"
    using q[of 2 2 4] unfolding f l by (simp del: take_Suc_Cons)
  ultimately show ?thesis by blast
qed

section \<open>Tuple indexes\<close>

text \<open>C10: an insertion into a hash table returns the old value of the key, changes the
  represented map at that key only, keeps every key in its bucket once, and changes no other
  object.\<close>

theorem inthash_contract:
  assumes "heap_ok h" and "int_rep h p F m" and "0 < omem h"
  shows "\<exists>h'. inthash_insert h p n v = Inr (case m (KInt n) of None \<Rightarrow> NULL | Some v \<Rightarrow> v, h') \<and>
    int_rep h' p F (m(KInt n \<mapsto> v)) \<and> table_step h F h' F 1"
  using assms by (rule inthash_insert_correct)

lemma inthash_contract_witness:
  "\<exists>h p h'. inthash_insert h p 3 44 = Inr (NULL, h') \<and> inthash_lookup h' p 3 = Inr 44"
proof -
  let ?h = "\<lparr>objs = Map.empty, ofresh = 1, omem = 2, kaddr = \<lambda>_. 0\<rparr>"
  have ok: "heap_ok ?h" by (simp add: heap_ok_def)
  then obtain p h F where t: "int_rep h p F Map.empty" "heap_ok h" "2 \<le> omem h + 1"
    using inthash.new_law[OF ok] by (auto simp: table_step_def)
  then obtain h' where h': "inthash_insert h p 3 44 = Inr (NULL, h')" "int_rep h' p F [KInt 3 \<mapsto> 44]"
    using inthash_contract[OF t(2,1), of 3 44] by auto
  then show ?thesis using inthash.lookup_law[OF h'(2), of "KInt 3"]
    by (auto simp: valid_int_def index_lookup_def inthash_schema_def inthash_lookup_method_def)
qed

text \<open>C11: for every schema that can be built from hash tables, string lists and pairs, a new
  index into which any key-value pairs were inserted returns, for every key of the schema, the
  value inserted last under it, or NULL.\<close>

theorem schema_inserts:
  assumes "heap_ok h" and "Suc (length kvs) * shape_cost d \<le> omem h" and "\<forall>kv \<in> set kvs. valid_key d (fst kv)"
  shows "\<exists>p h1 h2. index_new (schema_of d) h = Inr (p, h1) \<and> insert_all (schema_of d) h1 p kvs = Inr h2 \<and>
    (\<forall>k. valid_key d k \<longrightarrow>
       index_lookup (schema_of d) h2 p k = Inr (case map_of (rev kvs) k of None \<Rightarrow> NULL | Some v \<Rightarrow> v))"
proof -
  note contract = schema_of_contract[of d]
  have "shape_cost d \<le> omem h" using assms(2) by simp
  then obtain p h1 F where n: "index_new (schema_of d) h = Inr (p, h1)" "shape_rep d h1 p F Map.empty"
    "table_step h {} h1 F (shape_cost d)"
    using index_schema.new_law[OF contract assms(1)] by blast
  have "length kvs * shape_cost d \<le> omem h1" using table_stepD(6)[OF n(3)] assms(2) by simp
  then obtain h2 F' where h2: "insert_all (schema_of d) h1 p kvs = Inr h2" "shape_rep d h2 p F' (map_of (rev kvs))"
    using index_schema.insert_all_rep[OF contract table_stepD(1)[OF n(3)] n(2) assms(3)] by auto
  then show ?thesis using n(1) index_schema.lookup_law[OF contract h2(2)] by blast
qed

lemma schema_inserts_witness:
  "\<exists>p h1 h2. insert_all (schema_of (Pair_shape Int_shape Str_shape)) h1 p
       [(KPair (KInt 1) (KStr ''a''), 7), (KPair (KInt 1) (KStr ''b''), 8)] = Inr h2 \<and>
     index_lookup (schema_of (Pair_shape Int_shape Str_shape)) h2 p (KPair (KInt 1) (KStr ''a'')) = Inr 7 \<and>
     index_lookup (schema_of (Pair_shape Int_shape Str_shape)) h2 p (KPair (KInt 2) (KStr ''a'')) = Inr NULL"
proof -
  let ?h = "\<lparr>objs = Map.empty, ofresh = 1, omem = 20, kaddr = \<lambda>_. 0\<rparr>"
  let ?d = "Pair_shape Int_shape Str_shape"
  let ?kvs = "[(KPair (KInt 1) (KStr ''a''), 7), (KPair (KInt 1) (KStr ''b''), 8)] :: (key \<times> addr) list"
  have v: "valid_key ?d (KPair (KInt n) (KStr s))" for n s
    by (simp add: valid_pair_def valid_int_def valid_str_def)
  have ok: "heap_ok ?h" "Suc (length ?kvs) * shape_cost ?d \<le> omem ?h" by (simp_all add: heap_ok_def)
  have vs: "\<forall>kv \<in> set ?kvs. valid_key ?d (fst kv)" using v by (simp del: valid_key.simps)
  obtain p h1 h2 where w: "insert_all (schema_of ?d) h1 p ?kvs = Inr h2"
    "\<forall>k. valid_key ?d k \<longrightarrow> index_lookup (schema_of ?d) h2 p k = Inr (case map_of (rev ?kvs) k of None \<Rightarrow> NULL | Some v \<Rightarrow> v)"
    using schema_inserts[OF ok vs] by blast
  have "(case map_of (rev ?kvs) (KPair (KInt 1) (KStr ''a'')) of None \<Rightarrow> NULL | Some v \<Rightarrow> v) = 7"
    "(case map_of (rev ?kvs) (KPair (KInt 2) (KStr ''a'')) of None \<Rightarrow> NULL | Some v \<Rightarrow> v) = NULL" by simp_all
  with w v show ?thesis by metis
qed



text \<open>C13: \<open>index_insert\<close> of \<open>fo_index.c\<close> cannot add a key: on a key that the index does not
  hold it runs into \<open>exit(1)\<close>, whatever the value.\<close>

theorem fo_insert_exits:
  assumes "heap_ok h" and "ind \<noteq> NULL" and "fits sch vk" and "fo_index_lookup h sch ind vk = Inr NULL"
  shows "fo_index_insert h sch ind vk v = Inl ExitFailure"
  using assms by (rule insert_absent_exits)

lemma fo_insert_exits_witness:
  "\<exists>h ind. fo_index_lookup h [desc_Int, desc_End] ind [KInt 3] = Inr NULL \<and>
     fo_index_insert h [desc_Int, desc_End] ind [KInt 3] 5 = Inl ExitFailure"
proof -
  let ?h = "\<lparr>objs = [1 \<mapsto> IntHash (replicate 10 [])], ofresh = 2, omem = 9, kaddr = \<lambda>_. 0\<rparr>"
  have "fo_index_lookup ?h [desc_Int, desc_End] 1 [KInt 3] = Inr NULL"
    by (simp add: inthash_lookup_def buckets_at_def aget_def)
  moreover have "heap_ok ?h" by (simp add: heap_ok_def)
  ultimately show ?thesis using fo_insert_exits[of ?h 1 "[desc_Int, desc_End]" "[KInt 3]" 5] by auto
qed

section \<open>Strings and key slices\<close>

text \<open>C14: up to eight bytes of a string survive the conversion to a key slice and back. Without
  memory the conversion back writes through NULL, or returns NULL for an empty string.\<close>

theorem keyslice_roundtrip:
  assumes "len \<le> 8" and "len \<le> length str"
  shows "\<exists>s. UTIL_GetNextKeySlice str len = Inr s \<and> UTIL_KeySliceToStr True s (int len) = Inr (Some (take len str)) \<and>
    UTIL_KeySliceToStr False s (int len) = (if len = 0 then Inr None else Inl NullDeref)"
  using assms by (rule KeySlice_roundtrip)

lemma keyslice_roundtrip_witness:
  "\<exists>s. UTIL_GetNextKeySlice [104, 105, 33] 2 = Inr s \<and> UTIL_KeySliceToStr True s 2 = Inr (Some [104, 105])"
  using keyslice_roundtrip[of 2 "[104, 105, 33]"] by auto

text \<open>C15: key slices compare as unsigned integers the way the strings, padded with zeros, compare
  byte by byte, so a B+-tree ordered by slices is ordered by strings.\<close>

theorem keyslice_order:
  assumes "m \<le> 8" "m \<le> length a" and "n \<le> 8" "n \<le> length b"
  shows "\<exists>x y. UTIL_GetNextKeySlice a m = Inr x \<and> UTIL_GetNextKeySlice b n = Inr y \<and>
    (x < y \<longleftrightarrow> bytes_less (take m a @ replicate (8 - m) 0) (take n b @ replicate (8 - n) 0)) \<and>
    (x = y \<longleftrightarrow> take m a @ replicate (8 - m) 0 = take n b @ replicate (8 - n) 0)"
proof -
  have len: "length (take m a @ replicate (8 - m) (0 :: byte)) = 8" "length (take n b @ replicate (8 - n) (0 :: byte)) = 8"
    using assms by simp_all
  show ?thesis
    using GetNextKeySlice_val[OF assms(1,2)] GetNextKeySlice_val[OF assms(3,4)]
      bytes_val_less[of "take m a @ replicate (8 - m) 0" "take n b @ replicate (8 - n) 0"]
      bytes_val_inj[OF len] len by simp
qed

lemma keyslice_order_witness:
  "\<exists>x y. UTIL_GetNextKeySlice [1, 200] 2 = Inr x \<and> UTIL_GetNextKeySlice [2] 1 = Inr y \<and> x < y"
proof -
  have "bytes_less (take 2 [1, 200] @ replicate (8 - 2) 0) (take 1 [2] @ replicate (8 - 1) 0)"
    by (simp add: eval_nat_numeral)
  then show ?thesis using keyslice_order[of 2 "[1, 200]" 1 "[2]"] by auto
qed

text \<open>C16: on a sorted array \<open>UTIL_BinarySearch\<close> returns the index of the target when the range
  holds it and -1 otherwise, without overflow for arrays of up to half of \<open>INT_MAX\<close> entries.\<close>

theorem binary_search:
  assumes "sorted a" and "0 \<le> lo" and "hi \<le> int (length a)" and "2 * int (length a) \<le> INT_MAX"
  shows "\<exists>r. UTIL_BinarySearch a tgt lo hi = Inr r \<and>
    (if \<exists>i. lo \<le> i \<and> i < hi \<and> a ! nat i = tgt then lo \<le> r \<and> r < hi \<and> a ! nat r = tgt else r = - 1)"
  using assms by (rule UTIL_BinarySearch_correct)

lemma binary_search_witness:
  "\<exists>r. UTIL_BinarySearch [2, 3, 5, 9] 5 0 4 = Inr r \<and> [2, 3, 5, 9] ! nat r = (5 :: int)"
proof -
  have "\<exists>i. (0 :: int) \<le> i \<and> i < 4 \<and> [2, 3, 5, 9] ! nat i = (5 :: int)" by (rule exI[of _ 2]) simp
  then show ?thesis using binary_search[of "[2, 3, 5, 9]" 0 4 5] by auto
qed

text \<open>C17: \<open>UTIL_StrEqual\<close> compares the given prefixes, and \<open>KV_KeyEqual\<close> rests on it.\<close>

theorem string_equal:
  assumes "lenA \<le> length a" and "lenB \<le> length b"
  shows "UTIL_StrEqual a lenA b lenB = Inr (take lenA a = take lenB b)"
  using assms by (rule StrEqual_correct)

lemma string_equal_witness: "UTIL_StrEqual [1, 2, 3] 2 [1, 2] 2 = Inr True"
  using string_equal[of 2 "[1, 2, 3]" 2 "[1, 2]"] by simp

text \<open>C18: \<open>UTIL_Shuffle\<close> permutes its array, for every sequence of random numbers.\<close>

theorem shuffle_permutes:
  assumes "len \<le> length arr"
  shows "\<exists>arr'. UTIL_Shuffle arr len rand = Inr arr' \<and> mset arr' = mset arr"
  using assms by (rule UTIL_Shuffle_perm)

lemma shuffle_permutes_witness:
  "\<exists>arr'. UTIL_Shuffle [4, 5, 6] 3 (\<lambda>_. 7) = Inr arr' \<and> mset arr' = {#4, 5, 6#}"
  using shuffle_permutes[of 3 "[4, 5, 6]" "\<lambda>_. 7"] by simp

text \<open>C19: \<open>Permuter_set\<close> changes one slot of four bits and nothing else in slots 0 to 5; from slot 6
  on its mask \<open>15 << (i * 4 + 4)\<close> overflows \<open>int\<close>.\<close>

theorem permuter_set:
  assumes "j \<le> 14"
  shows "if i \<le> 5
    then \<exists>p'. Permuter_set p i v = Inr p' \<and>
      Permuter_get p' j = (if j = i then v AND 15 else Permuter_get p j) \<and> Permuter_size p' = Permuter_size p
    else Permuter_set p i v = Inl IntOverflow"
  using Permuter_set_get[of i j p v] Permuter_set_overflow[of i p v] assms by simp

lemma permuter_set_witness:
  "\<exists>p'. Permuter_set 0 2 9 = Inr p' \<and> Permuter_get p' 2 = 9 AND 15"
  using permuter_set[of 2 2 0 9] by auto

text \<open>C20: \<open>SB_Assign\<close> stores a string that fits, leaves every other string of the bag alone,
  and returns False and changes nothing when the bag is full.\<close>

theorem stringbag_assign:
  assumes "sb_ok b" and "p < length (sb_info b)" and "len \<le> length s"
  shows "\<exists>r b'. SB_Assign b p s len = Inr (r, b') \<and> sb_ok b' \<and> length (sb_info b') = length (sb_info b) \<and>
    SB_Get b' p = (if r then Inr (take len s) else SB_Get b p) \<and>
    (\<forall>q < length (sb_info b). q \<noteq> p \<longrightarrow> SB_Get b' q = SB_Get b q) \<and>
    (\<not> r \<longrightarrow> b' = b \<and> snd (sb_info b ! p) < len \<and> sb_capacity b < sb_size b + len)"
  using assms by (rule SB_Assign_ok)

lemma stringbag_assign_witness:
  "\<exists>b r b'. SB_Assign b 0 [7, 8] 2 = Inr (r, b') \<and> SB_Get b' 1 = Inr []"
proof -
  obtain buf :: "byte list" where buf: "length buf = 100" by (metis length_replicate)
  obtain b where b: "SB_NewStringBag (Some buf) 2 100 = Inr b" "sb_ok b" "\<forall>p < 2. SB_Get b p = Inr []"
    using SB_New_ok[of 2 100 buf] buf by auto
  have len: "length (sb_info b) = 2" using b(1) buf
    by (auto simp: SB_NewStringBag_def Let_def elim!: rbind_InrE split: if_splits)
  then have "0 < length (sb_info b)" "2 \<le> length [7 :: byte, 8]" by simp_all
  from stringbag_assign[OF b(2) this] obtain r b' where "SB_Assign b 0 [7, 8] 2 = Inr (r, b')"
    "\<forall>q < length (sb_info b). q \<noteq> 0 \<longrightarrow> SB_Get b' q = SB_Get b q" by blast
  moreover have "SB_Get b 1 = Inr []" using b(3) by simp
  ultimately show ?thesis using len by (intro exI[of _ b] exI[of _ r] exI[of _ b']) simp
qed

section \<open>The memory allocator\<close>

text \<open>C21: a call of \<open>malloc\<close> returns NULL and changes nothing, or a block of at least the size asked
  for, aligned to 16 bytes, apart from every allocated and every free block; the words mapped before
  keep their contents.\<close>

theorem malloc_safe:
  assumes "mem_inv st fl al" and "mmap_ok mmap0" and "n + 16 < SIZE_MOD"
  shows "malloc mmap0 st n = Inr (NULL, st) \<or>
    (\<exists>p st' s fl'. malloc mmap0 st n = Inr (p, st') \<and> p \<noteq> NULL \<and> p mod 16 = 0 \<and> n \<le> s \<and> al p = None \<and>
       mem_inv st' fl' (al(p \<mapsto> s)) \<and> (\<forall>a \<in> dom (words st). words st' a = words st a))"
proof -
  from malloc_inv[OF assms] show ?thesis
  proof (elim disjE exE conjE)
    fix p st' assume "malloc mmap0 st n = Inr (p, st')" "p \<noteq> NULL" "new_block st al n p st'"
    moreover from this(3) obtain s fl' where "al p = None" "n \<le> s" "p mod 16 = 0" "mem_inv st' fl' (al(p \<mapsto> s))"
      "\<forall>a \<in> dom (words st). words st' a = words st a"
      unfolding new_block_def by (elim exE conjE) (rule that)
    ultimately show ?thesis
      by (intro disjI2 exI[of _ p] exI[of _ st'] exI[of _ s] exI[of _ fl'] conjI)
  qed (rule disjI1)
qed

lemma malloc_safe_witness:
  "\<exists>p st' s fl'. malloc mmap_once mm_init 100 = Inr (p, st') \<and> p \<noteq> NULL \<and> p mod 16 = 0 \<and> mem_inv st' fl' [p \<mapsto> s]"
proof -
  have "(100 :: nat) + 16 < SIZE_MOD" by (simp add: SIZE_MOD_def)
  from malloc_safe[OF mm_init_inv mmap_once_ok this] malloc_once_not_null[OF this] show ?thesis
    by (elim disjE exE conjE) (erule notE, assumption, intro exI conjI, assumption+)
qed

text \<open>C22: \<open>free\<close> of an allocated block takes it back: the other blocks stay allocated and no word
  outside the block changes.\<close>

theorem free_safe:
  assumes "mem_inv st fl al" and "al p = Some s"
  shows "\<exists>st' fl'. free st p = Inr st' \<and> mem_inv st' fl' (al(p := None)) \<and>
    (\<forall>a. a \<notin> foot (p, s) \<longrightarrow> words st' a = words st a)"
  using assms by (rule free_inv)

lemma free_safe_witness:
  "\<exists>st p st' fl'. malloc mmap_once mm_init 1000 = Inr (p, st) \<and> free st p = Inr st' \<and> mem_inv st' fl' Map.empty"
proof -
  have "(1000 :: nat) + 16 < SIZE_MOD" by (simp add: SIZE_MOD_def)
  then obtain p st s fl where m: "malloc mmap_once mm_init 1000 = Inr (p, st)" "mem_inv st fl [p \<mapsto> s]"
    using malloc_once by blast
  from free_safe[OF m(2), of p s] obtain st' fl' where "free st p = Inr st'" "mem_inv st' fl' Map.empty" by auto
  with m(1) show ?thesis by blast
qed

text \<open>C23: a small block that was freed is the next one that \<open>malloc\<close> returns for a size of the same
  bin, without a call of \<open>mmap\<close>, and the free lists are then as before.\<close>

theorem free_malloc:
  assumes "mem_inv st fl al" and "al p = Some s" and "s \<le> 120" and "size2bin n = size2bin s"
  shows "\<exists>st1 st2. free st p = Inr st1 \<and> malloc mmap0 st1 n = Inr (p, st2) \<and> bin st2 = bin st"
  using assms by (rule free_malloc_same)

lemma free_malloc_witness:
  "\<exists>st st1 st2. free st 4112 = Inr st1 \<and> malloc (\<lambda>_ _. NULL) st1 115 = Inr (4112, st2)"
proof -
  let ?w = "\<lambda>a. if a = 4104 then Some 120 else if in_region a 4104 128 then Some 0 else None"
  let ?st = "\<lparr>words = ?w, bin = replicate 8 NULL\<rparr>" and ?al = "[4112 \<mapsto> 120] :: addr \<rightharpoonup> nat"
  have "blocks (\<lambda>_. []) ?al = {(4112, 120)}" by (auto simp: blocks_def split: if_splits)
  moreover have "foot (4112, 120) \<subseteq> dom ?w" by (auto simp: foot_def region_def)
  moreover have "\<exists>b < 8. 120 = bin2size b" by (intro exI[of _ 7]) (simp add: bin2size_eq)
  ultimately have "mem_inv ?st (\<lambda>_. []) ?al" by (simp add: mem_inv_def block_ok_def)
  then show ?thesis using free_malloc[of ?st "\<lambda>_. []" ?al 4112 120 115 "\<lambda>_ _. NULL"] by (auto simp: size2bin_eq)
qed

text \<open>C24: for a size within 16 bytes of the largest \<open>size_t\<close> the addition in \<open>malloc_large\<close> wraps:
  \<open>malloc\<close> returns a block although only one page is mapped.\<close>

theorem malloc_wraps:
  assumes "mmap_ok mmap0" and "SIZE_MOD - 16 < n" and "n < SIZE_MOD" and "mmap0 st (n + 16 - SIZE_MOD) = q" and "q \<noteq> NULL"
  shows "\<exists>st'. malloc mmap0 st n = Inr (q + 16, st') \<and> extends st st' (region q 4096)"
  using assms by (rule malloc_overflow)

lemma malloc_wraps_witness:
  "\<exists>st'. malloc mmap_once mm_init (SIZE_MOD - 1) = Inr (4112, st') \<and> extends mm_init st' (region 4096 4096)"
proof -
  have "mmap_once mm_init (SIZE_MOD - 1 + 16 - SIZE_MOD) = 4096"
    by (simp add: mmap_once_def mm_init_def SIZE_MOD_def)
  moreover have "SIZE_MOD - 16 < SIZE_MOD - 1" "SIZE_MOD - 1 < SIZE_MOD" by (simp_all add: SIZE_MOD_def)
  ultimately show ?thesis using malloc_wraps[OF mmap_once_ok, of "SIZE_MOD - 1" mm_init 4096] by simp
qed

section \<open>Queues\<close>

text \<open>C25: elements put into an empty queue come out in the order in which they went in, and leave it
  empty.\<close>

theorem fifo_order:
  assumes "qheap_ok h" and "queue_rep h Q []" and "length xs \<le> qmem h"
  shows "\<exists>h1 h2. put_all put_data h Q xs = Inr h1 \<and> get_all get_data h1 Q (length xs) = Inr (xs, h2) \<and>
    fifo_empty h2 Q = Inr True"
  using assms by (rule fifo.put_get_all)

lemma fifo_order_witness:
  "\<exists>h Q h1 h2. put_all put_data h Q [7, 3, 5] = Inr h1 \<and> get_all get_data h1 Q 3 = Inr ([7, 3, 5], h2)"
proof -
  let ?h = "\<lparr>fifos = Map.empty, elems = Map.empty, qfresh = 1, qmem = 9\<rparr>"
  have "qheap_ok ?h" by (simp add: qheap_ok_def)
  then obtain h where h: "fifo_new ?h = Inr (1, h)" "fifo_rep h 1 []" "qheap_ok h" "Suc (qmem h) = 9"
    using fifo_new_rep[of ?h] by auto
  have "queue_rep h 1 []" using h(2) unfolding queue_rep_def by (intro exI[of _ "[]"]) (simp add: data_of_def)
  moreover have "length [7 :: addr, 3, 5] \<le> qmem h" using h(4) by simp
  moreover have len: "length [7 :: addr, 3, 5] = 3" by simp
  ultimately show ?thesis using fifo_order[OF h(3), of 1 "[7, 3, 5]"] unfolding len by blast
qed

section \<open>The concurrent search tree\<close>

text \<open>C26: whatever the interleaving of the threads, the results of the operations on a new tree
  are those of a map on which they run one after the other, in the order of the steps at which they take
  effect; the final tree is a search tree of that map.\<close>

theorem bst_linearizable:
  assumes "cheap_ok h" and "treebox_new h i = Inr (b, h')" and "tbs h' b = Some rb"
    and "csys_run rb (h', \<lambda>_. None) evs s"
  shows "\<exists>t. crep (fst s) t \<and> cbst t \<and> cbox t = rb \<and> seq_ok evs Map.empty = Some (cmap t)"
proof -
  obtain l where "sinv rb (CL rb l) (h', \<lambda>_. None)" using treebox_new_inv[OF assms(1,2)] assms(3) by auto
  from csys_run_inv[OF assms(4) this] obtain t where t: "sinv rb t s" "seq_ok evs (cmap (CL rb l)) = Some (cmap t)" by blast
  have "cmap (CL rb l) = Map.empty" by auto
  then show ?thesis using t ginvD(1,3)[of t "fst s"] by (auto simp: sinv_def)
qed

lemma bst_linearizable_witness:
  "\<exists>h h' b rb s. treebox_new h 0 = Inr (b, h') \<and> tbs h' b = Some rb \<and>
     csys_run rb (h', \<lambda>_. None) [(Insert 1 7, 0), (Lookup 1, 7)] s \<and>
     (\<exists>t. crep (fst s) t \<and> seq_ok [(Insert 1 7, 0), (Lookup 1, 7)] Map.empty = Some (cmap t))"
proof -
  obtain h h' b rb s pc where x: "cheap_ok h" "treebox_new h 0 = Inr (b, h')" "tbs h' b = Some rb"
    "\<And>j m. \<not> holds h' j m" "csys_run rb (h', \<lambda>_. None) [(Insert 1 7, 0), (Lookup 1, 7)] s"
    "snd s 1 = Some pc" "\<not> idle (Some pc)"
    by (rule bst_example) (rule that)
  from bst_linearizable[OF x(1-3,5)] x(2,3,5) show ?thesis by blast
qed

text \<open>C27: no step of any thread dereferences a NULL or freed pointer, frees memory twice, releases or frees
  a lock that it does not hold, or reads uninitialised memory; the only failure is running out of memory.\<close>

theorem bst_safe:
  assumes "cheap_ok h" and "treebox_new h i = Inr (b, h')" and "tbs h' b = Some rb"
    and "csys_run rb (h', \<lambda>_. None) evs s" and "snd s j = Some pc"
  shows "thread_step j rb (fst s) pc \<in> {Inl ExitFailure} \<union> range Inr"
proof -
  obtain l where "sinv rb (CL rb l) (h', \<lambda>_. None)" using treebox_new_inv[OF assms(1,2)] assms(3) by auto
  from csys_run_inv[OF assms(4) this] obtain t where "sinv rb t s" by blast
  then have "ginv t (fst s)" "cbox t = rb" "tinv t (fst s) j pc" using assms(5) by (simp_all add: sinv_def)
  from thread_step_ok[OF this, of ] show ?thesis
    by (cases "thread_step j rb (fst s) pc") (simp_all add: result_ok_def)
qed

lemma bst_safe_witness:
  "\<exists>h h' b rb s pc. treebox_new h 0 = Inr (b, h') \<and> csys_run rb (h', \<lambda>_. None) [(Insert 1 7, 0), (Lookup 1, 7)] s \<and>
     snd s 1 = Some pc \<and> thread_step 1 rb (fst s) pc \<in> {Inl ExitFailure} \<union> range Inr"
proof -
  obtain h h' b rb s pc where x: "cheap_ok h" "treebox_new h 0 = Inr (b, h')" "tbs h' b = Some rb"
    "\<And>j m. \<not> holds h' j m" "csys_run rb (h', \<lambda>_. None) [(Insert 1 7, 0), (Lookup 1, 7)] s"
    "snd s 1 = Some pc" "\<not> idle (Some pc)"
    by (rule bst_example) (rule that)
  from bst_safe[OF x(1-3,5,6)] x(2,5,6) show ?thesis by blast
qed

text \<open>C28: in every reachable state in which some operation is under way, some thread whose operation is
  under way does not wait for a lock.\<close>

theorem bst_no_deadlock:
  assumes "cheap_ok h" and "treebox_new h i = Inr (b, h')" and "tbs h' b = Some rb"
    and "\<And>j m. \<not> holds h' j m" and "csys_run rb (h', \<lambda>_. None) evs s" and "snd s j = Some pc" and "\<not> idle (Some pc)"
  shows "\<exists>j' pc'. snd s j' = Some pc' \<and> \<not> idle (Some pc') \<and> thread_step j' rb (fst s) pc' \<noteq> Inr None"
proof -
  obtain l where i: "sinv rb (CL rb l) (h', \<lambda>_. None)" using treebox_new_inv[OF assms(1,2)] assms(3) by auto
  have "held_ok (h', \<lambda>_. None)" using assms(4) by (simp add: held_ok_def)
  from csys_run_held[OF assms(5) i this] obtain t where t: "sinv rb t s" "held_ok s" by blast
  from no_deadlock[OF t assms(6,7)] show ?thesis unfolding can_go_def by blast
qed

lemma bst_no_deadlock_witness:
  "\<exists>h h' b rb s j' pc'. treebox_new h 0 = Inr (b, h') \<and> csys_run rb (h', \<lambda>_. None) [(Insert 1 7, 0), (Lookup 1, 7)] s \<and>
     snd s j' = Some pc' \<and> \<not> idle (Some pc') \<and> thread_step j' rb (fst s) pc' \<noteq> Inr None"
proof -
  obtain h h' b rb s pc where x: "cheap_ok h" "treebox_new h 0 = Inr (b, h')" "tbs h' b = Some rb"
    "\<And>j m. \<not> holds h' j m" "csys_run rb (h', \<lambda>_. None) [(Insert 1 7, 0), (Lookup 1, 7)] s"
    "snd s 1 = Some pc" "\<not> idle (Some pc)"
    by (rule bst_example) (rule that)
  from bst_no_deadlock[OF x] x(2,5) show ?thesis by blast
qed

text \<open>C29: when no operation is under way, \<open>treebox_free\<close> frees every box, node and lock of the tree, and
  nothing else.\<close>

theorem bst_free:
  assumes "cheap_ok h" and "treebox_new h i = Inr (b, h')" and "tbs h' b = Some rb"
    and "\<And>j m. \<not> holds h' j m" and "csys_run rb (h', \<lambda>_. None) evs s" and "\<And>j. idle (snd s j)"
  shows "\<exists>t h1. crep (fst s) t \<and> cbox t = rb \<and>
    treebox_free (Suc (size t)) (fst s) k b = Inr (h1\<lparr>tbs := (tbs h1)(b := None)\<rparr>) \<and>
    (\<forall>c. tgs h1 c = (if ABox c \<in> set (cown t) then None else tgs (fst s) c)) \<and>
    (\<forall>n. trees h1 n = (if ANode n \<in> set (cown t) then None else trees (fst s) n)) \<and>
    (\<forall>l. lks h1 l = (if ALock l \<in> set (cown t) then None else lks (fst s) l))"
proof -
  have b: "b \<noteq> 0" using treebox_new_inv[OF assms(1,2)] by simp
  obtain l where i: "sinv rb (CL rb l) (h', \<lambda>_. None)" using treebox_new_inv[OF assms(1,2)] assms(3) by auto
  have "held_ok (h', \<lambda>_. None)" using assms(4) by (simp add: held_ok_def)
  from csys_run_held[OF assms(5) i this] obtain t where t: "sinv rb t s" "held_ok s" by blast
  have "tbs (fst s) b = Some rb" using csys_run_tbs[OF assms(5)] assms(3) by simp
  from treebox_free_ok[OF t assms(6) this b, of k] obtain h1 where
    "treebox_free (Suc (size t)) (fst s) k b = Inr (h1\<lparr>tbs := (tbs h1)(b := None)\<rparr>)" "tree_freed (fst s) t h1" by blast
  moreover have "crep (fst s) t" "cbox t = rb" using t(1) ginvD(1)[of t "fst s"] by (simp_all add: sinv_def)
  ultimately show ?thesis unfolding tree_freed_def by blast
qed

lemma bst_free_witness:
  "\<exists>h h' b fuel h1. treebox_new h 0 = Inr (b, h') \<and> treebox_free fuel h' 5 b = Inr h1 \<and> tbs h1 b = None"
proof -
  obtain h h' b rb s pc where x: "cheap_ok h" "treebox_new h 0 = Inr (b, h')" "tbs h' b = Some rb"
    "\<And>j m. \<not> holds h' j m" "csys_run rb (h', \<lambda>_. None) [(Insert 1 7, 0), (Lookup 1, 7)] s"
    "snd s 1 = Some pc" "\<not> idle (Some pc)"
    by (rule bst_example) (rule that)
  have run: "csys_run rb (h', \<lambda>_. None) [] (h', \<lambda>_. None)" by (rule cr_refl)
  have "idle (snd (h', \<lambda>_. None) j)" for j by (simp add: idle_def)
  from bst_free[OF x(1-4) run this, of 5] show ?thesis
    unfolding fst_conv
  proof (elim exE conjE)
    fix t h1 assume "treebox_free (Suc (size t)) h' 5 b = Inr (h1\<lparr>tbs := (tbs h1)(b := None)\<rparr>)"
    then show ?thesis using x(2)
      by (intro exI[of _ h] exI[of _ h'] exI[of _ b] exI[of _ "Suc (size t)"] exI[of _ "h1\<lparr>tbs := (tbs h1)(b := None)\<rparr>"])
        simp
  qed
qed

section \<open>Query operators\<close>

text \<open>C30: the index that \<open>index_scan\<close> builds on a relation has, under every key, the queue of
  exactly the tuples whose projection is that key, in the order of the relation, and NULL when there is
  none. The memory asked for counts every allocation: the tables, the queues, the schema, the iterator
  and the pairs of keys.\<close>

theorem index_scan_groups:
  assumes rel: "rl_inv (rel_pk_index rel) a" "avail (rel_pk_index rel) \<noteq> 0" "NULL \<notin> snd ` set (rl_recs a)"
    and attrs: "attrs \<noteq> []"
    and pr: "\<forall>t \<in> snd ` set (rl_recs a). (\<exists>h1. get_projection h (rel_attrs rel) t attrs = Inr (pr t, h1)) \<and>
      valid_key (shape_of attrs) (pr t)"
    and heap: "heap_ok (tabs h)" "qheap_ok (qs h)" "2 * length attrs + length (rl_recs a) * (length attrs - 1) \<le> dmem h"
    and mem: "Suc (length (rl_recs a)) * shape_cost (shape_of attrs) \<le> omem (tabs h)" "2 * length (rl_recs a) \<le> qmem (qs h)"
    and fuel: "length (rl_recs a) < fuel"
  shows "\<exists>ind h'. index_scan fuel rel attrs h = Inr (ind, h') \<and> tups h' = tups h \<and>
    (\<forall>k. valid_key (shape_of attrs) k \<longrightarrow>
      (\<exists>l. index_lookup (schema_of (shape_of attrs)) (tabs h') ind k = Inr l \<and>
        (let ts = filter (\<lambda>t. pr t = k) (map snd (rl_recs a)) in if l = NULL then ts = [] else queue_rep (qs h') l ts)))"
proof -
  obtain ind h' where i: "index_scan fuel rel attrs h = Inr (ind, h')" "tups h' = tups h"
    "index_inv (shape_of attrs) h' ind (\<lambda>k. filter (\<lambda>t. pr t = k) (map snd (rl_recs a)))"
    using index_scan_correct[OF assms] by blast
  then show ?thesis using index_inv_lookup[OF i(3)] unfolding Let_def by blast
qed

lemma index_scan_groups_witness:
  "\<exists>rel attrs h ind h' l. index_scan 5 rel attrs h = Inr (ind, h') \<and>
     index_lookup inthash_schema (tabs h') ind (KInt 7) = Inr l \<and> queue_rep (qs h') l [101, 103]"
proof -
  let ?kvs = "[(1 :: ckey, 101 :: nat), (2, 102), (3, 103)]"
  have "sorted_keys ?kvs" "length ?kvs + Suc 0 \<le> record_limit" by (simp_all add: record_limit_def)
  from table_exists[OF this] obtain s c a p where t: "rl_inv s a" "rl_recs a = ?kvs" "rl_room (Suc 0) s" .
  let ?A = "\<lparr>att_id = ''A'', att_domain = Int_dom\<rparr>" and ?B = "\<lparr>att_id = ''B'', att_domain = Int_dom\<rparr>"
  let ?rel = "\<lparr>rel_attrs = [?A, ?B], rel_pk_attrs = [?A], rel_pk_index = s\<rparr>"
  let ?tup = "[101 \<mapsto> [Some (KInt 1), Some (KInt 7)], 102 \<mapsto> [Some (KInt 2), Some (KInt 8)], 103 \<mapsto> [Some (KInt 3), Some (KInt 7)]]"
  let ?h = "\<lparr>tabs = \<lparr>objs = Map.empty, ofresh = 1, omem = 9, kaddr = \<lambda>_. 0\<rparr>, qs = \<lparr>fifos = Map.empty, elems = Map.empty, qfresh = 1, qmem = 9\<rparr>,
    tups = ?tup, dfresh = 200, dmem = 9\<rparr>"
  define pr where "pr = (\<lambda>t :: addr. if t = 102 then KInt 8 else KInt 7)"
  have av: "avail (rel_pk_index ?rel) \<noteq> 0" using t(3) by (simp add: rl_room_def)
  have shape: "shape_of [?B] = Int_shape" by (simp add: shape_aux_def)
  have pr: "\<forall>t \<in> snd ` set (rl_recs a). (\<exists>h1. get_projection ?h (rel_attrs ?rel) t [?B] = Inr (pr t, h1)) \<and> valid_key (shape_of [?B]) (pr t)"
    by (simp add: t(2) pr_def get_offset_def tuple_at_def get_field_def aget_def shape_aux_def valid_int_def)
  have heap: "heap_ok (tabs ?h)" "qheap_ok (qs ?h)" "2 * length [?B] + length (rl_recs a) * (length [?B] - 1) \<le> dmem ?h" by (simp_all add: heap_ok_def qheap_ok_def)
  have mem: "Suc (length (rl_recs a)) * shape_cost (shape_of [?B]) \<le> omem (tabs ?h)" "2 * length (rl_recs a) \<le> qmem (qs ?h)"
    "length (rl_recs a) < 5" by (simp_all add: t(2) shape_aux_def)
  have rel: "rl_inv (rel_pk_index ?rel) a" "NULL \<notin> snd ` set (rl_recs a)" using t(1) by (simp_all add: t(2))
  obtain ind h' where i: "index_scan 5 ?rel [?B] ?h = Inr (ind, h')"
    "\<forall>k. valid_key (shape_of [?B]) k \<longrightarrow> (\<exists>l. index_lookup (schema_of (shape_of [?B])) (tabs h') ind k = Inr l \<and>
        (let ts = filter (\<lambda>t. pr t = k) (map snd (rl_recs a)) in if l = NULL then ts = [] else queue_rep (qs h') l ts))"
    using index_scan_groups[OF rel(1) av rel(2) list.distinct(2) pr heap mem] by (elim exE conjE) (rule that)
  have f: "filter (\<lambda>t. pr t = KInt 7) (map snd (rl_recs a)) = [101, 103]" by (simp add: t(2) pr_def)
  have v: "valid_key (shape_of [?B]) (KInt 7)" by (simp add: shape_aux_def valid_int_def)
  have "\<exists>l. index_lookup (schema_of (shape_of [?B])) (tabs h') ind (KInt 7) = Inr l \<and>
      (if l = NULL then [101, 103] = ([] :: addr list) else queue_rep (qs h') l [101, 103])"
    using i(2)[rule_format, OF v] unfolding Let_def f .
  then obtain l where l: "index_lookup inthash_schema (tabs h') ind (KInt 7) = Inr l" "queue_rep (qs h') l [101, 103]"
    by (elim exE conjE) (rule that, simp_all add: shape_aux_def split: if_splits)
  show ?thesis by (intro exI conjI) (rule i(1), rule l(1), rule l(2))
qed

text \<open>C31: when the outer tuple has a partner left, \<open>index_join_next\<close> returns a new tuple with the
  columns of the outer one followed by the columns of the partner that were not joined on, and takes the
  partner from the queue.\<close>

theorem index_join_tuple:
  assumes "ij_current_inner e = Q" "ij_current_outer e = t" "t \<noteq> NULL" "Q \<noteq> NULL"
    and "qheap_ok (qs h)" "fifo_rep (qs h) Q (p # ps)" "data_of (qs h) (p # ps) = y # ys"
    and "join_attrs_ok (ij_inner_attrs e) (ij_inner_join_attrs e)"
    and "tuple_at h t = Inr outer_t" "tuple_at h y = Inr inner_t"
    and "length inner_t = length (ij_inner_attrs e)" "length (ij_outer_attrs e) \<le> length outer_t"
    and "0 < dmem h" "0 < fuel"
  shows "\<exists>q'. fifo_get (qs h) Q = Inr (p, q') \<and>
    index_join_next fuel outer e h = Inr (dfresh h, e,
      h\<lparr>dfresh := Suc (dfresh h), dmem := dmem h - 1, qs := q',
        tups := (tups h)(dfresh h \<mapsto> join_tuple (ij_inner_attrs e) (ij_inner_join_attrs e)
          (length (ij_outer_attrs e)) outer_t inner_t)\<rparr>)"
  by (rule index_join_next_correct[OF assms])

lemma index_join_tuple_witness:
  "\<exists>e h e' h'. index_join_next 1 seq_scan_iterator e h = Inr (300, e', h') \<and>
     tups h' 300 = Some [Some (KInt 7), Some (KInt 5), None]"
proof -
  let ?A = "\<lparr>att_id = ''A'', att_domain = Int_dom\<rparr>" and ?B = "\<lparr>att_id = ''B'', att_domain = Int_dom\<rparr>"
  let ?h = "\<lparr>tabs = \<lparr>objs = Map.empty, ofresh = 1, omem = 9, kaddr = \<lambda>_. 0\<rparr>,
    qs = \<lparr>fifos = [1 \<mapsto> \<lparr>q_head = 2, q_tail = 2\<rparr>], elems = [2 \<mapsto> \<lparr>elem_data = 101, elem_next = Some NULL\<rparr>], qfresh = 3, qmem = 9\<rparr>,
    tups = [101 \<mapsto> [Some (KInt 7), Some (KInt 5)], 201 \<mapsto> [Some (KInt 7)]], dfresh = 300, dmem = 9\<rparr>"
  define e :: "seq_scan_env index_join_env" where "e = \<lparr>ij_outer = undefined, ij_outer_attrs = [?A], ij_outer_join_attrs = [?A],
    ij_inner_attrs = [?A, ?B], ij_inner_join_attrs = [?A], ij_ind_on_inner = 0,
    ij_ind_on_inner_sch = None, ij_current_inner = 1, ij_current_outer = 201\<rparr>"
  have e: "ij_current_inner e = 1" "ij_current_outer e = 201" "(201 :: addr) \<noteq> NULL" "(1 :: addr) \<noteq> NULL" by (simp_all add: e_def)
  have q: "qheap_ok (qs ?h)" "fifo_rep (qs ?h) 1 [2]" "data_of (qs ?h) [2] = [101]"
    by (simp_all add: qheap_ok_def fifo_rep_def data_of_def)
  have ok: "join_attrs_ok (ij_inner_attrs e) (ij_inner_join_attrs e)" by (simp add: e_def join_attrs_ok_def)
  have tup: "tuple_at ?h 201 = Inr [Some (KInt 7)]" "tuple_at ?h 101 = Inr [Some (KInt 7), Some (KInt 5)]"
    by (simp_all add: tuple_at_def)
  have len: "length [Some (KInt 7), Some (KInt 5)] = length (ij_inner_attrs e)"
    "length (ij_outer_attrs e) \<le> length [Some (KInt 7)]" "0 < dmem ?h" "0 < (1 :: nat)" by (simp_all add: e_def)
  have jt: "join_tuple (ij_inner_attrs e) (ij_inner_join_attrs e) (length (ij_outer_attrs e)) [Some (KInt 7)]
      [Some (KInt 7), Some (KInt 5)] = [Some (KInt 7), Some (KInt 5), None]"
    by (simp add: join_tuple_def join_cols_def e_def)
  from index_join_tuple[OF e q ok tup len, of seq_scan_iterator] obtain q' where
    "index_join_next 1 seq_scan_iterator e ?h = Inr (dfresh ?h, e,
      ?h\<lparr>dfresh := Suc (dfresh ?h), dmem := dmem ?h - 1, qs := q', tups := (tups ?h)(dfresh ?h \<mapsto> [Some (KInt 7), Some (KInt 5), None])\<rparr>)"
    unfolding jt by blast
  then show ?thesis
    by (intro exI[of _ e] exI[of _ ?h] exI[of _ e] exI[of _ "?h\<lparr>dfresh := Suc (dfresh ?h), dmem := dmem ?h - 1, qs := q',
      tups := (tups ?h)(dfresh ?h \<mapsto> [Some (KInt 7), Some (KInt 5), None])\<rparr>"]) simp
qed

text \<open>C32: the queue of partners is the one in the index, so a partner that was joined once is gone:
  when two outer tuples have the same key and one partner, the join returns one tuple and then ends.
  Both calls allocate the projection of an outer tuple, and the first one the joined tuple.\<close>

theorem join_loses_partners:
  assumes "join_state d pr e h g [t1, t2]" and "pr t1 = pr t2" and "g (pr t1) = [y]"
    and "ij_current_inner e = NULL" and "join_attrs_ok (ij_inner_attrs e) (ij_inner_join_attrs e)"
    and "tuple_at h t1 = Inr outer_t" "tuple_at h y = Inr inner_t"
    and "length inner_t = length (ij_inner_attrs e)" "length (ij_outer_attrs e) \<le> length outer_t"
    and "2 * proj_mem e < dmem h" "2 \<le> fuel" and "t2 \<noteq> dfresh h"
  shows "\<exists>e' e'' h'. index_join_next fuel seq_scan_iterator e h = Inr (dfresh h, e', h') \<and>
    tups h' (dfresh h) = Some (join_tuple (ij_inner_attrs e) (ij_inner_join_attrs e)
      (length (ij_outer_attrs e)) outer_t inner_t) \<and>
    index_join_next fuel seq_scan_iterator e' h' = Inr (NULL, e'', h'\<lparr>dmem := dmem h' - proj_mem e\<rparr>)"
  by (rule index_join_drains[OF assms])

lemma join_loses_partners_witness:
  "\<exists>e h e' h' e'' h''. index_join_next 2 seq_scan_iterator e h = Inr (300, e', h') \<and>
     tups h' 300 = Some [Some (KInt 7), Some (KInt 5), None] \<and>
     index_join_next 2 seq_scan_iterator e' h' = Inr (NULL, e'', h'')"
proof -
  obtain d pr e h g ot it where x: "join_state d pr e h g [201, 202]" "pr 201 = pr 202" "g (pr 201) = [101]"
    "ij_current_inner e = NULL" "join_attrs_ok (ij_inner_attrs e) (ij_inner_join_attrs e)"
    "tuple_at h 201 = Inr ot" "tuple_at h 101 = Inr it" "length it = length (ij_inner_attrs e)"
    "length (ij_outer_attrs e) \<le> length ot" "2 * proj_mem e < dmem h" "dfresh h = 300"
    "join_tuple (ij_inner_attrs e) (ij_inner_join_attrs e) (length (ij_outer_attrs e)) ot it =
      [Some (KInt 7), Some (KInt 5), None]"
    by (rule join_example) (rule that)
  have "(202 :: addr) \<noteq> dfresh h" "2 \<le> (2 :: nat)" by (simp_all add: x(11))
  from join_loses_partners[OF x(1-10) this(2,1)] show ?thesis unfolding x(11,12) by blast
qed

text \<open>C33: \<open>seq_scan\<close> in \<open>db_seq_scan.c\<close> leaves \<open>index_type\<close> unset, so each method of the iterator that
  it returns reads a field that was never written.\<close>

theorem object_scan_unset:
  assumes "oseq_scan index_obj h = Inr (env, h')"
  shows "oseq_scan_init sets inds env h' = Inl Uninit \<and> oseq_scan_next sets inds env h' = Inl Uninit \<and>
    oseq_scan_close sets inds env h' = Inl Uninit"
  using oseq_scan_unset[OF assms] by blast

lemma object_scan_unset_witness:
  "\<exists>(h :: unit sheap) env h'. oseq_scan 7 h = Inr (env, h') \<and> oseq_scan_init (\<lambda>_. None) (\<lambda>_. None) env h' = Inl Uninit"
proof -
  let ?h = "\<lparr>senvs = Map.empty, iobjs = Map.empty, irecs = Map.empty, sfresh = 10, smem = 5, world = ()\<rparr>"
  obtain h' where h': "oseq_scan 7 ?h = Inr (11, h')" by (simp add: oseq_scan_def Let_def)
  have "oseq_scan_init (\<lambda>_. None) (\<lambda>_. None) 11 h' = Inl Uninit"
    using object_scan_unset[OF h', of "\<lambda>_. None" "\<lambda>_. None"] by blast
  with h' show ?thesis by (intro exI[of _ ?h] exI[of _ 11] exI[of _ h'] conjI)
qed

section \<open>The index on strings\<close>

text \<open>C34: \<open>put\<close> of \<open>index_string.c\<close>, on B+-trees, succeeds while memory allows, keeps the trie in
  shape and maps the string that was put to the value, and every other string as before.\<close>

theorem string_index_put:
  assumes "strie rix_irep rix_room st i g (n + len + 24)" and "len \<le> length key" and "len < 2 ^ 32"
  shows "\<exists>st'. put rel_index key len v i st = Inr st' \<and> strie rix_irep rix_room st' i (g(take len key \<mapsto> v)) n"
  using assms by (rule ri.strie_put)

lemma string_index_example:
  obtains st i where "strie rix_irep rix_room st i Map.empty 200"
proof -
  let ?w = "\<lparr>rw_trees = Map.empty, rw_cursors = Map.empty, rw_fresh = 1, rw_mem = 5000\<rparr>"
  let ?st = "\<lparr>bds = Map.empty, bd_fresh = 1, bd_mem = 300, bd_world = ?w\<rparr>"
  have "rix_irep (bd_world ?st) Map.empty Map.empty" by (simp add: rix_irep_def rix_rep_def)
  moreover have "rix_room (Suc 200) (bd_world ?st)" by (simp add: rix_room_def record_limit_def)
  ultimately obtain i st' where "strie rix_irep rix_room st' i Map.empty 200" using ri.strie_empty[of ?st 200] by auto
  then show thesis by (rule that)
qed

lemma string_index_put_witness:
  "\<exists>st i st' n. put rel_index [97, 98, 99] 2 7 i st = Inr st' \<and> strie rix_irep rix_room st' i [[97, 98] \<mapsto> 7] n"
proof -
  obtain st i where st: "strie rix_irep rix_room st i Map.empty 200" by (rule string_index_example)
  have n: "(200 :: nat) = 174 + 2 + 24" "(2 :: nat) \<le> length [97 :: byte, 98, 99]" "(2 :: nat) < 2 ^ 32"
    "take 2 [97 :: byte, 98, 99] = [97, 98]" by simp_all
  from string_index_put[OF st[unfolded n(1)] n(2,3), of 7] show ?thesis unfolding n(4) by blast
qed

text \<open>C35: a cursor has room for one slice, so \<open>make_cursor\<close> writes past its block for every
  key of the trie that shares its first eight bytes with another key of the trie, both keys being longer
  than eight bytes.\<close>

theorem string_cursor_shared:
  assumes "strie rix_irep rix_room st i g (n + 6)" and "g y \<noteq> None" "g y' \<noteq> None" "y \<noteq> y'" "take 8 y = take 8 y'"
    and "8 < length y" "8 < length y'" "length y < 2 ^ 32"
  shows "make_cursor rel_index cmp \<lparr>sk_content = y, sk_len = length y\<rparr> i no_slices st = Inl OutOfBounds"
  using assms by (rule ri.make_cursor_shared)

lemma string_cursor_shared_witness:
  "\<exists>st i. make_cursor rel_index (\<lambda>_ _. 1) \<lparr>sk_content = [1, 1, 1, 1, 1, 1, 1, 1, 2], sk_len = 9\<rparr> i no_slices st = Inl OutOfBounds"
proof -
  let ?y = "[1 :: byte, 1, 1, 1, 1, 1, 1, 1, 2]" and ?z = "[1 :: byte, 1, 1, 1, 1, 1, 1, 1, 3]"
  obtain st i where st: "strie rix_irep rix_room st i Map.empty 200" by (rule string_index_example)
  have n: "(200 :: nat) = 167 + 9 + 24" "(167 :: nat) = 134 + 9 + 24" "9 \<le> length ?y" "9 \<le> length ?z" "(9 :: nat) < 2 ^ 32"
    "take 9 ?y = ?y" "take 9 ?z = ?z" by simp_all
  obtain st1 where st1: "strie rix_irep rix_room st1 i [?y \<mapsto> 5] 167"
    using ri.strie_put[OF st[unfolded n(1)] n(3,5), of 5] unfolding n(6) by blast
  obtain st2 where st2: "strie rix_irep rix_room st2 i [?y \<mapsto> 5, ?z \<mapsto> 6] 134"
    using ri.strie_put[OF st1[unfolded n(2)] n(4,5), of 6] unfolding n(7) by blast
  have six: "(134 :: nat) = 128 + 6" by simp
  have "[?y \<mapsto> 5, ?z \<mapsto> 6] ?y \<noteq> None" "[?y \<mapsto> 5, ?z \<mapsto> 6] ?z \<noteq> None" "?y \<noteq> ?z" "take 8 ?y = take 8 ?z"
    "8 < length ?y" "8 < length ?z" "length ?y < 2 ^ 32" by simp_all
  from string_cursor_shared[OF st2[unfolded six] this, of "\<lambda>_ _. 1"] have
    "make_cursor rel_index (\<lambda>_ _. 1) \<lparr>sk_content = ?y, sk_len = length ?y\<rparr> i no_slices st2 = Inl OutOfBounds" .
  moreover have "length ?y = 9" by simp
  ultimately show ?thesis by metis
qed

section \<open>The key-value store\<close>

text \<open>C36: \<open>KV_Put\<close> of \<open>kvstore.c\<close> updates the map that the store represents at the key, as long as no key in the
  store clashes with the new one; \<open>KV_NumKeys\<close> counts the keys, and \<open>KV_Get\<close> reads the map.\<close>

theorem kv_put:
  assumes "kv_rep s m (n + put_room y)" and "kv_key y" and "v \<noteq> NULL" and "\<forall>z \<in> dom m. \<not> kv_clash y z" and "put_fuel y \<le> fuel"
  shows "\<exists>s' key'. KV_Put fuel s (kvkey_of y) v = Inr (True, s', key') \<and> kv_rep s' (m(y \<mapsto> v)) n \<and>
    KV_NumKeys s' = KV_NumKeys s + (if m y = None then 1 else 0) \<and>
    (\<forall>x. x \<noteq> [] \<longrightarrow> (\<exists>s''. KV_Get s' (kvkey_of x) = Inr (case (m(y \<mapsto> v)) x of None \<Rightarrow> NULL | Some w \<Rightarrow> w, s'')))"
proof -
  obtain s' key' where p: "KV_Put fuel s (kvkey_of y) v = Inr (True, s', key')" "kv_rep s' (m(y \<mapsto> v)) n"
    "KV_NumKeys s' = KV_NumKeys s + added_keys m y" using KV_Put_no_clash[OF assms] by blast
  have "\<exists>s''. KV_Get s' (kvkey_of x) = Inr (case (m(y \<mapsto> v)) x of None \<Rightarrow> NULL | Some w \<Rightarrow> w, s'')" if "x \<noteq> []" for x
    using KV_Get_rep[OF p(2) that] unfolding value_of_def by blast
  then show ?thesis using p unfolding added_keys_def by blast
qed

lemma kv_put_witness:
  "\<exists>s0 s1 key1 s2. KV_NewKVStore 2000 = Inr (Some s0) \<and> KV_Put 3 s0 (kvkey_of [97, 98]) 7 = Inr (True, s1, key1) \<and>
    KV_NumKeys s1 = 1 \<and> KV_Get s1 (kvkey_of [97, 98]) = Inr (7, s2)"
proof -
  have "20 * Suc (20 + put_room [97, 98]) < 2000" "Suc (20 + put_room [97, 98]) \<le> record_limit"
    by (simp_all add: put_room_def record_limit_def)
  from new_store_rep[OF this] obtain s0 where s0: "KV_NewKVStore 2000 = Inr (Some s0)"
    "kv_rep s0 Map.empty (20 + put_room [97, 98])" "KV_NumKeys s0 = 0" by blast
  have h: "kv_key [97, 98]" "(7 :: addr) \<noteq> NULL" "\<forall>z \<in> dom (Map.empty :: byte list \<rightharpoonup> addr). \<not> kv_clash [97, 98] z" "put_fuel [97, 98] \<le> 3"
    by (simp_all add: kv_key_def put_fuel_def)
  obtain s1 key1 where s1: "KV_Put 3 s0 (kvkey_of [97, 98]) 7 = Inr (True, s1, key1)" "KV_NumKeys s1 = 1"
    "\<forall>x. x \<noteq> [] \<longrightarrow> (\<exists>s''. KV_Get s1 (kvkey_of x) = Inr (case [[97, 98] \<mapsto> 7] x of None \<Rightarrow> NULL | Some w \<Rightarrow> w, s''))"
    using kv_put[OF s0(2) h] s0(3) by auto
  from s1(3)[rule_format, of "[97, 98]"] show ?thesis using s0(1) s1(1,2) by auto
qed

text \<open>C37: when the suffixes of two keys end in the same slice, the put of the second key stores the value of
  the first under the second: the first is not found any more, and the new value is lost.\<close>

theorem kv_suffix_lost:
  assumes "kv_clash y z" and "kv_key y" and "kv_key z" and "v \<noteq> NULL" "v2 \<noteq> NULL"
    and "20 * Suc (put_room y + 4) < mem" "Suc (put_room y + 4) \<le> record_limit" and "put_fuel y \<le> fuel" "put_fuel z \<le> fuel"
  shows "\<exists>s0 s1 s2 s3 s4 key1 key2. KV_NewKVStore mem = Inr (Some s0) \<and> KV_Put fuel s0 (kvkey_of z) v2 = Inr (True, s1, key1) \<and>
    KV_Put fuel s1 (kvkey_of y) v = Inr (True, s2, key2) \<and> KV_Get s2 (kvkey_of z) = Inr (NULL, s3) \<and>
    KV_Get s3 (kvkey_of y) = Inr (v2, s4)"
  using assms by (rule kv_clash_lost)

lemma kv_suffix_lost_witness:
  "\<exists>s0 s1 s2 s3 s4 key1 key2. KV_NewKVStore 5000 = Inr (Some s0) \<and>
    KV_Put 5 s0 (kvkey_of (replicate 16 97)) 501 = Inr (True, s1, key1) \<and>
    KV_Put 5 s1 (kvkey_of (replicate 17 97)) 502 = Inr (True, s2, key2) \<and>
    KV_Get s2 (kvkey_of (replicate 16 97)) = Inr (NULL, s3) \<and> KV_Get s3 (kvkey_of (replicate 17 97)) = Inr (501, s4)"
proof -
  let ?y = "replicate 17 97 :: byte list" and ?z = "replicate 16 97 :: byte list"
  have "take 8 ?y = take 8 ?z" "take 8 (drop 8 ?y) = take 8 (drop 8 ?z)" by simp_all
  then have "key_slice ?y = key_slice ?z" "key_slice (drop 8 ?y) = key_slice (drop 8 ?z)" by (simp_all add: key_slice_def)
  then have "kv_joined ?y ?z" by (simp add: kv_joined.simps[of ?y ?z] kv_joined.simps[of "drop 8 ?y" "drop 8 ?z"] del: drop_replicate)
  then have c: "kv_clash ?y ?z" by (simp add: kv_clash_def)
  have h: "kv_key ?y" "kv_key ?z" "(502 :: addr) \<noteq> NULL" "(501 :: addr) \<noteq> NULL" "20 * Suc (put_room ?y + 4) < 5000"
    "Suc (put_room ?y + 4) \<le> record_limit" "put_fuel ?y \<le> 5" "put_fuel ?z \<le> 5"
    by (simp_all add: kv_key_def put_room_def put_fuel_def record_limit_def)
  show ?thesis by (rule kv_suffix_lost[OF c h])
qed

section \<open>The version prepared for verification\<close>

text \<open>C38: \<open>RL_PutRecord\<close> of \<open>verif/btrees/relation_mem.c\<close> does to its tree what \<open>RL_PutRecord\<close> of
  \<open>relation_mem.c\<close> does to the same tree without the flags, and both move the cursor alike.\<close>

theorem verified_put:
  assumes "vrl_inv s a" and "rl_pos a c p" and "vrl_room (Suc n) s"
  shows "\<exists>s' c'. RL_PutRecord_v s c k v = Inr (s', c') \<and> RL_PutRecord (vabs s) c k v = Inr (vabs s', c')"
  using assms by (rule vrl_put)

lemma verified_put_witness:
  "\<exists>s c s' c'. RL_PutRecord_v s c 5 50 = Inr (s', c') \<and> RL_PutRecord (vabs s) c 5 50 = Inr (vabs s', c')"
proof -
  obtain s c p where x: "vrl_inv s (0, Lf 1 True True [])" "rl_pos (0, Lf 1 True True []) c p" "vrl_room (Suc 0) s"
    by (rule verified_example)
  from verified_put[OF x, of 5 50] show ?thesis by blast
qed

text \<open>C39: on the same tree the searches of the two versions, in a node, from the root and from the
  cursor, and their steps agree.\<close>

theorem verified_search:
  assumes "vrl_inv s a" and "rl_pos a c p"
  shows "findChildIndex_v n k = findChildIndex (vn_abs n) k \<and> moveToKey_v s r k c lvl = moveToKey (vabs s) r k c lvl \<and>
    goToKey_v s c k = goToKey (vabs s) c k \<and> RL_MoveToKey_v s c k = RL_MoveToKey (vabs s) c k \<and>
    RL_MoveToNext_v s c = RL_MoveToNext (vabs s) c \<and> RL_GetRecord_v s c = RL_GetRecord (vabs s) c"
proof -
  have i: "rel_inv (vabs s) (fst a) (snd a)" "cur_pos (fst a) (snd a) c p"
    using assms by (simp_all add: vrl_inv_def rl_inv_def rl_pos_def)
  show ?thesis
    using goToKey_v_eq[OF i] RL_MoveToKey_v_eq[OF i] RL_MoveToNext_v_eq[OF i] RL_GetKey_v_eq(2)[OF i]
    by (simp add: findChildIndex_v_eq moveToKey_v_eq)
qed

lemma verified_search_witness:
  "\<exists>s c. goToKey_v s c 5 = goToKey (vabs s) c 5"
proof -
  obtain s c p where x: "vrl_inv s (0, Lf 1 True True [])" "rl_pos (0, Lf 1 True True []) c p" "vrl_room (Suc 0) s"
    by (rule verified_example)
  from verified_search[OF x(1,2)] show ?thesis by blast
qed

text \<open>C40: a record that was just put is found under its key, and a scan from the first record
  returns all records in the order of the keys.\<close>

theorem verified_lookup:
  assumes "vrl_inv s a" and "rl_pos a c p" and "vrl_room (Suc n) s"
  shows "\<exists>s' c' a'. RL_PutRecord_v s c k v = Inr (s', c') \<and> vrl_inv s' a' \<and> rl_recs a' = alist_put k v (rl_recs a) \<and>
    (\<exists>c1 c2. RL_MoveToKey_v s' c' k = Inr (True, c1) \<and> RL_GetRecord_v s' c1 = Inr (v, c2)) \<and>
    (\<exists>c1 c2. RL_MoveToFirst_v s' c' = Inr (True, c1) \<and>
      read_list RL_GetRecord_v RL_MoveToNext_v s' c1 (length (rl_recs a')) = Inr (map snd (rl_recs a'), c2))"
proof -
  obtain s' c' a' where p: "RL_PutRecord_v s c k v = Inr (s', c')" "vrl_inv s' a'" "rl_recs a' = alist_put k v (rl_recs a)"
    "rl_pos a' c' (Suc (rec_ix (map fst (rl_recs a)) k))"
    using vt.put_law[OF assms] by blast
  have m: "map_of (rl_recs a') k = Some v" by (simp add: p(3) map_of_alist_put)
  have "k \<in> fst ` set (rl_recs a')" using m by (metis map_of_eq_None_iff option.distinct(1))
  then have k: "(k \<in> fst ` set (rl_recs a')) = True" "(rl_recs a' \<noteq> []) = True" by auto
  have "\<exists>c1 c2. RL_MoveToKey_v s' c' k = Inr (True, c1) \<and> RL_GetRecord_v s' c1 = Inr (v, c2)"
    using vt.to_key_law[OF p(2,4), of k] vt.lookup[OF p(2,4) m] unfolding k by auto
  then show ?thesis using p vt.full_scan[OF p(2,4)] unfolding k by blast
qed

lemma verified_lookup_witness:
  "\<exists>s c s' c' c1 c2. RL_PutRecord_v s c 5 50 = Inr (s', c') \<and> RL_MoveToKey_v s' c' 5 = Inr (True, c1) \<and>
     RL_GetRecord_v s' c1 = Inr (50, c2)"
proof -
  obtain s c p where x: "vrl_inv s (0, Lf 1 True True [])" "rl_pos (0, Lf 1 True True []) c p" "vrl_room (Suc 0) s"
    by (rule verified_example)
  from verified_lookup[OF x, of 5 50] show ?thesis by blast
qed

end
